(* ===== verification/Prelude.thy ===== *)
theory Prelude
  imports Main "HOL-Library.Word"
begin

text \<open>
  What every component of the model shares: code units and strings, the result codes of
  src/cif.h, the result type of a fallible operation with its bind, and generic lemmas on
  lists and words.

  A \<open>UChar\<close> is an unsigned 16-bit code unit. A NUL-terminated \<open>UChar\<close> string is the list of
  the code units before its terminator; \<open>cstr\<close> is what a reader of NUL-terminated strings
  sees of a buffer. Result codes are C \<open>int\<close>s: they also carry whatever a user callback
  returns, so they are \<open>int\<close> and not an enumeration.
\<close>

unbundle bit_operations_syntax

type_synonym uchar = "16 word"
type_synonym ustring = "uchar list"

text \<open>A fallible operation yields \<open>Inl\<close> the result code or \<open>Inr\<close> the value.\<close>

type_synonym 'a res = "int + 'a"

section \<open>Result codes of src/cif.h\<close>

abbreviation (input) CIF_OK :: int where "CIF_OK \<equiv> 0"
abbreviation (input) CIF_FINISHED :: int where "CIF_FINISHED \<equiv> 1"
abbreviation (input) CIF_ERROR :: int where "CIF_ERROR \<equiv> 2"
abbreviation (input) CIF_MEMORY_ERROR :: int where "CIF_MEMORY_ERROR \<equiv> 3"
abbreviation (input) CIF_INVALID_HANDLE :: int where "CIF_INVALID_HANDLE \<equiv> 4"
abbreviation (input) CIF_INTERNAL_ERROR :: int where "CIF_INTERNAL_ERROR \<equiv> 5"
abbreviation (input) CIF_ARGUMENT_ERROR :: int where "CIF_ARGUMENT_ERROR \<equiv> 6"
abbreviation (input) CIF_MISUSE :: int where "CIF_MISUSE \<equiv> 7"
abbreviation (input) CIF_DUP_BLOCKCODE :: int where "CIF_DUP_BLOCKCODE \<equiv> 11"
abbreviation (input) CIF_INVALID_BLOCKCODE :: int where "CIF_INVALID_BLOCKCODE \<equiv> 12"
abbreviation (input) CIF_NOSUCH_BLOCK :: int where "CIF_NOSUCH_BLOCK \<equiv> 13"
abbreviation (input) CIF_DUP_FRAMECODE :: int where "CIF_DUP_FRAMECODE \<equiv> 21"
abbreviation (input) CIF_INVALID_FRAMECODE :: int where "CIF_INVALID_FRAMECODE \<equiv> 22"
abbreviation (input) CIF_NOSUCH_FRAME :: int where "CIF_NOSUCH_FRAME \<equiv> 23"
abbreviation (input) CIF_CAT_NOT_UNIQUE :: int where "CIF_CAT_NOT_UNIQUE \<equiv> 31"
abbreviation (input) CIF_INVALID_CATEGORY :: int where "CIF_INVALID_CATEGORY \<equiv> 32"
abbreviation (input) CIF_NOSUCH_LOOP :: int where "CIF_NOSUCH_LOOP \<equiv> 33"
abbreviation (input) CIF_RESERVED_LOOP :: int where "CIF_RESERVED_LOOP \<equiv> 34"
abbreviation (input) CIF_WRONG_LOOP :: int where "CIF_WRONG_LOOP \<equiv> 35"
abbreviation (input) CIF_EMPTY_LOOP :: int where "CIF_EMPTY_LOOP \<equiv> 36"
abbreviation (input) CIF_NULL_LOOP :: int where "CIF_NULL_LOOP \<equiv> 37"
abbreviation (input) CIF_DUP_ITEMNAME :: int where "CIF_DUP_ITEMNAME \<equiv> 41"
abbreviation (input) CIF_INVALID_ITEMNAME :: int where "CIF_INVALID_ITEMNAME \<equiv> 42"
abbreviation (input) CIF_NOSUCH_ITEM :: int where "CIF_NOSUCH_ITEM \<equiv> 43"
abbreviation (input) CIF_AMBIGUOUS_ITEM :: int where "CIF_AMBIGUOUS_ITEM \<equiv> 44"
abbreviation (input) CIF_INVALID_PACKET :: int where "CIF_INVALID_PACKET \<equiv> 52"
abbreviation (input) CIF_DISALLOWED_VALUE :: int where "CIF_DISALLOWED_VALUE \<equiv> 62"
abbreviation (input) CIF_INVALID_NUMBER :: int where "CIF_INVALID_NUMBER \<equiv> 72"
abbreviation (input) CIF_INVALID_INDEX :: int where "CIF_INVALID_INDEX \<equiv> 73"
abbreviation (input) CIF_WRONG_ENCODING :: int where "CIF_WRONG_ENCODING \<equiv> 110"
abbreviation (input) CIF_INVALID_CHAR :: int where "CIF_INVALID_CHAR \<equiv> 102"
abbreviation (input) CIF_DISALLOWED_CHAR :: int where "CIF_DISALLOWED_CHAR \<equiv> 104"
abbreviation (input) CIF_MISSING_SPACE :: int where "CIF_MISSING_SPACE \<equiv> 105"
abbreviation (input) CIF_MISSING_ENDQUOTE :: int where "CIF_MISSING_ENDQUOTE \<equiv> 106"
abbreviation (input) CIF_UNCLOSED_TEXT :: int where "CIF_UNCLOSED_TEXT \<equiv> 107"
abbreviation (input) CIF_OVERLENGTH_LINE :: int where "CIF_OVERLENGTH_LINE \<equiv> 108"
abbreviation (input) CIF_DISALLOWED_INITIAL_CHAR :: int where "CIF_DISALLOWED_INITIAL_CHAR \<equiv> 109"
abbreviation (input) CIF_RESERVED_WORD :: int where "CIF_RESERVED_WORD \<equiv> 132"
abbreviation (input) CIF_PARTIAL_PACKET :: int where "CIF_PARTIAL_PACKET \<equiv> 53"
abbreviation (input) CIF_INVALID_BARE_VALUE :: int where "CIF_INVALID_BARE_VALUE \<equiv> 74"
abbreviation (input) CIF_NO_BLOCK_HEADER :: int where "CIF_NO_BLOCK_HEADER \<equiv> 113"
abbreviation (input) CIF_FRAME_NOT_ALLOWED :: int where "CIF_FRAME_NOT_ALLOWED \<equiv> 122"
abbreviation (input) CIF_NO_FRAME_TERM :: int where "CIF_NO_FRAME_TERM \<equiv> 123"
abbreviation (input) CIF_UNEXPECTED_TERM :: int where "CIF_UNEXPECTED_TERM \<equiv> 124"
abbreviation (input) CIF_EOF_IN_FRAME :: int where "CIF_EOF_IN_FRAME \<equiv> 126"
abbreviation (input) CIF_MISSING_VALUE :: int where "CIF_MISSING_VALUE \<equiv> 133"
abbreviation (input) CIF_UNEXPECTED_VALUE :: int where "CIF_UNEXPECTED_VALUE \<equiv> 134"
abbreviation (input) CIF_UNEXPECTED_DELIM :: int where "CIF_UNEXPECTED_DELIM \<equiv> 135"
abbreviation (input) CIF_MISSING_DELIM :: int where "CIF_MISSING_DELIM \<equiv> 136"
abbreviation (input) CIF_MISSING_KEY :: int where "CIF_MISSING_KEY \<equiv> 137"
abbreviation (input) CIF_UNQUOTED_KEY :: int where "CIF_UNQUOTED_KEY \<equiv> 138"
abbreviation (input) CIF_MISQUOTED_KEY :: int where "CIF_MISQUOTED_KEY \<equiv> 139"
abbreviation (input) CIF_NULL_KEY :: int where "CIF_NULL_KEY \<equiv> 140"

text \<open>
  The result, in the model, of a call that does not return: a number that is no result code. Who calls
  does not go on; the functions of the model hand it on.
\<close>

abbreviation (input) NO_RETURN :: int where "NO_RETURN \<equiv> 2147483647"

text \<open>The limit on the length of a line (src/cif.h).\<close>

abbreviation (input) CIF_LINE_LENGTH :: int where "CIF_LINE_LENGTH \<equiv> 2048"

section \<open>Code points of src/internal/value.h\<close>

abbreviation (input) UCHAR_TAB :: uchar where "UCHAR_TAB \<equiv> 0x09"
abbreviation (input) UCHAR_NL :: uchar where "UCHAR_NL \<equiv> 0x0a"
abbreviation (input) UCHAR_VT :: uchar where "UCHAR_VT \<equiv> 0x0b"
abbreviation (input) UCHAR_CR :: uchar where "UCHAR_CR \<equiv> 0x0d"
abbreviation (input) UCHAR_SP :: uchar where "UCHAR_SP \<equiv> 0x20"
abbreviation (input) UCHAR_DQ :: uchar where "UCHAR_DQ \<equiv> 0x22"
abbreviation (input) UCHAR_HASH :: uchar where "UCHAR_HASH \<equiv> 0x23"
abbreviation (input) UCHAR_DOLLAR :: uchar where "UCHAR_DOLLAR \<equiv> 0x24"
abbreviation (input) UCHAR_SQ :: uchar where "UCHAR_SQ \<equiv> 0x27"
abbreviation (input) UCHAR_OPEN :: uchar where "UCHAR_OPEN \<equiv> 0x28"
abbreviation (input) UCHAR_CLOSE :: uchar where "UCHAR_CLOSE \<equiv> 0x29"
abbreviation (input) UCHAR_PLUS :: uchar where "UCHAR_PLUS \<equiv> 0x2b"
abbreviation (input) UCHAR_MINUS :: uchar where "UCHAR_MINUS \<equiv> 0x2d"
abbreviation (input) UCHAR_DECIMAL :: uchar where "UCHAR_DECIMAL \<equiv> 0x2e"
abbreviation (input) UCHAR_0 :: uchar where "UCHAR_0 \<equiv> 0x30"
abbreviation (input) UCHAR_9 :: uchar where "UCHAR_9 \<equiv> 0x39"
abbreviation (input) UCHAR_COLON :: uchar where "UCHAR_COLON \<equiv> 0x3a"
abbreviation (input) UCHAR_SEMI :: uchar where "UCHAR_SEMI \<equiv> 0x3b"
abbreviation (input) UCHAR_QUERY :: uchar where "UCHAR_QUERY \<equiv> 0x3f"
abbreviation (input) UCHAR_E :: uchar where "UCHAR_E \<equiv> 0x45"
abbreviation (input) UCHAR_OBRK :: uchar where "UCHAR_OBRK \<equiv> 0x5b"
abbreviation (input) UCHAR_BSL :: uchar where "UCHAR_BSL \<equiv> 0x5c"
abbreviation (input) UCHAR_CBRK :: uchar where "UCHAR_CBRK \<equiv> 0x5d"
abbreviation (input) UCHAR_UNDER :: uchar where "UCHAR_UNDER \<equiv> 0x5f"
abbreviation (input) UCHAR_e :: uchar where "UCHAR_e \<equiv> 0x65"
abbreviation (input) UCHAR_OBRC :: uchar where "UCHAR_OBRC \<equiv> 0x7b"
abbreviation (input) UCHAR_CBRC :: uchar where "UCHAR_CBRC \<equiv> 0x7d"
abbreviation (input) UCHAR_BOM :: uchar where "UCHAR_BOM \<equiv> 0xfeff"

section \<open>Collections of facts\<close>

named_theorems res_simps \<open>unfolding of the result monad\<close>
named_theorems op_defs \<open>definitions of operations that proofs unfold together\<close>

section \<open>Strings and results\<close>

definition cstr :: "ustring \<Rightarrow> ustring" where
  "cstr buf = takeWhile (\<lambda>c. c \<noteq> 0) buf"

text \<open>Reading the code unit at a position of a NUL-terminated string: the terminator at its end.\<close>

definition unit_at :: "ustring \<Rightarrow> nat \<Rightarrow> uchar" where
  "unit_at s i = (if i < length s then s ! i else 0)"

definition rbind :: "'a res \<Rightarrow> ('a \<Rightarrow> 'b res) \<Rightarrow> 'b res" where
  "rbind m f = (case m of Inl e \<Rightarrow> Inl e | Inr x \<Rightarrow> f x)"

lemma rbind_simps [simp, res_simps]:
  "rbind (Inl e) f = Inl e"
  "rbind (Inr x) f = f x"
  by (simp_all add: rbind_def)

lemma rbind_Inr_iff [res_simps]: "rbind m f = Inr y \<longleftrightarrow> (\<exists>x. m = Inr x \<and> f x = Inr y)"
  by (cases m) simp_all

lemma rbind_Inl_iff [res_simps]:
  "rbind m f = Inl e \<longleftrightarrow> m = Inl e \<or> (\<exists>x. m = Inr x \<and> f x = Inl e)"
  by (cases m) simp_all

lemma cstr_no_nul [simp]: "0 \<notin> set (cstr s)"
  unfolding cstr_def by (auto dest: set_takeWhileD)

lemma cstr_id: "0 \<notin> set s \<Longrightarrow> cstr s = s"
  unfolding cstr_def by (induction s) auto

lemma unit_at_Nil [simp]: "unit_at [] i = 0"
  by (simp add: unit_at_def)

lemma unit_at_Cons [simp]:
  "unit_at (c # s) 0 = c" "unit_at (c # s) (Suc i) = unit_at s i"
  "unit_at (c # s) (numeral k) = unit_at s (pred_numeral k)"
  by (simp_all add: unit_at_def numeral_eq_Suc)

end
