(* ===== verification/Names.thy ===== *)
theory Names
  imports Prelude
begin

text \<open>
  The name rules of src/utils.c: which characters CIF disallows, which strings are valid
  block codes, frame codes and item names, which strings are reserved, and the normalisation
  that makes two spellings of a name equal. Unicode normalisation, case folding and code
  point counting are ICU's: they are parameters of the model (the record \<open>icu\<close>).
\<close>

section \<open>The functions of ICU the code calls\<close>

datatype norm_mode = UNORM_NFD | UNORM_NFC

text \<open>
  \<open>unorm\<close> and \<open>fold_case\<close> give the whole result that \<open>unorm_normalize\<close> and
  \<open>u_strFoldCase\<close> would write into a large enough buffer, or \<open>None\<close> where they report an error
  of their own. \<open>count_char32\<close> is \<open>u_countChar32\<close> of a whole string. \<open>heap_junk\<close> is what stands in memory that
  nothing has been written to: in a buffer after an overflow, in a unit that a reallocation adds, and
  behind the end of a buffer.
\<close>

record icu =
  unorm :: "norm_mode \<Rightarrow> ustring \<Rightarrow> ustring option"
  fold_case :: "ustring \<Rightarrow> ustring option"
  count_char32 :: "ustring \<Rightarrow> int"
  heap_junk :: ustring

text \<open>What ICU reports about an output of \<open>n\<close> code units and a buffer of \<open>cap\<close>.\<close>

datatype uerror = U_ZERO_ERROR | U_STRING_NOT_TERMINATED_WARNING | U_BUFFER_OVERFLOW_ERROR

definition icu_fill :: "nat \<Rightarrow> nat \<Rightarrow> uerror" where
  "icu_fill n cap =
     (if n < cap then U_ZERO_ERROR
      else if n = cap then U_STRING_NOT_TERMINATED_WARNING
      else U_BUFFER_OVERFLOW_ERROR)"

text \<open>
  A call whose whole result is \<open>r\<close>, with a buffer of \<open>cap\<close> units: the units in the buffer then, the length
  reported and the code. What fits in is written, with a terminator if there is room for one; an overflow
  leaves junk.
\<close>

definition icu_output :: "icu \<Rightarrow> ustring \<Rightarrow> nat \<Rightarrow> ustring \<times> nat \<times> uerror" where
  "icu_output I r cap =
     (case icu_fill (length r) cap of
        U_ZERO_ERROR \<Rightarrow> (r @ [0], length r, U_ZERO_ERROR)
      | U_STRING_NOT_TERMINATED_WARNING \<Rightarrow> (r, length r, U_STRING_NOT_TERMINATED_WARNING)
      | U_BUFFER_OVERFLOW_ERROR \<Rightarrow> (take cap (heap_junk I), length r, U_BUFFER_OVERFLOW_ERROR))"

text \<open>\<open>realloc\<close> of a buffer to \<open>n\<close> units, and the string that a reader finds at the start of a buffer.\<close>

definition realloc_units :: "icu \<Rightarrow> ustring \<Rightarrow> nat \<Rightarrow> ustring" where
  "realloc_units I buf n = take n (buf @ take (n - length buf) (heap_junk I @ replicate n 0xffff))"

definition string_at :: "icu \<Rightarrow> ustring \<Rightarrow> ustring" where
  "string_at I buf = cstr (buf @ heap_junk I)"

section \<open>Disallowed characters\<close>

abbreviation (input) MIN_HIGH_SURROGATE :: uchar where "MIN_HIGH_SURROGATE \<equiv> 0xd800"
abbreviation (input) MIN_LOW_SURROGATE :: uchar where "MIN_LOW_SURROGATE \<equiv> 0xdc00"
abbreviation (input) MAX_LOW_SURROGATE :: uchar where "MAX_LOW_SURROGATE \<equiv> 0xdfff"

fun cif_has_disallowed_chars :: "ustring \<Rightarrow> bool" where
  "cif_has_disallowed_chars [] = False"
| "cif_has_disallowed_chars (c # cs) =
     (if c < MIN_HIGH_SURROGATE \<or> c > MAX_LOW_SURROGATE then
        (if (c < 0x20 \<and> c \<noteq> 0x9 \<and> c \<noteq> 0xa \<and> c \<noteq> 0xd) \<or> c = 0x7f
              \<or> (c > 0xfdcf \<and> c < 0xfdf0) \<or> c > 0xfffd
         then True
         else cif_has_disallowed_chars cs)
      else if c \<ge> MIN_LOW_SURROGATE then True
      else
        (case cs of
           [] \<Rightarrow> True
         | d # ds \<Rightarrow>
             if d < MIN_LOW_SURROGATE \<or> d > MAX_LOW_SURROGATE then True
             else if d AND 0x3fe = 0x3fe \<and> c AND 0x3f = 0x3f then True
             else cif_has_disallowed_chars ds))"

text \<open>
  The specification in the comment of the function: decode UTF-16 into code points (which
  fails on an unpaired surrogate) and look for a disallowed code point.
\<close>

fun utf16_decode :: "ustring \<Rightarrow> nat list option" where
  "utf16_decode [] = Some []"
| "utf16_decode (c # cs) =
     (if unat c < 0xd800 \<or> 0xdfff < unat c then map_option ((#) (unat c)) (utf16_decode cs)
      else if 0xdc00 \<le> unat c then None
      else (case cs of
              [] \<Rightarrow> None
            | d # ds \<Rightarrow>
                if 0xdc00 \<le> unat d \<and> unat d \<le> 0xdfff
                then map_option ((#) (0x10000 + (unat c - 0xd800) * 0x400 + (unat d - 0xdc00)))
                       (utf16_decode ds)
                else None))"

definition disallowed_point :: "nat \<Rightarrow> bool" where
  "disallowed_point p \<longleftrightarrow>
     (p < 0x20 \<and> p \<noteq> 0x9 \<and> p \<noteq> 0xa \<and> p \<noteq> 0xd) \<or> p = 0x7f
     \<or> (0xfdd0 \<le> p \<and> p \<le> 0xfdef) \<or> p mod 0x10000 = 0xfffe \<or> p mod 0x10000 = 0xffff"

section \<open>Valid names\<close>

fun cif_has_whitespace :: "ustring \<Rightarrow> bool" where
  "cif_has_whitespace [] = False"
| "cif_has_whitespace (c # cs) = (if c \<le> 0x20 then True else cif_has_whitespace cs)"

definition cif_is_valid_name :: "icu \<Rightarrow> ustring option \<Rightarrow> bool \<Rightarrow> bool" where
  "cif_is_valid_name I name for_item =
     (case name of
        None \<Rightarrow> False
      | Some s \<Rightarrow>
          (if \<not> for_item then unit_at s 0 \<noteq> 0
           else unit_at s 0 = UCHAR_UNDER \<and> unit_at s 1 \<noteq> 0)
          \<and> count_char32 I s \<le> CIF_LINE_LENGTH - (if \<not> for_item then 5 else 0)
          \<and> \<not> cif_has_whitespace s
          \<and> \<not> cif_has_disallowed_chars s)"

section \<open>Normalisation\<close>

text \<open>
  The retry loop around the ICU call, for a source whose whole result is \<open>r\<close>: the first buffer has room for
  the source and a terminator, an overflow is answered by a buffer of the reported size and another call,
  and a missing terminator by a reallocation when the caller wants one. The result is the buffer and
  the length.
\<close>

function normalize_loop :: "icu \<Rightarrow> ustring \<Rightarrow> nat \<Rightarrow> bool \<Rightarrow> ustring \<times> nat" where
  "normalize_loop I r buffer_chars terminate =
     (case icu_output I r buffer_chars of
        (buf, normalized_chars, code) \<Rightarrow>
          if code = U_STRING_NOT_TERMINATED_WARNING \<and> terminate then
            ((realloc_units I buf (normalized_chars + 1))[normalized_chars := 0], normalized_chars)
          else if code \<noteq> U_BUFFER_OVERFLOW_ERROR then (buf, normalized_chars)
          else normalize_loop I r (normalized_chars + 1) terminate)"
  by pat_completeness auto
termination
  by (relation "measure (\<lambda>(I, r, cap, _). if cap < length r then 1 else 0)")
    (auto simp: icu_output_def icu_fill_def split: if_splits uerror.splits)

definition cif_unicode_normalize ::
    "icu \<Rightarrow> ustring \<Rightarrow> int \<Rightarrow> norm_mode \<Rightarrow> bool \<Rightarrow> (ustring \<times> nat) res" where
  "cif_unicode_normalize I src srclen mode terminate =
     (let src = (if srclen \<ge> 0 then take (nat srclen) src else src) in
      case unorm I mode src of
        None \<Rightarrow> Inl CIF_ERROR
      | Some r \<Rightarrow> Inr (normalize_loop I r (length src + 1) terminate))"

function fold_loop :: "icu \<Rightarrow> ustring \<Rightarrow> nat \<Rightarrow> ustring \<times> nat" where
  "fold_loop I r buffer_chars =
     (case icu_output I r buffer_chars of
        (buf, folded_chars, code) \<Rightarrow>
          if code \<noteq> U_BUFFER_OVERFLOW_ERROR then (buf, folded_chars) else fold_loop I r (folded_chars + 1))"
  by pat_completeness auto
termination
  by (relation "measure (\<lambda>(I, r, cap). if cap < length r then 1 else 0)")
    (auto simp: icu_output_def icu_fill_def split: if_splits uerror.splits)

definition cif_fold_case :: "icu \<Rightarrow> ustring \<Rightarrow> int \<Rightarrow> (ustring \<times> nat) res" where
  "cif_fold_case I src srclen =
     (let src = (if srclen < 0 then src else take (nat srclen) src) in
      case fold_case I src of
        None \<Rightarrow> Inl CIF_ERROR
      | Some r \<Rightarrow> Inr (fold_loop I r (length src + 1)))"

text \<open>The intermediate buffers are passed on with their lengths; the last one is handed out as a string.\<close>

definition cif_normalize :: "icu \<Rightarrow> ustring \<Rightarrow> int \<Rightarrow> ustring res" where
  "cif_normalize I src srclen =
     rbind (cif_unicode_normalize I src srclen UNORM_NFD False) (\<lambda>(buf, result_length).
     rbind (cif_fold_case I buf (int result_length)) (\<lambda>(buf2, result_length).
     rbind (cif_unicode_normalize I buf2 (int result_length) UNORM_NFC True) (\<lambda>(buf3, _).
     Inr (string_at I buf3))))"

definition cif_normalize_name :: "icu \<Rightarrow> ustring option \<Rightarrow> int \<Rightarrow> int \<Rightarrow> ustring res" where
  "cif_normalize_name I name namelen invalidityCode =
     (if \<not> cif_is_valid_name I name False then Inl invalidityCode
      else cif_normalize I (the name) namelen)"

definition cif_normalize_item_name :: "icu \<Rightarrow> ustring option \<Rightarrow> int \<Rightarrow> int \<Rightarrow> ustring res" where
  "cif_normalize_item_name I name namelen invalidityCode =
     (if \<not> cif_is_valid_name I name True then Inl invalidityCode
      else cif_normalize I (the name) namelen)"

definition cif_normalize_table_index :: "icu \<Rightarrow> ustring option \<Rightarrow> int \<Rightarrow> int \<Rightarrow> ustring res" where
  "cif_normalize_table_index I name namelen invalidityCode =
     (case name of
        None \<Rightarrow> Inl invalidityCode
      | Some s \<Rightarrow>
          if \<not> cif_has_disallowed_chars s
          then rbind (cif_unicode_normalize I s namelen UNORM_NFC True) (\<lambda>(buf, _). Inr (string_at I buf))
          else Inl invalidityCode)"

section \<open>Reserved strings\<close>

text \<open>One letter of a keyword, in either case.\<close>

definition is_letter :: "uchar \<Rightarrow> uchar \<Rightarrow> uchar \<Rightarrow> bool" where
  "is_letter c upper lower \<longleftrightarrow> c = upper \<or> c = lower"

definition cif_is_reserved_string :: "ustring \<Rightarrow> bool" where
  "cif_is_reserved_string s =
     (let str = unit_at s in
      if str 0 \<in> {UCHAR_UNDER, UCHAR_HASH, UCHAR_DOLLAR, UCHAR_SQ, UCHAR_DQ} then True
      else if is_letter (str 0) 0x44 0x64 then
        is_letter (str 1) 0x41 0x61 \<and> is_letter (str 2) 0x54 0x74 \<and> is_letter (str 3) 0x41 0x61
        \<and> str 4 = UCHAR_UNDER
      else if is_letter (str 0) 0x47 0x67 then
        is_letter (str 1) 0x4C 0x6C \<and> is_letter (str 2) 0x4F 0x6F \<and> is_letter (str 3) 0x42 0x62
        \<and> is_letter (str 4) 0x41 0x61 \<and> is_letter (str 5) 0x4C 0x6C
        \<and> str 6 = UCHAR_UNDER \<and> str 7 = 0
      else if is_letter (str 0) 0x4C 0x6C then
        is_letter (str 1) 0x4F 0x6F \<and> is_letter (str 2) 0x4F 0x6F \<and> is_letter (str 3) 0x50 0x70
        \<and> str 4 = UCHAR_UNDER \<and> str 5 = 0
      else if is_letter (str 0) 0x53 0x73 then
        (if is_letter (str 1) 0x41 0x61 then
           is_letter (str 2) 0x56 0x76 \<and> is_letter (str 3) 0x45 0x65 \<and> str 4 = UCHAR_UNDER
         else if is_letter (str 1) 0x54 0x74 then
           is_letter (str 2) 0x4F 0x6F \<and> is_letter (str 3) 0x50 0x70
           \<and> str 4 = UCHAR_UNDER \<and> str 5 = 0
         else False)
      else False)"

text \<open>The reserved words, spelled out, compared without regard to the case of ASCII letters.\<close>

definition ascii_lower :: "uchar \<Rightarrow> uchar" where
  "ascii_lower c = (if 0x41 \<le> c \<and> c \<le> 0x5A then c + 0x20 else c)"

definition kw :: "string \<Rightarrow> ustring" where
  "kw w = map (\<lambda>c. of_nat (of_char c)) w"

definition has_keyword_prefix :: "string \<Rightarrow> ustring \<Rightarrow> bool" where
  "has_keyword_prefix w s \<longleftrightarrow> map ascii_lower (take (length w) s) = kw w"

definition is_keyword :: "string \<Rightarrow> ustring \<Rightarrow> bool" where
  "is_keyword w s \<longleftrightarrow> map ascii_lower s = kw w"

definition reserved_spec :: "ustring \<Rightarrow> bool" where
  "reserved_spec s \<longleftrightarrow>
     (s \<noteq> [] \<and> hd s \<in> set (kw ''_#$'' @ [UCHAR_SQ, UCHAR_DQ]))
     \<or> has_keyword_prefix ''data_'' s \<or> has_keyword_prefix ''save_'' s
     \<or> is_keyword ''loop_'' s \<or> is_keyword ''stop_'' s \<or> is_keyword ''global_'' s"

section \<open>Correctness\<close>

subsection \<open>Disallowed characters\<close>

lemma nat_and_1022: "(n::nat) AND 0x3fe = 2 * (n div 2 mod 512)"
proof -
  have "n AND 0x3fe = 2 * (n div 2 AND 0x1ff)" by (subst and_rec) simp
  moreover have "n div 2 AND 0x1ff = take_bit 9 (n div 2)"
    by (simp only: take_bit_eq_mask mask_eq_exp_minus_1) simp
  ultimately show ?thesis by (simp add: take_bit_eq_mod)
qed
lemma and_3fe: "(d::uchar) AND 0x3fe = 0x3fe \<longleftrightarrow> 0x3fe \<le> unat d mod 0x400"
proof -
  have "(d AND 0x3fe = 0x3fe) = (unat (d AND 0x3fe) = 0x3fe)"
    by (simp add: word_unat_eq_iff)
  also have "unat (d AND 0x3fe) = 2 * (unat d div 2 mod 512)"
    by (simp add: unsigned_and_eq nat_and_1022)
  finally have "(d AND 0x3fe = 0x3fe) = (2 * (unat d div 2 mod 512) = 0x3fe)" .
  moreover have "unat d mod 0x400 = 2 * (unat d div 2 mod 512) + unat d mod 2"
    using mod_mult2_eq [of "unat d" 2 512] by simp
  moreover have "unat d div 2 mod 512 < 512" "unat d mod 2 < 2" by simp_all
  ultimately show ?thesis by auto
qed
lemma and_3f: "(c::uchar) AND 0x3f = 0x3f \<longleftrightarrow> unat c mod 0x40 = 0x3f"
proof -
  have "unat (c AND 0x3f) = (unat c AND mask 6)"
    by (simp add: unsigned_and_eq mask_eq_exp_minus_1)
  then have "unat (c AND 0x3f) = unat c mod 0x40"
    by (simp only: take_bit_eq_mask[symmetric] take_bit_eq_mod) simp
  then show ?thesis by (simp add: word_unat_eq_iff)
qed
lemma has_disallowed_step:
  assumes "\<not> (c < MIN_HIGH_SURROGATE \<or> c > MAX_LOW_SURROGATE)" "\<not> c \<ge> MIN_LOW_SURROGATE"
     "\<not> (d < MIN_LOW_SURROGATE \<or> d > MAX_LOW_SURROGATE)"
  shows "(d AND 0x3fe = 0x3fe \<and> c AND 0x3f = 0x3f)
     = disallowed_point (0x10000 + (unat c - 0xd800) * 0x400 + (unat d - 0xdc00))"
proof -
  define h l where "h = unat c - 0xd800" and "l = unat d - 0xdc00"
  then have h: "unat c = 0xd800 + h" "h < 0x400" and l: "unat d = 0xdc00 + l" "l < 0x400"
    using assms by (auto simp: word_less_nat_alt word_le_nat_alt)
  have "(0x360 * 0x40 + h) mod 0x40 = h mod 0x40" by (rule mod_mult_self3)
  then have c: "unat c mod 0x40 = h mod 0x40" using h by simp
  have "(0x37 * 0x400 + l) mod 0x400 = l mod 0x400" by (rule mod_mult_self3)
  then have d: "unat d mod 0x400 = l" using l by simp
  have "(0x10000 + (h * 0x400 + l)) mod 0x10000 = (h * 0x400 + l) mod 0x10000" by (rule mod_add_self1)
  then have "(0x10000 + h * 0x400 + l) mod 0x10000 = (h * 0x400 + l) mod (0x400 * 0x40)"
    by (simp add: add.assoc)
  also have "\<dots> = 0x400 * (h mod 0x40) + l"
    using l(2) by (subst mod_mult2_eq) simp
  finally have m: "(0x10000 + h * 0x400 + l) mod 0x10000 = 0x400 * (h mod 0x40) + l" .
  have "h mod 0x40 < 0x40" by simp
  then show ?thesis
    unfolding and_3fe and_3f c d disallowed_point_def
    using h l m by auto
qed

text \<open>
  C26. The code-unit scan of cif_has_disallowed_chars rejects exactly the strings that are not
  well-formed UTF-16 or that contain a code point disallowed in CIF.
\<close>

theorem has_disallowed_chars_spec:
  "cif_has_disallowed_chars s \<longleftrightarrow>
     (case utf16_decode s of None \<Rightarrow> True | Some ps \<Rightarrow> \<exists>p\<in>set ps. disallowed_point p)"
proof (induction s rule: cif_has_disallowed_chars.induct)
  case (2 c cs)
  consider (bmp) "c < MIN_HIGH_SURROGATE \<or> c > MAX_LOW_SURROGATE"
    | (low) "\<not> (c < MIN_HIGH_SURROGATE \<or> c > MAX_LOW_SURROGATE)" "c \<ge> MIN_LOW_SURROGATE"
    | (high) "\<not> (c < MIN_HIGH_SURROGATE \<or> c > MAX_LOW_SURROGATE)" "\<not> c \<ge> MIN_LOW_SURROGATE"
    by blast
  then show ?case
  proof cases
    case bmp
    have lt: "unat c < 65536" using unsigned_less [of c] by simp
    have u: "((c < 0x20 \<and> c \<noteq> 0x9 \<and> c \<noteq> 0xa \<and> c \<noteq> 0xd) \<or> c = 0x7f
              \<or> (c > 0xfdcf \<and> c < 0xfdf0) \<or> c > 0xfffd) = disallowed_point (unat c)"
      using lt by (auto simp: disallowed_point_def word_less_nat_alt word_unat_eq_iff)
    have "unat c < 0xd800 \<or> 0xdfff < unat c" using bmp by (auto simp: word_less_nat_alt)
    with bmp u 2(1) show ?thesis by (auto split: option.splits)
  next
    case low then show ?thesis
      by (auto simp: word_less_nat_alt word_le_nat_alt)
  next
    case high
    show ?thesis
    proof (cases cs)
      case Nil with high show ?thesis by (auto simp: word_less_nat_alt word_le_nat_alt)
    next
      case (Cons d ds)
      show ?thesis
      proof (cases "d < MIN_LOW_SURROGATE \<or> d > MAX_LOW_SURROGATE")
        case True with high Cons show ?thesis
          by (auto simp: word_less_nat_alt word_le_nat_alt)
      next
        case False
        have "\<not> (unat c < 0xd800 \<or> 0xdfff < unat c)" "\<not> 0xdc00 \<le> unat c" "0xdc00 \<le> unat d \<and> unat d \<le> 0xdfff"
          using high False by (auto simp: word_less_nat_alt word_le_nat_alt)
        then show ?thesis
          using high False Cons 2(2) [OF high Cons False] has_disallowed_step [OF high False]
          by (auto split: option.splits)
      qed
    qed
  qed
qed simp

subsection \<open>Normalisation\<close>

declare normalize_loop.simps [simp del] fold_loop.simps [simp del]

text \<open>
  Whatever the junk and the capacity of the first buffer: the reported length is that of the result, the
  units before it are the result, and if a terminator was asked for it follows them.
\<close>

lemma normalize_loop_fits:
  assumes "length r \<le> cap"
  shows "snd (normalize_loop I r cap t) = length r \<and> take (length r) (fst (normalize_loop I r cap t)) = r
    \<and> (t \<longrightarrow> length r < length (fst (normalize_loop I r cap t)) \<and> fst (normalize_loop I r cap t) ! length r = 0)"
proof (cases "length r = cap")
  case True
  then show ?thesis
    by (cases t) (simp_all add: normalize_loop.simps [of I r cap] icu_output_def icu_fill_def realloc_units_def)
next
  case False
  then show ?thesis
    using assms by (simp add: normalize_loop.simps [of I r cap] icu_output_def icu_fill_def nth_append)
qed

lemma normalize_loop_result:
  "snd (normalize_loop I r cap t) = length r \<and> take (length r) (fst (normalize_loop I r cap t)) = r
   \<and> (t \<longrightarrow> length r < length (fst (normalize_loop I r cap t)) \<and> fst (normalize_loop I r cap t) ! length r = 0)"
proof (cases "length r \<le> cap")
  case False
  then have "normalize_loop I r cap t = normalize_loop I r (length r + 1) t"
    by (subst normalize_loop.simps) (simp add: icu_output_def icu_fill_def)
  then show ?thesis by (simp only:) (rule normalize_loop_fits, simp)
qed (rule normalize_loop_fits)

lemma fold_loop_fits:
  "length r \<le> cap \<Longrightarrow> snd (fold_loop I r cap) = length r \<and> take (length r) (fst (fold_loop I r cap)) = r"
  by (simp add: fold_loop.simps [of I r cap] icu_output_def icu_fill_def)

lemma fold_loop_result:
  "snd (fold_loop I r cap) = length r \<and> take (length r) (fst (fold_loop I r cap)) = r"
proof (cases "length r \<le> cap")
  case False
  then have "fold_loop I r cap = fold_loop I r (length r + 1)"
    by (subst fold_loop.simps) (simp add: icu_output_def icu_fill_def)
  then show ?thesis using fold_loop_fits [of r "length r + 1" I] by simp
qed (rule fold_loop_fits)

text \<open>Behind a terminator the junk does not show.\<close>

lemma string_at_terminated:
  assumes "take n buf = r" "n = length r" "n < length buf" "buf ! n = 0"
  shows "string_at I buf = cstr r"
proof -
  have "buf = r @ 0 # drop (Suc n) buf"
    using assms by (metis id_take_nth_drop)
  then have "string_at I buf = cstr (r @ 0 # drop (Suc n) buf @ heap_junk I)"
    unfolding string_at_def by (metis append.assoc append_Cons)
  moreover have "cstr (us @ 0 # vs) = cstr us" for us vs by (induction us) (simp_all add: cstr_def)
  ultimately show ?thesis by simp
qed

lemma string_at_normalized: "string_at I (fst (normalize_loop I r cap True)) = cstr r"
  using normalize_loop_result [of I r cap True] by (intro string_at_terminated [of "length r"]) blast+

lemma cif_normalize_eq:
  "cif_normalize I s (-1) =
     (case unorm I UNORM_NFD s of None \<Rightarrow> Inl CIF_ERROR
      | Some a \<Rightarrow> (case fold_case I a of None \<Rightarrow> Inl CIF_ERROR
      | Some b \<Rightarrow> (case unorm I UNORM_NFC b of None \<Rightarrow> Inl CIF_ERROR | Some c \<Rightarrow> Inr (cstr c))))"
  using normalize_loop_result fold_loop_result
  by (simp add: cif_normalize_def cif_unicode_normalize_def cif_fold_case_def case_prod_unfold string_at_normalized
      split: option.splits)

text \<open>
  C27. Whatever the sizes of the buffers and whatever stands in them before they are written to, normalising
  an item name either reports the caller's invalidity code (exactly for the invalid names) or hands out a
  terminated string: the composition of NFD, case folding and NFC, as far as its first NUL. A failure of ICU
  at any stage is CIF_ERROR.
\<close>

theorem normalize_item_name_functional:
  "cif_normalize_item_name I name (-1) code =
     (if \<not> cif_is_valid_name I name True then Inl code
      else case Option.bind (Option.bind (unorm I UNORM_NFD (the name)) (fold_case I)) (unorm I UNORM_NFC) of
             None \<Rightarrow> Inl CIF_ERROR | Some r \<Rightarrow> Inr (cstr r))"
  by (auto simp: cif_normalize_item_name_def cif_normalize_eq split: option.splits)

subsection \<open>Reserved strings\<close>

lemma ascii_lower_letter:
  "0x61 \<le> l \<Longrightarrow> l \<le> 0x7A \<Longrightarrow> ascii_lower c = l \<longleftrightarrow> is_letter c (l - 0x20) l"
  unfolding is_letter_def ascii_lower_def by unat_arith

lemma ascii_lower_nonletter: "ascii_lower c = 0x5f \<longleftrightarrow> c = 0x5f"
  unfolding ascii_lower_def by unat_arith

lemma ascii_lower_zero [simp]: "ascii_lower 0 = 0"
  by (simp add: ascii_lower_def)

lemma unit_at_drop [simp]: "unit_at (drop n s) i = unit_at s (n + i)"
  by (auto simp: unit_at_def)

lemma unit_at_zero_iff: "0 \<notin> set s \<Longrightarrow> unit_at s i = 0 \<longleftrightarrow> length s \<le> i"
  by (auto simp: unit_at_def set_conv_nth not_less)

lemma kw_simps [simp]: "kw [] = []" "kw (c # w) = of_nat (of_char c) # kw w"
  by (simp_all add: kw_def)

lemma keyword_prefix_unit:
  "has_keyword_prefix [] s"
  "of_nat (of_char c) \<noteq> (0::uchar) \<Longrightarrow>
     has_keyword_prefix (c # w) s \<longleftrightarrow>
       ascii_lower (unit_at s 0) = of_nat (of_char c) \<and> has_keyword_prefix w (drop 1 s)"
  by (simp_all add: has_keyword_prefix_def kw_def) (cases s; auto)

lemma is_keyword_unit:
  "is_keyword [] s \<longleftrightarrow> s = []"
  "of_nat (of_char c) \<noteq> (0::uchar) \<Longrightarrow>
     is_keyword (c # w) s \<longleftrightarrow>
       ascii_lower (unit_at s 0) = of_nat (of_char c) \<and> is_keyword w (drop 1 s)"
  by (simp_all add: is_keyword_def kw_def) (cases s; auto)

lemmas keyword_simps = keyword_prefix_unit is_keyword_unit ascii_lower_letter ascii_lower_nonletter

lemma reserved_words:
  "has_keyword_prefix ''data_'' s \<longleftrightarrow> is_letter (unit_at s 0) 0x44 0x64 \<and> is_letter (unit_at s 1) 0x41 0x61
     \<and> is_letter (unit_at s 2) 0x54 0x74 \<and> is_letter (unit_at s 3) 0x41 0x61 \<and> unit_at s 4 = UCHAR_UNDER"
  "has_keyword_prefix ''save_'' s \<longleftrightarrow> is_letter (unit_at s 0) 0x53 0x73 \<and> is_letter (unit_at s 1) 0x41 0x61
     \<and> is_letter (unit_at s 2) 0x56 0x76 \<and> is_letter (unit_at s 3) 0x45 0x65 \<and> unit_at s 4 = UCHAR_UNDER"
  by (simp_all add: keyword_simps) (simp_all add: eval_nat_numeral)

lemma reserved_words_exact:
  assumes "0 \<notin> set s"
  shows "is_keyword ''loop_'' s \<longleftrightarrow> is_letter (unit_at s 0) 0x4c 0x6c \<and> is_letter (unit_at s 1) 0x4f 0x6f
     \<and> is_letter (unit_at s 2) 0x4f 0x6f \<and> is_letter (unit_at s 3) 0x50 0x70 \<and> unit_at s 4 = UCHAR_UNDER \<and> unit_at s 5 = 0"
  and "is_keyword ''stop_'' s \<longleftrightarrow> is_letter (unit_at s 0) 0x53 0x73 \<and> is_letter (unit_at s 1) 0x54 0x74
     \<and> is_letter (unit_at s 2) 0x4f 0x6f \<and> is_letter (unit_at s 3) 0x50 0x70 \<and> unit_at s 4 = UCHAR_UNDER \<and> unit_at s 5 = 0"
  and "is_keyword ''global_'' s \<longleftrightarrow> is_letter (unit_at s 0) 0x47 0x67 \<and> is_letter (unit_at s 1) 0x4c 0x6c
     \<and> is_letter (unit_at s 2) 0x4f 0x6f \<and> is_letter (unit_at s 3) 0x42 0x62 \<and> is_letter (unit_at s 4) 0x41 0x61
     \<and> is_letter (unit_at s 5) 0x4c 0x6c \<and> unit_at s 6 = UCHAR_UNDER \<and> unit_at s 7 = 0"
  using assms by (simp_all add: keyword_simps unit_at_zero_iff) (simp_all add: eval_nat_numeral)

lemma special_start: "(s \<noteq> [] \<and> hd s \<in> set (kw ''_#$'' @ [UCHAR_SQ, UCHAR_DQ])) \<longleftrightarrow>
    unit_at s 0 \<in> {UCHAR_UNDER, UCHAR_HASH, UCHAR_DOLLAR, UCHAR_SQ, UCHAR_DQ}"
  by (cases s) (auto simp: kw_def)

lemma is_letter_exclusive:
  "is_letter a u l \<Longrightarrow> u \<notin> {u', l'} \<Longrightarrow> l \<notin> {u', l'} \<Longrightarrow> \<not> is_letter a u' l'"
  "is_letter a u l \<Longrightarrow> x \<noteq> u \<Longrightarrow> x \<noteq> l \<Longrightarrow> a \<noteq> x"
  by (auto simp: is_letter_def)

text \<open>
  C25. The hand-unrolled test of cif_is_reserved_string accepts exactly the strings that start
  with one of the reserved characters or (in any letter case) with data_ or save_, or that are
  one of the words loop_, stop_ and global_.
\<close>

theorem reserved_string_iff:
  assumes "0 \<notin> set s"
  shows "cif_is_reserved_string s \<longleftrightarrow> reserved_spec s"
proof -
  let ?special = "unit_at s 0 \<in> {UCHAR_UNDER, UCHAR_HASH, UCHAR_DOLLAR, UCHAR_SQ, UCHAR_DQ}"
  let ?first = "is_letter (unit_at s 0)"
  have one: "\<not> (is_letter (unit_at s i) u l \<and> is_letter (unit_at s i) u' l')"
    if "u \<notin> {u', l'}" "l \<notin> {u', l'}" for i u l u' l'
    using that by (auto simp: is_letter_def)
  have ex: "\<not> (?first 0x44 0x64 \<and> ?first 0x47 0x67)" "\<not> (?first 0x44 0x64 \<and> ?first 0x4c 0x6c)"
      "\<not> (?first 0x44 0x64 \<and> ?first 0x53 0x73)" "\<not> (?first 0x47 0x67 \<and> ?first 0x4c 0x6c)"
      "\<not> (?first 0x47 0x67 \<and> ?first 0x53 0x73)" "\<not> (?first 0x4c 0x6c \<and> ?first 0x53 0x73)"
      "\<not> (is_letter (unit_at s 1) 0x41 0x61 \<and> is_letter (unit_at s 1) 0x54 0x74)"
    by (rule one; simp)+
  show ?thesis
    unfolding cif_is_reserved_string_def reserved_spec_def Let_def special_start
      reserved_words reserved_words_exact [OF assms]
    using ex
    by (cases ?special; cases "?first 0x44 0x64"; cases "?first 0x47 0x67"; cases "?first 0x4c 0x6c";
        cases "?first 0x53 0x73") simp_all
qed

theorem reserved_string_iff_witness:
  "0 \<notin> set (kw ''Global_'') \<and> cif_is_reserved_string (kw ''Global_'') \<and> reserved_spec (kw ''Global_'')
   \<and> \<not> cif_is_reserved_string (kw ''globals_'') \<and> \<not> reserved_spec (kw ''globals_'')"
proof -
  have nul: "0 \<notin> set (kw ''Global_'')" "0 \<notin> set (kw ''globals_'')" by simp_all
  have "cif_is_reserved_string (kw ''Global_'')" "\<not> cif_is_reserved_string (kw ''globals_'')"
    by (simp_all add: cif_is_reserved_string_def is_letter_def)
  then show ?thesis
    using nul reserved_string_iff [OF nul(1)] reserved_string_iff [OF nul(2)] by blast
qed

end
