(* ===== verification/Analyze.thy ===== *)
theory Analyze
  imports Names "HOL-Library.Sublist"
begin

text \<open>
  cif_analyze_string of src/utils.c: one pass over a string collects line statistics, from
  which the delimiters are chosen with which a CIF writer can present the string. The first
  part models the pass and the choice; the second relates the statistics to the lines of the
  string and shows what the chosen delimiters guarantee.
\<close>

section \<open>The scanning pass\<close>

text \<open>The local counters of the function; C counts in 32-bit integers, here unbounded.\<close>

record str_stats =
  char_counts :: "nat \<Rightarrow> int"
  first_line :: int
  this_line :: int
  max_line :: int
  consec_semis :: int
  most_semis :: int
  crlf_count :: int
  has_nl_semi :: bool
  trailing_ws :: bool

definition stats_init :: str_stats where
  "stats_init = \<lparr>char_counts = (\<lambda>_. 0), first_line = 0, this_line = 0, max_line = 0,
     consec_semis = 0, most_semis = 0, crlf_count = 0, has_nl_semi = False, trailing_ws = False\<rparr>"

definition remember_semis :: "str_stats \<Rightarrow> str_stats" where
  "remember_semis s = (if consec_semis s > most_semis s then s\<lparr>most_semis := consec_semis s\<rparr> else s)"

text \<open>The macro TRACK_TRAILING_WS looks at the code unit before the current one, if any.\<close>

definition track_trailing_ws :: "uchar option \<Rightarrow> str_stats \<Rightarrow> str_stats" where
  "track_trailing_ws prev s =
     s\<lparr>trailing_ws := trailing_ws s \<or> prev \<in> {Some UCHAR_SP, Some UCHAR_TAB, Some UCHAR_VT}\<rparr>"

definition class_index :: "uchar \<Rightarrow> nat" where
  "class_index ch = (if ch < 127 then unat ch else 127)"

definition count_char :: "uchar \<Rightarrow> str_stats \<Rightarrow> str_stats" where
  "count_char ch s =
     s\<lparr>char_counts := (char_counts s)(class_index ch := char_counts s (class_index ch) + 1)\<rparr>"

definition end_line :: "uchar option \<Rightarrow> uchar \<Rightarrow> str_stats \<Rightarrow> str_stats" where
  "end_line prev next_ch s0 =
     (let s = track_trailing_ws prev (s0\<lparr>has_nl_semi := has_nl_semi s0 \<or> next_ch = UCHAR_SEMI\<rparr>);
          s = (if char_counts s (class_index UCHAR_NL) + char_counts s (class_index UCHAR_CR) = 1
               then s\<lparr>first_line := this_line s, max_line := this_line s\<rparr>
               else if this_line s > max_line s then s\<lparr>max_line := this_line s\<rparr>
               else s)
      in (remember_semis s)\<lparr>consec_semis := 0, this_line := 0\<rparr>)"

definition analyze_char :: "uchar option \<Rightarrow> uchar \<Rightarrow> uchar \<Rightarrow> str_stats \<Rightarrow> str_stats" where
  "analyze_char prev ch next_ch s0 =
     (let s = count_char ch s0 in
      if ch = UCHAR_CR \<and> next_ch = UCHAR_NL then
        track_trailing_ws prev (s\<lparr>crlf_count := crlf_count s + 1\<rparr>)
      else if ch = UCHAR_CR \<or> ch = UCHAR_NL then end_line prev next_ch s
      else if ch = UCHAR_SEMI then
        s\<lparr>consec_semis := consec_semis s + 1, this_line := this_line s + 1\<rparr>
      else (remember_semis s)\<lparr>consec_semis := 0, this_line := this_line s + 1\<rparr>)"

fun analyze_loop :: "uchar option \<Rightarrow> ustring \<Rightarrow> str_stats \<Rightarrow> str_stats" where
  "analyze_loop prev [] s = track_trailing_ws prev (remember_semis s)"
| "analyze_loop prev (ch # rest) s =
     analyze_loop (Some ch) rest (analyze_char prev ch (unit_at rest 0) s)"

text \<open>The statistics after the last line has been accounted for, and the number of lines.\<close>

definition stats_num_lines :: "str_stats \<Rightarrow> int" where
  "stats_num_lines s =
     1 + char_counts s (class_index UCHAR_NL) + char_counts s (class_index UCHAR_CR) - crlf_count s"

definition last_line_stats :: "str_stats \<Rightarrow> str_stats" where
  "last_line_stats s =
     (if stats_num_lines s = 1 then s\<lparr>first_line := this_line s, max_line := this_line s\<rparr>
      else if this_line s > max_line s then s\<lparr>max_line := this_line s\<rparr>
      else s)"

definition analyze_stats :: "ustring \<Rightarrow> str_stats" where
  "analyze_stats str = last_line_stats (analyze_loop None str stats_init)"

section \<open>The choice of delimiters\<close>

record string_analysis =
  delim :: ustring
  length_all :: int
  length_first :: int
  length_last :: int
  length_max :: int
  num_lines :: int
  max_semi_run :: int
  delim_length :: nat
  contains_text_delim :: bool
  has_reserved_start :: bool
  has_trailing_ws :: bool

text \<open>\<open>u_strstr\<close>: does the string contain the pattern?\<close>

fun u_strstr :: "ustring \<Rightarrow> ustring \<Rightarrow> bool" where
  "u_strstr [] pat = (pat = [])"
| "u_strstr (c # s) pat = (take (length pat) (c # s) = pat \<or> u_strstr s pat)"

definition apos_delim :: ustring where "apos_delim = [UCHAR_SQ]"
definition quot_delim :: ustring where "quot_delim = [UCHAR_DQ]"
definition apos3_delim :: ustring where "apos3_delim = [UCHAR_SQ, UCHAR_SQ, UCHAR_SQ]"
definition quot3_delim :: ustring where "quot3_delim = [UCHAR_DQ, UCHAR_DQ, UCHAR_DQ]"
definition text_delim :: ustring where "text_delim = [UCHAR_NL, UCHAR_SEMI]"

definition allows_unquoted :: "ustring \<Rightarrow> str_stats \<Rightarrow> bool" where
  "allows_unquoted str s \<longleftrightarrow>
     (let count = (\<lambda>c. char_counts s (class_index c)); str0 = unit_at str 0 in
      length str > 0
      \<and> count UCHAR_SP + count UCHAR_TAB + count UCHAR_OBRK
        + count UCHAR_CBRK + count UCHAR_OBRC + count UCHAR_CBRC = 0
      \<and> str0 \<noteq> UCHAR_SQ \<and> str0 \<noteq> UCHAR_DQ \<and> str0 \<noteq> UCHAR_HASH
      \<and> str0 \<noteq> UCHAR_DOLLAR \<and> str0 \<noteq> UCHAR_UNDER \<and> str0 \<noteq> UCHAR_SEMI
      \<and> (length str > 1 \<or> (str0 \<noteq> UCHAR_QUERY \<and> str0 \<noteq> UCHAR_DECIMAL))
      \<and> \<not> cif_is_reserved_string str)"

text \<open>The triple-quoted form, when one of the two delimiters fits.\<close>

definition choose_triple :: "ustring \<Rightarrow> ustring option" where
  "choose_triple str =
     (let str_last = unit_at str (length str - 1) in
      if str_last \<noteq> UCHAR_SQ \<and> \<not> u_strstr str apos3_delim then Some apos3_delim
      else if str_last \<noteq> UCHAR_DQ \<and> \<not> u_strstr str quot3_delim then Some quot3_delim
      else None)"

text \<open>\<open>None\<close>: every alternative to a text block is ruled out.\<close>

definition choose_delim :: "ustring \<Rightarrow> str_stats \<Rightarrow> bool \<Rightarrow> bool \<Rightarrow> int \<Rightarrow> ustring option" where
  "choose_delim str s allow_unquoted allow_triple_quoted length_limit =
     (let count = (\<lambda>c. char_counts s (class_index c)) in
      if \<not> max_line s \<le> length_limit then None
      else if stats_num_lines s = 1 then
        (if allow_unquoted \<and> allows_unquoted str s then Some []
         else if max_line s \<le> length_limit - 2 \<and> count UCHAR_SQ = 0 then Some apos_delim
         else if max_line s \<le> length_limit - 2 \<and> count UCHAR_DQ = 0 then Some quot_delim
         else if allow_triple_quoted \<and> max_line s \<le> length_limit - 6 then choose_triple str
         else None)
      else if allow_triple_quoted \<and> this_line s < length_limit - 3 \<and> first_line s < length_limit - 3
      then choose_triple str
      else None)"

text \<open>
  The backward scan over the first line for a backslash that is its last character but for
  spaces and tabs; the argument is the line reversed.
\<close>

fun ends_in_backslash :: "ustring \<Rightarrow> bool" where
  "ends_in_backslash [] = False"
| "ends_in_backslash (c # cs) =
     (if c = UCHAR_TAB \<or> c = UCHAR_SP then ends_in_backslash cs else c = UCHAR_BSL)"

definition cif_analyze_string :: "ustring \<Rightarrow> bool \<Rightarrow> bool \<Rightarrow> int \<Rightarrow> string_analysis" where
  "cif_analyze_string str allow_unquoted allow_triple_quoted length_limit =
     (let s = analyze_stats str;
          choice = choose_delim str s allow_unquoted allow_triple_quoted length_limit;
          d = (case choice of Some d \<Rightarrow> d | None \<Rightarrow> text_delim)
      in \<lparr>delim = d, length_all = int (length str), length_first = first_line s,
          length_last = this_line s, length_max = max_line s, num_lines = stats_num_lines s,
          max_semi_run = most_semis s, delim_length = length d,
          contains_text_delim = has_nl_semi s,
          has_reserved_start = (choice = None \<and> unit_at str 0 \<noteq> UCHAR_SEMI
             \<and> ends_in_backslash (rev (take (nat (first_line s)) str))),
          has_trailing_ws = trailing_ws s\<rparr>)"

section \<open>The lines of a string\<close>

text \<open>
  The lines of a string: CR LF, CR and LF each end a line. \<open>line_lens k s\<close> gives the lengths
  of the lines of \<open>s\<close> when \<open>k\<close> units of the first of them have been seen.
\<close>

fun split_lines :: "ustring \<Rightarrow> ustring list" where
  "split_lines [] = [[]]"
| "split_lines (c # cs) =
     (if c = UCHAR_CR \<and> unit_at cs 0 = UCHAR_NL then split_lines cs
      else if c = UCHAR_CR \<or> c = UCHAR_NL then [] # split_lines cs
      else (c # hd (split_lines cs)) # tl (split_lines cs))"

fun line_lens :: "int \<Rightarrow> ustring \<Rightarrow> int list" where
  "line_lens k [] = [k]"
| "line_lens k (c # cs) =
     (if c = UCHAR_CR \<and> unit_at cs 0 = UCHAR_NL then line_lens k cs
      else if c = UCHAR_CR \<or> c = UCHAR_NL then k # line_lens 0 cs
      else line_lens (k + 1) cs)"

text \<open>Does the first line of the string end in CR LF?\<close>

fun first_ends_crlf :: "ustring \<Rightarrow> bool" where
  "first_ends_crlf [] = False"
| "first_ends_crlf (c # cs) =
     (if c = UCHAR_CR then unit_at cs 0 = UCHAR_NL
      else if c = UCHAR_NL then False
      else first_ends_crlf cs)"

section \<open>The statistics are those of the lines\<close>

lemma split_lines_nonempty [simp]: "split_lines s \<noteq> []"
  by (induction s) auto

lemma line_lens_nonempty [simp]: "line_lens k s \<noteq> []"
  by (induction k s rule: line_lens.induct) auto

lemma line_lens_add: "line_lens (k + j) s = (hd (line_lens k s) + j) # tl (line_lens k s)"
  by (induction k s rule: line_lens.induct) (auto simp: algebra_simps)

lemma line_lens_split: "line_lens 0 s = map (int \<circ> length) (split_lines s)"
proof (induction s)
  case (Cons c cs)
  have "line_lens 1 cs = (hd (line_lens 0 cs) + 1) # tl (line_lens 0 cs)"
    using line_lens_add [of 0 1 cs] by simp
  with Cons show ?case by (cases "split_lines cs") (auto simp: list.map_sel)
qed simp

lemma class_index_inj: "c < 127 \<Longrightarrow> class_index c = class_index d \<longleftrightarrow> c = d"
  unfolding class_index_def by (auto simp: word_less_nat_alt word_unat_eq_iff)

lemma analyze_simps:
  "char_counts (remember_semis s) = char_counts s" "this_line (remember_semis s) = this_line s"
  "max_line (remember_semis s) = max_line s" "first_line (remember_semis s) = first_line s"
  "crlf_count (remember_semis s) = crlf_count s"
  "char_counts (track_trailing_ws p s) = char_counts s" "this_line (track_trailing_ws p s) = this_line s"
  "max_line (track_trailing_ws p s) = max_line s" "first_line (track_trailing_ws p s) = first_line s"
  "crlf_count (track_trailing_ws p s) = crlf_count s"
  "char_counts (count_char c s) = (char_counts s)(class_index c := char_counts s (class_index c) + 1)"
  "this_line (count_char c s) = this_line s" "max_line (count_char c s) = max_line s"
  "first_line (count_char c s) = first_line s" "crlf_count (count_char c s) = crlf_count s"
  by (simp_all add: remember_semis_def track_trailing_ws_def count_char_def)

lemma char_counts_step:
  "char_counts (analyze_char p c d s) =
     (char_counts s)(class_index c := char_counts s (class_index c) + 1)"
  by (simp add: analyze_char_def end_line_def Let_def analyze_simps)

lemma char_counts_loop:
  "char_counts (analyze_loop p str s) i = char_counts s i + int (count_list (map class_index str) i)"
  by (induction p str s rule: analyze_loop.induct) (auto simp: analyze_simps char_counts_step)

lemma this_line_loop: "this_line (analyze_loop p str s) = last (line_lens (this_line s) str)"
  by (induction p str s rule: analyze_loop.induct)
    (auto simp: analyze_simps analyze_char_def end_line_def Let_def)

lemma terminators_loop:
  "stats_num_lines (analyze_loop p str s) = stats_num_lines s + int (length (line_lens k str)) - 1"
proof (induction p str s arbitrary: k rule: analyze_loop.induct)
  case (2 p c rest s)
  show ?case
    by (subst analyze_loop.simps, subst "2.IH" [of "if c = UCHAR_CR \<or> c = UCHAR_NL then (if unit_at rest 0 = UCHAR_NL \<and> c = UCHAR_CR then k else 0) else k + 1"])
     (auto simp: stats_num_lines_def analyze_simps analyze_char_def end_line_def Let_def class_index_inj)
qed (simp add: stats_num_lines_def analyze_simps)

definition nls :: "str_stats \<Rightarrow> int" where
  "nls s = char_counts s (class_index UCHAR_NL) + char_counts s (class_index UCHAR_CR)"

lemma nls_step: "nls (analyze_char p c d s) = nls s + (if c = UCHAR_CR \<or> c = UCHAR_NL then 1 else 0)"
  by (auto simp: nls_def char_counts_step class_index_inj)

lemma this_line_step:
  "this_line (analyze_char p c d s) =
     (if c = UCHAR_CR \<and> d = UCHAR_NL then this_line s
      else if c = UCHAR_CR \<or> c = UCHAR_NL then 0 else this_line s + 1)"
  by (simp add: analyze_char_def end_line_def Let_def analyze_simps)

lemma line_ends_step:
  assumes "c = UCHAR_CR \<or> c = UCHAR_NL" "\<not> (c = UCHAR_CR \<and> d = UCHAR_NL)"
  shows "max_line (analyze_char p c d s) =
           (if nls s = 0 then this_line s else max (max_line s) (this_line s))"
    and "first_line (analyze_char p c d s) = (if nls s = 0 then this_line s else first_line s)"
proof -
  have "(char_counts (count_char c s)) (class_index UCHAR_NL) + (char_counts (count_char c s)) (class_index UCHAR_CR) = nls s + 1"
    using assms by (auto simp: nls_def analyze_simps class_index_inj)
  then show "max_line (analyze_char p c d s) =
           (if nls s = 0 then this_line s else max (max_line s) (this_line s))"
    and "first_line (analyze_char p c d s) = (if nls s = 0 then this_line s else first_line s)"
    using assms by (auto simp: analyze_char_def end_line_def Let_def analyze_simps max_def)
qed

lemma line_continues_step:
  assumes "c \<noteq> UCHAR_CR \<and> c \<noteq> UCHAR_NL \<or> c = UCHAR_CR \<and> d = UCHAR_NL"
  shows "max_line (analyze_char p c d s) = max_line s" "first_line (analyze_char p c d s) = first_line s"
  using assms by (auto simp: analyze_char_def Let_def analyze_simps)

lemma max_line_loop:
  assumes "0 \<le> nls s" "nls s = 0 \<Longrightarrow> max_line s = 0" "0 \<le> this_line s"
  shows "max_line (analyze_loop p str s) = foldl max (max_line s) (butlast (line_lens (this_line s) str))"
  using assms
proof (induction p str s rule: analyze_loop.induct)
  case (1 p s) then show ?case by (simp add: analyze_simps)
next
  case (2 p c rest s)
  let ?s = "analyze_char p c (unit_at rest 0) s"
  consider (ends) "c = UCHAR_CR \<or> c = UCHAR_NL" "\<not> (c = UCHAR_CR \<and> unit_at rest 0 = UCHAR_NL)"
    | (cont) "c \<noteq> UCHAR_CR \<and> c \<noteq> UCHAR_NL \<or> c = UCHAR_CR \<and> unit_at rest 0 = UCHAR_NL" by blast
  then show ?case
  proof cases
    case ends
    then have "max_line ?s = max (max_line s) (this_line s)" "this_line ?s = 0" "0 < nls ?s"
      using "2.prems" by (auto simp: line_ends_step this_line_step nls_step)
    with ends "2.IH" show ?thesis by auto
  next
    case cont
    then have "max_line ?s = max_line s" by (simp add: line_continues_step)
    moreover have "0 \<le> nls ?s" "nls ?s = 0 \<Longrightarrow> max_line ?s = 0" "0 \<le> this_line ?s"
      using "2.prems" cont \<open>max_line ?s = max_line s\<close> by (auto simp: nls_step this_line_step)
    ultimately show ?thesis using cont "2.IH" by (auto simp: this_line_step)
  qed
qed

lemma first_line_stable: "0 < nls s \<Longrightarrow> first_line (analyze_loop p str s) = first_line s"
proof (induction p str s rule: analyze_loop.induct)
  case (2 p c rest s)
  have "first_line (analyze_char p c (unit_at rest 0) s) = first_line s"
    using "2.prems" line_ends_step(2) [of c "unit_at rest 0" p s] line_continues_step(2) [of c "unit_at rest 0" p s]
    by (cases "(c = UCHAR_CR \<or> c = UCHAR_NL) \<and> \<not> (c = UCHAR_CR \<and> unit_at rest 0 = UCHAR_NL)") auto
  with 2 show ?case by (simp add: nls_step)
qed (simp add: analyze_simps)

lemma first_line_loop:
  assumes "nls s = 0"
  shows "first_line (analyze_loop p str s) =
     (if length (line_lens (this_line s) str) = 1 \<or> first_ends_crlf str then first_line s
      else hd (line_lens (this_line s) str))"
  using assms
proof (induction p str s rule: analyze_loop.induct)
  case (1 p s) then show ?case by (simp add: analyze_simps)
next
  case (2 p c rest s)
  let ?s = "analyze_char p c (unit_at rest 0) s"
  consider (crlf) "c = UCHAR_CR" "unit_at rest 0 = UCHAR_NL"
    | (ends) "c = UCHAR_CR \<or> c = UCHAR_NL" "\<not> (c = UCHAR_CR \<and> unit_at rest 0 = UCHAR_NL)"
    | (cont) "c \<noteq> UCHAR_CR" "c \<noteq> UCHAR_NL" by blast
  then show ?case
  proof cases
    case crlf
    then show ?thesis
      using "2.prems" by (simp add: first_line_stable nls_step line_continues_step)
  next
    case ends
    then show ?thesis
      using "2.prems" by (auto simp: first_line_stable nls_step line_ends_step)
  next
    case cont
    with 2 show ?thesis by (simp add: nls_step this_line_step line_continues_step)
  qed
qed

lemma stats_init_simps [simp]:
  "nls stats_init = 0" "max_line stats_init = 0" "this_line stats_init = 0" "first_line stats_init = 0"
  "stats_num_lines stats_init = 1" "char_counts stats_init i = 0"
  by (simp_all add: stats_init_def nls_def stats_num_lines_def)

lemma foldl_max_Max: "foldl max (a::int) xs = Max (set (a # xs))"
proof (induction xs arbitrary: a)
  case (Cons x xs)
  have "Max (set (max a x # xs)) = Max (set (a # x # xs))"
    by (cases "xs = []") (simp_all add: Max_insert max.assoc)
  with Cons show ?case by simp
qed simp

lemma line_lens_nonneg: "0 \<le> k \<Longrightarrow> l \<in> set (line_lens k s) \<Longrightarrow> 0 \<le> l"
  by (induction k s rule: line_lens.induct) (auto split: if_splits)

text \<open>The statistics of a whole string.\<close>

lemma num_lines_eq: "stats_num_lines (analyze_loop None str stats_init) = int (length (split_lines str))"
  using terminators_loop [of None str stats_init 0] by (simp add: line_lens_split)

lemma last_line_simps:
  "stats_num_lines (last_line_stats s) = stats_num_lines s" "this_line (last_line_stats s) = this_line s"
  "char_counts (last_line_stats s) = char_counts s"
  by (simp_all add: last_line_stats_def stats_num_lines_def)

lemma max_line_eq:
  "max_line (analyze_stats str) = Max (set (map (int \<circ> length) (split_lines str)))"
proof -
  let ?L = "map (int \<circ> length) (split_lines str)"
  have L: "?L = butlast ?L @ [last ?L]" by simp
  have m: "max_line (analyze_loop None str stats_init) = foldl max 0 (butlast ?L)"
    by (simp add: max_line_loop line_lens_split)
  have t: "this_line (analyze_loop None str stats_init) = last ?L"
    by (simp add: this_line_loop line_lens_split)
  have "last ?L \<in> set ?L" by (rule last_in_set) simp
  then have nn: "0 \<le> last ?L" by auto
  show ?thesis
  proof (cases "length (split_lines str) = 1")
    case True
    then obtain l where "split_lines str = [l]" by (cases "split_lines str") auto
    with t True show ?thesis
      by (simp add: analyze_stats_def last_line_stats_def num_lines_eq)
  next
    case False
    then have "butlast ?L \<noteq> []" by (cases "split_lines str"; cases "tl (split_lines str)") auto
    have "max_line (analyze_stats str) = max (foldl max 0 (butlast ?L)) (last ?L)"
      using False by (auto simp: analyze_stats_def last_line_stats_def num_lines_eq m t)
    also have "\<dots> = foldl max 0 (butlast ?L @ [last ?L])" by (simp del: append_butlast_last_id)
    also have "\<dots> = foldl max 0 ?L" by (simp only: L [symmetric])
    also have "\<dots> = Max (insert 0 (set ?L))" by (simp add: foldl_max_Max)
    also have "\<dots> = max 0 (Max (set ?L))" by (simp add: Max_insert)
    finally have "max_line (analyze_stats str) = max 0 (Max (set ?L))" .
    moreover have "last ?L \<le> Max (set ?L)" using \<open>last ?L \<in> set ?L\<close> by (intro Max_ge) simp_all
    ultimately show ?thesis using nn by simp
  qed
qed

lemma first_line_eq:
  "first_line (analyze_stats str) =
     (if first_ends_crlf str then 0 else int (length (hd (split_lines str))))"
proof (cases "length (split_lines str) = 1")
  case True
  then obtain l where l: "split_lines str = [l]" by (cases "split_lines str") auto
  have "\<not> first_ends_crlf str"
  proof
    assume "first_ends_crlf str"
    then have "length (split_lines str) \<noteq> 1"
    proof (induction str rule: first_ends_crlf.induct)
      case (2 c cs) then show ?case by (cases cs) (auto split: if_splits)
    qed simp
    with True show False by simp
  qed
  with l show ?thesis
    by (simp add: analyze_stats_def last_line_stats_def num_lines_eq this_line_loop line_lens_split)
next
  case False
  then show ?thesis
    by (simp add: analyze_stats_def last_line_stats_def num_lines_eq first_line_loop line_lens_split list.map_sel)
qed

text \<open>
  C19. The line statistics of an analysis are those of the lines of the string (CR LF, CR and LF
  each end a line), with one deviation: a first line ended by CR LF is reported with length 0.
\<close>

theorem analyze_string_lines:
  "num_lines (cif_analyze_string str u t lim) = int (length (split_lines str))
   \<and> length_max (cif_analyze_string str u t lim) = Max (set (map (int \<circ> length) (split_lines str)))
   \<and> length_last (cif_analyze_string str u t lim) = int (length (last (split_lines str)))
   \<and> length_first (cif_analyze_string str u t lim) =
        (if first_ends_crlf str then 0 else int (length (hd (split_lines str))))"
  by (simp add: cif_analyze_string_def Let_def max_line_eq first_line_eq)
     (simp add: analyze_stats_def last_line_simps num_lines_eq this_line_loop line_lens_split last_map)

lemma prefix_take: "take (length pat) s = pat \<longleftrightarrow> prefix pat s"
  by (metis append_eq_conv_conj prefix_def take_is_prefix)

lemma u_strstr_sublist: "u_strstr s pat \<longleftrightarrow> sublist pat s"
  by (induction s) (simp_all add: sublist_Cons_right prefix_take del: take_Cons)

lemma stats_num_lines_stats: "stats_num_lines (analyze_stats str) = int (length (split_lines str))"
  by (simp add: analyze_stats_def last_line_simps num_lines_eq)

lemma counts_eq:
  "c < 127 \<Longrightarrow> char_counts (analyze_stats str) (class_index c) = int (count_list str c)"
proof -
  assume c: "c < 127"
  have "count_list (map class_index str) (class_index c) = count_list str c"
    using c by (induction str) (auto simp: class_index_inj [of c, symmetric] dest: class_index_inj [THEN iffD1, OF c sym])
  then show ?thesis by (simp add: analyze_stats_def last_line_simps char_counts_loop)
qed
lemma single_line: "length (split_lines str) = 1 \<longleftrightarrow> UCHAR_CR \<notin> set str \<and> UCHAR_NL \<notin> set str"
proof (induction str)
  case (Cons c cs) then show ?case by (cases cs) auto
qed simp

section \<open>The delimiters are safe\<close>

definition delim_ok :: "ustring \<Rightarrow> bool \<Rightarrow> bool \<Rightarrow> int \<Rightarrow> ustring \<Rightarrow> bool" where
  "delim_ok str unq triple lim d \<longleftrightarrow>
     (d = [] \<and> unq \<and> str \<noteq> [] \<and> \<not> cif_is_reserved_string str \<and> hd str \<noteq> UCHAR_SEMI
        \<and> str \<noteq> [UCHAR_QUERY] \<and> str \<noteq> [UCHAR_DECIMAL]
        \<and> set str \<inter> {UCHAR_SP, UCHAR_TAB, UCHAR_CR, UCHAR_NL, UCHAR_OBRK, UCHAR_CBRK, UCHAR_OBRC, UCHAR_CBRC} = {}
        \<and> int (length str) \<le> lim)
     \<or> (\<exists>q \<in> {UCHAR_SQ, UCHAR_DQ}. d = [q] \<and> set str \<inter> {q, UCHAR_CR, UCHAR_NL} = {} \<and> int (length str) + 2 \<le> lim)
     \<or> (\<exists>q \<in> {UCHAR_SQ, UCHAR_DQ}. d = [q, q, q] \<and> triple \<and> str \<noteq> [] \<and> last str \<noteq> q \<and> \<not> sublist [q, q, q] str
          \<and> (if length (split_lines str) = 1 then int (length str) + 6 \<le> lim
             else (\<forall>l \<in> set (split_lines str). int (length l) \<le> lim)
               \<and> int (length (last (split_lines str))) + 3 < lim
               \<and> (first_ends_crlf str \<or> int (length (hd (split_lines str))) + 3 < lim)))
     \<or> d = [UCHAR_NL, UCHAR_SEMI]"

lemma choose_triple_ok:
  assumes "choose_triple str = Some d" "str \<noteq> []"
  shows "\<exists>q \<in> {UCHAR_SQ, UCHAR_DQ}. d = [q, q, q] \<and> last str \<noteq> q \<and> \<not> sublist [q, q, q] str"
  using assms by (auto simp: choose_triple_def Let_def u_strstr_sublist apos3_delim_def quot3_delim_def
      unit_at_def last_conv_nth split: if_splits)


lemma max_line_bound:
  "max_line (analyze_stats str) \<le> lim \<longleftrightarrow> (\<forall>l \<in> set (split_lines str). int (length l) \<le> lim)"
  unfolding max_line_eq by (subst Max_le_iff) auto

lemma max_line_single:
  assumes "length (split_lines str) = 1" shows "split_lines str = [str]"
proof -
  have "UCHAR_CR \<notin> set str" "UCHAR_NL \<notin> set str" using assms single_line by blast+
  then show ?thesis by (induction str) auto
qed

lemma allows_unquoted_iff:
  "allows_unquoted str (analyze_stats str) \<longleftrightarrow>
     str \<noteq> [] \<and> \<not> cif_is_reserved_string str \<and> hd str \<noteq> UCHAR_SEMI
     \<and> str \<noteq> [UCHAR_QUERY] \<and> str \<noteq> [UCHAR_DECIMAL]
     \<and> set str \<inter> {UCHAR_SP, UCHAR_TAB, UCHAR_OBRK, UCHAR_CBRK, UCHAR_OBRC, UCHAR_CBRC} = {}"
proof (cases str)
  case (Cons c cs)
  have "cif_is_reserved_string str" if "c \<in> {UCHAR_SQ, UCHAR_DQ, UCHAR_HASH, UCHAR_DOLLAR, UCHAR_UNDER}"
    using that Cons by (auto simp: cif_is_reserved_string_def Let_def)
  moreover have "(\<Sum>q \<leftarrow> [UCHAR_SP, UCHAR_TAB, UCHAR_OBRK, UCHAR_CBRK, UCHAR_OBRC, UCHAR_CBRC].
      char_counts (analyze_stats str) (class_index q)) = 0 \<longleftrightarrow>
      set str \<inter> {UCHAR_SP, UCHAR_TAB, UCHAR_OBRK, UCHAR_CBRK, UCHAR_OBRC, UCHAR_CBRC} = {}"
    by (simp add: counts_eq of_nat_add [symmetric] count_list_0_iff del: of_nat_add)
  ultimately show ?thesis
    using Cons by (auto simp: allows_unquoted_def Let_def add.assoc)
qed (simp add: allows_unquoted_def)

text \<open>
  C18. The recommended delimiters are always safe: an unquoted presentation is recommended only
  for a non-reserved string without white space, brackets or line ends, a quoted one only
  without its delimiter and line ends, a triple-quoted one only where the closing delimiter
  cannot be recognised early, and every line of these presentations, with the delimiters on it, is within
  the line length limit. There is one exception: where the first line of a triple-quoted string ends in
  CR LF, its length is not looked at, so that only the line without the delimiter is within the limit.
  All that is left is presented as a text block.
\<close>

theorem analyze_string_delim_ok:
  "delim_ok str u t lim (delim (cif_analyze_string str u t lim))"
proof (cases "choose_delim str (analyze_stats str) u t lim")
  case None
  then show ?thesis by (simp add: cif_analyze_string_def delim_ok_def text_delim_def Let_def)
next
  case (Some d)
  let ?s = "analyze_stats str"
  have d: "delim (cif_analyze_string str u t lim) = d" using Some by (simp add: cif_analyze_string_def Let_def)
  have lim: "max_line ?s \<le> lim" using Some by (simp add: choose_delim_def split: if_splits)
  show ?thesis
  proof (cases "length (split_lines str) = 1")
    case True
    then have sl: "split_lines str = [str]" and nl: "UCHAR_CR \<notin> set str" "UCHAR_NL \<notin> set str"
      and m: "max_line ?s = int (length str)"
      using max_line_single single_line max_line_eq [of str] by auto
    consider "d = []" "u" "allows_unquoted str ?s"
      | "d = [UCHAR_SQ]" "int (length str) \<le> lim - 2" "UCHAR_SQ \<notin> set str"
      | "d = [UCHAR_DQ]" "int (length str) \<le> lim - 2" "UCHAR_DQ \<notin> set str"
      | "t" "int (length str) \<le> lim - 6" "choose_triple str = Some d" "UCHAR_SQ \<in> set str"
      using Some lim m True
      by (auto simp: choose_delim_def Let_def stats_num_lines_stats counts_eq apos_delim_def quot_delim_def
          count_list_0_iff split: if_splits)
    then show ?thesis
    proof cases
      case 1 with lim m nl show ?thesis unfolding d delim_ok_def by (simp add: allows_unquoted_iff)
    next
      case 2 with nl show ?thesis unfolding d delim_ok_def by simp
    next
      case 3 with nl show ?thesis unfolding d delim_ok_def by simp
    next
      case 4
      then have "str \<noteq> []" by auto
      with 4 choose_triple_ok [OF 4(3)] sl show ?thesis unfolding d delim_ok_def by auto
    qed
  next
    case False
    then have "str \<noteq> []" by auto
    moreover have "this_line ?s = int (length (last (split_lines str)))"
      by (simp add: analyze_stats_def last_line_simps this_line_loop line_lens_split last_map)
    ultimately have *: "t" "int (length (last (split_lines str))) < lim - 3" "choose_triple str = Some d"
      "first_ends_crlf str \<or> int (length (hd (split_lines str))) < lim - 3"
      using Some lim False
      by (auto simp: choose_delim_def Let_def stats_num_lines_stats first_line_eq split: if_splits)
    have "\<forall>l \<in> set (split_lines str). int (length l) \<le> lim" using lim by (simp add: max_line_bound)
    moreover obtain q where q: "q \<in> {UCHAR_SQ, UCHAR_DQ}" "d = [q, q, q]" "last str \<noteq> q" "\<not> sublist [q, q, q] str"
      using choose_triple_ok [OF *(3) \<open>str \<noteq> []\<close>] by blast
    moreover have "first_ends_crlf str \<or> int (length (hd (split_lines str))) + 3 < lim" using *(4) by linarith
    ultimately have "t \<and> str \<noteq> [] \<and> last str \<noteq> q \<and> \<not> sublist [q, q, q] str
        \<and> (if length (split_lines str) = 1 then int (length str) + 6 \<le> lim
           else (\<forall>l \<in> set (split_lines str). int (length l) \<le> lim)
             \<and> int (length (last (split_lines str))) + 3 < lim
             \<and> (first_ends_crlf str \<or> int (length (hd (split_lines str))) + 3 < lim))"
      using * \<open>str \<noteq> []\<close> False by simp
    then show ?thesis using q(1,2) unfolding d delim_ok_def by blast
  qed
qed

text \<open>The exception happens: a first line of five units and the delimiter, where the limit is five.\<close>

lemma crlf_first_line_exceeds:
  "delim (cif_analyze_string [0x61, 0x61, 0x61, 0x61, 0x61, UCHAR_CR, UCHAR_NL, 0x62] False True 5) = apos3_delim"
  by code_simp

end
