(* ===== verification/Values.thy ===== *)
theory Values
  imports Analyze
begin

text \<open>
  CIF values (src/value.c): the data model, the operations that create, re-initialise, clone
  and re-quote a value, the list operations, and the conversion between numbers and their
  text. Table entries are handled by the map component (theory CifMap).

  A value object is a HOL value; an operation that modifies an object returns the object's
  new contents with its result code. Digit strings are strings of the digits' code units
  (the code keeps them as C strings over the same codes). Memory allocation does not fail.
\<close>

section \<open>Data\<close>

datatype cif_kind =
  CIF_CHAR_KIND | CIF_NUMB_KIND | CIF_LIST_KIND | CIF_TABLE_KIND | CIF_NA_KIND | CIF_UNK_KIND

datatype cif_quoted = CIF_NOT_QUOTED | CIF_QUOTED

text \<open>
  A number holds its text, sign, digits, optional digits of its uncertainty, and scale. The
  entries of a table are in insertion order: normalised key, original key, value; the original
  key is \<open>None\<close> when it is the same object as the normalised key (\<open>key_orig == key\<close> in the code).
\<close>

datatype cif_value =
    UnkValue
  | NaValue
  | CharValue cif_quoted ustring
  | NumbValue cif_quoted ustring int ustring "ustring option" int
  | ListValue "cif_value list"
  | TableValue "(ustring \<times> ustring option \<times> cif_value) list"

text \<open>The text of an entry's original key.\<close>

definition orig_key :: "ustring \<Rightarrow> ustring option \<Rightarrow> ustring" where
  "orig_key key key_orig = (case key_orig of None \<Rightarrow> key | Some k \<Rightarrow> k)"

fun cif_value_kind :: "cif_value \<Rightarrow> cif_kind" where
  "cif_value_kind UnkValue = CIF_UNK_KIND"
| "cif_value_kind NaValue = CIF_NA_KIND"
| "cif_value_kind (CharValue _ _) = CIF_CHAR_KIND"
| "cif_value_kind (NumbValue _ _ _ _ _ _) = CIF_NUMB_KIND"
| "cif_value_kind (ListValue _) = CIF_LIST_KIND"
| "cif_value_kind (TableValue _) = CIF_TABLE_KIND"

section \<open>Creation, cleaning, cloning\<close>

text \<open>What \<open>cif_value_init_numb(_, 0.0, 0.0, 0, 1)\<close> makes: the exact number 0.\<close>

definition zero_numb :: cif_value where
  "zero_numb = NumbValue CIF_NOT_QUOTED [UCHAR_0] 1 [UCHAR_0] None 0"

fun cif_value_create :: "cif_kind \<Rightarrow> cif_value" where
  "cif_value_create CIF_CHAR_KIND = CharValue CIF_QUOTED []"
| "cif_value_create CIF_NUMB_KIND = zero_numb"
| "cif_value_create CIF_LIST_KIND = ListValue []"
| "cif_value_create CIF_TABLE_KIND = TableValue []"
| "cif_value_create CIF_NA_KIND = NaValue"
| "cif_value_create CIF_UNK_KIND = UnkValue"

text \<open>Cleaning releases the components and leaves an unknown value, whatever the value was.\<close>

definition cif_value_clean :: "cif_value \<Rightarrow> cif_value" where
  "cif_value_clean v = UnkValue"

definition cif_value_init :: "cif_value \<Rightarrow> cif_kind \<Rightarrow> int \<times> cif_value" where
  "cif_value_init v kind =
     (case kind of
        CIF_NUMB_KIND \<Rightarrow> (CIF_OK, zero_numb)
      | CIF_CHAR_KIND \<Rightarrow> (CIF_OK, CharValue CIF_QUOTED [])
      | CIF_LIST_KIND \<Rightarrow> (CIF_OK, ListValue [])
      | CIF_TABLE_KIND \<Rightarrow> (CIF_OK, TableValue [])
      | CIF_NA_KIND \<Rightarrow> (CIF_OK, NaValue)
      | CIF_UNK_KIND \<Rightarrow> (CIF_OK, cif_value_clean v))"

definition cif_value_init_char :: "cif_value \<Rightarrow> ustring option \<Rightarrow> int \<times> cif_value" where
  "cif_value_init_char v text =
     (case text of None \<Rightarrow> (CIF_ARGUMENT_ERROR, v) | Some t \<Rightarrow> (CIF_OK, CharValue CIF_QUOTED t))"

definition cif_value_copy_char :: "cif_value \<Rightarrow> ustring option \<Rightarrow> int \<times> cif_value" where
  "cif_value_copy_char v text =
     (case text of None \<Rightarrow> (CIF_ARGUMENT_ERROR, v) | Some t \<Rightarrow> cif_value_init_char v (Some t))"

text \<open>
  Cloning rebuilds every component, element by element and entry by entry; both keys of an
  entry are duplicated, so the clone never shares them.
\<close>

fun cif_value_clone :: "cif_value \<Rightarrow> cif_value" where
  "cif_value_clone (CharValue q t) = CharValue q t"
| "cif_value_clone (NumbValue q t sign d su scale) =
     NumbValue q t sign d (case su of None \<Rightarrow> None | Some s \<Rightarrow> Some s) scale"
| "cif_value_clone (ListValue es) = ListValue (map cif_value_clone es)"
| "cif_value_clone (TableValue es) =
     TableValue (map (\<lambda>(key, key_orig, v). (key, Some (orig_key key key_orig), cif_value_clone v)) es)"
| "cif_value_clone UnkValue = UnkValue"
| "cif_value_clone NaValue = NaValue"

fun cif_value_get_text :: "cif_value \<Rightarrow> ustring option" where
  "cif_value_get_text (CharValue _ t) = Some t"
| "cif_value_get_text (NumbValue _ t _ _ _ _) = Some t"
| "cif_value_get_text _ = None"

section \<open>Quoting\<close>

fun cif_value_is_quoted :: "cif_value \<Rightarrow> cif_quoted" where
  "cif_value_is_quoted (CharValue q _) = q"
| "cif_value_is_quoted (NumbValue q _ _ _ _ _) = q"
| "cif_value_is_quoted _ = CIF_NOT_QUOTED"

definition hard_disallowed_chars :: "uchar list" where
  "hard_disallowed_chars = [UCHAR_SP, UCHAR_TAB, UCHAR_NL, UCHAR_CR]"

definition disallowed_chars :: "uchar list" where
  "disallowed_chars = [UCHAR_OBRK, UCHAR_CBRK, UCHAR_OBRC, UCHAR_CBRC] @ hard_disallowed_chars"

text \<open>\<open>u_strpbrk\<close>: the rest of the string from the first unit that is in the set.\<close>

definition u_strpbrk :: "ustring \<Rightarrow> uchar list \<Rightarrow> ustring option" where
  "u_strpbrk s chars =
     (let tail = dropWhile (\<lambda>c. c \<notin> set chars) s in if tail = [] then None else Some tail)"

fun cif_value_set_quoted_impl :: "cif_value \<Rightarrow> cif_quoted \<Rightarrow> int \<Rightarrow> int \<times> cif_value" where
  "cif_value_set_quoted_impl UnkValue q _ =
     (if q = CIF_QUOTED then cif_value_copy_char UnkValue (Some [UCHAR_QUERY]) else (CIF_OK, UnkValue))"
| "cif_value_set_quoted_impl NaValue q _ =
     (if q = CIF_QUOTED then cif_value_copy_char NaValue (Some [UCHAR_DECIMAL]) else (CIF_OK, NaValue))"
| "cif_value_set_quoted_impl (ListValue es) q _ =
     (if q = CIF_QUOTED then CIF_ARGUMENT_ERROR else CIF_OK, ListValue es)"
| "cif_value_set_quoted_impl (TableValue es) q _ =
     (if q = CIF_QUOTED then CIF_ARGUMENT_ERROR else CIF_OK, TableValue es)"
| "cif_value_set_quoted_impl (NumbValue _ t sign d su scale) q _ =
     (CIF_OK, NumbValue q t sign d su scale)"
| "cif_value_set_quoted_impl (CharValue q0 t) q conditional_char_result =
     (if q = CIF_QUOTED \<or> q0 = CIF_NOT_QUOTED then (CIF_OK, CharValue q t)
      else if unit_at t 0 = 0 then (CIF_ARGUMENT_ERROR, CharValue q0 t)
      else if t = [UCHAR_QUERY] then cif_value_init (CharValue q0 t) CIF_UNK_KIND
      else if t = [UCHAR_DECIMAL] then cif_value_init (CharValue q0 t) CIF_NA_KIND
      else if cif_is_reserved_string t then (CIF_ARGUMENT_ERROR, CharValue q0 t)
      else (case u_strpbrk t disallowed_chars of
              None \<Rightarrow> (CIF_OK, CharValue q t)
            | Some tail \<Rightarrow>
                if u_strpbrk tail hard_disallowed_chars \<noteq> None
                then (CIF_ARGUMENT_ERROR, CharValue q0 t)
                else (conditional_char_result, CharValue q0 t)))"

definition cif_value_set_quoted :: "cif_value \<Rightarrow> cif_quoted \<Rightarrow> int \<times> cif_value" where
  "cif_value_set_quoted v q = cif_value_set_quoted_impl v q CIF_ARGUMENT_ERROR"

definition cif_value_try_quoted :: "cif_value \<Rightarrow> cif_quoted \<Rightarrow> int \<times> cif_value" where
  "cif_value_try_quoted v q = cif_value_set_quoted_impl v q CIF_OK"

section \<open>Lists\<close>

text \<open>The element count is HASH_COUNT of the entries for a table.\<close>

fun cif_value_get_element_count :: "cif_value \<Rightarrow> nat res" where
  "cif_value_get_element_count (ListValue es) = Inr (length es)"
| "cif_value_get_element_count (TableValue es) = Inr (length es)"
| "cif_value_get_element_count _ = Inl CIF_ARGUMENT_ERROR"

fun cif_value_get_element_at :: "cif_value \<Rightarrow> nat \<Rightarrow> cif_value res" where
  "cif_value_get_element_at (ListValue es) i =
     (if i \<ge> length es then Inl CIF_INVALID_INDEX else Inr (es ! i))"
| "cif_value_get_element_at _ _ = Inl CIF_ARGUMENT_ERROR"

text \<open>The new element is cloned into the list; \<open>None\<close> is the NULL pointer.\<close>

fun cif_value_set_element_at :: "cif_value \<Rightarrow> nat \<Rightarrow> cif_value option \<Rightarrow> int \<times> cif_value" where
  "cif_value_set_element_at (ListValue es) i element =
     (if i \<ge> length es then (CIF_INVALID_INDEX, ListValue es)
      else (case element of
              None \<Rightarrow> (CIF_OK, ListValue (es[i := cif_value_clean (es ! i)]))
            | Some e \<Rightarrow> (CIF_OK, ListValue (es[i := cif_value_clone e]))))"
| "cif_value_set_element_at v _ _ = (CIF_ARGUMENT_ERROR, v)"

text \<open>The loop that moves the elements from \<open>index\<close> on one place back, from the end.\<close>

fun shift_back :: "nat \<Rightarrow> nat \<Rightarrow> cif_value list \<Rightarrow> cif_value list" where
  "shift_back index 0 elements = elements"
| "shift_back index (Suc k) elements =
     (if Suc k > index then shift_back index k (elements[Suc k := elements ! k]) else elements)"

fun cif_value_insert_element_at :: "cif_value \<Rightarrow> nat \<Rightarrow> cif_value option \<Rightarrow> int \<times> cif_value" where
  "cif_value_insert_element_at (ListValue es) i element =
     (if i > length es then (CIF_INVALID_INDEX, ListValue es)
      else
        (let clone = (case element of None \<Rightarrow> cif_value_create CIF_UNK_KIND | Some e \<Rightarrow> cif_value_clone e);
             grown = es @ [UnkValue] \<comment> \<open>one place more; its contents are overwritten\<close>
         in (CIF_OK, ListValue ((shift_back i (length es) grown)[i := clone]))))"
| "cif_value_insert_element_at v _ _ = (CIF_ARGUMENT_ERROR, v)"

text \<open>
  The loop that moves the elements after \<open>index\<close> one place forward; \<open>n\<close> counts the moves left.
\<close>

fun shift_forward :: "nat \<Rightarrow> nat \<Rightarrow> cif_value list \<Rightarrow> cif_value list" where
  "shift_forward index 0 elements = elements"
| "shift_forward index (Suc n) elements =
     shift_forward (Suc index) n (elements[index := elements ! Suc index])"

text \<open>The second component of a success is the removed element.\<close>

fun cif_value_remove_element_at :: "cif_value \<Rightarrow> nat \<Rightarrow> cif_value res \<times> cif_value" where
  "cif_value_remove_element_at (ListValue es) i =
     (if i \<ge> length es then (Inl CIF_INVALID_INDEX, ListValue es)
      else (Inr (es ! i),
            ListValue (take (length es - 1) (shift_forward i (length es - 1 - i) es))))"
| "cif_value_remove_element_at v _ = (Inl CIF_ARGUMENT_ERROR, v)"

section \<open>Numbers and their text\<close>

definition is_digit :: "uchar \<Rightarrow> bool" where
  "is_digit c \<longleftrightarrow> UCHAR_0 \<le> c \<and> c \<le> UCHAR_9"

text \<open>The optional sign: the sign and the rest of the text.\<close>

definition parse_sign :: "ustring \<Rightarrow> int \<times> ustring" where
  "parse_sign s =
     (if unit_at s 0 = UCHAR_MINUS then (-1, tl s)
      else if unit_at s 0 = UCHAR_PLUS then (1, tl s)
      else (1, s))"

text \<open>The digit string with at most one decimal point, and the rest of the text.\<close>

fun scan_mantissa :: "bool \<Rightarrow> ustring \<Rightarrow> ustring \<times> ustring" where
  "scan_mantissa seen [] = ([], [])"
| "scan_mantissa seen (c # cs) =
     (if is_digit c \<or> (c = UCHAR_DECIMAL \<and> \<not> seen) then
        (let (m, r) = scan_mantissa (seen \<or> c = UCHAR_DECIMAL) cs in (c # m, r))
      else ([], c # cs))"

text \<open>Consume leading zeroes and the decimal point while more than one character is left.\<close>

fun strip_zeroes :: "ustring \<Rightarrow> ustring" where
  "strip_zeroes (c # d # cs) =
     (if c = UCHAR_0 \<or> c = UCHAR_DECIMAL then strip_zeroes (d # cs) else c # d # cs)"
| "strip_zeroes s = s"

definition digit_value :: "uchar \<Rightarrow> int" where
  "digit_value c = uint c - uint UCHAR_0"

text \<open>The value of the exponent's digits; C computes it in an \<open>int\<close>, here unbounded.\<close>

definition exponent_value :: "ustring \<Rightarrow> int" where
  "exponent_value ds = foldl (\<lambda>e c. e * 10 + digit_value c) 0 ds"

text \<open>The optional exponent: the scale it gives and the rest.\<close>

definition parse_exponent :: "ustring \<Rightarrow> (int \<times> ustring) res" where
  "parse_exponent s =
     (if unit_at s 0 = UCHAR_E \<or> unit_at s 0 = UCHAR_e then
        (let (exp_sign, s) = parse_sign (tl s);
             ds = takeWhile is_digit s
         in if ds = [] then Inl CIF_INVALID_NUMBER
            else Inr (exponent_value ds * (- exp_sign), dropWhile is_digit s))
      else Inr (0, s))"

text \<open>The optional uncertainty in parentheses, without its leading zeroes, and the rest.\<close>

definition parse_su :: "ustring \<Rightarrow> (ustring option \<times> ustring) res" where
  "parse_su s =
     (if unit_at s 0 = UCHAR_OPEN then
        (let ds = takeWhile is_digit (tl s); r = dropWhile is_digit (tl s)
         in if ds = [] \<or> unit_at r 0 \<noteq> UCHAR_CLOSE then Inl CIF_INVALID_NUMBER
            else Inr (Some (strip_zeroes ds), tl r))
      else Inr (None, s))"

definition cif_value_parse_numb :: "cif_value \<Rightarrow> ustring \<Rightarrow> int \<times> cif_value" where
  "cif_value_parse_numb n text =
     (let (sign, s) = parse_sign text;
          (mant, s) = scan_mantissa False s;
          num_decimal = (if UCHAR_DECIMAL \<in> set mant then 1 else 0)
      in if length mant \<le> num_decimal then (CIF_INVALID_NUMBER, n)
         else
           (let mant = (if last mant = UCHAR_DECIMAL then butlast mant else mant);
                fraction = (if UCHAR_DECIMAL \<in> set mant
                            then length (tl (dropWhile (\<lambda>c. c \<noteq> UCHAR_DECIMAL) mant)) else 0);
                digits = filter (\<lambda>c. c \<noteq> UCHAR_DECIMAL) (strip_zeroes mant)
            in case parse_exponent s of
                 Inl e \<Rightarrow> (e, n)
               | Inr (scale, s) \<Rightarrow>
                   (case parse_su s of
                      Inl e \<Rightarrow> (e, n)
                    | Inr (su, s) \<Rightarrow>
                        if unit_at s 0 \<noteq> 0 then (CIF_INVALID_NUMBER, n)
                        else (CIF_OK, NumbValue CIF_NOT_QUOTED text sign digits su
                                        (scale + int fraction)))))"

text \<open>The macro WRITE_SU.\<close>

definition write_su :: "ustring option \<Rightarrow> ustring" where
  "write_su su = (case su of None \<Rightarrow> [] | Some s \<Rightarrow> [UCHAR_OPEN] @ s @ [UCHAR_CLOSE])"

text \<open>
  The two formatters: \<open>negative\<close> is \<open>sign_num < 0\<close>; \<open>su\<close> and \<open>su_size\<close> come together as an
  option. The result is too long for a line, or the text.
\<close>

definition su_chars :: "ustring option \<Rightarrow> int" where
  "su_chars su = (case su of None \<Rightarrow> 0 | Some s \<Rightarrow> if s = [] then 0 else int (length s) + 2)"

definition format_text_decimal :: "bool \<Rightarrow> ustring \<Rightarrow> ustring option \<Rightarrow> int \<Rightarrow> ustring res" where
  "format_text_decimal negative digits su scale =
     (let val_digits = int (length digits);
          total_chars = (if negative then 1 else 0)
            + (if val_digits \<le> scale then scale + 1 else val_digits)
            + (if scale = 0 then 0 else 1) + su_chars su + 1;
          whole_digits = val_digits - scale
      in if total_chars \<le> CIF_LINE_LENGTH + 1 then
           Inr ((if negative then [UCHAR_MINUS] else [])
                @ (if whole_digits \<le> 0
                   then [UCHAR_0, UCHAR_DECIMAL] @ replicate (nat (- whole_digits)) UCHAR_0 @ digits
                   else take (nat whole_digits) digits @ (if scale > 0 then [UCHAR_DECIMAL] else [])
                        @ drop (nat whole_digits) digits)
                @ write_su su)
         else Inl CIF_ARGUMENT_ERROR)"

text \<open>The \<open>n\<close> low decimal digits of a non-negative number, most significant first.\<close>

fun decimal_digits :: "nat \<Rightarrow> nat \<Rightarrow> ustring" where
  "decimal_digits 0 m = []"
| "decimal_digits (Suc n) m = decimal_digits n (m div 10) @ [UCHAR_0 + of_nat (m mod 10)]"

text \<open>
  The number of decimal digits of a number: what \<open>(int) log10(m + 0.5) + 1\<close> computes.
\<close>

fun digit_count :: "nat \<Rightarrow> nat" where
  "digit_count m = (if m < 10 then 1 else digit_count (m div 10) + 1)"

declare digit_count.simps [simp del]

definition format_text_sci :: "bool \<Rightarrow> ustring \<Rightarrow> ustring option \<Rightarrow> int \<Rightarrow> ustring res" where
  "format_text_sci negative digits su scale =
     (let val_digits = int (length digits);
          most_significant_place = (if val_digits \<noteq> 0 then val_digits - 1 else 0) - scale;
          exponent_digits = max 2 (digit_count (nat \<bar>most_significant_place\<bar>));
          total_chars = (if negative then 1 else 0)
            + (if val_digits > 1 then val_digits + 1 else 1)
            + int exponent_digits + 2 + su_chars su + 1
      in if total_chars \<le> CIF_LINE_LENGTH + 1 then
           Inr ((if negative then [UCHAR_MINUS] else [])
                @ (case digits of
                     [] \<Rightarrow> [UCHAR_0]
                   | [d] \<Rightarrow> [d]
                   | d # ds \<Rightarrow> [d, UCHAR_DECIMAL] @ ds)
                @ [UCHAR_e, if most_significant_place < 0 then UCHAR_MINUS else UCHAR_PLUS]
                @ decimal_digits exponent_digits (nat \<bar>most_significant_place\<bar>)
                @ write_su su)
         else Inl CIF_ARGUMENT_ERROR)"

definition cif_value_convert_to_numb :: "cif_value \<Rightarrow> int \<times> cif_value" where
  "cif_value_convert_to_numb n =
     (case cif_value_get_text n of
        None \<Rightarrow> (CIF_INVALID_NUMBER, n) \<comment> \<open>not reached: called for character values only\<close>
      | Some text \<Rightarrow>
          (let quoted = cif_value_is_quoted n; (result, n') = cif_value_parse_numb n text
           in if result = CIF_OK \<and> quoted = CIF_QUOTED then cif_value_set_quoted n' quoted
              else (result, n')))"

section \<open>Cloning\<close>

text \<open>No table in the value, at any depth, has an entry whose two keys are one object.\<close>

fun keys_owned :: "cif_value \<Rightarrow> bool" where
  "keys_owned (ListValue es) = list_all keys_owned es"
| "keys_owned (TableValue es) = list_all (\<lambda>(_, key_orig, v). key_orig \<noteq> None \<and> keys_owned v) es"
| "keys_owned _ = True"

lemma clone_kind [simp]: "cif_value_kind (cif_value_clone v) = cif_value_kind v"
  by (cases v) simp_all

lemma clone_text [simp]: "cif_value_get_text (cif_value_clone v) = cif_value_get_text v"
  by (cases v) simp_all

lemma clone_owned: "keys_owned (cif_value_clone v)"
  by (induction v rule: cif_value_clone.induct) (auto simp: list_all_iff)

lemma clone_id: "keys_owned v \<Longrightarrow> cif_value_clone v = v"
proof (induction v rule: cif_value_clone.induct)
  case (2 q t sign d su scale)
  then show ?case by (cases su) simp_all
next
  case (3 es)
  then show ?case by (auto simp: list_all_iff intro!: map_idI)
next
  case (4 es)
  then have "map (\<lambda>(key, key_orig, v). (key, Some (orig_key key key_orig), cif_value_clone v)) es = es"
    by (intro map_idI) (auto simp: list_all_iff orig_key_def)
  then show ?case by simp
qed simp_all

lemma clone_clone [simp]: "cif_value_clone (cif_value_clone v) = cif_value_clone v"
  by (rule clone_id) (rule clone_owned)

section \<open>Lists\<close>

lemma length_shift_back [simp]: "length (shift_back i n xs) = length xs"
  by (induction i n xs rule: shift_back.induct) auto

lemma shift_back_nth:
  "i \<le> n \<Longrightarrow> n < length xs \<Longrightarrow>
   shift_back i n xs ! j = (if i < j \<and> j \<le> n then xs ! (j - 1) else xs ! j)"
proof (induction i n xs rule: shift_back.induct)
  case (2 i k xs)
  show ?case
  proof (cases "Suc k > i")
    case True
    then have "i \<le> k" by simp
    then show ?thesis using True 2 by (auto simp: nth_list_update)
  next
    case False
    have "\<not> (i < j \<and> j \<le> Suc k)" using False by linarith
    moreover have "shift_back i (Suc k) xs = xs" using False by simp
    ultimately show ?thesis by metis
  qed
qed simp

lemma shift_back_insert:
  assumes "i \<le> length es"
  shows "(shift_back i (length es) (es @ [u]))[i := x] = take i es @ x # drop i es"
proof (rule nth_equalityI)
  show "length ((shift_back i (length es) (es @ [u]))[i := x]) = length (take i es @ x # drop i es)"
    using assms by simp
next
  fix j assume "j < length ((shift_back i (length es) (es @ [u]))[i := x])"
  then have j: "j \<le> length es" by simp
  consider "j < i" | "j = i" | "j > i" by linarith
  then show "((shift_back i (length es) (es @ [u]))[i := x]) ! j = (take i es @ x # drop i es) ! j"
  proof cases
    case 3
    then obtain k where "j = Suc k" by (cases j) auto
    then show ?thesis using 3 j assms by (simp add: shift_back_nth nth_append)
  qed (use assms j in \<open>auto simp: shift_back_nth nth_append nth_list_update\<close>)
qed

lemma length_shift_forward [simp]: "length (shift_forward i n xs) = length xs"
  by (induction i n xs rule: shift_forward.induct) auto

lemma shift_forward_nth:
  "i + n < length xs \<Longrightarrow>
   shift_forward i n xs ! j = (if i \<le> j \<and> j < i + n then xs ! Suc j else xs ! j)"
  by (induction i n xs rule: shift_forward.induct) (auto simp: nth_list_update)

lemma shift_forward_remove:
  assumes "i < length es"
  shows "take (length es - 1) (shift_forward i (length es - 1 - i) es) = take i es @ drop (Suc i) es"
  by (rule nth_equalityI) (use assms in \<open>auto simp: shift_forward_nth nth_append\<close>)

lemma insert_element_at_eq:
  "i \<le> length es \<Longrightarrow> cif_value_insert_element_at (ListValue es) i element =
     (CIF_OK, ListValue (take i es @ (case element of None \<Rightarrow> UnkValue | Some e \<Rightarrow> cif_value_clone e) # drop i es))"
  by (cases element) (simp_all add: shift_back_insert del: cif_value_create.simps add: cif_value_create.simps)

lemma remove_element_at_eq:
  "i < length es \<Longrightarrow> cif_value_remove_element_at (ListValue es) i =
     (Inr (es ! i), ListValue (take i es @ drop (Suc i) es))"
  using shift_forward_remove [of i es] by simp

text \<open>
  C32. Inserting into a list value puts a clone of the element into the requested place and moves
  the elements from there on one place back; removing at that place gives the clone and the
  original list again; reading there gives the clone.
\<close>

theorem list_insert_remove:
  assumes "i \<le> length es"
  shows "cif_value_insert_element_at (ListValue es) i (Some e) =
           (CIF_OK, ListValue (take i es @ cif_value_clone e # drop i es))
       \<and> cif_value_get_element_at (ListValue (take i es @ cif_value_clone e # drop i es)) i = Inr (cif_value_clone e)
       \<and> cif_value_remove_element_at (ListValue (take i es @ cif_value_clone e # drop i es)) i =
           (Inr (cif_value_clone e), ListValue es)"
proof (intro conjI)
  have len: "i < length (take i es @ cif_value_clone e # drop i es)" using assms by simp
  show "cif_value_insert_element_at (ListValue es) i (Some e) =
          (CIF_OK, ListValue (take i es @ cif_value_clone e # drop i es))"
    using insert_element_at_eq [OF assms, of "Some e"] by simp
  show "cif_value_get_element_at (ListValue (take i es @ cif_value_clone e # drop i es)) i = Inr (cif_value_clone e)"
    using assms by (simp add: nth_append)
  show "cif_value_remove_element_at (ListValue (take i es @ cif_value_clone e # drop i es)) i = (Inr (cif_value_clone e), ListValue es)"
    unfolding remove_element_at_eq [OF len] using assms by (simp add: nth_append)
qed

lemma list_insert_remove_witness:
  "cif_value_remove_element_at (ListValue [NaValue, UnkValue]) 0 = (Inr NaValue, ListValue [UnkValue])"
  using list_insert_remove [of 0 "[UnkValue]" NaValue] by simp

section \<open>Quoting\<close>

lemma u_strpbrk_None_iff [simp]: "u_strpbrk s cs = None \<longleftrightarrow> set s \<inter> set cs = {}"
  unfolding u_strpbrk_def by (auto simp: Let_def dropWhile_eq_Nil_conv)

text \<open>
  Removing the quotation from a character value, when it succeeds, loses nothing: quoting
  the result again gives the original value. The result is the unknown or the not-applicable
  value for a text of one question mark or one period, and otherwise the same text unquoted,
  which is not empty, not reserved, and free of whitespace, brackets and braces.
\<close>

theorem set_quoted_roundtrip:
  assumes "cif_value_set_quoted (CharValue CIF_QUOTED t) CIF_NOT_QUOTED = (CIF_OK, v)"
  shows "cif_value_set_quoted v CIF_QUOTED = (CIF_OK, CharValue CIF_QUOTED t)
       \<and> (v = UnkValue \<and> t = [UCHAR_QUERY]
          \<or> v = NaValue \<and> t = [UCHAR_DECIMAL]
          \<or> v = CharValue CIF_NOT_QUOTED t \<and> unit_at t 0 \<noteq> 0
             \<and> \<not> cif_is_reserved_string t \<and> set t \<inter> set disallowed_chars = {})"
  using assms
  by (auto simp: cif_value_set_quoted_def cif_value_init_def cif_value_clean_def cif_value_copy_char_def cif_value_init_char_def
      split: if_splits option.splits)
lemma set_quoted_roundtrip_witness:
  "cif_value_set_quoted UnkValue CIF_QUOTED = (CIF_OK, CharValue CIF_QUOTED [UCHAR_QUERY])"
  using set_quoted_roundtrip [of "[UCHAR_QUERY]" UnkValue]
  by (simp add: cif_value_set_quoted_def cif_value_init_def cif_value_clean_def)

section \<open>Formatting and parsing numbers\<close>

text \<open>
  A digit string in canonical form: at least one digit, and no leading zero unless it is the
  only digit. An uncertainty is absent or canonical.
\<close>

definition canonical_digits :: "ustring \<Rightarrow> bool" where
  "canonical_digits ds \<longleftrightarrow> ds \<noteq> [] \<and> list_all is_digit ds \<and> (hd ds = UCHAR_0 \<longrightarrow> length ds = 1)"

definition canonical_su :: "ustring option \<Rightarrow> bool" where
  "canonical_su su \<longleftrightarrow> (case su of None \<Rightarrow> True | Some s \<Rightarrow> canonical_digits s)"

lemma is_digit_consts [simp]:
  "is_digit UCHAR_0" "\<not> is_digit UCHAR_DECIMAL" "\<not> is_digit UCHAR_MINUS" "\<not> is_digit UCHAR_PLUS"
  "\<not> is_digit UCHAR_e" "\<not> is_digit UCHAR_OPEN" "\<not> is_digit UCHAR_CLOSE" "\<not> is_digit 0"
  by (simp_all add: is_digit_def)

lemma digit_neq:
  "is_digit c \<Longrightarrow> c \<noteq> UCHAR_DECIMAL \<and> c \<noteq> UCHAR_MINUS \<and> c \<noteq> UCHAR_PLUS"
  by (auto)

lemma takeWhile_digits:
  "list_all is_digit ds \<Longrightarrow> \<not> is_digit (unit_at r 0) \<Longrightarrow>
   takeWhile is_digit (ds @ r) = ds \<and> dropWhile is_digit (ds @ r) = r"
  by (induction ds) (cases r; auto)+

lemma scan_digits:
  "list_all is_digit ds \<Longrightarrow>
   scan_mantissa seen (ds @ r) = (let (m, t) = scan_mantissa seen r in (ds @ m, t))"
proof (induction ds)
  case (Cons d ds)
  then have d: "is_digit d" "d \<noteq> UCHAR_DECIMAL" by auto
  then show ?case using Cons by (simp add: Let_def split: prod.split)
qed simp

lemma scan_stop:
  "\<not> is_digit (unit_at r 0) \<Longrightarrow> unit_at r 0 \<noteq> UCHAR_DECIMAL \<Longrightarrow> scan_mantissa seen r = ([], r)"
  by (cases r) auto

lemma scan_plain:
  "list_all is_digit ds \<Longrightarrow> \<not> is_digit (unit_at r 0) \<Longrightarrow> unit_at r 0 \<noteq> UCHAR_DECIMAL \<Longrightarrow>
   scan_mantissa seen (ds @ r) = (ds, r)"
  by (simp add: scan_digits scan_stop)

lemma scan_fraction:
  "list_all is_digit ds \<Longrightarrow> list_all is_digit fs \<Longrightarrow> \<not> is_digit (unit_at r 0) \<Longrightarrow>
   unit_at r 0 \<noteq> UCHAR_DECIMAL \<Longrightarrow>
   scan_mantissa False (ds @ UCHAR_DECIMAL # fs @ r) = (ds @ UCHAR_DECIMAL # fs, r)"
  by (simp add: scan_digits [of ds] scan_plain)

lemma strip_zeroes_stop: "s = [c] \<or> (s \<noteq> [] \<and> hd s \<noteq> UCHAR_0 \<and> hd s \<noteq> UCHAR_DECIMAL) \<Longrightarrow> strip_zeroes s = s"
  by (cases s rule: strip_zeroes.cases) auto

lemma canonical_hd:
  "canonical_digits ds \<Longrightarrow> (\<exists>c. ds = [c]) \<or> (ds \<noteq> [] \<and> hd ds \<noteq> UCHAR_0 \<and> hd ds \<noteq> UCHAR_DECIMAL)"
  unfolding canonical_digits_def by (cases ds) auto

lemma strip_canonical: "canonical_digits ds \<Longrightarrow> strip_zeroes ds = ds"
  using canonical_hd [of ds] strip_zeroes_stop [of ds] by blast

lemma strip_zeroes_Cons: "c = UCHAR_0 \<or> c = UCHAR_DECIMAL \<Longrightarrow> s \<noteq> [] \<Longrightarrow> strip_zeroes (c # s) = strip_zeroes s"
  by (cases s) auto

lemma strip_replicate:
  "s \<noteq> [] \<Longrightarrow> strip_zeroes (replicate n UCHAR_0 @ s) = strip_zeroes s"
  by (induction n) (simp_all add: strip_zeroes_Cons)

lemma filter_digits [simp]: "list_all is_digit ds \<Longrightarrow> filter (\<lambda>c. c \<noteq> UCHAR_DECIMAL) ds = ds"
  by (induction ds) auto

lemma digits_no_point [simp]: "list_all is_digit ds \<Longrightarrow> UCHAR_DECIMAL \<notin> set ds"
  by (auto simp: list_all_iff)

lemma canonical_all: "canonical_digits ds \<Longrightarrow> list_all is_digit ds" "canonical_digits ds \<Longrightarrow> ds \<noteq> []"
  by (simp_all add: canonical_digits_def)

lemma parse_su_write:
  assumes "canonical_su su"
  shows "parse_su (write_su su) = Inr (su, [])"
proof (cases su)
  case (Some s)
  then have s: "canonical_digits s" using assms by (simp add: canonical_su_def)
  then show ?thesis
    using Some canonical_all [OF s] takeWhile_digits [of s "[UCHAR_CLOSE]"]
    by (simp add: parse_su_def write_su_def Let_def strip_canonical)
qed (simp add: parse_su_def write_su_def)

lemma write_su_hd:
  "\<not> is_digit (unit_at (write_su su) 0)" "unit_at (write_su su) 0 \<noteq> UCHAR_DECIMAL"
  "unit_at (write_su su) 0 \<noteq> UCHAR_e" "unit_at (write_su su) 0 \<noteq> UCHAR_E"
  by (cases su; simp add: write_su_def)+

lemma parse_exponent_none: "parse_exponent (write_su su) = Inr (0, write_su su)"
  using write_su_hd [of su] by (simp add: parse_exponent_def)

lemma parse_sign_neg:
  "list_all is_digit (take 1 s) \<Longrightarrow> s \<noteq> [] \<Longrightarrow>
   parse_sign ((if negative then [UCHAR_MINUS] else []) @ s) = (if negative then -1 else 1, s)"
  by (cases s) (auto simp: parse_sign_def)

text \<open>
  What \<open>cif_value_parse_numb\<close> makes of a text composed of a sign, a mantissa without a
  decimal point or with one and a digit after it, an exponent and an uncertainty.
\<close>

lemma parse_numb_plain:
  assumes sign: "parse_sign text = (sign, ds @ e)"
    and ds: "canonical_digits ds" and e: "\<not> is_digit (unit_at e 0)" "unit_at e 0 \<noteq> UCHAR_DECIMAL"
    and ex: "parse_exponent e = Inr (scale, write_su su)" and su: "canonical_su su"
  shows "cif_value_parse_numb v text = (CIF_OK, NumbValue CIF_NOT_QUOTED text sign ds su scale)"
proof -
  have d: "list_all is_digit ds" "ds \<noteq> []" using canonical_all [OF ds] by simp_all
  then have "last ds \<noteq> UCHAR_DECIMAL" using digits_no_point last_in_set by metis
  then show ?thesis
    using d by (simp add: cif_value_parse_numb_def sign scan_plain [OF d(1) e] ex parse_su_write [OF su]
        strip_canonical [OF ds])
qed

lemma parse_numb_fraction:
  assumes sign: "parse_sign text = (sign, ds @ UCHAR_DECIMAL # fs @ e)"
    and ds: "list_all is_digit ds" and fs: "list_all is_digit fs" "fs \<noteq> []"
    and e: "\<not> is_digit (unit_at e 0)" "unit_at e 0 \<noteq> UCHAR_DECIMAL"
    and ex: "parse_exponent e = Inr (scale, write_su su)" and su: "canonical_su su"
  shows "cif_value_parse_numb v text =
     (CIF_OK, NumbValue CIF_NOT_QUOTED text sign
        (filter (\<lambda>c. c \<noteq> UCHAR_DECIMAL) (strip_zeroes (ds @ UCHAR_DECIMAL # fs))) su
        (scale + int (length fs)))"
proof -
  let ?m = "ds @ UCHAR_DECIMAL # fs"
  have "last ?m \<noteq> UCHAR_DECIMAL" using fs digits_no_point last_in_set by (metis last_ConsR last_appendR list.distinct(1))
  moreover have "tl (dropWhile (\<lambda>c. c \<noteq> UCHAR_DECIMAL) ?m) = fs"
    using ds by (induction ds) auto
  moreover have "\<not> length ?m \<le> 1" using fs by (cases fs) auto
  ultimately show ?thesis
    by (simp add: cif_value_parse_numb_def sign scan_fraction [OF ds fs(1) e] ex parse_su_write [OF su])
qed

lemma decimal_text_parses:
  assumes ds: "canonical_digits ds" and su: "canonical_su su" and scl: "scale \<ge> 0"
    and fmt: "format_text_decimal negative ds su scale = Inr text"
  shows "cif_value_parse_numb v text =
           (CIF_OK, NumbValue CIF_NOT_QUOTED text (if negative then -1 else 1) ds su scale)"
proof -
  have d: "list_all is_digit ds" "ds \<noteq> []" using canonical_all [OF ds] by simp_all
  let ?w = "int (length ds) - scale"
  let ?sign = "if negative then [UCHAR_MINUS] else []"
  consider "?w \<le> 0" | "?w > 0" "scale = 0" | "?w > 0" "scale > 0" using scl by linarith
  then show ?thesis
  proof cases
    case 1
    let ?fs = "replicate (nat (- ?w)) UCHAR_0 @ ds"
    have teq: "text = ?sign @ [UCHAR_0] @ UCHAR_DECIMAL # ?fs @ write_su su"
      using fmt 1 by (simp add: format_text_decimal_def Let_def split: if_splits)
    have "parse_sign text = (if negative then -1 else 1, [UCHAR_0] @ UCHAR_DECIMAL # ?fs @ write_su su)"
      unfolding teq by (rule parse_sign_neg) simp_all
    moreover have "list_all is_digit ?fs" using d by (auto simp: list_all_iff)
    moreover have "strip_zeroes ([UCHAR_0] @ UCHAR_DECIMAL # ?fs) = ds"
      using d(2) by (simp add: strip_zeroes_Cons strip_replicate strip_canonical [OF ds])
    ultimately show ?thesis
      using parse_numb_fraction [of "text" _ "[UCHAR_0]" ?fs "write_su su" 0 su v]
        d write_su_hd parse_exponent_none su 1 by simp
  next
    case 2
    then have teq: "text = ?sign @ ds @ write_su su"
      using fmt by (simp add: format_text_decimal_def Let_def split: if_splits)
    have "parse_sign text = (if negative then -1 else 1, ds @ write_su su)"
      unfolding teq by (rule parse_sign_neg) (use d in \<open>cases ds; simp\<close>)+
    then show ?thesis
      using parse_numb_plain [OF _ ds] write_su_hd parse_exponent_none su 2 by metis
  next
    case 3
    let ?ws = "take (nat ?w) ds" and ?fs = "drop (nat ?w) ds"
    have teq: "text = ?sign @ ?ws @ UCHAR_DECIMAL # ?fs @ write_su su"
      using fmt 3 by (simp add: format_text_decimal_def Let_def split: if_splits)
    have all: "list_all is_digit ?ws" "list_all is_digit ?fs"
      using d by (auto simp: list_all_iff dest: in_set_takeD in_set_dropD)
    have ws: "?ws \<noteq> []" and fs: "?fs \<noteq> []" using 3 d by auto
    have sgn: "parse_sign text = (if negative then -1 else 1, ?ws @ UCHAR_DECIMAL # ?fs @ write_su su)"
      unfolding teq by (rule parse_sign_neg) (use ws all in \<open>cases ?ws; simp\<close>)+
    have "length ds \<noteq> 1" using ws fs 3 by simp
    then have "hd ?ws \<noteq> UCHAR_0" "hd ?ws \<noteq> UCHAR_DECIMAL"
      using ds ws 3 canonical_hd [OF ds] by (auto simp: hd_take canonical_digits_def)
    then have "strip_zeroes (?ws @ UCHAR_DECIMAL # ?fs) = ?ws @ UCHAR_DECIMAL # ?fs"
      using ws by (intro strip_zeroes_stop) simp
    moreover have "filter (\<lambda>c. c \<noteq> UCHAR_DECIMAL) (?ws @ UCHAR_DECIMAL # ?fs) = ds"
      using all by simp
    ultimately show ?thesis
      using parse_numb_fraction [OF sgn all fs write_su_hd(1,2) parse_exponent_none su, of v] 3 by simp
  qed
qed

text \<open>
  C29. Formatting in plain decimal notation, then parsing: for a canonical digit string, a
  canonical or absent uncertainty and a non-negative scale, whenever the text fits on a line,
  parsing it gives back sign, digits, uncertainty and scale.
\<close>

theorem decimal_roundtrip:
  assumes ds: "canonical_digits ds" and su: "canonical_su su" and scl: "scale \<ge> 0"
    and fmt: "format_text_decimal negative ds su scale = Inr text"
  shows "cif_value_parse_numb v text =
           (CIF_OK, NumbValue CIF_NOT_QUOTED text (if negative then -1 else 1) ds su scale)"
  by (rule decimal_text_parses [OF assms])

lemma decimal_roundtrip_witness:
  "cif_value_parse_numb UnkValue [0x2d, 0x31, 0x2e, 0x35, 0x28, 0x33, 0x29] =
     (CIF_OK, NumbValue CIF_NOT_QUOTED [0x2d, 0x31, 0x2e, 0x35, 0x28, 0x33, 0x29] (-1) [0x31, 0x35]
        (Some [0x33]) 1)"
  using decimal_roundtrip [of "[0x31, 0x35]" "Some [0x33]" 1 True
      "[0x2d, 0x31, 0x2e, 0x35, 0x28, 0x33, 0x29]" UnkValue]
  by (simp add: canonical_digits_def canonical_su_def is_digit_def format_text_decimal_def su_chars_def
      write_su_def)


lemma digit_unit: "m < 10 \<Longrightarrow> is_digit (UCHAR_0 + of_nat m) \<and> digit_value (UCHAR_0 + of_nat m) = int m"
proof -
  assume "m < (10::nat)"
  then have "m \<in> {0,1,2,3,4,5,6,7,8,9}" by auto
  then show ?thesis by (auto simp: is_digit_def digit_value_def)
qed

lemma decimal_digits_all: "list_all is_digit (decimal_digits n m)"
  by (induction n m rule: decimal_digits.induct) (auto simp: digit_unit)

lemma decimal_digits_length [simp]: "length (decimal_digits n m) = n"
  by (induction n m rule: decimal_digits.induct) auto

lemma exponent_value_snoc: "exponent_value (ds @ [c]) = exponent_value ds * 10 + digit_value c"
  by (simp add: exponent_value_def)

lemma exponent_value_decimal: "m < 10 ^ n \<Longrightarrow> exponent_value (decimal_digits n m) = int m"
proof (induction n m rule: decimal_digits.induct)
  case (2 n m)
  have "m div 10 < 10 ^ n" using 2(2) by (simp add: less_mult_imp_div_less mult.commute)
  then have "exponent_value (decimal_digits n (m div 10)) = int (m div 10)" using 2(1) by simp
  then show ?case using digit_unit [of "m mod 10"] div_mult_mod_eq [of "int m" 10]
    by (simp add: exponent_value_snoc zdiv_int zmod_int)
qed (simp add: exponent_value_def)

lemma digit_count_bound: "m < 10 ^ digit_count m"
proof (induction m rule: digit_count.induct)
  case (1 m)
  show ?case
  proof (cases "m < 10")
    case False
    then have "m div 10 < 10 ^ digit_count (m div 10)" using 1 by simp
    then have "m < 10 ^ digit_count (m div 10) * 10" by (simp add: div_less_iff_less_mult)
    then show ?thesis using False by (simp add: digit_count.simps [of m])
  qed (simp add: digit_count.simps [of m])
qed

lemma parse_exponent_written:
  assumes "m < 10 ^ n" "n > 0"
  shows "parse_exponent ([UCHAR_e, if neg then UCHAR_MINUS else UCHAR_PLUS] @ decimal_digits n m @ write_su su)
           = Inr (if neg then int m else - int m, write_su su)"
proof -
  have "decimal_digits n m \<noteq> []" using assms(2) decimal_digits_length [of n m] by (metis length_0_conv less_numeral_extra(3))
  then show ?thesis
    using takeWhile_digits [OF decimal_digits_all write_su_hd(1), of n m su] exponent_value_decimal [OF assms(1)]
    by (simp add: parse_exponent_def parse_sign_def Let_def)
qed

lemma sci_text_parses:
  assumes ds: "canonical_digits ds" and su: "canonical_su su"
    and fmt: "format_text_sci negative ds su scale = Inr text"
  shows "cif_value_parse_numb v text =
           (CIF_OK, NumbValue CIF_NOT_QUOTED text (if negative then -1 else 1) ds su scale)"
proof -
  have d: "list_all is_digit ds" "ds \<noteq> []" using canonical_all [OF ds] by simp_all
  let ?p = "int (length ds) - 1 - scale"
  let ?n = "max 2 (digit_count (nat \<bar>?p\<bar>))"
  let ?e = "[UCHAR_e, if ?p < 0 then UCHAR_MINUS else UCHAR_PLUS] @ decimal_digits ?n (nat \<bar>?p\<bar>) @ write_su su"
  let ?sign = "if negative then [UCHAR_MINUS] else []"
  have "nat \<bar>?p\<bar> < 10 ^ ?n"
    using digit_count_bound [of "nat \<bar>?p\<bar>"] by (rule less_le_trans) (simp add: power_increasing)
  then have ex: "parse_exponent ?e = Inr (- ?p, write_su su)"
    using parse_exponent_written [of "nat \<bar>?p\<bar>" ?n "?p < 0" su] by (auto split: if_splits)
  have e: "\<not> is_digit (unit_at ?e 0)" "unit_at ?e 0 \<noteq> UCHAR_DECIMAL" by simp_all
  show ?thesis
  proof (cases "tl ds")
    case Nil
    then obtain c where c: "ds = [c]" using d by (cases ds) auto
    have teq: "text = ?sign @ ds @ ?e"
      using fmt c by (simp add: format_text_sci_def Let_def split: if_splits)
    have sgn: "parse_sign text = (if negative then -1 else 1, ds @ ?e)"
      unfolding teq by (rule parse_sign_neg) (use d c in simp_all)
    show ?thesis using parse_numb_plain [OF sgn ds e ex su, of v] c by simp
  next
    case (Cons b bs)
    then obtain c where c: "ds = c # b # bs" using d by (cases ds) auto
    have teq: "text = ?sign @ [c] @ UCHAR_DECIMAL # (b # bs) @ ?e"
      using fmt c by (simp add: format_text_sci_def Let_def split: if_splits)
    have sgn: "parse_sign text = (if negative then -1 else 1, [c] @ UCHAR_DECIMAL # (b # bs) @ ?e)"
      unfolding teq by (rule parse_sign_neg) (use d c in simp_all)
    have "c \<noteq> UCHAR_0" "c \<noteq> UCHAR_DECIMAL" using canonical_hd [OF ds] c by auto
    then have "strip_zeroes ([c] @ UCHAR_DECIMAL # (b # bs)) = [c] @ UCHAR_DECIMAL # (b # bs)"
      by (intro strip_zeroes_stop) simp
    moreover have "list_all is_digit [c]" "list_all is_digit (b # bs)" using d c by simp_all
    ultimately show ?thesis
      using parse_numb_fraction [OF sgn _ _ _ e ex su, of v] c digit_neq [of b] by auto
  qed
qed

text \<open>
  C30. Formatting in scientific notation, then parsing: for a canonical digit string, a
  canonical or absent uncertainty and any scale, whenever the text fits on a line, parsing it
  gives back sign, digits, uncertainty and scale.
\<close>

theorem sci_roundtrip:
  assumes ds: "canonical_digits ds" and su: "canonical_su su"
    and fmt: "format_text_sci negative ds su scale = Inr text"
  shows "cif_value_parse_numb v text =
           (CIF_OK, NumbValue CIF_NOT_QUOTED text (if negative then -1 else 1) ds su scale)"
  by (rule sci_text_parses [OF assms])

lemma sci_roundtrip_witness:
  "cif_value_parse_numb UnkValue [0x31, 0x2e, 0x35, 0x65, 0x2b, 0x30, 0x33] =
     (CIF_OK, NumbValue CIF_NOT_QUOTED [0x31, 0x2e, 0x35, 0x65, 0x2b, 0x30, 0x33] 1 [0x31, 0x35] None (-2))"
proof -
  have "format_text_sci False [0x31, 0x35] None (-2) = Inr [0x31, 0x2e, 0x35, 0x65, 0x2b, 0x30, 0x33]"
    by code_simp
  then show ?thesis
    using sci_roundtrip [of "[0x31, 0x35]" None False "-2" "[0x31, 0x2e, 0x35, 0x65, 0x2b, 0x30, 0x33]" UnkValue]
    by (simp add: canonical_digits_def canonical_su_def is_digit_def)
qed

end
