(* ===== verification/CifMap.thy ===== *)
theory CifMap
  imports Values
begin

text \<open>
  The map shared by packets and table values (src/map.c), and packets (src/packet.c).

  The uthash table of a map is the list of its entries in insertion order, the order in which
  HASH_ITER visits them; HASH_FIND is the search for the normalised key, HASH_ADD_KEYPTR
  appends, HASH_DEL removes. uthash does not reject a second entry with an equal key; which of
  two equal keys HASH_FIND then returns is not determined, and the lemmas below are about maps
  with distinct keys.

  Memory: an entry's original key is \<open>None\<close> when it is the same object as the normalised key.
  Releasing the original key of such an entry leaves the normalised key dangling while the
  hash table still refers to it; the operation's result is then \<open>None\<close>, as no later use of
  the map is defined. An allocation does not fail.
\<close>

section \<open>Maps\<close>

type_synonym map_entry = "ustring \<times> ustring option \<times> cif_value"
type_synonym name_normalizer_f = "ustring option \<Rightarrow> int \<Rightarrow> int \<Rightarrow> ustring res"

record cif_map =
  map_head :: "map_entry list"
  is_standalone :: bool
  normalizer :: name_normalizer_f

fun entry_key :: "map_entry \<Rightarrow> ustring" where
  "entry_key (key, _, _) = key"

fun entry_key_orig :: "map_entry \<Rightarrow> ustring" where
  "entry_key_orig (key, key_orig, _) = orig_key key key_orig"

fun entry_value :: "map_entry \<Rightarrow> cif_value" where
  "entry_value (_, _, v) = v"

fun hash_find :: "map_entry list \<Rightarrow> ustring \<Rightarrow> map_entry option" where
  "hash_find [] key = None"
| "hash_find (e # es) key = (if entry_key e = key then Some e else hash_find es key)"

text \<open>Modification of the entry that \<open>hash_find\<close> returns, in place.\<close>

fun hash_replace :: "map_entry list \<Rightarrow> ustring \<Rightarrow> map_entry \<Rightarrow> map_entry list" where
  "hash_replace [] key e' = []"
| "hash_replace (e # es) key e' = (if entry_key e = key then e' # es else e # hash_replace es key e')"

fun hash_del :: "map_entry list \<Rightarrow> ustring \<Rightarrow> map_entry list" where
  "hash_del [] key = []"
| "hash_del (e # es) key = (if entry_key e = key then es else e # hash_del es key)"

definition cif_map_clean :: "cif_map \<Rightarrow> cif_map" where
  "cif_map_clean m = m\<lparr>map_head := []\<rparr>"

definition cif_map_get_keys :: "cif_map \<Rightarrow> ustring list" where
  "cif_map_get_keys m = map entry_key_orig (map_head m)"

text \<open>
  The two loops of \<open>convert_to_standalone\<close>. \<open>copies\<close> is the array of key copies, \<open>None\<close> where
  it was not written; \<open>next\<close> advances twice in each round of the first loop.
\<close>

fun copy_keys :: "nat \<Rightarrow> ustring option list \<Rightarrow> map_entry list \<Rightarrow> ustring option list res" where
  "copy_keys nxt copies [] = Inr copies"
| "copy_keys nxt copies (e # es) =
     (if nxt \<ge> length copies then Inl CIF_INTERNAL_ERROR
      else copy_keys (nxt + 2) (copies[nxt := Some (entry_key_orig e)]) es)"

fun assign_keys :: "nat \<Rightarrow> ustring option list \<Rightarrow> map_entry list \<Rightarrow> int \<times> map_entry list" where
  "assign_keys nxt copies [] = (CIF_OK, [])"
| "assign_keys nxt copies ((key, key_orig, v) # es) =
     (if nxt \<ge> length copies then (CIF_INTERNAL_ERROR, (key, key_orig, v) # es)
      else (let (r, es') = assign_keys (nxt + 1) copies es in (r, (key, copies ! nxt, v) # es')))"

definition convert_to_standalone :: "cif_map \<Rightarrow> int \<times> cif_map" where
  "convert_to_standalone m =
     (if is_standalone m then (CIF_OK, m)
      else
        (case copy_keys 0 (replicate (length (map_head m)) None) (map_head m) of
           Inl e \<Rightarrow> (e, m)
         | Inr copies \<Rightarrow>
             (case assign_keys 0 copies (map_head m) of
                (r, es) \<Rightarrow> if r \<noteq> CIF_OK then (r, m\<lparr>map_head := es\<rparr>)
                           else (CIF_OK, m\<lparr>map_head := es, is_standalone := True\<rparr>))))"

text \<open>The value given to \<open>cif_map_set_item\<close>: NULL, the map's own object for the item, or another.\<close>

datatype value_arg = ArgNull | ArgSame | ArgValue cif_value

definition stored_value :: "cif_value \<Rightarrow> value_arg \<Rightarrow> cif_value" where
  "stored_value existing arg =
     (case arg of
        ArgSame \<Rightarrow> existing
      | ArgNull \<Rightarrow> cif_value_clean existing
      | ArgValue v \<Rightarrow> cif_value_clone v)"

definition cif_map_set_item :: "cif_map \<Rightarrow> ustring \<Rightarrow> value_arg \<Rightarrow> int \<Rightarrow> (int \<times> cif_map) option" where
  "cif_map_set_item m key arg invalidity_code =
     (case normalizer m (Some key) (-1) invalidity_code of
        Inl result \<Rightarrow> Some (result, m)
      | Inr key_norm \<Rightarrow>
          (let different_key = (case hash_find (map_head m) key_norm of
                                  None \<Rightarrow> True | Some e \<Rightarrow> key \<noteq> entry_key_orig e);
               (r, m) = (if different_key then convert_to_standalone m else (CIF_OK, m))
           in if r \<noteq> CIF_OK then Some (CIF_ERROR, m)
              else
                (case hash_find (map_head m) key_norm of
                   Some (k, key_orig, existing) \<Rightarrow>
                     if different_key \<and> key_orig = None then None
                       \<comment> \<open>\<open>free(item->key_orig)\<close> has released \<open>item->key\<close>\<close>
                     else
                       Some (CIF_OK, m\<lparr>map_head := hash_replace (map_head m) key_norm
                         (k, if different_key then Some key else key_orig, stored_value existing arg)\<rparr>)
                 | None \<Rightarrow>
                     Some (CIF_OK, m\<lparr>map_head := map_head m @
                       [(key_norm, Some key, stored_value UnkValue arg)]\<rparr>))))"

text \<open>The first component is the value found, or the code of the failure.\<close>

definition cif_map_retrieve_item :: "cif_map \<Rightarrow> ustring \<Rightarrow> bool \<Rightarrow> int \<Rightarrow> cif_value res \<times> cif_map" where
  "cif_map_retrieve_item m key do_remove invalidity_code =
     (case normalizer m (Some key) (-1) invalidity_code of
        Inl result \<Rightarrow> (Inl result, m)
      | Inr key_norm \<Rightarrow>
          (case hash_find (map_head m) key_norm of
             None \<Rightarrow> (Inl CIF_NOSUCH_ITEM, m)
           | Some e \<Rightarrow> (Inr (entry_value e),
                if do_remove then m\<lparr>map_head := hash_del (map_head m) key_norm\<rparr> else m)))"

section \<open>Packets\<close>

definition cif_packet_get_names :: "cif_map \<Rightarrow> ustring list" where
  "cif_packet_get_names p = cif_map_get_keys p"

definition cif_packet_set_item :: "cif_map \<Rightarrow> ustring \<Rightarrow> value_arg \<Rightarrow> (int \<times> cif_map) option" where
  "cif_packet_set_item p name arg = cif_map_set_item p name arg CIF_INVALID_ITEMNAME"

definition cif_packet_get_item :: "cif_map \<Rightarrow> ustring \<Rightarrow> cif_value res" where
  "cif_packet_get_item p name = fst (cif_map_retrieve_item p name False CIF_NOSUCH_ITEM)"

definition cif_packet_remove_item :: "cif_map \<Rightarrow> ustring \<Rightarrow> cif_value res \<times> cif_map" where
  "cif_packet_remove_item p name = cif_map_retrieve_item p name True CIF_NOSUCH_ITEM"

definition cif_packet_create_norm :: "icu \<Rightarrow> ustring list \<Rightarrow> bool \<Rightarrow> cif_map" where
  "cif_packet_create_norm I names avoid_aliasing =
     \<lparr>map_head = map (\<lambda>name. (name, None, UnkValue)) names,
      is_standalone = avoid_aliasing,
      normalizer = cif_normalize_item_name I\<rparr>"

fun normalize_names :: "icu \<Rightarrow> ustring list \<Rightarrow> ustring list res" where
  "normalize_names I [] = Inr []"
| "normalize_names I (n # ns) =
     (case cif_normalize_item_name I (Some n) (-1) CIF_INVALID_ITEMNAME of
        Inl e \<Rightarrow> Inl e
      | Inr n' \<Rightarrow> rbind (normalize_names I ns) (\<lambda>ns'. Inr (n' # ns')))"

text \<open>The loop that records the original names.\<close>

fun assign_names :: "ustring list \<Rightarrow> map_entry list \<Rightarrow> map_entry list" where
  "assign_names (n # ns) ((key, key_orig, v) # es) =
     (key, if n \<noteq> key then Some n else key_orig, v) # assign_names ns es"
| "assign_names _ es = es"

definition cif_packet_create :: "icu \<Rightarrow> ustring list option \<Rightarrow> cif_map res" where
  "cif_packet_create I names =
     (let names = (case names of None \<Rightarrow> [] | Some ns \<Rightarrow> ns)
      in case normalize_names I names of
           Inl e \<Rightarrow> Inl e
         | Inr names_norm \<Rightarrow>
             (let p = cif_packet_create_norm I names_norm False
              in Inr (p\<lparr>map_head := assign_names names (map_head p), is_standalone := True\<rparr>)))"

section \<open>Table values\<close>

text \<open>The map of a table value: always standalone, with the table's key normaliser.\<close>

definition table_map :: "icu \<Rightarrow> map_entry list \<Rightarrow> cif_map" where
  "table_map I es = \<lparr>map_head = es, is_standalone = True, normalizer = cif_normalize_table_index I\<rparr>"

fun cif_value_get_keys :: "icu \<Rightarrow> cif_value \<Rightarrow> ustring list res" where
  "cif_value_get_keys I (TableValue es) = Inr (cif_map_get_keys (table_map I es))"
| "cif_value_get_keys I _ = Inl CIF_ARGUMENT_ERROR"

fun cif_value_set_item_by_key :: "icu \<Rightarrow> cif_value \<Rightarrow> ustring \<Rightarrow> value_arg \<Rightarrow> (int \<times> cif_value) option" where
  "cif_value_set_item_by_key I (TableValue es) key item =
     (case cif_map_set_item (table_map I es) key item CIF_INVALID_INDEX of
        None \<Rightarrow> None | Some (r, m) \<Rightarrow> Some (r, TableValue (map_head m)))"
| "cif_value_set_item_by_key I v key item = Some (CIF_ARGUMENT_ERROR, v)"

fun cif_value_get_item_by_key :: "icu \<Rightarrow> cif_value \<Rightarrow> ustring \<Rightarrow> cif_value res" where
  "cif_value_get_item_by_key I (TableValue es) name =
     fst (cif_map_retrieve_item (table_map I es) name False CIF_NOSUCH_ITEM)"
| "cif_value_get_item_by_key I _ name = Inl CIF_ARGUMENT_ERROR"

fun cif_value_remove_item_by_key :: "icu \<Rightarrow> cif_value \<Rightarrow> ustring \<Rightarrow> cif_value res \<times> cif_value" where
  "cif_value_remove_item_by_key I (TableValue es) name =
     (let (r, m) = cif_map_retrieve_item (table_map I es) name True CIF_NOSUCH_ITEM
      in (r, TableValue (map_head m)))"
| "cif_value_remove_item_by_key I v name = (Inl CIF_ARGUMENT_ERROR, v)"

section \<open>The hash table\<close>

lemma hash_find_key: "hash_find es k = Some e \<Longrightarrow> entry_key e = k \<and> e \<in> set es"
  by (induction es) (auto split: if_splits)

lemma hash_find_None: "hash_find es k = None \<longleftrightarrow> k \<notin> entry_key ` set es"
  by (induction es) auto

lemma hash_find_append [simp]:
  "hash_find (es @ fs) k = (case hash_find es k of None \<Rightarrow> hash_find fs k | Some e \<Rightarrow> Some e)"
  by (induction es) auto

lemma keys_hash_replace [simp]:
  "entry_key e' = k \<Longrightarrow> map entry_key (hash_replace es k e') = map entry_key es"
  by (induction es) auto

lemma set_hash_replace: "set (hash_replace es k e') \<subseteq> insert e' (set es)"
  by (induction es) auto

lemma hash_find_replace:
  "entry_key e' = k \<Longrightarrow> hash_find es k \<noteq> None \<Longrightarrow>
   hash_find (hash_replace es k e') k' = (if k' = k then Some e' else hash_find es k')"
  by (induction es) auto

lemma set_hash_del: "set (hash_del es k) \<subseteq> set es"
  by (induction es) auto

lemma keys_hash_del [simp]: "distinct (map entry_key es) \<Longrightarrow> map entry_key (hash_del es k) = remove1 k (map entry_key es)"
  by (induction es) auto

lemma hash_find_del:
  "distinct (map entry_key es) \<Longrightarrow>
   hash_find (hash_del es k) k' = (if k' = k then None else hash_find es k')"
proof (induction es)
  case (Cons e es)
  then have "entry_key e = k \<Longrightarrow> hash_find es k = None" by (simp add: hash_find_None)
  then show ?case using Cons by auto
qed simp

section \<open>Conversion of a map to standalone\<close>

lemma copy_keys_short:
  "length es \<le> 1 \<Longrightarrow> copy_keys 0 (replicate (length es) None) es = Inr (map (\<lambda>e. Some (entry_key_orig e)) es)"
  by (cases es) auto

text \<open>
  Converting a map to standalone gives each entry its own copy of its original key, and
  keeps keys and values, for a map of at most one entry; for a larger one it fails with an
  internal error, because the index into the array of copies advances twice per entry.
\<close>

theorem convert_to_standalone_outcome:
  "convert_to_standalone m =
     (if is_standalone m then (CIF_OK, m)
      else if length (map_head m) \<le> 1 then
        (CIF_OK, m\<lparr>map_head := map (\<lambda>e. (entry_key e, Some (entry_key_orig e), entry_value e)) (map_head m),
                   is_standalone := True\<rparr>)
      else (CIF_INTERNAL_ERROR, m))"
proof (cases "is_standalone m \<or> length (map_head m) \<le> 1")
  case True
  then show ?thesis
    by (cases "map_head m") (auto simp: convert_to_standalone_def)
next
  case False
  then obtain a b es where es: "map_head m = a # b # es" by (cases "map_head m"; cases "tl (map_head m)") auto
  have "copy_keys 0 (replicate (length (map_head m)) None) (map_head m) = Inl CIF_INTERNAL_ERROR"
  proof -
    have fails: "copy_keys n cs xs = Inl CIF_INTERNAL_ERROR"
      if "length cs < n + 2 * length xs - 1" "xs \<noteq> []" "n \<le> length cs" for n cs xs
      using that
    proof (induction n cs xs rule: copy_keys.induct)
      case (2 n cs e xs)
      then show ?case by (cases xs) (auto simp: not_le)
    qed simp
    show ?thesis unfolding es by (rule fails) simp_all
  qed
  then show ?thesis using False by (simp add: convert_to_standalone_def)
qed

section \<open>The contract of packets and tables\<close>

text \<open>
  What a client relies on: a store of values under names, seen as a map \<open>view\<close> from normalised
  names. \<open>may\<close> says when setting an item is defined.
\<close>

locale keyed_store =
  fixes inv :: "'m \<Rightarrow> bool"
    and norm :: "ustring \<Rightarrow> ustring option"
    and view :: "'m \<Rightarrow> ustring \<Rightarrow> cif_value option"
    and may :: "'m \<Rightarrow> ustring \<Rightarrow> bool"
    and set_item :: "'m \<Rightarrow> ustring \<Rightarrow> value_arg \<Rightarrow> (int \<times> 'm) option"
    and get_item :: "'m \<Rightarrow> ustring \<Rightarrow> cif_value res"
    and remove_item :: "'m \<Rightarrow> ustring \<Rightarrow> cif_value res \<times> 'm"
  assumes set_defined: "inv m \<Longrightarrow> norm k = Some n \<Longrightarrow> may m k \<Longrightarrow> set_item m k a \<noteq> None"
    and set_inv: "inv m \<Longrightarrow> set_item m k a = Some (r, m') \<Longrightarrow> inv m'"
    and set_view: "inv m \<Longrightarrow> norm k = Some n \<Longrightarrow> set_item m k a = Some (r, m') \<Longrightarrow>
      r = CIF_OK \<and> view m' = (view m)(n \<mapsto> stored_value (case view m n of None \<Rightarrow> UnkValue | Some v \<Rightarrow> v) a)"
    and set_fails: "norm k = None \<Longrightarrow> inv m \<Longrightarrow> \<exists>r. set_item m k a = Some (r, m)"
    and get_view: "inv m \<Longrightarrow> norm k = Some n \<Longrightarrow>
      get_item m k = (case view m n of None \<Rightarrow> Inl CIF_NOSUCH_ITEM | Some v \<Rightarrow> Inr v)"
    and remove_inv: "inv m \<Longrightarrow> inv (snd (remove_item m k))"
    and remove_view: "inv m \<Longrightarrow> norm k = Some n \<Longrightarrow>
      fst (remove_item m k) = get_item m k \<and> view (snd (remove_item m k)) = (view m)(n := None)"
begin

lemma get_after_set:
  assumes "inv m" "norm k = Some n" "norm k' = Some n'" "set_item m k (ArgValue v) = Some (r, m')"
  shows "r = CIF_OK \<and> inv m' \<and>
    get_item m' k' = (if n' = n then Inr (cif_value_clone v) else get_item m k')"
  using assms set_view [of m k n "ArgValue v" r m'] set_inv [of m k "ArgValue v" r m'] get_view [of m k' n'] get_view [of m' k' n']
  by (simp add: stored_value_def)

lemma get_after_remove:
  assumes "inv m" "norm k = Some n" "norm k' = Some n'"
  shows "fst (remove_item m k) = get_item m k \<and> inv (snd (remove_item m k)) \<and>
    get_item (snd (remove_item m k)) k' = (if n' = n then Inl CIF_NOSUCH_ITEM else get_item m k')"
  using assms remove_view [of m k n] remove_inv [of m k] get_view [of m k' n'] get_view [of "snd (remove_item m k)" k' n']
  by simp

lemma set_set:
  assumes "inv m" "norm k = Some n" "set_item m k a = Some (r, m1)" "set_item m1 k (ArgValue v) = Some (r', m2)"
  shows "view m2 = (view m)(n \<mapsto> cif_value_clone v)"
  using assms set_view [of m k n a r m1] set_view [of m1 k n "ArgValue v" r' m2] set_inv [of m k a r m1]
  by (simp add: stored_value_def)

lemma set_keeps_others:
  assumes "inv m" "set_item m k a = Some (r, m')" "norm k \<noteq> Some n'"
  shows "view m' n' = view m n'"
proof (cases "norm k")
  case None
  then show ?thesis using assms set_fails [of k m a] by auto
next
  case (Some n)
  then show ?thesis using assms set_view [of m k n a r m'] by auto
qed

end

section \<open>Maps under their normaliser\<close>

definition as_option :: "'a res \<Rightarrow> 'a option" where
  "as_option r = (case r of Inl _ \<Rightarrow> None | Inr x \<Rightarrow> Some x)"

lemma as_option_Some [simp]: "as_option r = Some x \<longleftrightarrow> r = Inr x"
  by (cases r) (simp_all add: as_option_def)

lemma as_option_None [simp]: "as_option r = None \<longleftrightarrow> (\<exists>e. r = Inl e)"
  by (cases r) (simp_all add: as_option_def)

text \<open>
  A well-formed map: it owns its keys, no two entries have the same normalised key, and the
  normaliser takes the original key of each entry to its normalised key.
\<close>

definition map_wf :: "cif_map \<Rightarrow> bool" where
  "map_wf m \<longleftrightarrow> is_standalone m \<and> distinct (map entry_key (map_head m))
     \<and> (\<forall>e \<in> set (map_head m). normalizer m (Some (entry_key_orig e)) (-1) 0 = Inr (entry_key e))"

text \<open>The key is not that of an entry, or the entry has it spelled so or owns its original key.\<close>

definition may_set :: "cif_map \<Rightarrow> ustring \<Rightarrow> bool" where
  "may_set m key \<longleftrightarrow>
     (\<forall>k. normalizer m (Some key) (-1) 0 = Inr k \<longrightarrow>
        (case hash_find (map_head m) k of
           None \<Rightarrow> True | Some (k, key_orig, _) \<Rightarrow> orig_key k key_orig = key \<or> key_orig \<noteq> None))"

lemma set_item_standalone:
  assumes "is_standalone m" "normalizer m (Some key) (-1) code = Inr k"
  shows "cif_map_set_item m key arg code =
    (case hash_find (map_head m) k of
       None \<Rightarrow> Some (CIF_OK, m\<lparr>map_head := map_head m @ [(k, Some key, stored_value UnkValue arg)]\<rparr>)
     | Some (_, ko, v) \<Rightarrow>
         if key \<noteq> orig_key k ko \<and> ko = None then None
         else Some (CIF_OK, m\<lparr>map_head := hash_replace (map_head m) k
                (k, if key \<noteq> orig_key k ko then Some key else ko, stored_value v arg)\<rparr>))"
proof (cases "hash_find (map_head m) k")
  case (Some e)
  obtain k1 ko v where e: "e = (k1, ko, v)" by (cases e)
  then have "k1 = k" using hash_find_key [OF Some] by simp
  then show ?thesis
    using Some e assms by (simp add: cif_map_set_item_def Let_def convert_to_standalone_def)
qed (use assms in \<open>simp add: cif_map_set_item_def Let_def convert_to_standalone_def\<close>)

locale name_normalizer =
  fixes norm :: name_normalizer_f
  assumes norm_code: "norm s n c = Inr k \<Longrightarrow> norm s n c' = Inr k"
begin

lemma norm_0: "norm s n c = Inr k \<longleftrightarrow> norm s n 0 = Inr k"
  using norm_code by blast

lemma norm_Inl: "norm s n c = Inl e \<Longrightarrow> \<exists>e'. norm s n c' = Inl e'"
  using norm_code by (metis sum.exhaust sum.distinct(1))

definition lookup :: "cif_map \<Rightarrow> ustring \<Rightarrow> cif_value option" where
  "lookup m k = map_option entry_value (hash_find (map_head m) k)"

lemma set_item_wf:
  assumes m: "map_wf m" "normalizer m = norm"
    and s: "cif_map_set_item m key arg code = Some (r, m')"
  shows "map_wf m' \<and> normalizer m' = norm"
proof (cases "norm (Some key) (-1) code")
  case (Inl e)
  then show ?thesis using assms by (simp add: cif_map_set_item_def)
next
  case (Inr k)
  then have k0: "norm (Some key) (-1) 0 = Inr k" using norm_0 by blast
  have st: "is_standalone m" using m by (simp add: map_wf_def)
  note item = s [unfolded set_item_standalone [OF st Inr [folded m(2)]]]
  show ?thesis
  proof (cases "hash_find (map_head m) k")
    case None
    then have "m' = m\<lparr>map_head := map_head m @ [(k, Some key, stored_value UnkValue arg)]\<rparr>"
      using item by simp
    moreover have "k \<notin> entry_key ` set (map_head m)" using None by (simp add: hash_find_None)
    ultimately show ?thesis using m k0 by (auto simp: map_wf_def orig_key_def)
  next
    case (Some e)
    obtain k1 ko v where e: "e = (k1, ko, v)" by (cases e)
    let ?e = "(k, if key \<noteq> orig_key k ko then Some key else ko, stored_value v arg)"
    have m': "m' = m\<lparr>map_head := hash_replace (map_head m) k ?e\<rparr>"
      using item Some e by (simp split: if_splits)
    have "entry_key ?e = k" "norm (Some (entry_key_orig ?e)) (-1) 0 = Inr k"
      using k0 by (auto simp: orig_key_def)
    then show ?thesis
      using m m' set_hash_replace [of "map_head m" k ?e] by (auto simp: map_wf_def)
  qed
qed

lemma set_item_ok:
  assumes m: "map_wf m" "normalizer m = norm" and k: "norm (Some key) (-1) code = Inr k"
    and ok: "may_set m key"
  obtains m' where "cif_map_set_item m key arg code = Some (CIF_OK, m')"
proof -
  have k0: "norm (Some key) (-1) 0 = Inr k" using k norm_0 by blast
  have st: "is_standalone m" using m by (simp add: map_wf_def)
  note item = set_item_standalone [OF st k [folded m(2)], of arg]
  show ?thesis
  proof (cases "hash_find (map_head m) k")
    case None
    then show ?thesis using item that by simp
  next
    case (Some e)
    then obtain k1 ko v where e: "hash_find (map_head m) k = Some (k1, ko, v)" by (cases e) simp
    moreover have "k1 = k" using hash_find_key [OF e] by simp
    ultimately show ?thesis using item that ok k0 m(2) by (auto simp: may_set_def)
  qed
qed

lemma set_item_lookup:
  assumes m: "map_wf m" "normalizer m = norm" and k: "norm (Some key) (-1) code = Inr k"
    and s: "cif_map_set_item m key arg code = Some (r, m')"
  shows "lookup m' k' = (if k' = k then Some (stored_value (case lookup m k of None \<Rightarrow> UnkValue | Some v \<Rightarrow> v) arg)
                         else lookup m k')"
proof -
  have st: "is_standalone m" using m by (simp add: map_wf_def)
  note item = s [unfolded set_item_standalone [OF st k [folded m(2)]]]
  show ?thesis
  proof (cases "hash_find (map_head m) k")
    case None
    then show ?thesis using item by (auto simp: lookup_def split: option.splits)
  next
    case (Some e)
    then obtain k1 ko v where e: "hash_find (map_head m) k = Some (k1, ko, v)" by (cases e) simp
    then show ?thesis using item by (auto simp: lookup_def hash_find_replace split: if_splits)
  qed
qed

lemma set_item_result:
  assumes "map_wf m" "normalizer m = norm" "norm (Some key) (-1) code = Inr k"
    and "cif_map_set_item m key arg code = Some (r, m')"
  shows "r = CIF_OK"
  using assms set_item_standalone [of m key code k arg]
  by (auto simp: map_wf_def split: option.splits if_splits)

lemma retrieve_item_lookup:
  assumes "normalizer m = norm" "norm (Some key) (-1) code = Inr k"
  shows "fst (cif_map_retrieve_item m key rm code) =
           (case lookup m k of None \<Rightarrow> Inl CIF_NOSUCH_ITEM | Some v \<Rightarrow> Inr v)"
  using assms by (auto simp: cif_map_retrieve_item_def lookup_def split: option.split)

lemma remove_item_wf:
  assumes "map_wf m" "normalizer m = norm"
  shows "map_wf (snd (cif_map_retrieve_item m key rm code))
       \<and> normalizer (snd (cif_map_retrieve_item m key rm code)) = norm"
  using assms set_hash_del [of "map_head m"]
  by (auto simp: cif_map_retrieve_item_def map_wf_def distinct_remove1 split: sum.split option.split)

lemma remove_item_lookup:
  assumes "map_wf m" "normalizer m = norm" "norm (Some key) (-1) code = Inr k"
  shows "lookup (snd (cif_map_retrieve_item m key True code)) k' = (if k' = k then None else lookup m k')"
  using assms by (auto simp: cif_map_retrieve_item_def map_wf_def lookup_def hash_find_del split: option.split)

lemma norm_any: "as_option (norm s n 0) = Some k \<Longrightarrow> norm s n c = Inr k"
  using norm_code [of s n 0 k c] by simp

text \<open>The map operations with this normaliser, whatever their codes for an invalid key, are a store.\<close>

lemma map_store:
  "keyed_store (\<lambda>m. map_wf m \<and> normalizer m = norm) (\<lambda>k. as_option (norm (Some k) (-1) 0)) lookup may_set
     (\<lambda>m k a. cif_map_set_item m k a c1) (\<lambda>m k. fst (cif_map_retrieve_item m k False c2))
     (\<lambda>m k. cif_map_retrieve_item m k True c2)"
proof unfold_locales
  fix m k n a r m'
  assume m: "map_wf m \<and> normalizer m = norm"
  show "map_wf (snd (cif_map_retrieve_item m k True c2))
      \<and> normalizer (snd (cif_map_retrieve_item m k True c2)) = norm"
    using remove_item_wf m by blast
  show "as_option (norm (Some k) (-1) 0) = None \<Longrightarrow> \<exists>r. cif_map_set_item m k a c1 = Some (r, m)"
    using m norm_Inl [of "Some k" "-1" 0 _ c1] by (auto simp: cif_map_set_item_def)
  show "map_wf m' \<and> normalizer m' = norm" if "cif_map_set_item m k a c1 = Some (r, m')"
    using set_item_wf m that by blast
  assume k: "as_option (norm (Some k) (-1) 0) = Some n"
  note k1 = norm_any [OF k, of c1] and k2 = norm_any [OF k, of c2]
  show "cif_map_set_item m k a c1 \<noteq> None" if "may_set m k"
    using m k1 that by (metis set_item_ok option.distinct(1))
  show "r = CIF_OK \<and> lookup m' = (lookup m)(n \<mapsto>
      stored_value (case lookup m n of None \<Rightarrow> UnkValue | Some v \<Rightarrow> v) a)"
    if "cif_map_set_item m k a c1 = Some (r, m')"
    using set_item_lookup [of m k c1 n a r m'] set_item_result [of m k c1 n a r m'] m k1 that by auto
  show "fst (cif_map_retrieve_item m k False c2) =
      (case lookup m n of None \<Rightarrow> Inl CIF_NOSUCH_ITEM | Some v \<Rightarrow> Inr v)"
    using retrieve_item_lookup m k2 by blast
  show "fst (cif_map_retrieve_item m k True c2) = fst (cif_map_retrieve_item m k False c2)
      \<and> lookup (snd (cif_map_retrieve_item m k True c2)) = (lookup m)(n := None)"
    using retrieve_item_lookup [of m k c2 n] remove_item_lookup [of m k c2 n] m k2 by auto
qed

end

section \<open>Packets meet the contract\<close>

lemma item_name_code:
  "cif_normalize_item_name I s n c = Inr k \<Longrightarrow> cif_normalize_item_name I s n c' = Inr k"
  by (simp add: cif_normalize_item_name_def split: if_splits)

lemma table_index_code:
  "cif_normalize_table_index I s n c = Inr k \<Longrightarrow> cif_normalize_table_index I s n c' = Inr k"
  by (cases s) (simp_all add: cif_normalize_table_index_def split: if_splits)

interpretation item_names: name_normalizer "cif_normalize_item_name I" for I
  by unfold_locales (rule item_name_code)

interpretation table_keys: name_normalizer "cif_normalize_table_index I" for I
  by unfold_locales (rule table_index_code)

text \<open>The normal form of an item name, and the packets of the model.\<close>

definition item_norm :: "icu \<Rightarrow> ustring \<Rightarrow> ustring option" where
  "item_norm I name = as_option (cif_normalize_item_name I (Some name) (-1) 0)"

definition packet_wf :: "icu \<Rightarrow> cif_map \<Rightarrow> bool" where
  "packet_wf I p \<longleftrightarrow> map_wf p \<and> normalizer p = cif_normalize_item_name I"

definition map_view :: "cif_map \<Rightarrow> ustring \<Rightarrow> cif_value option" where
  "map_view m k = map_option entry_value (hash_find (map_head m) k)"

interpretation packets: keyed_store "packet_wf I" "item_norm I" map_view may_set
    cif_packet_set_item cif_packet_get_item cif_packet_remove_item for I
proof -
  have "packet_wf I = (\<lambda>m. map_wf m \<and> normalizer m = cif_normalize_item_name I)"
    "item_norm I = (\<lambda>k. as_option (cif_normalize_item_name I (Some k) (-1) 0))"
    "map_view = item_names.lookup"
    "cif_packet_set_item = (\<lambda>m k a. cif_map_set_item m k a CIF_INVALID_ITEMNAME)"
    "cif_packet_get_item = (\<lambda>m k. fst (cif_map_retrieve_item m k False CIF_NOSUCH_ITEM))"
    "cif_packet_remove_item = (\<lambda>m k. cif_map_retrieve_item m k True CIF_NOSUCH_ITEM)"
    by (simp_all add: fun_eq_iff packet_wf_def item_norm_def map_view_def item_names.lookup_def
        cif_packet_set_item_def cif_packet_get_item_def cif_packet_remove_item_def)
  then show "keyed_store (packet_wf I) (item_norm I) map_view may_set
      cif_packet_set_item cif_packet_get_item cif_packet_remove_item"
    using item_names.map_store [of I CIF_INVALID_ITEMNAME CIF_NOSUCH_ITEM] by simp
qed

section \<open>Tables meet the contract\<close>

fun table_entries :: "cif_value \<Rightarrow> map_entry list" where
  "table_entries (TableValue es) = es"
| "table_entries _ = []"

definition table_norm :: "icu \<Rightarrow> ustring \<Rightarrow> ustring option" where
  "table_norm I key = as_option (cif_normalize_table_index I (Some key) (-1) 0)"

definition table_wf :: "icu \<Rightarrow> cif_value \<Rightarrow> bool" where
  "table_wf I v \<longleftrightarrow> cif_value_kind v = CIF_TABLE_KIND \<and> map_wf (table_map I (table_entries v))"

definition table_view :: "icu \<Rightarrow> cif_value \<Rightarrow> ustring \<Rightarrow> cif_value option" where
  "table_view I v = map_view (table_map I (table_entries v))"

definition table_may_set :: "icu \<Rightarrow> cif_value \<Rightarrow> ustring \<Rightarrow> bool" where
  "table_may_set I v = may_set (table_map I (table_entries v))"

lemma table_wf_iff: "table_wf I v \<longleftrightarrow> (\<exists>es. v = TableValue es \<and> map_wf (table_map I es))"
  by (cases v) (auto simp: table_wf_def)

lemma table_map_simps [simp]:
  "map_head (table_map I es) = es" "normalizer (table_map I es) = cif_normalize_table_index I"
  "is_standalone (table_map I es)"
  by (simp_all add: table_map_def)

lemma table_map_head: "map_wf m \<Longrightarrow> normalizer m = cif_normalize_table_index I \<Longrightarrow> table_map I (map_head m) = m"
  by (simp add: table_map_def map_wf_def)

interpretation table_maps: keyed_store "\<lambda>m. map_wf m \<and> normalizer m = cif_normalize_table_index I"
    "table_norm I" map_view may_set "\<lambda>m k a. cif_map_set_item m k a CIF_INVALID_INDEX"
    "\<lambda>m k. fst (cif_map_retrieve_item m k False CIF_NOSUCH_ITEM)"
    "\<lambda>m k. cif_map_retrieve_item m k True CIF_NOSUCH_ITEM" for I
proof -
  have "table_norm I = (\<lambda>k. as_option (cif_normalize_table_index I (Some k) (-1) 0))"
    "map_view = table_keys.lookup"
    by (simp_all add: fun_eq_iff table_norm_def map_view_def table_keys.lookup_def)
  then show "keyed_store (\<lambda>m. map_wf m \<and> normalizer m = cif_normalize_table_index I)
      (table_norm I) map_view may_set (\<lambda>m k a. cif_map_set_item m k a CIF_INVALID_INDEX)
      (\<lambda>m k. fst (cif_map_retrieve_item m k False CIF_NOSUCH_ITEM))
      (\<lambda>m k. cif_map_retrieve_item m k True CIF_NOSUCH_ITEM)"
    using table_keys.map_store [of I CIF_INVALID_INDEX CIF_NOSUCH_ITEM] by simp
qed

interpretation tables: keyed_store "table_wf I" "table_norm I" "table_view I" "table_may_set I"
    "cif_value_set_item_by_key I" "cif_value_get_item_by_key I" "cif_value_remove_item_by_key I" for I
proof unfold_locales
  fix v k n a r v'
  assume "table_wf I v"
  then obtain es where v: "v = TableValue es" and wf: "map_wf (table_map I es)" by (auto simp: table_wf_iff)
  let ?m = "table_map I es"
  have m: "map_wf ?m \<and> normalizer ?m = cif_normalize_table_index I" using wf by simp
  have same: "table_map I (map_head m') = m'"
    if "cif_map_set_item ?m k a CIF_INVALID_INDEX = Some (r, m')" for m'
    using table_maps.set_inv [OF m that] by (intro table_map_head) simp_all
  have gone: "table_map I (map_head (snd (cif_map_retrieve_item ?m k True CIF_NOSUCH_ITEM)))
      = snd (cif_map_retrieve_item ?m k True CIF_NOSUCH_ITEM)"
    using table_maps.remove_inv [OF m] by (intro table_map_head) simp_all
  show "table_wf I (snd (cif_value_remove_item_by_key I v k))"
    using table_maps.remove_inv [OF m, of k] gone by (auto simp: v table_wf_iff Let_def split: prod.split)
  show "table_norm I k = None \<Longrightarrow> \<exists>r. cif_value_set_item_by_key I v k a = Some (r, v)"
    using table_maps.set_fails [of I k ?m a] m by (auto simp: v)
  show "table_wf I v'" if "cif_value_set_item_by_key I v k a = Some (r, v')"
    using that table_maps.set_inv [OF m, of k a] same by (auto simp: v table_wf_iff split: option.splits)
  assume k: "table_norm I k = Some n"
  show "cif_value_set_item_by_key I v k a \<noteq> None" if "table_may_set I v k"
    using table_maps.set_defined [OF m k, of a] that by (auto simp: v table_may_set_def split: option.splits)
  show "r = CIF_OK \<and> table_view I v' = (table_view I v)(n \<mapsto>
      stored_value (case table_view I v n of None \<Rightarrow> UnkValue | Some v \<Rightarrow> v) a)"
    if "cif_value_set_item_by_key I v k a = Some (r, v')"
    using that table_maps.set_view [OF m k, of a] same by (auto simp: v table_view_def split: option.splits)
  show "cif_value_get_item_by_key I v k =
      (case table_view I v n of None \<Rightarrow> Inl CIF_NOSUCH_ITEM | Some v \<Rightarrow> Inr v)"
    using table_maps.get_view [OF m k] by (simp add: v table_view_def)
  show "fst (cif_value_remove_item_by_key I v k) = cif_value_get_item_by_key I v k
      \<and> table_view I (snd (cif_value_remove_item_by_key I v k)) = (table_view I v)(n := None)"
    using table_maps.remove_view [OF m k] gone by (auto simp: v table_view_def Let_def split: prod.split)
qed


section \<open>Creating packets\<close>

lemma hash_find_mem: "distinct (map entry_key es) \<Longrightarrow> e \<in> set es \<Longrightarrow> hash_find es (entry_key e) = Some e"
  by (induction es) (auto simp: rev_image_eqI)

lemma normalize_names_Inr:
  "normalize_names I ns = Inr ns' \<Longrightarrow> list_all2 (\<lambda>n n'. item_norm I n = Some n') ns ns'"
proof (induction ns arbitrary: ns')
  case (Cons n ns)
  then show ?case
    by (auto simp: rbind_Inr_iff item_norm_def split: sum.splits dest: item_name_code [where c' = 0])
qed simp

lemma assign_names_eq:
  "list_all2 P ns ns' \<Longrightarrow>
   assign_names ns (map (\<lambda>name. (name, None, UnkValue)) ns') =
   map2 (\<lambda>n n'. (n', if n = n' then None else Some n, UnkValue)) ns ns'"
  by (induction ns ns' rule: list_all2_induct) auto

lemma packet_head:
  assumes "cif_packet_create I (Some ns) = Inr p"
  obtains ns' where "list_all2 (\<lambda>n n'. item_norm I n = Some n') ns ns'"
    "map_head p = map2 (\<lambda>n n'. (n', if n = n' then None else Some n, UnkValue)) ns ns'"
    "is_standalone p" "normalizer p = cif_normalize_item_name I"
proof -
  obtain ns' where ns': "normalize_names I ns = Inr ns'"
    using assms by (auto simp: cif_packet_create_def split: sum.splits)
  then show ?thesis
    using that [of ns'] assms normalize_names_Inr [OF ns'] assign_names_eq [OF normalize_names_Inr [OF ns']]
    by (auto simp: cif_packet_create_def Let_def cif_packet_create_norm_def)
qed

text \<open>
  A packet created for names no two of which have the same normal form is well-formed; it
  lists the names as they were given, in their order, and holds the unknown value for each.
\<close>

theorem packet_create_spec:
  assumes p: "cif_packet_create I (Some ns) = Inr p" and d: "distinct (map (item_norm I) ns)"
  shows "packet_wf I p \<and> cif_packet_get_names p = ns
       \<and> (\<forall>n. map_view p n = (if Some n \<in> item_norm I ` set ns then Some UnkValue else None))"
proof -
  obtain ns' where ns': "list_all2 (\<lambda>n n'. item_norm I n = Some n') ns ns'"
    and head: "map_head p = map2 (\<lambda>n n'. (n', if n = n' then None else Some n, UnkValue)) ns ns'"
    and st: "is_standalone p" "normalizer p = cif_normalize_item_name I"
    using packet_head [OF p] .
  have len: "length ns = length ns'" using ns' by (rule list_all2_lengthD)
  have keys: "map entry_key (map_head p) = ns'" and origs: "map entry_key_orig (map_head p) = ns"
    and vals: "\<forall>e \<in> set (map_head p). entry_value e = UnkValue"
    unfolding head using len by (induction ns ns' rule: list_induct2) (auto simp: orig_key_def)
  have nn: "map (item_norm I) ns = map Some ns'"
    using ns' by (induction rule: list_all2_induct) auto
  then have dist: "distinct ns'" using d by (simp add: distinct_map)
  have norm: "\<forall>e \<in> set (map_head p). cif_normalize_item_name I (Some (entry_key_orig e)) (-1) 0 = Inr (entry_key e)"
    unfolding head using ns' by (induction rule: list_all2_induct) (auto simp: orig_key_def item_norm_def)
  have "map_view p n = (if n \<in> set ns' then Some UnkValue else None)" for n
  proof (cases "hash_find (map_head p) n")
    case None
    then show ?thesis using keys by (auto simp: map_view_def hash_find_None simp flip: set_map)
  next
    case (Some e)
    then show ?thesis
      using hash_find_key [OF Some] vals keys by (auto simp: map_view_def simp flip: keys)
  qed
  moreover have "Some n \<in> item_norm I ` set ns \<longleftrightarrow> n \<in> set ns'" for n
    using arg_cong [OF nn, of set] by auto
  ultimately show ?thesis
    using st norm dist keys origs by (simp add: packet_wf_def map_wf_def cif_packet_get_names_def cif_map_get_keys_def)
qed

text \<open>An instance of ICU that does what it documents on strings of ASCII characters.\<close>

definition ascii_icu :: icu where
  "ascii_icu = \<lparr>unorm = (\<lambda>_ s. Some s), fold_case = (\<lambda>s. Some (map ascii_lower s)),
     count_char32 = (\<lambda>s. int (length s)), heap_junk = [0x5a, 0x5a]\<rparr>"

lemma ascii_names:
  "normalize_names ascii_icu [kw ''_a'', kw ''_B''] = Inr [kw ''_a'', kw ''_b'']"
  "item_norm ascii_icu (kw ''_a'') = Some (kw ''_a'')" "item_norm ascii_icu (kw ''_A'') = Some (kw ''_a'')"
  "item_norm ascii_icu (kw ''_B'') = Some (kw ''_b'')" "table_norm ascii_icu (kw ''k'') = Some (kw ''k'')"
  by code_simp+

definition ab_packet :: cif_map where
  "ab_packet = \<lparr>map_head = [(kw ''_a'', None, UnkValue), (kw ''_b'', Some (kw ''_B''), UnkValue)],
     is_standalone = True, normalizer = cif_normalize_item_name ascii_icu\<rparr>"

lemma ab_packet: "cif_packet_create ascii_icu (Some [kw ''_a'', kw ''_B'']) = Inr ab_packet"
  using ascii_names(1) by (simp add: cif_packet_create_def cif_packet_create_norm_def ab_packet_def)

lemma packet_create_spec_witness:
  "\<exists>p. cif_packet_create ascii_icu (Some [kw ''_a'', kw ''_B'']) = Inr p
     \<and> cif_packet_get_names p = [kw ''_a'', kw ''_B'']"
  using packet_create_spec [OF ab_packet] ab_packet ascii_names by simp

section \<open>Setting and getting items\<close>

text \<open>
  C20. After setting an item of a well-formed packet, the packet is well-formed, looking up any
  spelling of the name gives a clone of the value, and every other item is as before.
\<close>

theorem packet_get_after_set:
  assumes "packet_wf I p" "item_norm I name = Some n" "item_norm I name' = Some n'"
    and "cif_packet_set_item p name (ArgValue v) = Some (r, p')"
  shows "r = CIF_OK \<and> packet_wf I p' \<and>
    cif_packet_get_item p' name' = (if n' = n then Inr (cif_value_clone v) else cif_packet_get_item p name')"
  by (rule packets.get_after_set [OF assms])

lemma ab_packet_wf: "packet_wf ascii_icu ab_packet"
  by (simp add: packet_wf_def map_wf_def ab_packet_def orig_key_def) code_simp

lemma packet_get_after_set_witness:
  "\<exists>p'. cif_packet_set_item ab_packet (kw ''_B'') (ArgValue NaValue) = Some (CIF_OK, p')
     \<and> cif_packet_get_item p' (kw ''_B'') = Inr NaValue"
proof -
  have "may_set ab_packet (kw ''_B'')"
    using ascii_names by (simp add: may_set_def ab_packet_def item_norm_def orig_key_def)
  then obtain r p' where "cif_packet_set_item ab_packet (kw ''_B'') (ArgValue NaValue) = Some (r, p')"
    using packets.set_defined [OF ab_packet_wf ascii_names(4)] by (metis option.exhaust surj_pair)
  then show ?thesis
    using packet_get_after_set [OF ab_packet_wf ascii_names(4) ascii_names(4)] by fastforce
qed

text \<open>
  After removing an item from a well-formed packet, the removed value is the one the item
  had, no spelling of its name is found any more, and every other item is as before.
\<close>

theorem packet_get_after_remove:
  assumes "packet_wf I p" "item_norm I name = Some n" "item_norm I name' = Some n'"
  shows "fst (cif_packet_remove_item p name) = cif_packet_get_item p name
    \<and> packet_wf I (snd (cif_packet_remove_item p name))
    \<and> cif_packet_get_item (snd (cif_packet_remove_item p name)) name' =
        (if n' = n then Inl CIF_NOSUCH_ITEM else cif_packet_get_item p name')"
  by (rule packets.get_after_remove [OF assms])

lemma packet_get_after_remove_witness:
  "cif_packet_get_item (snd (cif_packet_remove_item ab_packet (kw ''_A''))) (kw ''_a'') = Inl CIF_NOSUCH_ITEM"
  using packet_get_after_remove [OF ab_packet_wf ascii_names(3) ascii_names(2)] by simp

text \<open>
  C21. The same for table values: after setting an entry of a well-formed table value, the
  value is a well-formed table, every key with the same normal form finds a clone of the value,
  and every other entry is as before.
\<close>

theorem table_get_after_set:
  assumes "table_wf I t" "table_norm I key = Some n" "table_norm I key' = Some n'"
    and "cif_value_set_item_by_key I t key (ArgValue v) = Some (r, t')"
  shows "r = CIF_OK \<and> table_wf I t' \<and>
    cif_value_get_item_by_key I t' key' =
      (if n' = n then Inr (cif_value_clone v) else cif_value_get_item_by_key I t key')"
  by (rule tables.get_after_set [OF assms])

lemma table_get_after_set_witness:
  "\<exists>t'. cif_value_set_item_by_key ascii_icu (TableValue []) (kw ''k'') (ArgValue NaValue) = Some (CIF_OK, t')
     \<and> cif_value_get_item_by_key ascii_icu t' (kw ''k'') = Inr NaValue"
proof -
  have wf: "table_wf ascii_icu (TableValue [])" by (simp add: table_wf_iff map_wf_def)
  have "table_may_set ascii_icu (TableValue []) (kw ''k'')" by (simp add: table_may_set_def may_set_def)
  then obtain r t' where
    "cif_value_set_item_by_key ascii_icu (TableValue []) (kw ''k'') (ArgValue NaValue) = Some (r, t')"
    using tables.set_defined [OF wf ascii_names(5)] by (metis option.exhaust surj_pair)
  then show ?thesis using table_get_after_set [OF wf ascii_names(5) ascii_names(5)] by fastforce
qed

text \<open>
  C33. Creating a packet with a name given in normal form, and then setting that item under
  another spelling of the name, releases the normalised key that the hash table still uses.
\<close>

theorem packet_respelling_dangles:
  assumes p: "cif_packet_create I (Some ns) = Inr p" and d: "distinct (map (item_norm I) ns)"
    and n: "n \<in> set ns" "item_norm I n = Some n"
    and name: "item_norm I name = Some n" "name \<noteq> n"
  shows "cif_packet_set_item p name arg = None"
proof -
  have wf: "packet_wf I p" using packet_create_spec [OF p d] by simp
  obtain ns' where ns': "list_all2 (\<lambda>n n'. item_norm I n = Some n') ns ns'"
    and head: "map_head p = map2 (\<lambda>n n'. (n', if n = n' then None else Some n, UnkValue)) ns ns'"
    by (rule packet_head [OF p])
  have mem: "(n, None, UnkValue) \<in> set (map_head p)"
    unfolding head using ns' n by (induction rule: list_all2_induct) auto
  have dist: "distinct (map entry_key (map_head p))" using wf by (simp add: packet_wf_def map_wf_def)
  have "hash_find (map_head p) n = Some (n, None, UnkValue)"
    using hash_find_mem [OF dist mem] by simp
  then show ?thesis
    using wf name item_names.norm_any [of I "Some name" "-1" n CIF_INVALID_ITEMNAME]
    by (simp add: cif_packet_set_item_def packet_wf_def map_wf_def item_norm_def orig_key_def set_item_standalone)
qed

lemma packet_respelling_dangles_witness:
  "cif_packet_set_item ab_packet (kw ''_A'') (ArgValue NaValue) = None"
  using packet_respelling_dangles [OF ab_packet _ _ ascii_names(2,3)] ascii_names by simp

end
