(* ===== verification/Serial.thy ===== *)
theory Serial
  imports CifMap
begin

text \<open>
  The serialisation of list and table values into the byte strings that the database holds for
  them (src/value.c: the dynamic buffers, SERIALIZE, DESERIALIZE, cif_value_serialize,
  cif_value_deserialize). Sizes are those of an LP64 platform and the machine order is little-endian;
  allocation does not fail.
\<close>

section \<open>Numbers as bytes\<close>

type_synonym bytes = "8 word list"

text \<open>The \<open>n\<close> bytes of a number, and the number of some bytes, unsigned and signed.\<close>

primrec bytes_of :: "nat \<Rightarrow> int \<Rightarrow> bytes" where
  "bytes_of 0 x = []"
| "bytes_of (Suc n) x = word_of_int x # bytes_of n (x div 256)"

fun of_bytes :: "bytes \<Rightarrow> int" where
  "of_bytes [] = 0"
| "of_bytes (b # bs) = uint b + 256 * of_bytes bs"

definition signed_of_bytes :: "bytes \<Rightarrow> int" where
  "signed_of_bytes bs =
     (let u = of_bytes bs in if 2 * u < 256 ^ length bs then u else u - 256 ^ length bs)"

text \<open>The code units of a string as bytes.\<close>

definition unit_bytes :: "ustring \<Rightarrow> bytes" where
  "unit_bytes us = concat (map (\<lambda>c. bytes_of 2 (uint c)) us)"

fun units_of_bytes :: "bytes \<Rightarrow> ustring" where
  "units_of_bytes (b # b' # bs) = word_of_int (of_bytes [b, b']) # units_of_bytes bs"
| "units_of_bytes _ = []"

fun kind_code :: "cif_kind \<Rightarrow> int" where
  "kind_code CIF_CHAR_KIND = 0" | "kind_code CIF_NUMB_KIND = 1" | "kind_code CIF_LIST_KIND = 2"
| "kind_code CIF_TABLE_KIND = 3" | "kind_code CIF_NA_KIND = 4" | "kind_code CIF_UNK_KIND = 5"

fun quoted_code :: "cif_quoted \<Rightarrow> int" where
  "quoted_code CIF_NOT_QUOTED = 0" | "quoted_code CIF_QUOTED = 1"

section \<open>Dynamic buffers\<close>

text \<open>The bytes up to the limit, the position, and the recorded capacity.\<close>

record write_buffer =
  wb_start :: bytes
  wb_position :: nat
  wb_capacity :: nat

definition cif_buf_create :: "nat \<Rightarrow> write_buffer" where
  "cif_buf_create cap = \<lparr>wb_start = [], wb_position = 0, wb_capacity = cap\<rparr>"

text \<open>
  The loop that looks for a sufficient capacity: the working capacity is not updated in it. \<open>None\<close>
  is a loop that does not end.
\<close>

partial_function (option) expand_capacity :: "nat \<Rightarrow> nat \<Rightarrow> nat option" where
  "expand_capacity working_cap needed_cap =
     (let proposed_cap = (working_cap * 3) mod 2 ^ 64 div 2;
          proposed_cap = (if proposed_cap < working_cap then needed_cap else proposed_cap)
      in if proposed_cap < needed_cap then expand_capacity working_cap needed_cap
         else Some proposed_cap)"

text \<open>
  Writing \<open>len\<close> bytes from \<open>src\<close>. The capacity is not recorded when the space is reallocated.
\<close>

definition cif_buf_write :: "write_buffer \<Rightarrow> bytes \<Rightarrow> nat \<Rightarrow> (int \<times> write_buffer) option" where
  "cif_buf_write buf src len =
     (let needed_cap = (wb_position buf + len) mod 2 ^ 64 in
      if needed_cap < wb_position buf then Some (CIF_ERROR, buf)
      else if needed_cap > wb_capacity buf \<and> expand_capacity (wb_capacity buf) needed_cap = None then None
      else Some (CIF_OK, buf\<lparr>
             wb_start := take (wb_position buf) (wb_start buf) @ take len src
                         @ drop (wb_position buf + len) (wb_start buf),
             wb_position := wb_position buf + len\<rparr>))"

text \<open>Reading at most \<open>most\<close> of the bytes that are left: what was read and what is left then.\<close>

definition cif_buf_read :: "bytes \<Rightarrow> nat \<Rightarrow> bytes \<times> bytes" where
  "cif_buf_read bs most = (take most bs, drop most bs)"

section \<open>Serialisation\<close>

type_synonym writer = "write_buffer \<Rightarrow> (int \<times> write_buffer) option"

text \<open>One writing step after another, unless the first failed.\<close>

definition after :: "writer \<Rightarrow> writer \<Rightarrow> writer" where
  "after f g buf =
     (case f buf of
        None \<Rightarrow> None
      | Some (result, buf) \<Rightarrow> if result \<noteq> CIF_OK then Some (result, buf) else g buf)"

primrec run_all :: "writer list \<Rightarrow> writer" where
  "run_all [] = (\<lambda>buf. Some (CIF_OK, buf))"
| "run_all (f # fs) = after f (run_all fs)"

definition write_number :: "nat \<Rightarrow> int \<Rightarrow> writer" where
  "write_number n x buf = cif_buf_write buf (bytes_of n x) n"

text \<open>
  The size of a missing string is -1, and so is, as a number of units, the count of bytes that are
  written after it.
\<close>

definition SERIALIZE_USTRING :: "ustring option \<Rightarrow> writer" where
  "SERIALIZE_USTRING string =
     (case string of
        None \<Rightarrow> after (write_number 8 (-1)) (\<lambda>buf. cif_buf_write buf [] (2 ^ 64 - 2))
      | Some us \<Rightarrow> after (write_number 8 (int (length us)))
                     (\<lambda>buf. cif_buf_write buf (unit_bytes us) (2 * length us)))"

definition SERIALIZE_QUOTED_FLAG :: "cif_quoted \<Rightarrow> writer" where
  "SERIALIZE_QUOTED_FLAG quoted = write_number 4 (quoted_code quoted)"

text \<open>Lists: a failure to write the number of elements ends the function with CIF_OK.\<close>

definition cif_list_serialize :: "writer list \<Rightarrow> writer" where
  "cif_list_serialize elements buf =
     (case write_number 8 (int (length elements)) buf of
        None \<Rightarrow> None
      | Some (result, buf) \<Rightarrow> if result = CIF_OK then run_all elements buf else Some (CIF_OK, buf))"

text \<open>Tables: an entry's original key is written unless it is the same object as the key.\<close>

definition cif_table_serialize :: "(ustring \<times> ustring option \<times> writer) list \<Rightarrow> writer" where
  "cif_table_serialize entries =
     after
       (run_all (map (\<lambda>(key, key_orig, write_value).
          after (write_number 4 0)
            (after (SERIALIZE_USTRING (Some key)) (after (SERIALIZE_USTRING key_orig) write_value))) entries))
       (write_number 4 (-1))"

fun SERIALIZE :: "cif_value \<Rightarrow> writer" where
  "SERIALIZE (CharValue q t) =
     after (write_number 4 (kind_code CIF_CHAR_KIND)) (after (SERIALIZE_USTRING (Some t)) (SERIALIZE_QUOTED_FLAG q))"
| "SERIALIZE (NumbValue q t sign digits su scale) =
     after (write_number 4 (kind_code CIF_NUMB_KIND)) (after (SERIALIZE_USTRING (Some t)) (SERIALIZE_QUOTED_FLAG q))"
| "SERIALIZE (ListValue es) =
     after (write_number 4 (kind_code CIF_LIST_KIND)) (cif_list_serialize (map (\<lambda>e. SERIALIZE e) es))"
| "SERIALIZE (TableValue es) =
     after (write_number 4 (kind_code CIF_TABLE_KIND))
       (cif_table_serialize (map (\<lambda>(key, key_orig, v). (key, key_orig, SERIALIZE v)) es))"
| "SERIALIZE NaValue = write_number 4 (kind_code CIF_NA_KIND)"
| "SERIALIZE UnkValue = write_number 4 (kind_code CIF_UNK_KIND)"

definition DEFAULT_SERIALIZATION_CAP :: nat where
  "DEFAULT_SERIALIZATION_CAP = 512"

definition cif_value_serialize :: "cif_value \<Rightarrow> write_buffer res option" where
  "cif_value_serialize v =
     map_option (\<lambda>(result, buf). if result = CIF_OK then Inr buf else Inl result)
       (SERIALIZE v (cif_buf_create DEFAULT_SERIALIZATION_CAP))"

section \<open>Deserialisation\<close>

text \<open>
  What the functions make of some bytes: an object and the bytes that are left, a failure, or
  an object that is not a value (an unknown kind, or a text that is NULL).
\<close>

datatype 'a deserialized = Deserialized 'a bytes | Failed int | NotAValue

text \<open>The number of so many bytes, if there are so many.\<close>

definition read_number :: "nat \<Rightarrow> bytes \<Rightarrow> (bytes \<times> bytes) option" where
  "read_number n bs =
     (case cif_buf_read bs n of (b, bs) \<Rightarrow> if length b = n then Some (b, bs) else None)"

definition DESERIALIZE_USTRING :: "bytes \<Rightarrow> (ustring option \<times> bytes) option" where
  "DESERIALIZE_USTRING bs =
     (case read_number 8 bs of
        None \<Rightarrow> None
      | Some (b, bs) \<Rightarrow>
          (let n = signed_of_bytes b in
           if n < 0 then Some (None, bs)
           else
             (case cif_buf_read bs (2 * nat n) of
                (d, bs) \<Rightarrow> if length d = 2 * nat n then Some (Some (cstr (units_of_bytes d)), bs) else None)))"

definition DESERIALIZE_QUOTED_FLAG :: "bytes \<Rightarrow> (cif_quoted \<times> bytes) option" where
  "DESERIALIZE_QUOTED_FLAG bs =
     (case read_number 4 bs of
        None \<Rightarrow> None
      | Some (b, bs) \<Rightarrow>
          if of_bytes b = quoted_code CIF_QUOTED then Some (CIF_QUOTED, bs)
          else if of_bytes b = quoted_code CIF_NOT_QUOTED then Some (CIF_NOT_QUOTED, bs)
          else None)"

fun set_flag :: "cif_quoted \<Rightarrow> cif_value \<Rightarrow> cif_value" where
  "set_flag q (CharValue _ t) = CharValue q t"
| "set_flag q (NumbValue _ t sign digits su scale) = NumbValue q t sign digits su scale"
| "set_flag q v = v"

text \<open>A character value or a number: the number is parsed before its flag is read.\<close>

definition deserialize_text :: "bool \<Rightarrow> bytes \<Rightarrow> cif_value deserialized" where
  "deserialize_text numb bs =
     (case DESERIALIZE_USTRING bs of
        None \<Rightarrow> Failed CIF_ERROR
      | Some (None, bs) \<Rightarrow> NotAValue
      | Some (Some t, bs) \<Rightarrow>
          (case (if numb then cif_value_parse_numb UnkValue t else (CIF_OK, CharValue CIF_NOT_QUOTED t)) of
             (result, v) \<Rightarrow>
               if result \<noteq> CIF_OK then Failed result
               else
                 (case DESERIALIZE_QUOTED_FLAG bs of
                    None \<Rightarrow> Failed CIF_ERROR
                  | Some (q, bs) \<Rightarrow> Deserialized (set_flag q v) bs)))"

text \<open>
  The functions call each other for the elements of lists and tables; \<open>fuel\<close> bounds the depth of the
  calls and the turns of the loops. \<open>None\<close>: not enough fuel.
\<close>

fun DESERIALIZE :: "nat \<Rightarrow> bytes \<Rightarrow> cif_value deserialized option"
  and cif_list_deserialize :: "nat \<Rightarrow> nat \<Rightarrow> bytes \<Rightarrow> cif_value list deserialized option"
  and cif_table_deserialize ::
    "nat \<Rightarrow> bytes \<Rightarrow> (ustring \<times> ustring option \<times> cif_value) list deserialized option" where
  "DESERIALIZE 0 bs = None"
| "DESERIALIZE (Suc fuel) bs =
     (case read_number 4 bs of
        None \<Rightarrow> Some (Failed CIF_ERROR)
      | Some (b, bs) \<Rightarrow>
          if of_bytes b = kind_code CIF_CHAR_KIND then Some (deserialize_text False bs)
          else if of_bytes b = kind_code CIF_NUMB_KIND then Some (deserialize_text True bs)
          else if of_bytes b = kind_code CIF_LIST_KIND then
            (case read_number 8 bs of
               None \<Rightarrow> Some (Failed CIF_ERROR)
             | Some (b, bs) \<Rightarrow>
                 (case cif_list_deserialize fuel (nat (of_bytes b)) bs of
                    None \<Rightarrow> None
                  | Some (Deserialized es bs) \<Rightarrow> Some (Deserialized (ListValue es) bs)
                  | Some (Failed e) \<Rightarrow> Some (Failed e)
                  | Some NotAValue \<Rightarrow> Some NotAValue))
          else if of_bytes b = kind_code CIF_TABLE_KIND then
            (case cif_table_deserialize fuel bs of
               None \<Rightarrow> None
             | Some (Deserialized es bs) \<Rightarrow> Some (Deserialized (TableValue es) bs)
             | Some (Failed e) \<Rightarrow> Some (Failed e)
             | Some NotAValue \<Rightarrow> Some NotAValue)
          else if of_bytes b = kind_code CIF_NA_KIND then Some (Deserialized NaValue bs)
          else if of_bytes b = kind_code CIF_UNK_KIND then Some (Deserialized UnkValue bs)
          else Some NotAValue)"
| "cif_list_deserialize fuel 0 bs = Some (Deserialized [] bs)"
| "cif_list_deserialize 0 (Suc left) bs = None"
| "cif_list_deserialize (Suc fuel) (Suc left) bs =
     (case DESERIALIZE fuel bs of
        None \<Rightarrow> None
      | Some (Failed e) \<Rightarrow> Some (Failed e)
      | Some NotAValue \<Rightarrow> Some NotAValue
      | Some (Deserialized v bs) \<Rightarrow>
          (case cif_list_deserialize fuel left bs of
             Some (Deserialized vs bs) \<Rightarrow> Some (Deserialized (v # vs) bs)
           | r \<Rightarrow> r))"
| "cif_table_deserialize 0 bs = None"
| "cif_table_deserialize (Suc fuel) bs =
     (case read_number 4 bs of
        None \<Rightarrow> Some (Failed CIF_ERROR)
      | Some (b, bs) \<Rightarrow>
          if signed_of_bytes b = -1 then Some (Deserialized [] bs)
          else if signed_of_bytes b \<noteq> 0 then Some (Failed CIF_INTERNAL_ERROR)
          else
            (case DESERIALIZE_USTRING bs of
               None \<Rightarrow> Some (Failed CIF_ERROR)
             | Some (None, bs) \<Rightarrow> Some NotAValue
             | Some (Some key, bs) \<Rightarrow>
                 (case DESERIALIZE_USTRING bs of
                    None \<Rightarrow> Some (Failed CIF_ERROR)
                  | Some (key_orig, bs) \<Rightarrow>
                      (case DESERIALIZE fuel bs of
                         None \<Rightarrow> None
                       | Some (Failed e) \<Rightarrow> Some (Failed e)
                       | Some NotAValue \<Rightarrow> Some NotAValue
                       | Some (Deserialized v bs) \<Rightarrow>
                           (case cif_table_deserialize fuel bs of
                              Some (Deserialized es bs) \<Rightarrow> Some (Deserialized ((key, key_orig, v) # es) bs)
                            | r \<Rightarrow> r)))))"

definition cif_value_deserialize :: "nat \<Rightarrow> bytes \<Rightarrow> cif_value res option" where
  "cif_value_deserialize fuel src =
     (case DESERIALIZE fuel src of
        Some (Deserialized v _) \<Rightarrow> Some (Inr v)
      | Some (Failed e) \<Rightarrow> Some (Inl e)
      | _ \<Rightarrow> None)"

section \<open>What is written\<close>

text \<open>The bytes of a value. A value all of whose entries have keys of their own has no other.\<close>

definition string_bytes :: "ustring \<Rightarrow> bytes" where
  "string_bytes us = bytes_of 8 (int (length us)) @ unit_bytes us"

fun value_bytes :: "cif_value \<Rightarrow> bytes" where
  "value_bytes (CharValue q t) = bytes_of 4 0 @ string_bytes t @ bytes_of 4 (quoted_code q)"
| "value_bytes (NumbValue q t _ _ _ _) = bytes_of 4 1 @ string_bytes t @ bytes_of 4 (quoted_code q)"
| "value_bytes (ListValue es) = bytes_of 4 2 @ bytes_of 8 (int (length es)) @ concat (map (\<lambda>e. value_bytes e) es)"
| "value_bytes (TableValue es) = bytes_of 4 3
     @ concat (map (\<lambda>(key, key_orig, v). bytes_of 4 0 @ string_bytes key @ string_bytes (orig_key key key_orig) @ value_bytes v) es)
     @ bytes_of 4 (-1)"
| "value_bytes NaValue = bytes_of 4 4"
| "value_bytes UnkValue = bytes_of 4 5"

fun own_keys :: "cif_value \<Rightarrow> bool" where
  "own_keys (ListValue es) = (\<forall>e \<in> set es. own_keys e)"
| "own_keys (TableValue es) = (\<forall>(key, key_orig, v) \<in> set es. key_orig \<noteq> None \<and> own_keys v)"
| "own_keys _ = True"

lemma length_bytes_of [simp]: "length (bytes_of n x) = n"
  by (induction n arbitrary: x) auto

lemma length_unit_bytes [simp]: "length (unit_bytes us) = 2 * length us"
  by (induction us) (simp_all add: unit_bytes_def)

lemma length_string_bytes [simp]: "length (string_bytes us) = 8 + 2 * length us"
  by (simp add: string_bytes_def)

text \<open>The loop ends at once or not at all.\<close>

definition proposed :: "nat \<Rightarrow> nat \<Rightarrow> nat" where
  "proposed w n = (if (w * 3) mod 2 ^ 64 div 2 < w then n else (w * 3) mod 2 ^ 64 div 2)"

lemma expand_capacity_SomeD: "expand_capacity w n = Some c \<Longrightarrow> n \<le> proposed w n"
proof (rule expand_capacity.raw_induct [where P = "\<lambda>w n c. n \<le> proposed w n"])
  fix f :: "nat \<Rightarrow> nat \<Rightarrow> nat option" and w n c
  assume "\<And>w n c. f w n = Some c \<Longrightarrow> n \<le> proposed w n"
    and "(let p = (w * 3) mod 2 ^ 64 div 2; p = (if p < w then n else p)
      in if p < n then f w n else Some p) = Some c"
  then show "n \<le> proposed w n"
    unfolding Let_def proposed_def [symmetric] by (cases "proposed w n < n") auto
qed

lemma expand_default: "expand_capacity 512 n = (if n \<le> 768 then Some 768 else None)"
proof (cases "n \<le> 768")
  case True
  then show ?thesis by (subst expand_capacity.simps) simp
next
  case False
  then show ?thesis
    using expand_capacity_SomeD [of 512 n] by (cases "expand_capacity 512 n") (simp_all add: proposed_def)
qed

text \<open>
  Buffers as the writing leaves them: the position is at the limit. \<open>outcome buf bs\<close> is what writing
  \<open>bs\<close> does; \<open>writes f bs\<close>: the step \<open>f\<close> writes \<open>bs\<close>.
\<close>

definition at_limit :: "write_buffer \<Rightarrow> bool" where
  "at_limit buf \<longleftrightarrow> wb_position buf = length (wb_start buf) \<and> wb_position buf \<le> 768
     \<and> wb_capacity buf = DEFAULT_SERIALIZATION_CAP"

definition appended :: "write_buffer \<Rightarrow> bytes \<Rightarrow> write_buffer" where
  "appended buf bs = buf\<lparr>wb_start := wb_start buf @ bs, wb_position := wb_position buf + length bs\<rparr>"

definition outcome :: "write_buffer \<Rightarrow> bytes \<Rightarrow> (int \<times> write_buffer) option" where
  "outcome buf bs = (if wb_position buf + length bs \<le> 768 then Some (CIF_OK, appended buf bs) else None)"

definition writes :: "writer \<Rightarrow> bytes \<Rightarrow> bool" where
  "writes f bs \<longleftrightarrow> (\<forall>buf. at_limit buf \<and> wb_position buf + length bs < 2 ^ 64 \<longrightarrow> f buf = outcome buf bs)"

lemma writesI: "(\<And>buf. at_limit buf \<Longrightarrow> wb_position buf + length bs < 2 ^ 64 \<Longrightarrow> f buf = outcome buf bs) \<Longrightarrow> writes f bs"
  by (simp add: writes_def)

lemma at_limit_appended [simp]:
  "at_limit buf \<Longrightarrow> wb_position buf + length bs \<le> 768 \<Longrightarrow> at_limit (appended buf bs)"
  by (simp add: at_limit_def appended_def)

lemma position_appended [simp]: "wb_position (appended buf bs) = wb_position buf + length bs"
  by (simp add: appended_def)

lemma appended_twice [simp]: "appended (appended buf xs) ys = appended buf (xs @ ys)"
  by (simp add: appended_def)

lemma writes_bytes: "length bs = n \<Longrightarrow> writes (\<lambda>buf. cif_buf_write buf bs n) bs"
  by (rule writesI)
    (auto simp: cif_buf_write_def Let_def outcome_def appended_def at_limit_def DEFAULT_SERIALIZATION_CAP_def expand_default)

lemma writes_number: "writes (write_number n x) (bytes_of n x)"
  using writes_bytes [of "bytes_of n x" n] by (simp add: writes_def write_number_def)

lemma writes_after:
  assumes "writes f xs" "writes g ys"
  shows "writes (after f g) (xs @ ys)"
proof (rule writesI)
  fix buf assume b: "at_limit buf" "wb_position buf + length (xs @ ys) < 2 ^ 64"
  then have f: "f buf = outcome buf xs" using assms(1) by (simp add: writes_def)
  show "after f g buf = outcome buf (xs @ ys)"
  proof (cases "wb_position buf + length xs \<le> 768")
    case True
    then have "g (appended buf xs) = outcome (appended buf xs) ys" using assms(2) b by (simp add: writes_def)
    then show ?thesis using f True by (auto simp: after_def outcome_def)
  next
    case False
    then show ?thesis using f by (simp add: after_def outcome_def)
  qed
qed

lemma writes_string: "writes (SERIALIZE_USTRING (Some us)) (string_bytes us)"
  unfolding SERIALIZE_USTRING_def string_bytes_def option.case
  by (intro writes_after writes_number writes_bytes) simp

lemma writes_run: "list_all2 writes fs bss \<Longrightarrow> writes (run_all fs) (concat bss)"
proof (induction fs bss rule: list_all2_induct)
  case Nil
  show ?case by (rule writesI) (simp add: at_limit_def outcome_def appended_def)
next
  case (Cons f fs bs bss)
  then show ?case by (simp add: writes_after)
qed

lemma writes_list:
  assumes "list_all2 writes fs bss"
  shows "writes (cif_list_serialize fs) (bytes_of 8 (int (length fs)) @ concat bss)"
proof (rule writesI)
  fix buf assume b: "at_limit buf" "wb_position buf + length (bytes_of 8 (int (length fs)) @ concat bss) < 2 ^ 64"
  have w: "writes (after (write_number 8 (int (length fs))) (run_all fs)) (bytes_of 8 (int (length fs)) @ concat bss)"
    by (intro writes_after writes_number writes_run assms)
  have "write_number 8 (int (length fs)) buf = outcome buf (bytes_of 8 (int (length fs)))"
    using writes_number [of 8 "int (length fs)"] b unfolding writes_def by simp
  then have "cif_list_serialize fs buf = after (write_number 8 (int (length fs))) (run_all fs) buf"
    by (simp add: cif_list_serialize_def after_def outcome_def)
  then show "cif_list_serialize fs buf = outcome buf (bytes_of 8 (int (length fs)) @ concat bss)"
    using w b unfolding writes_def by simp
qed

definition entry_bytes :: "ustring \<times> ustring option \<times> cif_value \<Rightarrow> bytes" where
  "entry_bytes e = (case e of (key, key_orig, v) \<Rightarrow>
     bytes_of 4 0 @ string_bytes key @ string_bytes (orig_key key key_orig) @ value_bytes v)"

lemma table_bytes: "value_bytes (TableValue es) = bytes_of 4 3 @ concat (map entry_bytes es) @ bytes_of 4 (-1)"
  by (simp add: entry_bytes_def [abs_def])

lemma entries_write:
  assumes "\<And>key key_orig v. (key, key_orig, v) \<in> set es \<Longrightarrow> key_orig \<noteq> None \<and> writes (SERIALIZE v) (value_bytes v)"
  shows "list_all2 writes (map (\<lambda>(key, key_orig, v). after (write_number 4 0)
      (after (SERIALIZE_USTRING (Some key)) (after (SERIALIZE_USTRING key_orig) (SERIALIZE v)))) es)
    (map entry_bytes es)"
  unfolding list_all2_map1 list_all2_map2
proof (rule list.rel_refl_strong)
  fix e assume e: "e \<in> set es"
  obtain key key_orig v where k: "e = (key, key_orig, v)" using prod_cases3 by metis
  then obtain ko where "key_orig = Some ko" "writes (SERIALIZE v) (value_bytes v)" using assms e by blast
  then show "writes (case e of (key, key_orig, v) \<Rightarrow> after (write_number 4 0)
      (after (SERIALIZE_USTRING (Some key)) (after (SERIALIZE_USTRING key_orig) (SERIALIZE v)))) (entry_bytes e)"
    by (simp add: k entry_bytes_def orig_key_def writes_after writes_number writes_string)
qed

lemma writes_value: "own_keys v \<Longrightarrow> writes (SERIALIZE v) (value_bytes v)"
proof (induction v rule: SERIALIZE.induct)
  case (1 q t)
  show ?case by (simp add: SERIALIZE_QUOTED_FLAG_def) (intro writes_after writes_number writes_string)
next
  case (2 q t sign digits su scale)
  show ?case by (simp add: SERIALIZE_QUOTED_FLAG_def) (intro writes_after writes_number writes_string)
next
  case (3 es)
  have "list_all2 writes (map (\<lambda>e. SERIALIZE e) es) (map (\<lambda>e. value_bytes e) es)"
    using 3 by (auto simp: list_all2_map1 list_all2_map2 intro: list.rel_refl_strong)
  from writes_after [OF writes_number writes_list [OF this]] show ?case by simp
next
  case (4 es)
  have "list_all2 writes (map (\<lambda>(key, key_orig, v). after (write_number 4 0)
      (after (SERIALIZE_USTRING (Some key)) (after (SERIALIZE_USTRING key_orig) (SERIALIZE v)))) es)
    (map entry_bytes es)"
    using 4 by (intro entries_write) auto
  from writes_after [OF writes_number writes_after [OF writes_run [OF this] writes_number]] show ?case
    unfolding table_bytes by (simp add: cif_table_serialize_def comp_def case_prod_beta')
next
  case 5
  show ?case using writes_number [of 4 4] by simp
next
  case 6
  show ?case using writes_number [of 4 5] by simp
qed

lemma serialize_outcome:
  assumes "own_keys v" "length (value_bytes v) < 2 ^ 64"
  shows "cif_value_serialize v =
    (if length (value_bytes v) \<le> 768 then Some (Inr (appended (cif_buf_create DEFAULT_SERIALIZATION_CAP) (value_bytes v))) else None)"
  using writes_value [OF assms(1)] assms(2)
  by (simp add: writes_def cif_value_serialize_def at_limit_def cif_buf_create_def outcome_def)

section \<open>What is read\<close>

lemma of_bytes_of: "of_bytes (bytes_of n x) = x mod 256 ^ n"
proof (induction n arbitrary: x)
  case (Suc n)
  have "uint (word_of_int x :: 8 word) = x mod 256" by (simp add: uint_word_of_int)
  then show ?case using Suc [of "x div 256"] by (simp add: zmod_zmult2_eq)
qed simp

lemma signed_of_bytes_of:
  assumes "- (256 ^ n) \<le> 2 * x" "2 * x < 256 ^ n"
  shows "signed_of_bytes (bytes_of n x) = x"
proof (cases "0 \<le> x")
  case True
  then have "x mod 256 ^ n = x" using assms by simp
  then show ?thesis using assms by (simp add: signed_of_bytes_def of_bytes_of)
next
  case False
  have "x mod 256 ^ n = (x + 256 ^ n) mod 256 ^ n" by simp
  also have "\<dots> = x + 256 ^ n" using False assms by (intro mod_pos_pos_trivial) auto
  finally show ?thesis using assms False by (simp add: signed_of_bytes_def of_bytes_of)
qed

lemma units_of_unit_bytes: "units_of_bytes (unit_bytes us) = us"
proof (induction us)
  case (Cons c us)
  obtain b b' where b: "bytes_of 2 (uint c) = [b, b']" by (simp add: numeral_2_eq_2)
  have "of_bytes [b, b'] = uint c mod 65536" using of_bytes_of [of 2 "uint c"] b by simp
  then have "word_of_int (of_bytes [b, b']) = c"
    using uint_lt2p [of c] by (simp del: of_bytes.simps uint_lt2p)
  then show ?case using Cons b by (simp add: unit_bytes_def del: of_bytes.simps)
qed (simp add: unit_bytes_def)

lemma read_number_append: "length b = n \<Longrightarrow> read_number n (b @ rest) = Some (b, rest)"
  by (simp add: read_number_def cif_buf_read_def)

lemma read_number_bytes: "read_number n (bytes_of n x @ rest) = Some (bytes_of n x, rest)"
  by (simp add: read_number_append)

lemma read_string:
  assumes "0 \<notin> set us" "length us < 2 ^ 63"
  shows "DESERIALIZE_USTRING (string_bytes us @ rest) = Some (Some us, rest)"
proof -
  have "int (length us) < 2 ^ 63" using assms(2) by (metis of_nat_less_iff of_nat_numeral of_nat_power)
  then have "signed_of_bytes (bytes_of 8 (int (length us))) = int (length us)"
    by (intro signed_of_bytes_of) simp_all
  moreover have "cstr us = us" using assms(1) by (auto simp: cstr_def takeWhile_eq_all_conv)
  ultimately show ?thesis
    by (simp add: DESERIALIZE_USTRING_def string_bytes_def read_number_bytes cif_buf_read_def units_of_unit_bytes)
qed

lemma read_flag: "DESERIALIZE_QUOTED_FLAG (bytes_of 4 (quoted_code q) @ rest) = Some (q, rest)"
  by (cases q) (simp_all add: DESERIALIZE_QUOTED_FLAG_def read_number_bytes of_bytes_of)

text \<open>
  The values that can be read back: strings without NUL, numbers whose fields are what their text says.
\<close>

fun readable :: "cif_value \<Rightarrow> bool" where
  "readable (CharValue q t) \<longleftrightarrow> 0 \<notin> set t"
| "readable (NumbValue q t sign digits su scale) \<longleftrightarrow> 0 \<notin> set t
     \<and> cif_value_parse_numb UnkValue t = (CIF_OK, NumbValue CIF_NOT_QUOTED t sign digits su scale)"
| "readable (ListValue es) \<longleftrightarrow> (\<forall>e \<in> set es. readable e)"
| "readable (TableValue es) \<longleftrightarrow>
     (\<forall>(key, key_orig, v) \<in> set es. 0 \<notin> set key \<and> key_orig \<noteq> None \<and> 0 \<notin> set (orig_key key key_orig) \<and> readable v)"
| "readable _ \<longleftrightarrow> True"

lemma readable_own_keys: "readable v \<Longrightarrow> own_keys v"
  by (induction v rule: readable.induct) fastforce+

lemma value_bytes_pos: "4 \<le> length (value_bytes v)"
  by (cases v rule: value_bytes.cases) auto

lemma read_text:
  assumes "0 \<notin> set t" "length t < 2 ^ 63"
    "(if numb then cif_value_parse_numb UnkValue t else (CIF_OK, CharValue CIF_NOT_QUOTED t)) = (CIF_OK, v)"
  shows "deserialize_text numb (string_bytes t @ bytes_of 4 (quoted_code q) @ rest) = Deserialized (set_flag q v) rest"
  by (simp add: deserialize_text_def read_string [OF assms(1,2)] assms(3) read_flag)

lemma read_elements:
  assumes "\<And>v n rest. v \<in> set es \<Longrightarrow> length (value_bytes v) \<le> n \<Longrightarrow> n < 2 ^ 63 \<Longrightarrow>
      DESERIALIZE (Suc n) (value_bytes v @ rest) = Some (Deserialized v rest)"
    and "length (concat (map (\<lambda>e. value_bytes e) es)) + 2 \<le> n" and "n < 2 ^ 63"
  shows "cif_list_deserialize n (length es) (concat (map (\<lambda>e. value_bytes e) es) @ rest) = Some (Deserialized es rest)"
  using assms
proof (induction es arbitrary: n)
  case (Cons v es)
  obtain m where m: "n = Suc (Suc m)" using Cons.prems(2) by (intro that [of "n - 2"]) simp
  have "DESERIALIZE (Suc m) (value_bytes v @ concat (map (\<lambda>e. value_bytes e) es) @ rest)
      = Some (Deserialized v (concat (map (\<lambda>e. value_bytes e) es) @ rest))"
    using Cons.prems(2,3) m by (intro Cons.prems(1)) auto
  moreover have "cif_list_deserialize (Suc m) (length es) (concat (map (\<lambda>e. value_bytes e) es) @ rest)
      = Some (Deserialized es rest)"
    using Cons.prems(2,3) m value_bytes_pos [of v] by (intro Cons.IH Cons.prems(1)) auto
  ultimately show ?case by (simp add: m del: DESERIALIZE.simps)
qed simp

lemma read_entries:
  assumes "\<And>key key_orig v n rest. (key, key_orig, v) \<in> set es \<Longrightarrow> length (value_bytes v) \<le> n \<Longrightarrow> n < 2 ^ 63 \<Longrightarrow>
      DESERIALIZE (Suc n) (value_bytes v @ rest) = Some (Deserialized v rest)"
    and "\<And>key key_orig v. (key, key_orig, v) \<in> set es \<Longrightarrow>
      0 \<notin> set key \<and> key_orig \<noteq> None \<and> 0 \<notin> set (orig_key key key_orig)"
    and "length (concat (map entry_bytes es)) + 4 \<le> n" and "n < 2 ^ 63"
  shows "cif_table_deserialize n (concat (map entry_bytes es) @ bytes_of 4 (-1) @ rest) = Some (Deserialized es rest)"
  using assms
proof (induction es arbitrary: n)
  case Nil
  obtain m where "n = Suc m" using Nil.prems(3) by (cases n) auto
  then show ?case by (simp add: read_number_bytes signed_of_bytes_of)
next
  case (Cons e es)
  obtain key key_orig v where e: "e = (key, key_orig, v)" using prod_cases3 by metis
  obtain ko where k: "key_orig = Some ko" "0 \<notin> set key" "0 \<notin> set ko"
    using Cons.prems(2) [of key key_orig v] e by (auto simp: orig_key_def)
  let ?rest = "concat (map entry_bytes es) @ bytes_of 4 (-1) @ rest"
  obtain m where m: "n = Suc (Suc m)" using Cons.prems(3) by (intro that [of "n - 2"]) simp
  have eb: "entry_bytes e = bytes_of 4 0 @ string_bytes key @ string_bytes ko @ value_bytes v"
    using e k by (simp add: entry_bytes_def orig_key_def)
  have len: "length (value_bytes v) + 2 * length key + 2 * length ko + 20 + length (concat (map entry_bytes es)) + 4 \<le> n"
    using Cons.prems(3) by (simp add: eb)
  have 1: "DESERIALIZE (Suc m) (value_bytes v @ ?rest) = Some (Deserialized v ?rest)"
    using len m e Cons.prems(4) by (intro Cons.prems(1)) auto
  have 2: "cif_table_deserialize (Suc m) ?rest = Some (Deserialized es rest)"
    using len m Cons.prems(4) by (intro Cons.IH Cons.prems(1,2)) auto
  have 3: "DESERIALIZE_USTRING (string_bytes key @ r) = Some (Some key, r)"
    "DESERIALIZE_USTRING (string_bytes ko @ r) = Some (Some ko, r)" for r
    using len Cons.prems(4) k by (intro read_string; simp)+
  have "cif_table_deserialize (Suc (Suc m)) (entry_bytes e @ ?rest) = Some (Deserialized (e # es) rest)"
    unfolding cif_table_deserialize.simps(2) [of "Suc m"] eb
    by (simp add: e k read_number_bytes signed_of_bytes_of 1 2 3 del: DESERIALIZE.simps cif_table_deserialize.simps)
  then show ?case by (simp add: m)
qed

lemma read_value:
  "readable v \<Longrightarrow> length (value_bytes v) \<le> n \<Longrightarrow> n < 2 ^ 63 \<Longrightarrow>
   DESERIALIZE (Suc n) (value_bytes v @ rest) = Some (Deserialized v rest)"
proof (induction v arbitrary: n rest rule: readable.induct)
  case (1 q t)
  then have "0 \<notin> set t" "length t < 2 ^ 63" by auto
  from read_text [OF this, of False] 1 show ?case by (simp add: read_number_bytes of_bytes_of)
next
  case (2 q t sign digits su scale)
  then have "0 \<notin> set t" "length t < 2 ^ 63" by auto
  from read_text [OF this, of True] 2 show ?case by (simp add: read_number_bytes of_bytes_of)
next
  case (3 es)
  have l: "int (length es) < 256 ^ 8"
  proof -
    have "length es \<le> length (concat (map (\<lambda>e. value_bytes e) es))"
    proof (induction es)
      case (Cons e es)
      then show ?case using value_bytes_pos [of e] by simp
    qed simp
    also have "\<dots> < 2 ^ 63" using 3(3,4) by simp
    finally show ?thesis by simp
  qed
  have "cif_list_deserialize n (length es) (concat (map (\<lambda>e. value_bytes e) es) @ rest) = Some (Deserialized es rest)"
    using 3 by (intro read_elements) (auto simp del: DESERIALIZE.simps)
  then show ?case using l by (simp add: read_number_bytes of_bytes_of)
next
  case (4 es)
  have "cif_table_deserialize n (concat (map entry_bytes es) @ bytes_of 4 (-1) @ rest) = Some (Deserialized es rest)"
    using 4(1,2,4) 4(3) [unfolded table_bytes]
    by (intro read_entries) (auto simp del: DESERIALIZE.simps value_bytes.simps)
  then show ?case unfolding table_bytes by (simp add: read_number_bytes of_bytes_of del: cif_table_deserialize.simps)
qed (simp_all add: read_number_bytes of_bytes_of)

section \<open>How much fuel is enough\<close>

text \<open>Every object takes at least the four bytes of its kind.\<close>

fun consumes :: "nat \<Rightarrow> bytes \<Rightarrow> 'a deserialized option \<Rightarrow> bool" where
  "consumes k bs None = False"
| "consumes k bs (Some (Deserialized v rest)) \<longleftrightarrow> length rest + k \<le> length bs"
| "consumes k bs (Some _) = True"

lemma read_number_length: "read_number n bs = Some (b, rest) \<Longrightarrow> length rest + n = length bs"
  by (auto simp: read_number_def cif_buf_read_def split: if_splits)

lemma read_string_length: "DESERIALIZE_USTRING bs = Some (t, rest) \<Longrightarrow> length rest + 8 \<le> length bs"
  by (auto simp: DESERIALIZE_USTRING_def Let_def cif_buf_read_def split: option.splits if_splits dest!: read_number_length)

lemma read_flag_length: "DESERIALIZE_QUOTED_FLAG bs = Some (q, rest) \<Longrightarrow> length rest + 4 = length bs"
  by (auto simp: DESERIALIZE_QUOTED_FLAG_def split: option.splits if_splits dest!: read_number_length)

lemma text_consumes: "consumes 0 bs (Some (deserialize_text numb bs))"
  by (auto simp: deserialize_text_def split: option.splits prod.splits if_splits
      dest!: read_string_length read_flag_length)

lemma consumes_weaken: "consumes k bs r \<Longrightarrow> length bs + j \<le> length bs' + k \<Longrightarrow> consumes j bs' r"
  by (induction k bs r rule: consumes.induct) auto

lemma consumes_map:
  "consumes k bs x \<Longrightarrow> consumes k bs (case x of None \<Rightarrow> None
     | Some (Deserialized v rest) \<Rightarrow> Some (Deserialized (f v) rest)
     | Some (Failed e) \<Rightarrow> Some (Failed e) | Some NotAValue \<Rightarrow> Some NotAValue)"
  by (cases x) (auto split: deserialized.split)

lemma enough_fuel:
  "(length bs < n \<longrightarrow> consumes 4 bs (DESERIALIZE n bs))
   \<and> (length bs + 1 < n \<longrightarrow> consumes 0 bs (cif_list_deserialize n k bs))
   \<and> (length bs < n \<longrightarrow> consumes 0 bs (cif_table_deserialize n bs))"
proof (induction n arbitrary: bs k)
  case (Suc n)
  have D: "length bs < n \<Longrightarrow> consumes 4 bs (DESERIALIZE n bs)"
    and L: "length bs + 1 < n \<Longrightarrow> consumes 0 bs (cif_list_deserialize n k bs)"
    and T: "length bs < n \<Longrightarrow> consumes 0 bs (cif_table_deserialize n bs)" for bs k
    using Suc by blast+
  have D': "consumes 4 bs (DESERIALIZE (Suc n) bs)" if len: "length bs < Suc n" for bs
  proof (cases "read_number 4 bs")
    case (Some x)
    obtain b bs1 where x: "x = (b, bs1)" by (cases x)
    have l1: "length bs1 + 4 = length bs" using read_number_length [OF Some [unfolded x]] .
    have t: "consumes 4 bs (Some (deserialize_text numb bs1))" for numb
      using consumes_weaken [OF text_consumes] l1 by simp
    have l: "consumes 4 bs (case cif_list_deserialize n k bs2 of None \<Rightarrow> None
        | Some (Deserialized es bs) \<Rightarrow> Some (Deserialized (ListValue es) bs)
        | Some (Failed e) \<Rightarrow> Some (Failed e) | Some NotAValue \<Rightarrow> Some NotAValue)"
      if "read_number 8 bs1 = Some (b2, bs2)" for k b2 bs2
      using L [of bs2 k] read_number_length [OF that] l1 len
      by (intro consumes_map consumes_weaken [OF L]) auto
    have tb: "consumes 4 bs (case cif_table_deserialize n bs1 of None \<Rightarrow> None
        | Some (Deserialized es bs) \<Rightarrow> Some (Deserialized (TableValue es) bs)
        | Some (Failed e) \<Rightarrow> Some (Failed e) | Some NotAValue \<Rightarrow> Some NotAValue)"
      using l1 len by (intro consumes_map consumes_weaken [OF T]) auto
    show ?thesis using Some x l1 t l tb by (auto split: option.split prod.split)
  qed simp
  moreover have "consumes 0 bs (cif_list_deserialize (Suc n) k bs)" if len: "length bs + 1 < Suc n" for bs k
  proof (cases k)
    case (Suc j)
    have d: "consumes 4 bs (DESERIALIZE n bs)" using D len by simp
    show ?thesis
    proof (cases "DESERIALIZE n bs")
      case (Some r)
      show ?thesis
      proof (cases r)
        case (Deserialized v bs1)
        then have l1: "length bs1 + 4 \<le> length bs" using d Some by simp
        then have "consumes 0 bs (cif_list_deserialize n j bs1)" using len by (intro consumes_weaken [OF L]) auto
        then show ?thesis using Suc Some Deserialized
          by (cases "cif_list_deserialize n j bs1") (auto split: deserialized.split)
      qed (simp_all add: Suc Some)
    qed (use d in simp)
  qed simp
  moreover have "consumes 0 bs (cif_table_deserialize (Suc n) bs)" if len: "length bs < Suc n" for bs
  proof (cases "read_number 4 bs")
    case (Some x)
    obtain b bs1 where x: "x = (b, bs1)" by (cases x)
    have l1: "length bs1 + 4 = length bs" using read_number_length [OF Some [unfolded x]] .
    have entry: "consumes 0 bs (case DESERIALIZE n bs3 of None \<Rightarrow> None
         | Some (Failed e) \<Rightarrow> Some (Failed e) | Some NotAValue \<Rightarrow> Some NotAValue
         | Some (Deserialized v bs) \<Rightarrow> (case cif_table_deserialize n bs of
              Some (Deserialized es bs) \<Rightarrow> Some (Deserialized ((key, key_orig, v) # es) bs) | r \<Rightarrow> r))"
      if "DESERIALIZE_USTRING bs1 = Some (t, bs2)" "DESERIALIZE_USTRING bs2 = Some (key_orig, bs3)" for t bs2 key key_orig bs3
    proof -
      have l3: "length bs3 + 20 \<le> length bs"
        using l1 read_string_length [OF that(1)] read_string_length [OF that(2)] by simp
      then have d: "consumes 4 bs3 (DESERIALIZE n bs3)" using D len by simp
      show ?thesis
      proof (cases "DESERIALIZE n bs3")
        case (Some r)
        show ?thesis
        proof (cases r)
          case (Deserialized v bs4)
          then have "length bs4 + 4 \<le> length bs3" using d Some by simp
          then have "consumes 0 bs (cif_table_deserialize n bs4)" using l3 len by (intro consumes_weaken [OF T]) auto
          then show ?thesis using Some Deserialized
            by (cases "cif_table_deserialize n bs4") (auto split: deserialized.split)
        qed (simp_all add: Some)
      qed (use d in simp)
    qed
    show ?thesis using Some x l1 entry by (auto split: option.split prod.split)
  qed simp
  ultimately show ?case by blast
qed simp

section \<open>Properties\<close>

lemma serialize_read:
  assumes "readable v" "length (value_bytes v) \<le> 768" "length (value_bytes v) < fuel" "fuel \<le> 2 ^ 63"
  shows "\<exists>buf. cif_value_serialize v = Some (Inr buf) \<and> wb_start buf = value_bytes v
    \<and> cif_value_deserialize fuel (wb_start buf) = Some (Inr v)"
proof -
  have "cif_value_serialize v = Some (Inr (appended (cif_buf_create DEFAULT_SERIALIZATION_CAP) (value_bytes v)))"
    using serialize_outcome [OF readable_own_keys [OF assms(1)]] assms(2) by simp
  moreover obtain n where n: "fuel = Suc n" using assms(3) by (cases fuel) auto
  moreover have "DESERIALIZE (Suc n) (value_bytes v @ []) = Some (Deserialized v [])"
    by (rule read_value) (use assms n in simp_all)
  ultimately show ?thesis
    by (simp add: cif_value_deserialize_def appended_def cif_buf_create_def del: DESERIALIZE.simps)
qed

text \<open>
  C7. Serialisation and deserialisation. A value whose strings have no NUL, whose numbers hold what their
  text says and whose tables have original keys of their own, if it takes at most 768 bytes, is
  serialised, and what is read from those bytes is the value.
\<close>

theorem serialize_roundtrip:
  assumes "readable v" "length (value_bytes v) \<le> 768"
  shows "\<exists>buf. cif_value_serialize v = Some (Inr buf)
    \<and> cif_value_deserialize (Suc (length (wb_start buf))) (wb_start buf) = Some (Inr v)"
  using serialize_read [OF assms, of "Suc (length (value_bytes v))"] assms(2) by auto

definition sample_nested :: cif_value where
  "sample_nested = ListValue [CharValue CIF_QUOTED (kw ''ab''), NaValue,
     TableValue [(kw ''k'', Some (kw ''K''), NumbValue CIF_NOT_QUOTED (kw ''-1.5(2)'') (-1) (kw ''15'') (Some (kw ''2'')) 1)]]"

lemma sample_nested_ok: "readable sample_nested" "length (value_bytes sample_nested) = 98"
  by code_simp+

lemma serialize_roundtrip_witness:
  "\<exists>buf. cif_value_serialize sample_nested = Some (Inr buf)
    \<and> cif_value_deserialize (Suc (length (wb_start buf))) (wb_start buf) = Some (Inr sample_nested)"
  by (rule serialize_roundtrip) (simp_all add: sample_nested_ok)

text \<open>
  C22. When serialisation returns. The capacity of a buffer is looked for in a loop that does not change
  what it looks at, and one and a half of the initial 512 bytes is all it can find: the serialisation of
  a value that takes more than 768 bytes never returns, and that of a smaller one does.
\<close>

theorem serialize_returns_iff:
  assumes "own_keys v" "length (value_bytes v) < 2 ^ 64"
  shows "cif_value_serialize v \<noteq> None \<longleftrightarrow> length (value_bytes v) \<le> 768"
  using serialize_outcome [OF assms] by simp

lemma serialize_returns_iff_witness:
  "cif_value_serialize (ListValue [CharValue CIF_QUOTED (replicate 400 0x61)]) = None"
proof -
  let ?v = "ListValue [CharValue CIF_QUOTED (replicate 400 0x61)]"
  have "own_keys ?v" "length (value_bytes ?v) = 828" by simp_all
  then show ?thesis using serialize_returns_iff [of ?v] by simp
qed

lemma after_ok: "f buf = Some (CIF_OK, b) \<Longrightarrow> after f g buf = g b"
  by (simp add: after_def)

lemma after_error: "f buf = Some (r, b) \<Longrightarrow> r \<noteq> CIF_OK \<Longrightarrow> after f g buf = Some (r, b)"
  by (simp add: after_def)

lemma run_all_append: "run_all (fs @ gs) buf = after (run_all fs) (run_all gs) buf"
  by (induction fs arbitrary: buf) (auto simp: after_def split: option.split)

lemma writes_within:
  "writes f bs \<Longrightarrow> at_limit buf \<Longrightarrow> wb_position buf + length bs \<le> 768 \<Longrightarrow> f buf = Some (CIF_OK, appended buf bs)"
  by (simp add: writes_def outcome_def)

lemma missing_string_fails:
  assumes "at_limit buf" "wb_position buf + 8 \<le> 768"
  shows "\<exists>b. SERIALIZE_USTRING None buf = Some (CIF_ERROR, b)"
proof -
  have "write_number 8 (-1) buf = Some (CIF_OK, appended buf (bytes_of 8 (-1)))"
    by (rule writes_within [OF writes_number assms(1)]) (use assms(2) in simp)
  then have "SERIALIZE_USTRING None buf = cif_buf_write (appended buf (bytes_of 8 (-1))) [] (2 ^ 64 - 2)"
    unfolding SERIALIZE_USTRING_def option.case by (rule after_ok)
  moreover have "(wb_position buf + 8 + (2 ^ 64 - 2)) mod 2 ^ 64 = wb_position buf + 6"
  proof -
    have "wb_position buf + 8 + (2 ^ 64 - 2) = wb_position buf + 6 + 2 ^ 64" by simp
    then show ?thesis using assms(2) by (simp only: mod_add_self2) simp
  qed
  ultimately show ?thesis by (auto simp: cif_buf_write_def Let_def)
qed

text \<open>
  A table with an entry whose original key is the same object as its key cannot be serialised: the
  size of the missing string is written as a count of bytes too, and the call fails with CIF_ERROR, if what comes
  before fits into the buffer (otherwise it does not return). The library makes no such entries itself.
\<close>

lemma shared_key_unserializable:
  assumes "own_keys (TableValue pre)" "length (value_bytes (TableValue pre)) + 2 * length key + 16 \<le> 768"
  shows "cif_value_serialize (TableValue (pre @ (key, None, v) # post)) = Some (Inl CIF_ERROR)"
proof -
  let ?buf = "cif_buf_create DEFAULT_SERIALIZATION_CAP"
  let ?entry = "\<lambda>(key, key_orig, v). after (write_number 4 0)
    (after (SERIALIZE_USTRING (Some key)) (after (SERIALIZE_USTRING key_orig) (SERIALIZE v)))"
  have start: "at_limit ?buf" "wb_position ?buf = 0" by (simp_all add: at_limit_def cif_buf_create_def)
  have "writes (run_all (map ?entry pre)) (concat (map entry_bytes pre))"
    using assms(1) by (intro writes_run entries_write) (auto intro: writes_value)
  from writes_after [OF writes_number [of 4 3] this] start
  have pre: "after (write_number 4 3) (run_all (map ?entry pre)) ?buf
      = Some (CIF_OK, appended ?buf (bytes_of 4 3 @ concat (map entry_bytes pre)))"
    using assms(2) unfolding table_bytes by (intro writes_within) simp_all
  define b where "b = appended ?buf (bytes_of 4 3 @ concat (map entry_bytes pre))"
  have b: "at_limit b" "wb_position b + 4 + 8 + 2 * length key + 8 \<le> 768"
    using start assms(2) unfolding b_def table_bytes by auto
  have k: "after (write_number 4 0) (SERIALIZE_USTRING (Some key)) b = Some (CIF_OK, appended b (bytes_of 4 0 @ string_bytes key))"
    by (rule writes_within [OF writes_after [OF writes_number writes_string] b(1)]) (use b(2) in simp)
  obtain c where c: "SERIALIZE_USTRING None (appended b (bytes_of 4 0 @ string_bytes key)) = Some (CIF_ERROR, c)"
    using missing_string_fails [of "appended b (bytes_of 4 0 @ string_bytes key)"] b by auto
  have entry: "?entry (key, None, v) b = Some (CIF_ERROR, c)"
    using k c by (auto simp: after_def split: option.splits if_splits)
  have "SERIALIZE (TableValue (pre @ (key, None, v) # post)) ?buf
      = after (after (write_number 4 3) (run_all (map ?entry pre)))
          (after (run_all (map ?entry ((key, None, v) # post))) (write_number 4 (-1))) ?buf"
    by (auto simp: cif_table_serialize_def comp_def case_prod_beta' after_def run_all_append split: option.split)
  also have "\<dots> = Some (CIF_ERROR, c)"
    using pre [folded b_def] entry by (simp add: after_def)
  finally show ?thesis by (simp add: cif_value_serialize_def)
qed

lemma shared_key_unserializable_witness:
  "cif_value_serialize (TableValue [(kw ''k'', None, NaValue)]) = Some (Inl CIF_ERROR)"
  using shared_key_unserializable [of "[]" "kw ''k''" NaValue "[]"] by (simp add: kw_def)

text \<open>
  C24. Deserialisation always ends: whatever the bytes are, as many steps as there are bytes, and one
  more, are enough.
\<close>

theorem deserialize_returns:
  assumes "length src < fuel"
  shows "DESERIALIZE fuel src \<noteq> None"
  using enough_fuel [of src fuel] assms by (cases "DESERIALIZE fuel src") simp_all

lemma deserialize_returns_witness: "DESERIALIZE 13 (bytes_of 4 2 @ bytes_of 8 (-1)) \<noteq> None"
  by (rule deserialize_returns) simp

end
