(* ===== verification/Schema.thy ===== *)
theory Schema
  imports Serial
begin

text \<open>
  The database behind a managed CIF: the tables, constraints, triggers and cascades of
  misc/cif_schema.sql, the statements of src/internal/sql.h, the transaction macros and the
  binding of values to columns of src/internal/utils.h.

  A table is the list of its rows, in the order of their insertion. A statement that violates
  a constraint changes nothing and yields \<open>None\<close> (SQLITE_CONSTRAINT). What is SQLite's is
  modelled as SQLite documents it: foreign keys are immediate and cascade, a statement is
  atomic, \<open>begin\<close> fails inside a transaction and \<open>commit\<close> and \<open>rollback\<close> outside one, and a
  savepoint restores the state at its start. Its failures for lack of memory or space are not
  modelled.
\<close>

section \<open>Values in columns\<close>

text \<open>
  The column \<open>val\<close>: the text, the number as a double (never read back, so not represented),
  or the bytes of the serialised list or table.
\<close>

datatype val_col = ValNull | ValText ustring | ValDouble | ValBlob bytes

record value_cols =
  col_kind :: cif_kind
  col_quoted :: "cif_quoted option"
  col_val :: val_col
  col_text :: "ustring option"
  col_digits :: "ustring option"
  col_su_digits :: "ustring option"
  col_scale :: "int option"

text \<open>
  SET_VALUE_PROPS; a parameter that is not bound is NULL. \<open>cif_value_get_number\<close> of a number does not fail.
  A list or a table is serialised: an error of that is the macro's, and where serialisation does not
  return, neither does the call that binds the value, which \<open>NO_RETURN\<close> as its result stands for.
\<close>

fun set_value_props :: "cif_value \<Rightarrow> value_cols res" where
  "set_value_props (CharValue q t) =
     Inr \<lparr>col_kind = CIF_CHAR_KIND, col_quoted = Some q, col_val = ValText t, col_text = Some t,
      col_digits = None, col_su_digits = None, col_scale = None\<rparr>"
| "set_value_props (NumbValue q t sign digits su scale) =
     Inr \<lparr>col_kind = CIF_NUMB_KIND, col_quoted = Some q, col_val = ValDouble, col_text = Some t,
      col_digits = Some digits, col_su_digits = su, col_scale = Some scale\<rparr>"
| "set_value_props v =
     (case (case v of
              ListValue _ \<Rightarrow> map_option (map_sum id (\<lambda>buf. ValBlob (wb_start buf))) (cif_value_serialize v)
            | TableValue _ \<Rightarrow> map_option (map_sum id (\<lambda>buf. ValBlob (wb_start buf))) (cif_value_serialize v)
            | _ \<Rightarrow> Some (Inr ValNull)) of
        None \<Rightarrow> Inl NO_RETURN
      | Some (Inl e) \<Rightarrow> Inl e
      | Some (Inr val) \<Rightarrow>
          Inr \<lparr>col_kind = cif_value_kind v, col_quoted = None, col_val = val,
            col_text = None, col_digits = None, col_su_digits = None, col_scale = None\<rparr>)"

text \<open>
  The bytes in a column are deserialised; as many steps as there are bytes, and one more, are enough
  (theory Serial). Bytes that end within a value or are no value are errors.
\<close>

definition value_of_blob :: "val_col \<Rightarrow> cif_value res" where
  "value_of_blob col =
     (case col of
        ValBlob blob \<Rightarrow>
          (case cif_value_deserialize (Suc (length blob)) blob of
             Some (Inr v) \<Rightarrow> Inr v
           | _ \<Rightarrow> Inl CIF_INTERNAL_ERROR)
      | _ \<Rightarrow> Inl CIF_INTERNAL_ERROR)"

text \<open>GET_VALUE_PROPS\<close>

definition get_value_props :: "value_cols \<Rightarrow> cif_value res" where
  "get_value_props r =
     (let quoted = (case col_quoted r of Some CIF_QUOTED \<Rightarrow> CIF_QUOTED | _ \<Rightarrow> CIF_NOT_QUOTED)
      in case col_kind r of
           CIF_CHAR_KIND \<Rightarrow>
             (case col_text r of None \<Rightarrow> Inl CIF_INTERNAL_ERROR | Some t \<Rightarrow> Inr (CharValue quoted t))
         | CIF_NUMB_KIND \<Rightarrow>
             (case (col_text r, col_digits r) of
                (Some t, Some digits) \<Rightarrow>
                  if t \<noteq> [] \<and> digits \<noteq> [] then
                    Inr (NumbValue quoted t (if hd t = UCHAR_MINUS then -1 else 1) digits
                           (col_su_digits r) (case col_scale r of None \<Rightarrow> 0 | Some n \<Rightarrow> n))
                  else Inl CIF_INTERNAL_ERROR
              | _ \<Rightarrow> Inl CIF_INTERNAL_ERROR)
         | CIF_LIST_KIND \<Rightarrow> value_of_blob (col_val r)
         | CIF_TABLE_KIND \<Rightarrow> value_of_blob (col_val r)
         | CIF_UNK_KIND \<Rightarrow> Inr UnkValue
         | CIF_NA_KIND \<Rightarrow> Inr NaValue)"

text \<open>The CHECK constraints of item_value, other than that on the row number.\<close>

definition digits_check :: "ustring \<Rightarrow> bool" where
  "digits_check ds \<longleftrightarrow> ds \<noteq> [] \<and> list_all is_digit ds"

definition value_check :: "value_cols \<Rightarrow> bool" where
  "value_check r \<longleftrightarrow>
     (if col_val r = ValNull then col_kind r \<in> {CIF_NA_KIND, CIF_UNK_KIND}
      else col_kind r \<in> {CIF_CHAR_KIND, CIF_NUMB_KIND, CIF_LIST_KIND, CIF_TABLE_KIND})
     \<and> (col_text r = None \<longleftrightarrow> col_kind r \<notin> {CIF_CHAR_KIND, CIF_NUMB_KIND})
     \<and> (if col_kind r = CIF_NUMB_KIND then
          col_scale r \<noteq> None
          \<and> (case col_digits r of None \<Rightarrow> False | Some ds \<Rightarrow> digits_check ds)
          \<and> (case col_su_digits r of None \<Rightarrow> True | Some ds \<Rightarrow> digits_check ds)
        else col_digits r = None \<and> col_su_digits r = None \<and> col_scale r = None)"

section \<open>Tables\<close>

record container_row =
  con_id :: int
  con_next_loop_num :: int

record block_row =
  blk_id :: int
  blk_name :: ustring
  blk_name_orig :: ustring

record frame_row =
  frm_id :: int
  frm_parent :: int
  frm_name :: ustring
  frm_name_orig :: ustring

record loop_row =
  lp_container :: int
  lp_num :: int
  lp_category :: "ustring option"
  lp_last_row :: int

record item_row =
  it_container :: int
  it_name :: ustring
  it_name_orig :: ustring
  it_loop :: int

record val_row =
  vl_container :: int
  vl_name :: ustring
  vl_row :: int
  vl_cols :: value_cols

text \<open>\<open>last_id\<close> is the last container id given out; ids are never used again.\<close>

record tables =
  containers :: "container_row list"
  blocks :: "block_row list"
  frames :: "frame_row list"
  loops :: "loop_row list"
  items :: "item_row list"
  vals :: "val_row list"
  last_id :: int

definition empty_tables :: tables where
  "empty_tables = \<lparr>containers = [], blocks = [], frames = [], loops = [], items = [], vals = [], last_id = 0\<rparr>"

section \<open>Statements that change the tables\<close>

definition insert_container :: "tables \<Rightarrow> tables" where
  "insert_container t =
     t\<lparr>containers := containers t @ [\<lparr>con_id = last_id t + 1, con_next_loop_num = 0\<rparr>],
       last_id := last_id t + 1\<rparr>"

definition has_container :: "tables \<Rightarrow> int \<Rightarrow> bool" where
  "has_container t c \<longleftrightarrow> c \<in> con_id ` set (containers t)"

definition create_block_stmt :: "tables \<Rightarrow> int \<Rightarrow> ustring \<Rightarrow> ustring \<Rightarrow> tables option" where
  "create_block_stmt t c name name_orig =
     (if c \<in> blk_id ` set (blocks t) \<or> name \<in> blk_name ` set (blocks t) \<or> \<not> has_container t c then None
      else Some (t\<lparr>blocks := blocks t @ [\<lparr>blk_id = c, blk_name = name, blk_name_orig = name_orig\<rparr>]\<rparr>))"

definition create_frame_stmt :: "tables \<Rightarrow> int \<Rightarrow> int \<Rightarrow> ustring \<Rightarrow> ustring \<Rightarrow> tables option" where
  "create_frame_stmt t c parent name name_orig =
     (if c \<in> frm_id ` set (frames t)
         \<or> (\<exists>f \<in> set (frames t). frm_parent f = parent \<and> frm_name f = name)
         \<or> \<not> has_container t c \<or> \<not> has_container t parent \<or> c = parent then None
      else Some (t\<lparr>frames := frames t @
             [\<lparr>frm_id = c, frm_parent = parent, frm_name = name, frm_name_orig = name_orig\<rparr>]\<rparr>))"

text \<open>The cascades: values go with their items, items with their loops, loops with their container.\<close>

definition delete_items :: "(item_row \<Rightarrow> bool) \<Rightarrow> tables \<Rightarrow> tables" where
  "delete_items P t =
     t\<lparr>items := filter (\<lambda>i. \<not> P i) (items t),
       vals := filter (\<lambda>v. \<not> (\<exists>i \<in> set (items t). P i \<and> it_container i = vl_container v
                                  \<and> it_name i = vl_name v)) (vals t)\<rparr>"

definition delete_loops :: "(loop_row \<Rightarrow> bool) \<Rightarrow> tables \<Rightarrow> tables" where
  "delete_loops P t =
     (delete_items (\<lambda>i. \<exists>l \<in> set (loops t). P l \<and> lp_container l = it_container i
                           \<and> lp_num l = it_loop i) t)
       \<lparr>loops := filter (\<lambda>l. \<not> P l) (loops t)\<rparr>"

text \<open>
  Deleting a container deletes the rows that name it: its block or frame, the frames it is the
  parent of, its loops. The containers of those frames stay.
\<close>

definition destroy_container_stmt :: "tables \<Rightarrow> int \<Rightarrow> int \<times> tables" where
  "destroy_container_stmt t c =
     (int (length (filter (\<lambda>r. con_id r = c) (containers t))),
      if has_container t c then
        (delete_loops (\<lambda>l. lp_container l = c) t)
          \<lparr>containers := filter (\<lambda>r. con_id r \<noteq> c) (containers t),
           blocks := filter (\<lambda>b. blk_id b \<noteq> c) (blocks t),
           frames := filter (\<lambda>f. frm_id f \<noteq> c \<and> frm_parent f \<noteq> c) (frames t)\<rparr>
      else t)"

text \<open>
  The insertion through the view unnumbered_loop. \<open>Inl True\<close> is the abort of trigger tr1_loop,
  \<open>Inl False\<close> the violation of another constraint.
\<close>

definition next_loop_num :: "tables \<Rightarrow> int \<Rightarrow> int option" where
  "next_loop_num t c = map_option con_next_loop_num (find (\<lambda>r. con_id r = c) (containers t))"

definition create_loop_stmt :: "tables \<Rightarrow> int \<Rightarrow> ustring option \<Rightarrow> bool + tables" where
  "create_loop_stmt t c category =
     (if category = Some [] \<and> (\<exists>l \<in> set (loops t). lp_container l = c \<and> lp_category l = Some [])
      then Inl True
      else
        (case next_loop_num t c of
           None \<Rightarrow> Inl False
         | Some n \<Rightarrow>
             if n < 0 \<or> (\<exists>l \<in> set (loops t). lp_container l = c \<and> lp_num l = n) then Inl False
             else Inr (t\<lparr>loops := loops t @
                           [\<lparr>lp_container = c, lp_num = n, lp_category = category, lp_last_row = 0\<rparr>],
                         containers := map (\<lambda>r. if con_id r = c
                           then r\<lparr>con_next_loop_num := con_next_loop_num r + 1\<rparr> else r) (containers t)\<rparr>)))"

definition add_loop_item_stmt :: "tables \<Rightarrow> int \<Rightarrow> ustring \<Rightarrow> ustring \<Rightarrow> int \<Rightarrow> tables option" where
  "add_loop_item_stmt t c name name_orig n =
     (if (\<exists>i \<in> set (items t). it_container i = c \<and> it_name i = name)
         \<or> \<not> (\<exists>l \<in> set (loops t). lp_container l = c \<and> lp_num l = n) then None
      else Some (t\<lparr>items := items t @
             [\<lparr>it_container = c, it_name = name, it_name_orig = name_orig, it_loop = n\<rparr>]\<rparr>))"

text \<open>An update of a loop, guarded by the triggers tr2_loop and tr4_loop; the number of rows updated.\<close>

definition update_loop_stmt :: "(loop_row \<Rightarrow> loop_row) \<Rightarrow> tables \<Rightarrow> int \<Rightarrow> int \<Rightarrow> (int \<times> tables) option" where
  "update_loop_stmt f t c n =
     (let sel = (\<lambda>l. lp_container l = c \<and> lp_num l = n) in
      if \<exists>l \<in> set (loops t). sel l \<and> lp_category (f l) = Some []
           \<and> (lp_last_row (f l) > 1
              \<or> lp_category l \<noteq> Some [] \<and> (\<exists>k \<in> set (loops t). lp_container k = lp_container l \<and> lp_category k = Some []))
      then None
      else Some (int (length (filter sel (loops t))),
                 t\<lparr>loops := map (\<lambda>l. if sel l then f l else l) (loops t)\<rparr>))"

definition prune_stmt :: "tables \<Rightarrow> int \<Rightarrow> tables" where
  "prune_stmt t c =
     delete_loops (\<lambda>l. lp_container l = c \<and>
       \<not> (\<exists>i \<in> set (items t). it_container i = c \<and> it_loop i = lp_num l \<and>
            (\<exists>v \<in> set (vals t). vl_container v = c \<and> vl_name v = it_name i))) t"

text \<open>\<open>insert or replace\<close> of one value, and the plain insertion.\<close>

definition same_val_key :: "val_row \<Rightarrow> val_row \<Rightarrow> bool" where
  "same_val_key u v \<longleftrightarrow> vl_container u = vl_container v \<and> vl_name u = vl_name v \<and> vl_row u = vl_row v"

definition val_allowed :: "tables \<Rightarrow> val_row \<Rightarrow> bool" where
  "val_allowed t v \<longleftrightarrow> vl_row v > 0 \<and> value_check (vl_cols v)
     \<and> (\<exists>i \<in> set (items t). it_container i = vl_container v \<and> it_name i = vl_name v)"

definition update_value_stmt :: "tables \<Rightarrow> val_row \<Rightarrow> tables option" where
  "update_value_stmt t v =
     (if \<not> val_allowed t v then None
      else Some (t\<lparr>vals := filter (\<lambda>u. \<not> same_val_key u v) (vals t) @ [v]\<rparr>))"

definition insert_value_stmt :: "tables \<Rightarrow> val_row \<Rightarrow> tables option" where
  "insert_value_stmt t v =
     (if \<not> val_allowed t v \<or> (\<exists>u \<in> set (vals t). same_val_key u v) then None
      else Some (t\<lparr>vals := vals t @ [v]\<rparr>))"

text \<open>The row numbers of the packets of the loop of an item.\<close>

definition loop_rows_of_item :: "tables \<Rightarrow> int \<Rightarrow> ustring \<Rightarrow> int list" where
  "loop_rows_of_item t c name =
     remdups [vl_row v. v \<leftarrow> vals t, vl_container v = c \<and>
       (\<exists>i1 \<in> set (items t). \<exists>i2 \<in> set (items t). it_container i1 = c \<and> it_name i1 = name
          \<and> it_container i2 = c \<and> it_loop i2 = it_loop i1 \<and> it_name i2 = vl_name v)]"

fun update_values :: "tables \<Rightarrow> val_row list \<Rightarrow> tables option" where
  "update_values t [] = Some t"
| "update_values t (v # vs) =
     (case update_value_stmt t v of None \<Rightarrow> None | Some t' \<Rightarrow> update_values t' vs)"

definition set_all_values_stmt :: "tables \<Rightarrow> value_cols \<Rightarrow> int \<Rightarrow> ustring \<Rightarrow> (int \<times> tables) option" where
  "set_all_values_stmt t cols c name =
     (let rows = loop_rows_of_item t c name
      in map_option (\<lambda>t'. (int (length rows), t'))
           (update_values t (map (\<lambda>n. \<lparr>vl_container = c, vl_name = name, vl_row = n, vl_cols = cols\<rparr>) rows)))"

definition remove_packet_stmt :: "tables \<Rightarrow> int \<Rightarrow> int \<Rightarrow> int \<Rightarrow> tables" where
  "remove_packet_stmt t c n row =
     t\<lparr>vals := filter (\<lambda>v. \<not> (vl_container v = c \<and> vl_row v = row \<and>
         (\<exists>i \<in> set (items t). it_container i = c \<and> it_loop i = n \<and> it_name i = vl_name v))) (vals t)\<rparr>"

section \<open>Queries\<close>

definition get_loopnum_stmt :: "tables \<Rightarrow> int \<Rightarrow> int" where
  "get_loopnum_stmt t c = fold max [lp_num l. l \<leftarrow> loops t, lp_container l = c] 0"

definition get_cat_loop_stmt :: "tables \<Rightarrow> int \<Rightarrow> ustring \<Rightarrow> int list" where
  "get_cat_loop_stmt t c category =
     [lp_num l. l \<leftarrow> loops t, lp_container l = c \<and> lp_category l = Some category]"

definition get_item_loop_stmt :: "tables \<Rightarrow> int \<Rightarrow> ustring \<Rightarrow> (int \<times> ustring option) list" where
  "get_item_loop_stmt t c name =
     [(lp_num l, lp_category l). l \<leftarrow> loops t, i \<leftarrow> items t,
        lp_container l = it_container i \<and> lp_num l = it_loop i \<and> it_container i = c \<and> it_name i = name]"

text \<open>The loop of an item and its number of items, if there is one.\<close>

definition get_loop_size_stmt :: "tables \<Rightarrow> int \<Rightarrow> ustring \<Rightarrow> (int \<times> int) option" where
  "get_loop_size_stmt t c name =
     (case find (\<lambda>i. it_container i = c \<and> it_name i = name) (items t) of
        None \<Rightarrow> None
      | Some i \<Rightarrow> Some (it_loop i,
          int (length (filter (\<lambda>j. it_container j = c \<and> it_loop j = it_loop i) (items t)))))"

definition get_loop_names_stmt :: "tables \<Rightarrow> int \<Rightarrow> int \<Rightarrow> ustring list" where
  "get_loop_names_stmt t c n = [it_name_orig i. i \<leftarrow> items t, it_container i = c \<and> it_loop i = n]"

definition get_value_stmt :: "tables \<Rightarrow> int \<Rightarrow> ustring \<Rightarrow> value_cols list" where
  "get_value_stmt t c name = [vl_cols v. v \<leftarrow> vals t, vl_container v = c \<and> vl_name v = name]"

definition get_packet_num_stmt :: "tables \<Rightarrow> int \<Rightarrow> int \<Rightarrow> int option" where
  "get_packet_num_stmt t c n =
     map_option lp_last_row (find (\<lambda>l. lp_container l = c \<and> lp_num l = n) (loops t))"

definition get_loop_values_stmt :: "tables \<Rightarrow> int \<Rightarrow> int \<Rightarrow> val_row list" where
  "get_loop_values_stmt t c n =
     sort_key vl_row [v. v \<leftarrow> vals t, vl_container v = c \<and>
       (\<exists>i \<in> set (items t). it_container i = c \<and> it_loop i = n \<and> it_name i = vl_name v)]"

section \<open>Transactions\<close>

text \<open>\<open>tx\<close> is the state at the start of the open transaction, \<open>saves\<close> the open savepoints, newest first.\<close>

record db =
  cur :: tables
  tx :: "tables option"
  saves :: "tables list"

definition new_db :: db where
  "new_db = \<lparr>cur = empty_tables, tx = None, saves = []\<rparr>"

definition BEGIN :: "db \<Rightarrow> db option" where
  "BEGIN d = (if tx d \<noteq> None then None else Some (d\<lparr>tx := Some (cur d), saves := []\<rparr>))"

definition COMMIT :: "db \<Rightarrow> db option" where
  "COMMIT d = (if tx d = None then None else Some (d\<lparr>tx := None, saves := []\<rparr>))"

text \<open>The result of a rollback is ignored nearly everywhere; outside a transaction it changes nothing.\<close>

definition ROLLBACK :: "db \<Rightarrow> db" where
  "ROLLBACK d = (case tx d of None \<Rightarrow> d | Some t \<Rightarrow> \<lparr>cur = t, tx = None, saves = []\<rparr>)"

definition SAVE :: "db \<Rightarrow> db" where
  "SAVE d = d\<lparr>saves := cur d # saves d\<rparr>"

definition RELEASE :: "db \<Rightarrow> db option" where
  "RELEASE d = (case saves d of [] \<Rightarrow> None | _ # ss \<Rightarrow> Some (d\<lparr>saves := ss\<rparr>))"

text \<open>\<open>rollback to s\<close> leaves the savepoint open.\<close>

definition ROLLBACK_TO :: "db \<Rightarrow> db" where
  "ROLLBACK_TO d = (case saves d of [] \<Rightarrow> d | t # _ \<Rightarrow> d\<lparr>cur := t\<rparr>)"

definition autocommit :: "db \<Rightarrow> bool" where
  "autocommit d \<longleftrightarrow> tx d = None"

text \<open>The nestable transactions; the flag is the macros' \<open>_top_tx\<close>.\<close>

definition BEGIN_NESTTX :: "db \<Rightarrow> bool \<times> db" where
  "BEGIN_NESTTX d =
     (autocommit d, if autocommit d then (case BEGIN d of Some d' \<Rightarrow> d' | None \<Rightarrow> d) else SAVE d)"

definition COMMIT_NESTTX :: "bool \<Rightarrow> db \<Rightarrow> db option" where
  "COMMIT_NESTTX top_tx d = (if top_tx then COMMIT d else RELEASE d)"

definition ROLLBACK_NESTTX :: "bool \<Rightarrow> db \<Rightarrow> db" where
  "ROLLBACK_NESTTX top_tx d = (if top_tx then ROLLBACK d else ROLLBACK_TO d)"

end
