(* ===== verification/Loops.thy ===== *)
theory Loops
  imports Schema
begin

text \<open>
  Loops (src/loop.c): their handles, categories, names, items and packets; and the function of
  src/container.c that sets all values of an item, which adding an item uses.

  A function that changes the database takes and returns it; \<open>I\<close> is ICU.
\<close>

section \<open>Handles\<close>

text \<open>\<open>cont_parent_id\<close> is negative for a data block.\<close>

record cif_container =
  cont_id :: int
  cont_code :: ustring
  cont_code_orig :: ustring
  cont_parent_id :: int

record cif_loop =
  loop_container :: "cif_container option"
  loop_num :: int
  loop_category :: "ustring option"
  loop_names :: "ustring list option"

section \<open>Setting all values of an item\<close>

text \<open>The number is what \<open>sqlite3_changes\<close> then gives.\<close>

definition cif_container_set_all_values ::
    "cif_container option \<Rightarrow> ustring option \<Rightarrow> cif_value \<Rightarrow> db \<Rightarrow> int res \<times> db" where
  "cif_container_set_all_values container item_name val d =
     (case container of
        None \<Rightarrow> (Inl CIF_INVALID_HANDLE, d)
      | Some c \<Rightarrow>
          (case item_name of
             None \<Rightarrow> (Inl CIF_INVALID_ITEMNAME, d)
           | Some name \<Rightarrow>
               (case set_value_props val of
                  Inl e \<Rightarrow> (Inl e, d)
                | Inr cols \<Rightarrow>
                    (case set_all_values_stmt (cur d) cols (cont_id c) name of
                       None \<Rightarrow> (Inl CIF_ERROR, d)
                     | Some (n, t) \<Rightarrow> (Inr n, d\<lparr>cur := t\<rparr>)))))"

section \<open>Loops\<close>

definition dup_ustrings :: "ustring list option \<Rightarrow> ustring list option" where
  "dup_ustrings src = (case src of None \<Rightarrow> None | Some ss \<Rightarrow> Some (map (\<lambda>s. s) ss))"

definition cif_loop_destroy :: "cif_loop \<Rightarrow> db \<Rightarrow> int \<times> db" where
  "cif_loop_destroy l d =
     (case loop_container l of
        None \<Rightarrow> (CIF_INVALID_HANDLE, d)
      | Some c \<Rightarrow>
          (let P = (\<lambda>r. lp_container r = cont_id c \<and> lp_num r = loop_num l);
               n = length (filter P (loops (cur d)));
               d' = d\<lparr>cur := delete_loops P (cur d)\<rparr>
           in if n = 0 then (CIF_INVALID_HANDLE, d')
              else if n = 1 then (CIF_OK, d')
              else (CIF_INTERNAL_ERROR, d')))"

definition cif_loop_get_category :: "cif_loop \<Rightarrow> ustring option" where
  "cif_loop_get_category l = loop_category l"

text \<open>The handle's own category changes even when the database has no such loop.\<close>

definition cif_loop_set_category :: "cif_loop \<Rightarrow> ustring option \<Rightarrow> db \<Rightarrow> int \<times> cif_loop \<times> db" where
  "cif_loop_set_category l category d =
     (if category = Some [] then (CIF_RESERVED_LOOP, l, d)
      else if category \<noteq> None \<and> cif_loop_get_category l = Some [] then (CIF_RESERVED_LOOP, l, d)
      else
        (case loop_container l of
           None \<Rightarrow> (CIF_OK, l\<lparr>loop_category := category\<rparr>, d)
         | Some c \<Rightarrow>
             (case update_loop_stmt (\<lambda>r. r\<lparr>lp_category := category\<rparr>) (cur d) (cont_id c) (loop_num l) of
                None \<Rightarrow> (CIF_ERROR, l, d)
              | Some (n, t) \<Rightarrow>
                  (if n = 0 then CIF_INVALID_HANDLE else if n = 1 then CIF_OK else CIF_INTERNAL_ERROR,
                   l\<lparr>loop_category := category\<rparr>, d\<lparr>cur := t\<rparr>))))"

text \<open>
  The names of the items of a loop, normalised on request; \<open>Inr None\<close> is a NULL array. The
  nested transaction is rolled back whatever the outcome: inside a transaction its savepoint
  stays open.
\<close>

fun normalize_all :: "icu \<Rightarrow> ustring list \<Rightarrow> ustring list res" where
  "normalize_all I [] = Inr []"
| "normalize_all I (n # ns) =
     rbind (normalize_all I ns) (\<lambda>ns'.
       rbind (cif_normalize_item_name I (Some n) (-1) CIF_INTERNAL_ERROR) (\<lambda>n'. Inr (n' # ns')))"

definition cif_loop_get_names_internal ::
    "icu \<Rightarrow> cif_loop \<Rightarrow> bool \<Rightarrow> db \<Rightarrow> ustring list option res \<times> db" where
  "cif_loop_get_names_internal I l normalise d =
     (if loop_num l < 0 then (Inr (dup_ustrings (loop_names l)), d)
      else
        (case loop_container l of
           None \<Rightarrow> (Inl CIF_INVALID_HANDLE, d)
         | Some c \<Rightarrow>
             (let (top_tx, d) = BEGIN_NESTTX d;
                  names = get_loop_names_stmt (cur d) (cont_id c) (loop_num l)
              in if names = [] then (Inl CIF_INVALID_HANDLE, ROLLBACK_NESTTX top_tx d)
                 else
                   (let d = ROLLBACK_NESTTX top_tx d
                    in if \<not> normalise then (Inr (Some names), d)
                       else
                         (case normalize_all I names of
                            Inl e \<Rightarrow> (Inl e, ROLLBACK_NESTTX top_tx d)
                          | Inr ns \<Rightarrow> (Inr (Some ns), d))))))"

definition cif_loop_get_names :: "icu \<Rightarrow> cif_loop \<Rightarrow> db \<Rightarrow> ustring list option res \<times> db" where
  "cif_loop_get_names I l d = cif_loop_get_names_internal I l False d"

text \<open>The success value is the number of packets that got the value.\<close>

definition cif_loop_add_item_internal ::
    "cif_loop \<Rightarrow> cif_container \<Rightarrow> ustring \<Rightarrow> ustring \<Rightarrow> cif_value \<Rightarrow> db \<Rightarrow> int res \<times> db" where
  "cif_loop_add_item_internal l c item_name norm_name val d =
     (let (top_tx, d) = BEGIN_NESTTX d in
      case add_loop_item_stmt (cur d) (cont_id c) norm_name item_name (loop_num l) of
        None \<Rightarrow> (Inl CIF_DUP_ITEMNAME, ROLLBACK_NESTTX top_tx d)
      | Some t \<Rightarrow>
          (case cif_container_set_all_values (Some c) (Some norm_name) val (d\<lparr>cur := t\<rparr>) of
             (Inl e, d) \<Rightarrow> (Inl (if e = NO_RETURN then NO_RETURN else CIF_ERROR), ROLLBACK_NESTTX top_tx d)
           | (Inr changes, d) \<Rightarrow>
               (case COMMIT_NESTTX top_tx d of
                  None \<Rightarrow> (Inl CIF_ERROR, ROLLBACK_NESTTX top_tx d)
                | Some d \<Rightarrow> (Inr changes, d))))"

definition cif_loop_add_item ::
    "icu \<Rightarrow> cif_loop \<Rightarrow> ustring option \<Rightarrow> cif_value option \<Rightarrow> db \<Rightarrow> int \<times> db" where
  "cif_loop_add_item I l item_name val d =
     (case loop_container l of
        None \<Rightarrow> (CIF_INVALID_HANDLE, d)
      | Some c \<Rightarrow>
          (let default_val = (case val of Some v \<Rightarrow> v | None \<Rightarrow> cif_value_create CIF_UNK_KIND) in
           case cif_normalize_item_name I item_name (-1) CIF_INVALID_ITEMNAME of
             Inl e \<Rightarrow> (e, d)
           | Inr norm_name \<Rightarrow>
               (case cif_loop_add_item_internal l c (the item_name) norm_name default_val d of
                  (Inl e, d) \<Rightarrow> (e, d)
                | (Inr _, d) \<Rightarrow> (CIF_OK, d))))"

section \<open>Adding packets\<close>

text \<open>The loop over the entries of the packet; an error leaves what was inserted to the rollback.\<close>

fun add_packet_values :: "int \<Rightarrow> int \<Rightarrow> int \<Rightarrow> map_entry list \<Rightarrow> tables \<Rightarrow> tables res" where
  "add_packet_values c n row [] t = Inr t"
| "add_packet_values c n row ((key, key_orig, v) # es) t =
     (if \<not> (\<exists>i \<in> set (items t). it_container i = c \<and> it_name i = key \<and> it_loop i = n)
      then Inl CIF_WRONG_LOOP
      else
        (case set_value_props v of
           Inl e \<Rightarrow> Inl e
         | Inr cols \<Rightarrow>
             (case insert_value_stmt t \<lparr>vl_container = c, vl_name = key, vl_row = row, vl_cols = cols\<rparr> of
                None \<Rightarrow> Inl CIF_ERROR
              | Some t' \<Rightarrow> add_packet_values c n row es t')))"

definition cif_loop_add_packet :: "cif_loop \<Rightarrow> cif_map \<Rightarrow> db \<Rightarrow> int \<times> db" where
  "cif_loop_add_packet l packet d =
     (case loop_container l of
        None \<Rightarrow> (CIF_INVALID_HANDLE, d)
      | Some c \<Rightarrow>
          if map_head packet = [] then (CIF_INVALID_PACKET, d)
          else
            (let (top_tx, d) = BEGIN_NESTTX d in
             case update_loop_stmt (\<lambda>r. r\<lparr>lp_last_row := lp_last_row r + 1\<rparr>) (cur d) (cont_id c) (loop_num l) of
               None \<Rightarrow> (CIF_RESERVED_LOOP, ROLLBACK_NESTTX top_tx d)
             | Some (_, t) \<Rightarrow>
                 (case get_packet_num_stmt t (cont_id c) (loop_num l) of
                    None \<Rightarrow> (CIF_INTERNAL_ERROR, ROLLBACK_NESTTX top_tx (d\<lparr>cur := t\<rparr>))
                  | Some row_num \<Rightarrow>
                      (case add_packet_values (cont_id c) (loop_num l) row_num (map_head packet) t of
                         Inl e \<Rightarrow> (e, ROLLBACK_NESTTX top_tx (d\<lparr>cur := t\<rparr>))
                       | Inr t' \<Rightarrow>
                           (case COMMIT_NESTTX top_tx (d\<lparr>cur := t'\<rparr>) of
                              None \<Rightarrow> (CIF_ERROR, ROLLBACK_NESTTX top_tx (d\<lparr>cur := t'\<rparr>))
                            | Some d \<Rightarrow> (CIF_OK, d))))))"

section \<open>Iterators\<close>

text \<open>
  A packet iterator: its loop, the normalised names of the items, the rows of the query that
  are left (the statement is positioned at the first of them), the row number of the packet
  returned last, and whether all rows were read. The query sorts its rows, so that SQLite has
  read them all when it delivers the first: later changes do not show.
\<close>

record pktitr =
  itr_loop :: cif_loop
  itr_names :: "ustring list"
  itr_rows :: "val_row list"
  itr_previous_row :: int
  itr_finished :: bool

definition cif_loop_get_packets :: "icu \<Rightarrow> cif_loop \<Rightarrow> db \<Rightarrow> pktitr res \<times> db" where
  "cif_loop_get_packets I l d =
     (case loop_container l of
        None \<Rightarrow> (Inl CIF_INVALID_HANDLE, d)
      | Some c \<Rightarrow>
          (case cif_loop_get_names_internal I l True d of
             (Inl e, d) \<Rightarrow> (Inl e, d)
           | (Inr None, d) \<Rightarrow> (Inl CIF_ERROR, d) \<comment> \<open>only for a loop that is not in a container\<close>
           | (Inr (Some names), d) \<Rightarrow>
               (case BEGIN d of
                  None \<Rightarrow> (Inl CIF_ERROR, d)
                | Some d \<Rightarrow>
                    (let rows = get_loop_values_stmt (cur d) (cont_id c) (loop_num l) in
                     if rows = [] then (Inl CIF_EMPTY_LOOP, ROLLBACK d)
                     else (Inr \<lparr>itr_loop = l, itr_names = names, itr_rows = rows,
                                 itr_previous_row = -1, itr_finished = False\<rparr>, d)))))"

end
