(* ===== verification/Containers.thy ===== *)
theory Containers
  imports Loops
begin

text \<open>
  Data blocks and save frames: src/container.c, and the functions of src/cif.c that create and
  look up data blocks.

  A NULL handle is \<open>None\<close>. A function whose result is \<open>None\<close> at this input releases a pointer
  that it never set, so that the program's behaviour is undefined.
\<close>

section \<open>Frames\<close>

definition cif_container_validate :: "cif_container option \<Rightarrow> db \<Rightarrow> int" where
  "cif_container_validate container d =
     (case container of
        None \<Rightarrow> CIF_INVALID_HANDLE
      | Some c \<Rightarrow> if has_container (cur d) (cont_id c) then CIF_OK else CIF_INVALID_HANDLE)"

text \<open>Strict normalisation of a code, or lenient normalisation without validation.\<close>

definition normalize_code :: "icu \<Rightarrow> ustring option \<Rightarrow> bool \<Rightarrow> int \<Rightarrow> ustring res" where
  "normalize_code I code lenient invalid =
     (if \<not> lenient then cif_normalize_name I code (-1) invalid
      else cif_normalize I (the code) (-1))"

definition cif_container_create_frame_internal ::
    "icu \<Rightarrow> cif_container option \<Rightarrow> ustring option \<Rightarrow> bool \<Rightarrow> db \<Rightarrow> cif_container res \<times> db" where
  "cif_container_create_frame_internal I container code lenient d =
     (case container of
        None \<Rightarrow> (Inl CIF_INVALID_HANDLE, d)
      | Some p \<Rightarrow>
          (case normalize_code I code lenient CIF_INVALID_FRAMECODE of
             Inl e \<Rightarrow> (Inl e, d)
           | Inr code_norm \<Rightarrow>
               (case BEGIN d of
                  None \<Rightarrow> (Inl CIF_ERROR, d)
                | Some d \<Rightarrow>
                    (let t = insert_container (cur d); c = last_id t in
                     case create_frame_stmt t c (cont_id p) code_norm (the code) of
                       None \<Rightarrow> (Inl CIF_DUP_FRAMECODE, ROLLBACK d)
                     | Some t \<Rightarrow>
                         (case COMMIT (d\<lparr>cur := t\<rparr>) of
                            None \<Rightarrow> (Inl CIF_ERROR, ROLLBACK d)
                          | Some d \<Rightarrow>
                              (Inr \<lparr>cont_id = c, cont_code = code_norm, cont_code_orig = the code,
                                    cont_parent_id = cont_id p\<rparr>, d))))))"

definition cif_container_create_frame ::
    "icu \<Rightarrow> cif_container option \<Rightarrow> ustring option \<Rightarrow> db \<Rightarrow> cif_container res \<times> db" where
  "cif_container_create_frame I container code d = cif_container_create_frame_internal I container code False d"

definition cif_container_get_frame ::
    "icu \<Rightarrow> cif_container option \<Rightarrow> ustring option \<Rightarrow> db \<Rightarrow> cif_container res option" where
  "cif_container_get_frame I container code d =
     (case container of
        None \<Rightarrow> Some (Inl CIF_INVALID_HANDLE)
      | Some p \<Rightarrow>
          (case cif_normalize_name I code (-1) CIF_INVALID_FRAMECODE of
             Inl e \<Rightarrow> None \<comment> \<open>\<open>cif_container_free(temp)\<close> frees \<open>temp->code\<close>, which has no value yet\<close>
           | Inr code_norm \<Rightarrow>
               (case find (\<lambda>f. frm_parent f = cont_id p \<and> frm_name f = code_norm) (frames (cur d)) of
                  None \<Rightarrow> Some (Inl CIF_NOSUCH_FRAME)
                | Some f \<Rightarrow>
                    Some (Inr \<lparr>cont_id = frm_id f, cont_code = code_norm, cont_code_orig = frm_name_orig f,
                               cont_parent_id = cont_id p\<rparr>))))"

definition cif_container_get_all_frames :: "cif_container option \<Rightarrow> db \<Rightarrow> cif_container list res" where
  "cif_container_get_all_frames container d =
     (case container of
        None \<Rightarrow> Inl CIF_INVALID_HANDLE
      | Some p \<Rightarrow>
          Inr [\<lparr>cont_id = frm_id f, cont_code = frm_name f, cont_code_orig = frm_name_orig f,
                cont_parent_id = cont_id p\<rparr>. f \<leftarrow> frames (cur d), frm_parent f = cont_id p])"

definition cif_container_destroy :: "cif_container option \<Rightarrow> db \<Rightarrow> int \<times> db" where
  "cif_container_destroy container d =
     (case container of
        None \<Rightarrow> (CIF_INVALID_HANDLE, d)
      | Some c \<Rightarrow>
          (case destroy_container_stmt (cur d) (cont_id c) of
             (changes, t) \<Rightarrow> (if changes \<le> 0 then CIF_INVALID_HANDLE else CIF_OK, d\<lparr>cur := t\<rparr>)))"

definition cif_container_get_code :: "cif_container \<Rightarrow> ustring" where
  "cif_container_get_code c = cont_code_orig c"

definition cif_container_assert_block :: "cif_container option \<Rightarrow> int" where
  "cif_container_assert_block container =
     (case container of None \<Rightarrow> CIF_ERROR | Some c \<Rightarrow> if cont_parent_id c < 0 then CIF_OK else CIF_ARGUMENT_ERROR)"

section \<open>Blocks\<close>

definition cif_create_block_internal ::
    "icu \<Rightarrow> ustring option \<Rightarrow> bool \<Rightarrow> db \<Rightarrow> cif_container res \<times> db" where
  "cif_create_block_internal I code lenient d =
     (case normalize_code I code lenient CIF_INVALID_BLOCKCODE of
        Inl e \<Rightarrow> (Inl e, d)
      | Inr code_norm \<Rightarrow>
          (case BEGIN d of
             None \<Rightarrow> (Inl CIF_ERROR, d)
           | Some d \<Rightarrow>
               (let t = insert_container (cur d); c = last_id t in
                case create_block_stmt t c code_norm (the code) of
                  None \<Rightarrow> (Inl CIF_DUP_BLOCKCODE, ROLLBACK d)
                | Some t \<Rightarrow>
                    (case COMMIT (d\<lparr>cur := t\<rparr>) of
                       None \<Rightarrow> (Inl CIF_ERROR, ROLLBACK d)
                     | Some d \<Rightarrow>
                         (Inr \<lparr>cont_id = c, cont_code = code_norm, cont_code_orig = the code,
                               cont_parent_id = -1\<rparr>, d)))))"

definition cif_create_block :: "icu \<Rightarrow> ustring option \<Rightarrow> db \<Rightarrow> cif_container res \<times> db" where
  "cif_create_block I code d =
     (if code = None then (Inl CIF_ARGUMENT_ERROR, d) else cif_create_block_internal I code False d)"

definition cif_get_block :: "icu \<Rightarrow> ustring \<Rightarrow> db \<Rightarrow> cif_container res option" where
  "cif_get_block I code d =
     (case cif_normalize I code (-1) of
        Inl e \<Rightarrow> None \<comment> \<open>as in \<open>cif_container_get_frame\<close>\<close>
      | Inr code_norm \<Rightarrow>
          (case find (\<lambda>b. blk_name b = code_norm) (blocks (cur d)) of
             None \<Rightarrow> Some (Inl CIF_NOSUCH_BLOCK)
           | Some b \<Rightarrow>
               Some (Inr \<lparr>cont_id = blk_id b, cont_code = code_norm, cont_code_orig = blk_name_orig b,
                          cont_parent_id = -1\<rparr>)))"

definition cif_get_all_blocks :: "db \<Rightarrow> cif_container list" where
  "cif_get_all_blocks d =
     [\<lparr>cont_id = blk_id b, cont_code = blk_name b, cont_code_orig = blk_name_orig b, cont_parent_id = -1\<rparr>.
        b \<leftarrow> blocks (cur d)]"

section \<open>Loops of a container\<close>

text \<open>The loop that records the item names, original and normalised.\<close>

fun add_names :: "int \<Rightarrow> int \<Rightarrow> ustring list \<Rightarrow> ustring list \<Rightarrow> tables \<Rightarrow> tables res" where
  "add_names c n (name # names) (name_norm # names_norm) t =
     (case add_loop_item_stmt t c name_norm name n of
        None \<Rightarrow> Inl CIF_DUP_ITEMNAME
      | Some t' \<Rightarrow> add_names c n names names_norm t')"
| "add_names c n _ _ t = Inr t"

definition cif_container_create_loop_internal ::
    "cif_container \<Rightarrow> ustring option \<Rightarrow> ustring list \<Rightarrow> ustring list \<Rightarrow> db \<Rightarrow> cif_loop res \<times> db" where
  "cif_container_create_loop_internal c category names names_norm d =
     (let (top_tx, d) = BEGIN_NESTTX d in
      case create_loop_stmt (cur d) (cont_id c) category of
        Inl scalar \<Rightarrow> (Inl (if scalar then CIF_RESERVED_LOOP else CIF_INVALID_HANDLE), ROLLBACK_NESTTX top_tx d)
      | Inr t \<Rightarrow>
          (let n = get_loopnum_stmt t (cont_id c) in
           case add_names (cont_id c) n names names_norm t of
             Inl e \<Rightarrow> (Inl e, ROLLBACK_NESTTX top_tx (d\<lparr>cur := t\<rparr>))
           | Inr t' \<Rightarrow>
               (case COMMIT_NESTTX top_tx (d\<lparr>cur := t'\<rparr>) of
                  None \<Rightarrow> (Inl CIF_ERROR, ROLLBACK_NESTTX top_tx (d\<lparr>cur := t'\<rparr>))
                | Some d \<Rightarrow>
                    (Inr \<lparr>loop_container = Some c, loop_num = n, loop_category = category,
                          loop_names = None\<rparr>, d))))"

text \<open>\<open>names\<close> is \<open>None\<close> for a NULL array.\<close>

definition cif_container_create_loop ::
    "icu \<Rightarrow> cif_container option \<Rightarrow> ustring option \<Rightarrow> ustring list option \<Rightarrow> db \<Rightarrow> cif_loop res \<times> db" where
  "cif_container_create_loop I container category names d =
     (case container of
        None \<Rightarrow> (Inl CIF_INVALID_HANDLE, d)
      | Some c \<Rightarrow>
          (case names of
             None \<Rightarrow> (Inl CIF_ARGUMENT_ERROR, d)
           | Some ns \<Rightarrow>
               if ns = [] then (Inl CIF_NULL_LOOP, d)
               else
                 (case normalize_names I ns of
                    Inl e \<Rightarrow> (Inl e, d)
                  | Inr ns' \<Rightarrow> cif_container_create_loop_internal c category ns ns' d)))"

definition cif_container_get_category_loop ::
    "cif_container option \<Rightarrow> ustring option \<Rightarrow> db \<Rightarrow> cif_loop res" where
  "cif_container_get_category_loop container category d =
     (case container of
        None \<Rightarrow> Inl CIF_INVALID_HANDLE
      | Some c \<Rightarrow>
          (case category of
             None \<Rightarrow> Inl CIF_INVALID_CATEGORY
           | Some cat \<Rightarrow>
               (case get_cat_loop_stmt (cur d) (cont_id c) cat of
                  [] \<Rightarrow> Inl CIF_NOSUCH_LOOP
                | [n] \<Rightarrow> Inr \<lparr>loop_container = Some c, loop_num = n, loop_category = Some cat, loop_names = None\<rparr>
                | _ \<Rightarrow> Inl CIF_CAT_NOT_UNIQUE)))"

definition cif_container_get_item_loop_internal :: "cif_container \<Rightarrow> ustring \<Rightarrow> db \<Rightarrow> cif_loop res" where
  "cif_container_get_item_loop_internal c name d =
     (case get_item_loop_stmt (cur d) (cont_id c) name of
        [] \<Rightarrow> Inl CIF_NOSUCH_ITEM
      | [(n, category)] \<Rightarrow>
          Inr \<lparr>loop_container = Some c, loop_num = n, loop_category = category, loop_names = None\<rparr>
      | _ \<Rightarrow> Inl CIF_INTERNAL_ERROR)"

definition cif_container_get_item_loop ::
    "icu \<Rightarrow> cif_container option \<Rightarrow> ustring option \<Rightarrow> db \<Rightarrow> cif_loop res" where
  "cif_container_get_item_loop I container item_name d =
     (case container of
        None \<Rightarrow> Inl CIF_INVALID_HANDLE
      | Some c \<Rightarrow>
          (case cif_normalize_item_name I item_name (-1) CIF_INVALID_ITEMNAME of
             Inl e \<Rightarrow> Inl (if e = CIF_INVALID_ITEMNAME then CIF_NOSUCH_ITEM else e)
           | Inr name \<Rightarrow> cif_container_get_item_loop_internal c name d))"

definition cif_container_get_all_loops :: "cif_container option \<Rightarrow> db \<Rightarrow> cif_loop list res \<times> db" where
  "cif_container_get_all_loops container d =
     (case container of
        None \<Rightarrow> (Inl CIF_INVALID_HANDLE, d)
      | Some c \<Rightarrow>
          (let (top_tx, d) = BEGIN_NESTTX d; result = cif_container_validate container d
           in if result \<noteq> CIF_OK then (Inl result, ROLLBACK_NESTTX top_tx d)
              else (Inr [\<lparr>loop_container = Some c, loop_num = lp_num l, loop_category = lp_category l,
                          loop_names = None\<rparr>. l \<leftarrow> loops (cur d), lp_container l = cont_id c],
                    ROLLBACK_NESTTX top_tx d)))"

definition cif_container_prune :: "cif_container \<Rightarrow> db \<Rightarrow> int \<times> db" where
  "cif_container_prune c d = (CIF_OK, d\<lparr>cur := prune_stmt (cur d) (cont_id c)\<rparr>)"

section \<open>Items of a container\<close>

definition cif_container_add_scalar ::
    "icu \<Rightarrow> cif_container \<Rightarrow> ustring \<Rightarrow> ustring \<Rightarrow> cif_value \<Rightarrow> db \<Rightarrow> int \<times> db" where
  "cif_container_add_scalar I c item_name name_orig val d =
     (let (loop, d) =
            (case cif_container_get_category_loop (Some c) (Some []) d of
               Inr l \<Rightarrow> (Inr l, d)
             | Inl e \<Rightarrow>
                 if e = CIF_NOSUCH_LOOP then cif_container_create_loop_internal c (Some []) [] [] d
                 else (Inl e, d))
      in case loop of
           Inl e \<Rightarrow> (e, d)
         | Inr l \<Rightarrow>
             (case cif_loop_add_item_internal l c name_orig item_name val d of
                (Inl e, d) \<Rightarrow> (e, d)
              | (Inr num_packets, d) \<Rightarrow>
                  if num_packets \<noteq> 0 then (CIF_OK, d)
                  else
                    (case cif_packet_create I None of
                       Inl e \<Rightarrow> (e, d)
                     | Inr packet \<Rightarrow>
                         (case cif_packet_set_item packet item_name (ArgValue val) of
                            None \<Rightarrow> (CIF_ERROR, d) \<comment> \<open>not reached: the packet is empty\<close>
                          | Some (r, packet) \<Rightarrow>
                              if r \<noteq> CIF_OK then (r, d) else cif_loop_add_packet l packet d))))"

text \<open>
  The code, and the value handed out: also when the item turns out to have more than one.
\<close>

definition cif_container_get_value ::
    "icu \<Rightarrow> cif_container \<Rightarrow> ustring option \<Rightarrow> bool \<Rightarrow> db \<Rightarrow> int \<times> cif_value option" where
  "cif_container_get_value I c name want_value d =
     (case cif_normalize_item_name I name (-1) CIF_NOSUCH_ITEM of
        Inl e \<Rightarrow> (e, None)
      | Inr name_norm \<Rightarrow>
          (case get_value_stmt (cur d) (cont_id c) name_norm of
             [] \<Rightarrow> (CIF_NOSUCH_ITEM, None)
           | cols # rest_cols \<Rightarrow>
               (let code = (if rest_cols = [] then CIF_OK else CIF_AMBIGUOUS_ITEM)
                in if \<not> want_value then (code, None)
                   else (case get_value_props cols of
                           Inl e \<Rightarrow> (e, None)
                         | Inr v \<Rightarrow> (code, Some v)))))"

text \<open>
  Setting an item's values inside the transaction: an item that the container does not have
  becomes a scalar.
\<close>

definition set_or_add ::
    "icu \<Rightarrow> cif_container \<Rightarrow> ustring \<Rightarrow> ustring \<Rightarrow> cif_value \<Rightarrow> db \<Rightarrow> int \<times> db" where
  "set_or_add I c name orig v d =
     (case cif_container_get_item_loop_internal c name d of
        Inl e \<Rightarrow> if e = CIF_NOSUCH_ITEM then cif_container_add_scalar I c name orig v d else (e, d)
      | Inr _ \<Rightarrow>
          (case cif_container_set_all_values (Some c) (Some name) v d of
             (Inl e, d) \<Rightarrow> (e, d)
           | (Inr _, d) \<Rightarrow> (CIF_OK, d)))"

text \<open>A NULL value stands for the unknown value.\<close>

definition value_or_unknown :: "cif_value option \<Rightarrow> cif_value" where
  "value_or_unknown val = (case val of None \<Rightarrow> UnkValue | Some v \<Rightarrow> v)"

definition cif_container_set_value ::
    "icu \<Rightarrow> cif_container \<Rightarrow> ustring option \<Rightarrow> cif_value option \<Rightarrow> db \<Rightarrow> int \<times> db" where
  "cif_container_set_value I c name_orig val d =
     (case name_orig of
        None \<Rightarrow> (CIF_INVALID_ITEMNAME, d)
      | Some orig \<Rightarrow>
          (case cif_normalize_item_name I (Some orig) (-1) CIF_INVALID_ITEMNAME of
             Inl e \<Rightarrow> (e, d)
           | Inr name \<Rightarrow>
               (case BEGIN d of
                  None \<Rightarrow> (CIF_ERROR, d)
                | Some d \<Rightarrow>
                    (case set_or_add I c name orig (value_or_unknown val) d of
                       (result, d) \<Rightarrow>
                         if result \<noteq> CIF_OK then (result, ROLLBACK d)
                         else
                           (case COMMIT d of
                              None \<Rightarrow> (CIF_ERROR, ROLLBACK d)
                            | Some d \<Rightarrow> (CIF_OK, d))))))"

definition cif_container_remove_item ::
    "icu \<Rightarrow> cif_container option \<Rightarrow> ustring option \<Rightarrow> db \<Rightarrow> int \<times> db" where
  "cif_container_remove_item I container item_name d =
     (case container of
        None \<Rightarrow> (CIF_INVALID_HANDLE, d)
      | Some c \<Rightarrow>
          if item_name = None then (CIF_INVALID_ITEMNAME, d)
          else
            (case cif_normalize_item_name I item_name (-1) CIF_NOSUCH_ITEM of
               Inl e \<Rightarrow> (e, d)
             | Inr name \<Rightarrow>
                 (case BEGIN d of
                    None \<Rightarrow> (CIF_ERROR, d)
                  | Some d \<Rightarrow>
                      (case get_loop_size_stmt (cur d) (cont_id c) name of
                         None \<Rightarrow> (CIF_NOSUCH_ITEM, ROLLBACK d)
                       | Some (n, n_items) \<Rightarrow>
                           (let t = (if n_items = 1
                                     then delete_loops (\<lambda>l. lp_container l = cont_id c \<and> lp_num l = n) (cur d)
                                     else delete_items (\<lambda>i. it_container i = cont_id c \<and> it_name i = name) (cur d))
                            in case COMMIT (d\<lparr>cur := t\<rparr>) of
                                 None \<Rightarrow> (CIF_ERROR, ROLLBACK (d\<lparr>cur := t\<rparr>))
                               | Some d \<Rightarrow> (CIF_OK, d))))))"

end
