(* ===== verification/Pktitr.thy ===== *)
theory Pktitr
  imports Loops
begin

text \<open>
  Packet iterators (src/pktitr.c): stepping through the packets of a loop, changing and
  removing the packet returned last, and ending the iteration. A transaction is open for as
  long as an iterator is.
\<close>

section \<open>Ending an iteration\<close>

definition cif_pktitr_close :: "db \<Rightarrow> int \<times> db" where
  "cif_pktitr_close d = (case COMMIT d of None \<Rightarrow> (CIF_ERROR, ROLLBACK d) | Some d \<Rightarrow> (CIF_OK, d))"

definition cif_pktitr_abort :: "db \<Rightarrow> int \<times> db" where
  "cif_pktitr_abort d = (if autocommit d then CIF_ERROR else CIF_OK, ROLLBACK d)"

section \<open>The next packet\<close>

text \<open>
  The loop that reads the values of one packet into its entries: the entries or an error, the
  rows that are left, and whether all rows were read. \<open>row\<close> is the packet's row number.
\<close>

fun read_values :: "map_entry list \<Rightarrow> int \<Rightarrow> val_row list \<Rightarrow> map_entry list res \<times> val_row list \<times> bool" where
  "read_values es row [] = (Inl CIF_ERROR, [], False)"
| "read_values es row (r # rs) =
     (case hash_find es (vl_name r) of
        None \<Rightarrow> (Inl CIF_INTERNAL_ERROR, r # rs, False)
      | Some (key, key_orig, v) \<Rightarrow>
          if cif_value_kind v \<noteq> CIF_UNK_KIND then (Inl CIF_INTERNAL_ERROR, r # rs, False)
          else
            (case get_value_props (vl_cols r) of
               Inl e \<Rightarrow> (Inl e, r # rs, False)
             | Inr v' \<Rightarrow>
                 (let es' = hash_replace es (vl_name r) (key, key_orig, v')
                  in case rs of
                       [] \<Rightarrow> (Inr es', [], True)
                     | r' # _ \<Rightarrow> if vl_row r' = row then read_values es' row rs
                                else (Inr es', rs, False))))"

text \<open>
  Where the packet goes: nowhere, to the caller, or into a packet of the caller's. In the last
  case the items the new packet does not have are removed, the values of those it has are
  replaced, and its other entries are added, with a copy of their normalised key.
\<close>

datatype packet_arg = NoPacket | NewPacket | IntoPacket cif_map

fun overwrite_entries :: "map_entry list \<Rightarrow> map_entry list \<Rightarrow> map_entry list \<times> map_entry list" where
  "overwrite_entries [] source = ([], source)"
| "overwrite_entries ((key, key_orig, v) # es) source =
     (case hash_find source key of
        None \<Rightarrow> overwrite_entries es source
      | Some (_, _, v') \<Rightarrow>
          (case overwrite_entries es (hash_del source key) of
             (es', rest) \<Rightarrow> ((key, key_orig, v') # es', rest)))"

definition move_entries :: "cif_map \<Rightarrow> map_entry list \<Rightarrow> int \<times> cif_map" where
  "move_entries p source =
     (case overwrite_entries (map_head p) source of
        (es, rest) \<Rightarrow>
          if rest = [] then (CIF_OK, p\<lparr>map_head := es\<rparr>)
          else if \<not> is_standalone p then (CIF_ARGUMENT_ERROR, p\<lparr>map_head := es\<rparr>)
          else (CIF_OK, p\<lparr>map_head := es @
                  map (\<lambda>(key, key_orig, v). (key, Some (orig_key key key_orig), v)) rest\<rparr>))"

definition cif_pktitr_next_packet ::
    "icu \<Rightarrow> pktitr \<Rightarrow> packet_arg \<Rightarrow> db \<Rightarrow> int \<times> cif_map option \<times> pktitr" where
  "cif_pktitr_next_packet I it arg d =
     (let given = (case arg of IntoPacket p \<Rightarrow> Some p | _ \<Rightarrow> None) in
      if itr_finished it then (CIF_FINISHED, given, it)
      else if autocommit d then (CIF_INVALID_HANDLE, given, it)
      else
        (let temp = cif_packet_create_norm I (itr_names it) True;
             current_row = (case itr_rows it of [] \<Rightarrow> 0 | r # _ \<Rightarrow> vl_row r)
         in case read_values (map_head temp) current_row (itr_rows it) of
              (Inl e, rows, _) \<Rightarrow> (e, given, it\<lparr>itr_rows := rows\<rparr>)
            | (Inr es, rows, finished) \<Rightarrow>
                (let it = it\<lparr>itr_rows := rows, itr_finished := finished, itr_previous_row := current_row\<rparr>
                 in case arg of
                      NoPacket \<Rightarrow> (CIF_OK, None, it)
                    | NewPacket \<Rightarrow> (CIF_OK, Some (temp\<lparr>map_head := es\<rparr>), it)
                    | IntoPacket p \<Rightarrow> (case move_entries p es of (r, p') \<Rightarrow> (r, Some p', it)))))"

section \<open>Changing the packet returned last\<close>

fun update_packet_values ::
    "int \<Rightarrow> int \<Rightarrow> ustring list \<Rightarrow> map_entry list \<Rightarrow> tables \<Rightarrow> tables res" where
  "update_packet_values c row names [] t = Inr t"
| "update_packet_values c row names ((key, key_orig, v) # es) t =
     (if key \<notin> set names then Inl CIF_WRONG_LOOP
      else
        (case set_value_props v of
           Inl e \<Rightarrow> Inl e
         | Inr cols \<Rightarrow>
             (case update_value_stmt t \<lparr>vl_container = c, vl_name = key, vl_row = row, vl_cols = cols\<rparr> of
                None \<Rightarrow> Inl CIF_ERROR
              | Some t' \<Rightarrow> update_packet_values c row names es t')))"

definition itr_container_id :: "pktitr \<Rightarrow> int" where
  "itr_container_id it = (case loop_container (itr_loop it) of None \<Rightarrow> 0 | Some c \<Rightarrow> cont_id c)"

definition cif_pktitr_update_packet :: "pktitr \<Rightarrow> cif_map \<Rightarrow> db \<Rightarrow> int \<times> db" where
  "cif_pktitr_update_packet it packet d =
     (if autocommit d then (CIF_INVALID_HANDLE, d)
      else if itr_previous_row it \<le> 0 then (CIF_MISUSE, d)
      else
        (let d = SAVE d in
         case update_packet_values (itr_container_id it) (itr_previous_row it) (itr_names it)
                (map_head packet) (cur d) of
           Inl e \<Rightarrow> (e, ROLLBACK_TO d)
         | Inr t \<Rightarrow>
             (case RELEASE (d\<lparr>cur := t\<rparr>) of
                None \<Rightarrow> (CIF_ERROR, ROLLBACK_TO (d\<lparr>cur := t\<rparr>))
              | Some d \<Rightarrow> (CIF_OK, d))))"

text \<open>The packet number of a scalar loop starts at zero again.\<close>

definition cif_pktitr_reset_packet_number :: "cif_loop \<Rightarrow> db \<Rightarrow> int \<times> db" where
  "cif_pktitr_reset_packet_number l d =
     (case loop_container l of
        None \<Rightarrow> (CIF_ERROR, d)
      | Some c \<Rightarrow>
          (case update_loop_stmt (\<lambda>r. r\<lparr>lp_last_row := 0\<rparr>) (cur d) (cont_id c) (loop_num l) of
             None \<Rightarrow> (CIF_ERROR, d)
           | Some (_, t) \<Rightarrow> (CIF_OK, d\<lparr>cur := t\<rparr>)))"

definition cif_pktitr_remove_packet :: "pktitr \<Rightarrow> db \<Rightarrow> int \<times> pktitr \<times> db" where
  "cif_pktitr_remove_packet it d =
     (if autocommit d then (CIF_INVALID_HANDLE, it, d)
      else if itr_previous_row it \<le> 0 then (CIF_MISUSE, it, d)
      else
        (let is_scalar = (cif_loop_get_category (itr_loop it) = Some []);
             d = SAVE d;
             d = d\<lparr>cur := remove_packet_stmt (cur d) (itr_container_id it) (loop_num (itr_loop it))
                        (itr_previous_row it)\<rparr>;
             (r, d) = (if is_scalar then cif_pktitr_reset_packet_number (itr_loop it) d else (CIF_OK, d))
         in if r \<noteq> CIF_OK then (CIF_ERROR, it, ROLLBACK_TO d)
            else
              (case RELEASE d of
                 None \<Rightarrow> (CIF_ERROR, it, ROLLBACK_TO d)
               | Some d \<Rightarrow> (CIF_OK, it\<lparr>itr_previous_row := -1\<rparr>, d))))"

end
