(* ===== verification/Cif.thy ===== *)
theory Cif
  imports Containers Pktitr
begin

text \<open>
  The functions of src/cif.c on a CIF as a whole: the table of error messages, creating and
  destroying a CIF, and the walk over its blocks, frames, loops, packets and items with the
  user's handlers.
\<close>

section \<open>Error messages\<close>

definition cif_errlist :: "string list" where
  "cif_errlist =
     [''no error'', ''iteration finished'', ''unspecified error'', ''invalid object handle provided'',
      ''CIF API internal error'', ''invalid function argument'', ''improper CIF API use'',
      ''feature not supported'', ''wrong or inadequate operating environment'',
      ''application-directed error'', '''',
      ''duplicate data block code'', ''invalid data block code'',
      ''no data block exists for the specified code'']
     @ replicate 7 []
     @ [''duplicate save frame code'', ''invalid save frame code'',
        ''no save frame exists for the specified code and data block'']
     @ replicate 7 []
     @ [''the specified category does not uniquely identify a loop'',
        ''the specified category identifier is invalid'',
        ''no loop is assigned to the specified category'',
        ''the scalar loop may not be manipulated as requested'',
        ''the specified item does not belong to the specified loop'',
        ''loop with no data'', ''loop with no data names'']
     @ replicate 3 []
     @ [''duplicate item name'', ''invalid item name'', ''no item bears the specified name'',
        ''only one of the specified item's several values is provided'']
     @ replicate 7 []
     @ [''the provided packet object is not valid for the requested operation'',
        ''too few values in the last packet of a loop'']
     @ replicate 8 []
     @ [''wrong value type for a table index'']
     @ replicate 9 []
     @ [''the specified string could not be parsed as a number'',
        ''the specified string is not a valid table index'',
        ''a data value that must be quoted was encountered bare'']
     @ replicate (6 + 10 + 10 + 1) []
     @ [''invalid encoded character'', ''unmappable character'',
        ''encountered a character that is not allowed to appear in CIF'',
        ''required whitespace separation was missing'',
        ''encountered an un-terminated inline quoted string'',
        ''a multi-line string was not terminated before the end of the file'',
        ''encountered an input line exceeding the length limit'',
        ''the first character of the input is disallowed at that position'',
        ''while parsing CIF 2.0, the character encoding is not UTF-8'']
     @ replicate 2 []
     @ [''non-whitespace was encountered outside any data block'']
     @ replicate 8 []
     @ [''a save frame was encountered, but save frame parsing is disabled'',
        ''a save frame terminator is missing at the apparent end of a frame'',
        ''a save frame terminator was encountered where none was expected'']
     @ replicate 1 []
     @ [''the end of the input was encountered inside a save frame'']
     @ replicate 5 []
     @ [''a CIF reserved word was encountered as an unquoted data value'', ''missing data value'',
        ''unexpected data value'', ''misplaced list or table delimiter'',
        ''missing list or table delimiter'', ''missing a key for a table entry'',
        ''an unquoted table key was encountered'',
        ''encountered a text block used as a table key'',
        ''a null table key was encountered'']"

definition cif_nerr :: int where
  "cif_nerr = int (length cif_errlist)"

section \<open>Creating and destroying a CIF\<close>

text \<open>
  What SQLite answers while a database is being set up: whether the library starts and the
  temporary database opens, whether the statement that enables foreign keys runs and whether it
  reports them as enabled, and whether the schema is created in one transaction.
\<close>

record sqlite_setup =
  setup_opens :: bool
  setup_fk_runs :: bool
  setup_fk_enabled :: bool
  setup_begins :: bool
  setup_ddl_ok :: bool
  setup_commits :: bool

definition cif_create :: "sqlite_setup \<Rightarrow> db res" where
  "cif_create s =
     (if \<not> setup_opens s then Inl CIF_ERROR
      else if \<not> setup_fk_runs s then Inl CIF_ERROR
      else if \<not> setup_fk_enabled s then Inl 9 \<comment> \<open>\<open>CIF_ENVIRONMENT_ERROR\<close>\<close>
      else if \<not> setup_begins s then Inl CIF_ERROR
      else if \<not> setup_ddl_ok s then Inl CIF_ERROR
      else if \<not> setup_commits s then Inl CIF_ERROR
      else Inr new_db)"

section \<open>Handlers\<close>

text \<open>
  A handler gets the caller's context and the database, and may change both. The context is of
  any type. A NULL handler is \<open>None\<close>. Handlers that change the packet or the value they are
  given a pointer to are not modelled.
\<close>

abbreviation (input) CIF_TRAVERSE_CONTINUE :: int where "CIF_TRAVERSE_CONTINUE \<equiv> 0"
abbreviation (input) CIF_TRAVERSE_SKIP_CURRENT :: int where "CIF_TRAVERSE_SKIP_CURRENT \<equiv> -1"
abbreviation (input) CIF_TRAVERSE_SKIP_SIBLINGS :: int where "CIF_TRAVERSE_SKIP_SIBLINGS \<equiv> -2"
abbreviation (input) CIF_TRAVERSE_END :: int where "CIF_TRAVERSE_END \<equiv> -3"

type_synonym 'c step = "'c \<times> db \<Rightarrow> int \<times> 'c \<times> db"

record 'c cif_handler =
  handle_cif_start :: "'c step option"
  handle_cif_end :: "'c step option"
  handle_block_start :: "(cif_container \<Rightarrow> 'c step) option"
  handle_block_end :: "(cif_container \<Rightarrow> 'c step) option"
  handle_frame_start :: "(cif_container \<Rightarrow> 'c step) option"
  handle_frame_end :: "(cif_container \<Rightarrow> 'c step) option"
  handle_loop_start :: "(cif_loop \<Rightarrow> 'c step) option"
  handle_loop_end :: "(cif_loop \<Rightarrow> 'c step) option"
  handle_packet_start :: "(cif_map \<Rightarrow> 'c step) option"
  handle_packet_end :: "(cif_map \<Rightarrow> 'c step) option"
  handle_item :: "(ustring \<Rightarrow> cif_value \<Rightarrow> 'c step) option"

text \<open>HANDLER_RESULT; the default is CIF_TRAVERSE_CONTINUE throughout.\<close>

definition handler_result :: "('a \<Rightarrow> 'c step) option \<Rightarrow> 'a \<Rightarrow> 'c step" where
  "handler_result h x w = (case h of None \<Rightarrow> (CIF_TRAVERSE_CONTINUE, w) | Some f \<Rightarrow> f x w)"

definition handler_result0 :: "'c step option \<Rightarrow> 'c step" where
  "handler_result0 h w = (case h of None \<Rightarrow> (CIF_TRAVERSE_CONTINUE, w) | Some f \<Rightarrow> f w)"

section \<open>Packets and items\<close>

definition walk_item :: "'c cif_handler \<Rightarrow> ustring \<Rightarrow> cif_value \<Rightarrow> 'c step" where
  "walk_item h name v w = (case handle_item h of None \<Rightarrow> (CIF_TRAVERSE_CONTINUE, w) | Some f \<Rightarrow> f name v w)"

text \<open>The loop over the items; \<open>None\<close> when it ends normally, else the early return.\<close>

fun walk_items :: "'c cif_handler \<Rightarrow> map_entry list \<Rightarrow> 'c \<times> db \<Rightarrow> int option \<times> 'c \<times> db" where
  "walk_items h [] w = (None, w)"
| "walk_items h ((key, key_orig, v) # es) w =
     (case walk_item h key v w of
        (r, w) \<Rightarrow>
          if r = CIF_TRAVERSE_CONTINUE \<or> r = CIF_TRAVERSE_SKIP_CURRENT then walk_items h es w
          else if r = CIF_TRAVERSE_SKIP_SIBLINGS then (Some CIF_TRAVERSE_CONTINUE, w)
          else (Some r, w))"

definition walk_packet :: "'c cif_handler \<Rightarrow> cif_map \<Rightarrow> 'c step" where
  "walk_packet h packet w =
     (case handler_result (handle_packet_start h) packet w of
        (r, w) \<Rightarrow>
          if r \<noteq> CIF_TRAVERSE_CONTINUE then (r, w)
          else
            (case walk_items h (map_head packet) w of
               (Some r, w) \<Rightarrow> (r, w)
             | (None, w) \<Rightarrow> handler_result (handle_packet_end h) packet w))"

section \<open>Loops\<close>

text \<open>
  Every packet that the iterator delivers takes at least one row from it, so that the loop over
  the packets ends.
\<close>

lemma read_values_next:
  assumes "read_values es row (r # rs) = (Inr es', rows', finished)"
  obtains "rows' = rs" | es2 where "read_values es2 row rs = (Inr es', rows', finished)"
proof (cases "hash_find es (vl_name r)")
  case (Some e)
  then show thesis
    using assms that by (cases e; cases "get_value_props (vl_cols r)"; cases rs) (simp_all add: Let_def split: if_splits)
qed (use assms in simp)

lemma read_values_rows:
  "read_values es row rows = (Inr es', rows', finished) \<Longrightarrow> length rows' < length rows"
proof (induction rows arbitrary: es)
  case (Cons r rs)
  from Cons.prems show ?case
    by (rule read_values_next) (use Cons.IH in fastforce)+
qed simp

lemma get_value_props_error: "get_value_props r = Inl e \<Longrightarrow> e = CIF_INTERNAL_ERROR"
  by (auto simp: get_value_props_def value_of_blob_def Let_def
      split: cif_kind.splits option.splits sum.splits if_splits val_col.splits)

lemma read_values_fails:
  assumes "read_values es row (r # rs) = (Inl e, x)"
  obtains "e \<noteq> CIF_OK" | es2 where "read_values es2 row rs = (Inl e, x)"
proof (cases "hash_find es (vl_name r)")
  case (Some entry)
  then show thesis
    using assms that get_value_props_error[of "vl_cols r" e]
    by (cases entry; cases "get_value_props (vl_cols r)"; cases rs) (simp_all add: Let_def split: if_splits)
qed (use assms that in simp)

lemma read_values_error: "read_values es row rows = (Inl e, x) \<Longrightarrow> e \<noteq> CIF_OK"
proof (induction rows arbitrary: es)
  case (Cons r rs)
  from Cons.prems show ?case
    by (rule read_values_fails) (use Cons.IH in blast)+
qed simp

lemma next_packet_rows:
  assumes "cif_pktitr_next_packet I it arg d = (CIF_OK, p, it')"
  shows "length (itr_rows it') < length (itr_rows it)"
  using assms
  by (auto simp: cif_pktitr_next_packet_def Let_def
      dest: read_values_rows read_values_error split: if_splits prod.splits sum.splits packet_arg.splits)

function packets_loop :: "icu \<Rightarrow> 'c cif_handler \<Rightarrow> packet_arg \<Rightarrow> pktitr \<Rightarrow> 'c step" where
  "packets_loop I h arg it w =
     (case cif_pktitr_next_packet I it arg (snd w) of
        (result, packet, it') \<Rightarrow>
          if result \<noteq> CIF_OK then (result, w)
          else
            (case packet of
               None \<Rightarrow> (CIF_OK, w) \<comment> \<open>not reached: a packet was asked for\<close>
             | Some p \<Rightarrow>
                 (case walk_packet h p w of
                    (r, w) \<Rightarrow>
                      if r = CIF_TRAVERSE_CONTINUE \<or> r = CIF_TRAVERSE_SKIP_CURRENT
                      then packets_loop I h (IntoPacket p) it' w
                      else if r = CIF_TRAVERSE_SKIP_SIBLINGS then (CIF_TRAVERSE_CONTINUE, w)
                      else (r, w))))"
  by pat_completeness auto
termination
  by (relation "measure (\<lambda>(I, h, arg, it, w). length (itr_rows it))") (auto dest: next_packet_rows[OF sym])

declare packets_loop.simps [simp del]

definition walk_loop :: "icu \<Rightarrow> 'c cif_handler \<Rightarrow> cif_loop \<Rightarrow> 'c step" where
  "walk_loop I h l w =
     (case handler_result (handle_loop_start h) l w of
        (result, ctx, d) \<Rightarrow>
          if result \<noteq> CIF_TRAVERSE_CONTINUE then (result, ctx, d)
          else
            (case cif_loop_get_packets I l d of
               (Inl e, d) \<Rightarrow> (e, ctx, d)
             | (Inr it, d) \<Rightarrow>
                 (case packets_loop I h NewPacket it (ctx, d) of
                    (result, ctx, d) \<Rightarrow>
                      (case cif_pktitr_close d of
                         (close_result, d) \<Rightarrow>
                           (let result = (if close_result \<noteq> CIF_OK \<and> result = CIF_FINISHED
                                          then close_result else result)
                            in if result \<noteq> CIF_FINISHED then (result, ctx, d)
                               else handler_result (handle_loop_end h) l (ctx, d))))))"

fun walk_each_loop :: "icu \<Rightarrow> 'c cif_handler \<Rightarrow> int \<Rightarrow> cif_loop list \<Rightarrow> 'c step" where
  "walk_each_loop I h result [] w = (result, w)"
| "walk_each_loop I h result (l # ls) w =
     (case walk_loop I h l w of
        (result, w) \<Rightarrow>
          if result = CIF_TRAVERSE_SKIP_CURRENT \<or> result = CIF_TRAVERSE_CONTINUE
          then walk_each_loop I h result ls w
          else (result, w))"

definition walk_loops :: "icu \<Rightarrow> 'c cif_handler \<Rightarrow> cif_container \<Rightarrow> 'c step" where
  "walk_loops I h c w =
     (case w of
        (ctx, d) \<Rightarrow>
          (case cif_container_get_all_loops (Some c) d of
             (Inl e, d) \<Rightarrow> (e, ctx, d)
           | (Inr ls, d) \<Rightarrow> walk_each_loop I h CIF_OK ls (ctx, d)))"

section \<open>Containers\<close>

text \<open>
  The loop over the save frames, with the function that walks one: its result, and whether the
  loops of the container are walked after it. \<open>None\<close>: out of fuel.
\<close>

fun walk_frames ::
    "(cif_container \<Rightarrow> 'c \<times> db \<Rightarrow> (int \<times> 'c \<times> db) option) \<Rightarrow> int \<Rightarrow> cif_container list \<Rightarrow> 'c \<times> db \<Rightarrow>
     (int \<times> bool \<times> 'c \<times> db) option" where
  "walk_frames walk result [] w = Some (result, True, w)"
| "walk_frames walk result (f # fs) w =
     (case walk f w of
        None \<Rightarrow> None
      | Some (result, w) \<Rightarrow>
          if result = CIF_TRAVERSE_CONTINUE \<or> result = CIF_TRAVERSE_SKIP_CURRENT then walk_frames walk result fs w
          else if result = CIF_TRAVERSE_SKIP_SIBLINGS then Some (result, True, w)
          else Some (result, False, w))"

text \<open>The fuel bounds the depth to which save frames are nested.\<close>

primrec walk_container ::
    "nat \<Rightarrow> icu \<Rightarrow> 'c cif_handler \<Rightarrow> cif_container \<Rightarrow> nat \<Rightarrow> 'c \<times> db \<Rightarrow> (int \<times> 'c \<times> db) option" where
  "walk_container 0 I h c depth w = None"
| "walk_container (Suc fuel) I h c depth w =
     (case (if depth \<noteq> 0 then handler_result (handle_frame_start h) c w
            else handler_result (handle_block_start h) c w) of
        (result, w) \<Rightarrow>
          if result \<noteq> CIF_TRAVERSE_CONTINUE then Some (result, w)
          else
            (case cif_container_get_all_frames (Some c) (snd w) of
               Inl e \<Rightarrow> Some (e, w)
             | Inr fs \<Rightarrow>
                 (case walk_frames (\<lambda>f. walk_container fuel I h f (depth + 1)) CIF_OK fs w of
                    None \<Rightarrow> None
                  | Some (result, handle_loops, w) \<Rightarrow>
                      if \<not> handle_loops then Some (result, w)
                      else
                        (case walk_loops I h c w of
                           (result, w) \<Rightarrow>
                             if result = CIF_TRAVERSE_CONTINUE \<or> result = CIF_TRAVERSE_SKIP_CURRENT then
                               Some (if depth \<noteq> 0 then handler_result (handle_frame_end h) c w
                                     else handler_result (handle_block_end h) c w)
                             else if result = CIF_TRAVERSE_SKIP_SIBLINGS then Some (CIF_TRAVERSE_CONTINUE, w)
                             else Some (result, w)))))"

text \<open>The loop over the blocks: the result, and whether it reached the end of the list normally.\<close>

fun walk_blocks ::
    "(cif_container \<Rightarrow> 'c \<times> db \<Rightarrow> (int \<times> 'c \<times> db) option) \<Rightarrow> int \<Rightarrow> cif_container list \<Rightarrow> 'c \<times> db \<Rightarrow>
     (int \<times> bool \<times> 'c \<times> db) option" where
  "walk_blocks walk result [] w = Some (result, True, w)"
| "walk_blocks walk result (b # bs) w =
     (case walk b w of
        None \<Rightarrow> None
      | Some (result, w) \<Rightarrow>
          if result = CIF_TRAVERSE_CONTINUE \<or> result = CIF_TRAVERSE_SKIP_CURRENT then walk_blocks walk result bs w
          else if result = CIF_TRAVERSE_SKIP_SIBLINGS \<or> result = CIF_TRAVERSE_END
          then Some (CIF_OK, False, w)
          else Some (result, False, w))"

definition walk_directions :: "int set" where
  "walk_directions = {CIF_TRAVERSE_CONTINUE, CIF_TRAVERSE_SKIP_CURRENT, CIF_TRAVERSE_SKIP_SIBLINGS, CIF_TRAVERSE_END}"

definition cif_walk :: "nat \<Rightarrow> icu \<Rightarrow> 'c cif_handler \<Rightarrow> 'c \<times> db \<Rightarrow> (int \<times> 'c \<times> db) option" where
  "cif_walk fuel I h w =
     (case handler_result0 (handle_cif_start h) w of
        (result, w) \<Rightarrow>
          if result = CIF_TRAVERSE_CONTINUE then
            (case walk_blocks (\<lambda>b. walk_container fuel I h b 0) CIF_OK (cif_get_all_blocks (snd w)) w of
               None \<Rightarrow> None
             | Some (result, handle_blocks, w) \<Rightarrow>
                 if \<not> handle_blocks then Some (result, w)
                 else
                   (case handler_result0 (handle_cif_end h) w of
                      (result, w) \<Rightarrow> Some (if result \<in> walk_directions then CIF_OK else result, w)))
          else if result \<in> walk_directions then Some (CIF_OK, w)
          else Some (result, w))"

end
