(* ===== verification/Integrity.thy ===== *)
theory Integrity
  imports Cif
begin

text \<open>
  What every operation keeps true of the database. An invariant of the tables that each
  statement keeps is kept by every operation, with its transactions and their rollbacks: this
  is proved once, in the locale \<open>statement_invariant\<close>. The integrity of the tables is such an
  invariant; it holds in every database that is reached from a new one by calls of the API, in
  any order and with any handles, stale ones included.
\<close>

section \<open>Invariants that statements keep\<close>

locale statement_invariant =
  fixes inv :: "tables \<Rightarrow> bool"
  assumes inv_empty: "inv empty_tables"
    and inv_block: "create_block_stmt (insert_container t) (last_id (insert_container t)) name orig = Some t'
      \<Longrightarrow> inv t \<Longrightarrow> inv t'"
    and inv_frame: "create_frame_stmt (insert_container t) (last_id (insert_container t)) parent name orig = Some t'
      \<Longrightarrow> inv t \<Longrightarrow> inv t'"
    and inv_destroy: "inv t \<Longrightarrow> inv (snd (destroy_container_stmt t c))"
    and inv_delete_loops: "inv t \<Longrightarrow> inv (delete_loops P t)"
    and inv_delete_items: "inv t \<Longrightarrow> inv (delete_items Q t)"
    and inv_loop: "create_loop_stmt t c category = Inr t' \<Longrightarrow> inv t \<Longrightarrow> inv t'"
    and inv_loop_item: "add_loop_item_stmt t c name orig n = Some t' \<Longrightarrow> inv t \<Longrightarrow> inv t'"
    and inv_set_category: "update_loop_stmt (\<lambda>r. r\<lparr>lp_category := category\<rparr>) t c n = Some (k, t')
      \<Longrightarrow> category \<noteq> Some [] \<Longrightarrow> inv t \<Longrightarrow> inv t'"
    and inv_count_packet: "update_loop_stmt (\<lambda>r. r\<lparr>lp_last_row := lp_last_row r + 1\<rparr>) t c n = Some (k, t') \<Longrightarrow> inv t \<Longrightarrow> inv t'"
    and inv_reset_packets: "update_loop_stmt (\<lambda>r. r\<lparr>lp_last_row := 0\<rparr>) t c n = Some (k, t') \<Longrightarrow> inv t \<Longrightarrow> inv t'"
    and inv_update_value: "update_value_stmt t v = Some t' \<Longrightarrow> inv t \<Longrightarrow> inv t'"
    and inv_insert_value: "insert_value_stmt t v = Some t' \<Longrightarrow> inv t \<Longrightarrow> inv t'"
    and inv_remove_packet: "inv t \<Longrightarrow> inv (remove_packet_stmt t c n row)"
begin

text \<open>The invariant in the present, and in every state a rollback may return to.\<close>

definition db_inv :: "db \<Rightarrow> bool" where
  "db_inv d \<longleftrightarrow> inv (cur d) \<and> (\<forall>t. tx d = Some t \<longrightarrow> inv t) \<and> (\<forall>t \<in> set (saves d). inv t)"

lemma db_inv_new: "db_inv new_db"
  by (simp add: db_inv_def new_db_def inv_empty)

lemma db_inv_cur: "db_inv d \<Longrightarrow> inv t \<Longrightarrow> db_inv (d\<lparr>cur := t\<rparr>)"
  by (simp add: db_inv_def)

lemma db_invD: "db_inv d \<Longrightarrow> inv (cur d)"
  by (simp add: db_inv_def)

lemma db_inv_BEGIN: "BEGIN d = Some d' \<Longrightarrow> db_inv d \<Longrightarrow> db_inv d'"
  by (auto simp: db_inv_def BEGIN_def split: if_splits)

lemma db_inv_COMMIT: "COMMIT d = Some d' \<Longrightarrow> db_inv d \<Longrightarrow> db_inv d'"
  by (auto simp: db_inv_def COMMIT_def split: if_splits)

lemma db_inv_ROLLBACK: "db_inv d \<Longrightarrow> db_inv (ROLLBACK d)"
  by (auto simp: db_inv_def ROLLBACK_def split: option.splits)

lemma db_inv_SAVE: "db_inv d \<Longrightarrow> db_inv (SAVE d)"
  by (auto simp: db_inv_def SAVE_def)

lemma db_inv_RELEASE: "RELEASE d = Some d' \<Longrightarrow> db_inv d \<Longrightarrow> db_inv d'"
  by (auto simp: db_inv_def RELEASE_def split: list.splits)

lemma db_inv_ROLLBACK_TO: "db_inv d \<Longrightarrow> db_inv (ROLLBACK_TO d)"
  by (auto simp: db_inv_def ROLLBACK_TO_def split: list.splits)

lemma db_inv_BEGIN_NESTTX: "BEGIN_NESTTX d = (b, d') \<Longrightarrow> db_inv d \<Longrightarrow> db_inv d'"
  by (auto simp: BEGIN_NESTTX_def split: if_splits option.splits intro: db_inv_SAVE db_inv_BEGIN)

lemma db_inv_COMMIT_NESTTX: "COMMIT_NESTTX b d = Some d' \<Longrightarrow> db_inv d \<Longrightarrow> db_inv d'"
  by (auto simp: COMMIT_NESTTX_def split: if_splits intro: db_inv_COMMIT db_inv_RELEASE)

lemma db_inv_ROLLBACK_NESTTX: "db_inv d \<Longrightarrow> db_inv (ROLLBACK_NESTTX b d)"
  by (simp add: ROLLBACK_NESTTX_def db_inv_ROLLBACK db_inv_ROLLBACK_TO)

lemmas tx_inv = db_inv_BEGIN db_inv_COMMIT db_inv_ROLLBACK db_inv_SAVE db_inv_RELEASE db_inv_ROLLBACK_TO
  db_inv_BEGIN_NESTTX db_inv_COMMIT_NESTTX db_inv_ROLLBACK_NESTTX

lemma inv_update_values: "update_values t vs = Some t' \<Longrightarrow> inv t \<Longrightarrow> inv t'"
  by (induction t vs rule: update_values.induct) (auto split: option.splits intro: inv_update_value)

lemma inv_set_all_values: "set_all_values_stmt t cols c name = Some (n, t') \<Longrightarrow> inv t \<Longrightarrow> inv t'"
  by (auto simp: set_all_values_stmt_def Let_def intro: inv_update_values)

lemma inv_add_names: "add_names c n names names_norm t = Inr t' \<Longrightarrow> inv t \<Longrightarrow> inv t'"
  by (induction c n names names_norm t rule: add_names.induct) (auto split: option.splits intro: inv_loop_item)

lemma inv_add_packet_values: "add_packet_values c n row es t = Inr t' \<Longrightarrow> inv t \<Longrightarrow> inv t'"
  by (induction c n row es t rule: add_packet_values.induct)
     (auto split: option.splits sum.splits if_splits intro: inv_insert_value)

lemma inv_update_packet_values: "update_packet_values c row names es t = Inr t' \<Longrightarrow> inv t \<Longrightarrow> inv t'"
  by (induction c row names es t rule: update_packet_values.induct)
     (auto split: option.splits sum.splits if_splits intro: inv_update_value)

lemma inv_prune: "inv t \<Longrightarrow> inv (prune_stmt t c)"
  by (simp add: prune_stmt_def inv_delete_loops)

lemmas inv_rules = tx_inv db_invD db_inv_cur inv_frame inv_block inv_loop inv_loop_item inv_set_category inv_count_packet
  inv_reset_packets inv_update_value inv_insert_value inv_remove_packet inv_set_all_values inv_add_names
  inv_add_packet_values inv_update_packet_values inv_prune inv_delete_loops inv_delete_items

section \<open>Operations\<close>

lemma keep_set_all_values:
  "db_inv d \<Longrightarrow> db_inv (snd (cif_container_set_all_values c name v d))"
  by (auto simp: cif_container_set_all_values_def split: option.splits sum.splits) (simp_all add: inv_rules)

lemma keep_create_frame:
  "db_inv d \<Longrightarrow> db_inv (snd (cif_container_create_frame_internal I c code lenient d))"
  unfolding cif_container_create_frame_internal_def Let_def
  by (auto split: option.splits sum.splits) (simp_all add: inv_rules)

lemma keep_create_block: "db_inv d \<Longrightarrow> db_inv (snd (cif_create_block_internal I code lenient d))"
  unfolding cif_create_block_internal_def Let_def
  by (auto split: option.splits sum.splits) (simp_all add: inv_rules)

lemma keep_destroy: "db_inv d \<Longrightarrow> db_inv (snd (cif_container_destroy c d))"
  unfolding cif_container_destroy_def
  by (auto split: option.splits prod.splits) (metis db_invD db_inv_cur inv_destroy snd_conv)

lemma keep_create_loop_internal:
  "db_inv d \<Longrightarrow> db_inv (snd (cif_container_create_loop_internal c category names names_norm d))"
  unfolding cif_container_create_loop_internal_def Let_def
  by (auto split: option.splits sum.splits prod.splits) (simp_all add: inv_rules)

lemma keep_create_loop: "db_inv d \<Longrightarrow> db_inv (snd (cif_container_create_loop I c category names d))"
  unfolding cif_container_create_loop_def
  by (auto split: option.splits sum.splits intro: keep_create_loop_internal)

lemma keep_prune: "db_inv d \<Longrightarrow> db_inv (snd (cif_container_prune c d))"
  by (auto simp: cif_container_prune_def simp: inv_rules)

lemma keep_get_all_loops: "db_inv d \<Longrightarrow> db_inv (snd (cif_container_get_all_loops c d))"
  unfolding cif_container_get_all_loops_def Let_def
  by (auto split: option.splits prod.splits) (simp_all add: inv_rules)

lemma keep_loop_destroy: "db_inv d \<Longrightarrow> db_inv (snd (cif_loop_destroy l d))"
  unfolding cif_loop_destroy_def Let_def
  by (auto simp: inv_rules split: option.splits)

lemma keep_set_category: "db_inv d \<Longrightarrow> db_inv (snd (snd (cif_loop_set_category l category d)))"
  unfolding cif_loop_set_category_def
  by (auto split: option.splits prod.splits) (simp_all add: inv_rules)

lemma keep_get_names_internal: "db_inv d \<Longrightarrow> db_inv (snd (cif_loop_get_names_internal I l b d))"
  unfolding cif_loop_get_names_internal_def Let_def
  by (auto split: option.splits sum.splits prod.splits) (simp_all add: inv_rules)

lemma keep_add_item_internal:
  "db_inv d \<Longrightarrow> db_inv (snd (cif_loop_add_item_internal l c name norm v d))"
  unfolding cif_loop_add_item_internal_def Let_def cif_container_set_all_values_def
  by (auto split: option.splits sum.splits prod.splits) (simp_all add: inv_rules)

lemma keep_add_item: "db_inv d \<Longrightarrow> db_inv (snd (cif_loop_add_item I l name v d))"
  using keep_add_item_internal[of d l]
  by (auto simp: cif_loop_add_item_def Let_def split: option.splits sum.splits prod.splits) (metis snd_conv)+

lemma keep_add_packet: "db_inv d \<Longrightarrow> db_inv (snd (cif_loop_add_packet l p d))"
  unfolding cif_loop_add_packet_def Let_def
  by (auto split: option.splits sum.splits prod.splits) (simp_all add: inv_rules)

lemma keep_get_packets: "db_inv d \<Longrightarrow> db_inv (snd (cif_loop_get_packets I l d))"
  using keep_get_names_internal[of d I l True]
  unfolding cif_loop_get_packets_def Let_def
  by (auto split: option.splits sum.splits prod.splits) (simp_all add: inv_rules)

lemma keep_update_packet: "db_inv d \<Longrightarrow> db_inv (snd (cif_pktitr_update_packet it p d))"
  unfolding cif_pktitr_update_packet_def Let_def
  by (auto split: option.splits sum.splits) (simp_all add: inv_rules)

lemma keep_reset_packet_number: "db_inv d \<Longrightarrow> db_inv (snd (cif_pktitr_reset_packet_number l d))"
  unfolding cif_pktitr_reset_packet_number_def
  by (auto split: option.splits) (simp_all add: inv_rules)

lemma keep_close: "db_inv d \<Longrightarrow> db_inv (snd (cif_pktitr_close d))"
  unfolding cif_pktitr_close_def
  by (auto split: option.splits) (simp_all add: inv_rules)

lemma keep_abort: "db_inv d \<Longrightarrow> db_inv (snd (cif_pktitr_abort d))"
  by (simp add: cif_pktitr_abort_def db_inv_ROLLBACK)

text \<open>The same for the operations that others call, on a call's result.\<close>

lemma call_set_all_values:
  "cif_container_set_all_values c name v d = (r, d') \<Longrightarrow> db_inv d \<Longrightarrow> db_inv d'"
  using keep_set_all_values[of d c name v] by simp

lemma call_create_loop_internal:
  "cif_container_create_loop_internal c category names names_norm d = (r, d') \<Longrightarrow> db_inv d \<Longrightarrow> db_inv d'"
  using keep_create_loop_internal[of d c category names names_norm] by simp

lemma call_add_item_internal:
  "cif_loop_add_item_internal l c name norm v d = (r, d') \<Longrightarrow> db_inv d \<Longrightarrow> db_inv d'"
  using keep_add_item_internal[of d l c name norm v] by simp

lemma call_reset_packet_number:
  "cif_pktitr_reset_packet_number l d = (r, d') \<Longrightarrow> db_inv d \<Longrightarrow> db_inv d'"
  using keep_reset_packet_number[of d l] by simp

lemmas call_rules = call_set_all_values call_create_loop_internal call_add_item_internal call_reset_packet_number

lemma keep_remove_packet: "db_inv d \<Longrightarrow> db_inv (snd (snd (cif_pktitr_remove_packet it d)))"
  unfolding cif_pktitr_remove_packet_def Let_def
  by (simp split: option.splits prod.splits) (simp add: inv_rules call_rules)

lemma keep_add_scalar: "db_inv d \<Longrightarrow> db_inv (snd (cif_container_add_scalar I c name orig v d))"
proof -
  assume d: "db_inv d"
  obtain loop d1 where start: "(case cif_container_get_category_loop (Some c) (Some []) d of
       Inr l \<Rightarrow> (Inr l, d)
     | Inl e \<Rightarrow>
         if e = CIF_NOSUCH_LOOP then cif_container_create_loop_internal c (Some []) [] [] d
         else (Inl e, d)) = (loop, d1)" by force
  have d1: "db_inv d1"
    using start d by (auto simp: call_rules split: sum.splits if_splits)
  show ?thesis
  proof (cases loop)
    case (Inr l)
    obtain r d2 where add: "cif_loop_add_item_internal l c orig name v d1 = (r, d2)" by force
    have "db_inv d2" using add d1 by (rule call_add_item_internal)
    then show ?thesis
      unfolding cif_container_add_scalar_def start Let_def
      by (simp add: Inr add keep_add_packet split: sum.split option.split prod.split)
  qed (simp add: cif_container_add_scalar_def start d1)
qed

lemma call_add_scalar: "cif_container_add_scalar I c name orig v d = (r, d') \<Longrightarrow> db_inv d \<Longrightarrow> db_inv d'"
  using keep_add_scalar[of d I c name orig v] by simp

lemma call_set_or_add: "set_or_add I c name orig v d = (r, d') \<Longrightarrow> db_inv d \<Longrightarrow> db_inv d'"
  by (auto simp: set_or_add_def call_rules call_add_scalar split: sum.splits if_splits prod.splits)

lemma keep_set_value: "db_inv d \<Longrightarrow> db_inv (snd (cif_container_set_value I c name_orig v d))"
  unfolding cif_container_set_value_def
  by (simp split: option.split sum.split prod.split) (simp add: inv_rules call_set_or_add)

lemma keep_remove_item: "db_inv d \<Longrightarrow> db_inv (snd (cif_container_remove_item I c name d))"
  unfolding cif_container_remove_item_def Let_def
  by (auto split: option.splits sum.splits prod.splits) (simp_all add: inv_rules)

end

section \<open>Integrity of the tables\<close>

text \<open>
  Container ids are distinct and were given out; the primary keys, the references between the
  tables, and the constraints of the schema hold; a container has at most one scalar loop, and
  that at most one packet; a frame was created after its parent, so that frames are not nested
  in themselves.
\<close>

definition containers_ok :: "tables \<Rightarrow> bool" where
  "containers_ok t \<longleftrightarrow> distinct (map con_id (containers t)) \<and> 0 \<le> last_id t
     \<and> (\<forall>r \<in> set (containers t). 0 < con_id r \<and> con_id r \<le> last_id t \<and> 0 \<le> con_next_loop_num r)"

definition blocks_ok :: "tables \<Rightarrow> bool" where
  "blocks_ok t \<longleftrightarrow> distinct (map blk_id (blocks t)) \<and> distinct (map blk_name (blocks t))
     \<and> (\<forall>b \<in> set (blocks t). has_container t (blk_id b))"

definition frames_ok :: "tables \<Rightarrow> bool" where
  "frames_ok t \<longleftrightarrow> distinct (map frm_id (frames t))
     \<and> distinct (map (\<lambda>f. (frm_parent f, frm_name f)) (frames t))
     \<and> (\<forall>f \<in> set (frames t). has_container t (frm_id f) \<and> has_container t (frm_parent f)
          \<and> frm_parent f < frm_id f \<and> frm_id f \<notin> blk_id ` set (blocks t))"

definition row_ok :: "tables \<Rightarrow> loop_row \<Rightarrow> bool" where
  "row_ok t l \<longleftrightarrow> 0 \<le> lp_last_row l \<and> (lp_category l = Some [] \<longrightarrow> lp_last_row l \<le> 1) \<and> 0 \<le> lp_num l
     \<and> (\<exists>r \<in> set (containers t). con_id r = lp_container l \<and> lp_num l < con_next_loop_num r)"

definition one_scalar_loop :: "loop_row list \<Rightarrow> bool" where
  "one_scalar_loop ls \<longleftrightarrow>
     (\<forall>l \<in> set ls. \<forall>l' \<in> set ls. lp_category l = Some [] \<and> lp_category l' = Some []
          \<and> lp_container l = lp_container l' \<longrightarrow> lp_num l = lp_num l')"

definition loops_ok :: "tables \<Rightarrow> bool" where
  "loops_ok t \<longleftrightarrow> distinct (map (\<lambda>l. (lp_container l, lp_num l)) (loops t))
     \<and> (\<forall>l \<in> set (loops t). row_ok t l)
     \<and> one_scalar_loop (loops t)"

definition items_ok :: "tables \<Rightarrow> bool" where
  "items_ok t \<longleftrightarrow> distinct (map (\<lambda>i. (it_container i, it_name i)) (items t))
     \<and> (\<forall>i \<in> set (items t). \<exists>l \<in> set (loops t). lp_container l = it_container i \<and> lp_num l = it_loop i)"

definition vals_ok :: "tables \<Rightarrow> bool" where
  "vals_ok t \<longleftrightarrow> distinct (map (\<lambda>v. (vl_container v, vl_name v, vl_row v)) (vals t))
     \<and> (\<forall>v \<in> set (vals t). 0 < vl_row v \<and> value_check (vl_cols v)
          \<and> (\<exists>i \<in> set (items t). it_container i = vl_container v \<and> it_name i = vl_name v))"

definition tables_ok :: "tables \<Rightarrow> bool" where
  "tables_ok t \<longleftrightarrow> containers_ok t \<and> blocks_ok t \<and> frames_ok t \<and> loops_ok t \<and> items_ok t \<and> vals_ok t"

lemmas ok_defs = containers_ok_def blocks_ok_def frames_ok_def loops_ok_def items_ok_def vals_ok_def

lemma distinct_map_filter' [simp]: "distinct (map f xs) \<Longrightarrow> distinct (map f (filter P xs))"
  by (simp add: distinct_map_filter)

lemma ok_empty: "tables_ok empty_tables"
  by (simp add: tables_ok_def ok_defs one_scalar_loop_def empty_tables_def)

lemma has_container_insert:
  "has_container (insert_container t) c \<longleftrightarrow> c = last_id t + 1 \<or> has_container t c"
  by (auto simp: has_container_def insert_container_def)

lemma insert_container_simps [simp]:
  "blocks (insert_container t) = blocks t" "frames (insert_container t) = frames t"
  "loops (insert_container t) = loops t" "items (insert_container t) = items t"
  "vals (insert_container t) = vals t" "last_id (insert_container t) = last_id t + 1"
  by (simp_all add: insert_container_def)

lemma has_container_le: "containers_ok t \<Longrightarrow> has_container t c \<Longrightarrow> 0 < c \<and> c \<le> last_id t"
  by (auto simp: containers_ok_def has_container_def)

text \<open>Each part depends on some of the tables only.\<close>

lemma blocks_okI:
  assumes "distinct (map blk_id (blocks t))" "distinct (map blk_name (blocks t))"
    "\<And>b. b \<in> set (blocks t) \<Longrightarrow> has_container t (blk_id b)"
  shows "blocks_ok t"
  using assms by (simp add: blocks_ok_def)

lemma frames_okI:
  assumes "distinct (map frm_id (frames t))" "distinct (map (\<lambda>f. (frm_parent f, frm_name f)) (frames t))"
    "\<And>f. f \<in> set (frames t) \<Longrightarrow> has_container t (frm_id f) \<and> has_container t (frm_parent f)
       \<and> frm_parent f < frm_id f \<and> frm_id f \<notin> blk_id ` set (blocks t)"
  shows "frames_ok t"
  using assms by (simp add: frames_ok_def)

lemma containers_ok_cong: "containers t' = containers t \<Longrightarrow> last_id t' = last_id t \<Longrightarrow> containers_ok t' = containers_ok t"
  by (simp add: containers_ok_def)

lemma blocks_ok_cong: "blocks t' = blocks t \<Longrightarrow> containers t' = containers t \<Longrightarrow> blocks_ok t' = blocks_ok t"
  by (simp add: blocks_ok_def has_container_def)

lemma frames_ok_cong:
  "frames t' = frames t \<Longrightarrow> blocks t' = blocks t \<Longrightarrow> containers t' = containers t \<Longrightarrow> frames_ok t' = frames_ok t"
  by (simp add: frames_ok_def has_container_def)

lemma loops_ok_cong: "loops t' = loops t \<Longrightarrow> containers t' = containers t \<Longrightarrow> loops_ok t' = loops_ok t"
  by (simp add: loops_ok_def row_ok_def)

lemma items_ok_cong: "items t' = items t \<Longrightarrow> loops t' = loops t \<Longrightarrow> items_ok t' = items_ok t"
  by (simp add: items_ok_def)

lemma vals_ok_cong: "vals t' = vals t \<Longrightarrow> items t' = items t \<Longrightarrow> vals_ok t' = vals_ok t"
  by (simp add: vals_ok_def)

lemmas ok_congs = containers_ok_cong blocks_ok_cong frames_ok_cong loops_ok_cong items_ok_cong vals_ok_cong

lemma ok_insert_container:
  assumes "tables_ok t"
  shows "tables_ok (insert_container t)"
proof -
  have cs: "containers (insert_container t)
      = containers t @ [\<lparr>con_id = last_id t + 1, con_next_loop_num = 0\<rparr>]"
    by (simp add: insert_container_def)
  have c: "containers_ok t" and l: "loops_ok t"
    using assms by (simp_all add: tables_ok_def)
  have "last_id t + 1 \<notin> con_id ` set (containers t)"
    using c by (auto simp: containers_ok_def)
  then have "containers_ok (insert_container t)"
    using c unfolding containers_ok_def cs insert_container_simps by (auto simp del: insert_container_simps)
  moreover have "loops_ok (insert_container t)"
    using l unfolding loops_ok_def row_ok_def cs insert_container_simps by (simp add: bex_Un)
  moreover have "blocks_ok (insert_container t)" "frames_ok (insert_container t)"
    using assms by (auto simp: tables_ok_def blocks_ok_def frames_ok_def has_container_insert)
  moreover have "items_ok (insert_container t) = items_ok t" "vals_ok (insert_container t) = vals_ok t"
    by (rule ok_congs; simp)+
  ultimately show ?thesis
    using assms by (simp add: tables_ok_def)
qed

lemma ok_block:
  assumes "create_block_stmt (insert_container t) (last_id (insert_container t)) name orig = Some t'" and "tables_ok t"
  shows "tables_ok t'"
proof -
  let ?i = "insert_container t"
  have i: "tables_ok ?i" using assms(2) by (rule ok_insert_container)
  let ?b = "\<lparr>blk_id = last_id t + 1, blk_name = name, blk_name_orig = orig\<rparr>"
  have t': "t' = ?i\<lparr>blocks := blocks t @ [?b]\<rparr>"
    and new: "last_id t + 1 \<notin> blk_id ` set (blocks t)" "name \<notin> blk_name ` set (blocks t)"
    using assms(1) by (auto simp: create_block_stmt_def split: if_splits)
  have f: "f \<in> set (frames t) \<Longrightarrow> frm_id f \<noteq> last_id t + 1" for f
    using assms(2) has_container_le[of t "frm_id f"] by (auto simp: tables_ok_def frames_ok_def)
  have c: "has_container t' c = has_container ?i c" for c
    by (simp add: t' has_container_def)
  have "blocks_ok t'"
    using i new by (intro blocks_okI) (auto simp: t' tables_ok_def blocks_ok_def c[unfolded t'] has_container_insert)
  moreover have "frames_ok t'"
    using i f by (intro frames_okI) (auto simp: t' tables_ok_def frames_ok_def c[unfolded t'])
  moreover have "containers_ok t' = containers_ok ?i" "loops_ok t' = loops_ok ?i" "items_ok t' = items_ok ?i"
    "vals_ok t' = vals_ok ?i"
    by (rule ok_congs; simp add: t')+
  ultimately show ?thesis
    using i by (simp add: tables_ok_def)
qed

lemma ok_frame:
  assumes "create_frame_stmt (insert_container t) (last_id (insert_container t)) parent name orig = Some t'"
    and "tables_ok t"
  shows "tables_ok t'"
proof -
  let ?i = "insert_container t"
  have i: "tables_ok ?i" using assms(2) by (rule ok_insert_container)
  let ?f = "\<lparr>frm_id = last_id t + 1, frm_parent = parent, frm_name = name, frm_name_orig = orig\<rparr>"
  have t': "t' = ?i\<lparr>frames := frames t @ [?f]\<rparr>"
    and new: "last_id t + 1 \<notin> frm_id ` set (frames t)"
      "\<not> (\<exists>f \<in> set (frames t). frm_parent f = parent \<and> frm_name f = name)"
      "has_container t parent"
    using assms(1) by (auto simp: create_frame_stmt_def has_container_insert split: if_splits)
  have b: "last_id t + 1 \<notin> blk_id ` set (blocks t)"
    using assms(2) has_container_le[of t "last_id t + 1"] by (auto simp: tables_ok_def blocks_ok_def)
  have p: "parent < last_id t + 1"
    using assms(2) new(3) has_container_le[of t parent] by (auto simp: tables_ok_def)
  have c: "has_container t' c = has_container ?i c" for c
    by (simp add: t' has_container_def)
  have "distinct (map (\<lambda>f. (frm_parent f, frm_name f)) (frames t'))"
    using i new(2) by (auto simp: t' tables_ok_def frames_ok_def)
  then have "frames_ok t'"
    using i new(1,3) b p
    by (intro frames_okI) (auto simp: t' tables_ok_def frames_ok_def c[unfolded t'] has_container_insert)
  moreover have "blocks_ok t' = blocks_ok ?i" "containers_ok t' = containers_ok ?i" "loops_ok t' = loops_ok ?i"
    "items_ok t' = items_ok ?i" "vals_ok t' = vals_ok ?i"
    by (rule ok_congs; simp add: t')+
  ultimately show ?thesis
    using i by (simp add: tables_ok_def)
qed

lemma items_okI:
  assumes "items_ok t0" "\<exists>P. items t = filter P (items t0)"
    "\<And>i. i \<in> set (items t) \<Longrightarrow> \<exists>l \<in> set (loops t). lp_container l = it_container i \<and> lp_num l = it_loop i"
  shows "items_ok t"
  using assms by (auto simp: items_ok_def)

lemma vals_okI:
  assumes "vals_ok t0" "\<exists>P. vals t = filter P (vals t0)"
    "\<And>v. v \<in> set (vals t) \<Longrightarrow> \<exists>i \<in> set (items t). it_container i = vl_container v \<and> it_name i = vl_name v"
  shows "vals_ok t"
  using assms by (auto simp: vals_ok_def)

lemma ok_delete_items:
  assumes "tables_ok t"
  shows "tables_ok (delete_items P t)"
proof -
  let ?t = "delete_items P t"
  have i: "items_ok t" and v: "vals_ok t" using assms by (simp_all add: tables_ok_def)
  have "items_ok ?t"
    using i by (intro items_okI[OF i]) (auto simp: delete_items_def items_ok_def)
  moreover have "vals_ok ?t"
  proof (rule vals_okI[OF v])
    show "\<exists>Q. vals ?t = filter Q (vals t)" by (auto simp: delete_items_def)
    fix w assume w: "w \<in> set (vals ?t)"
    then obtain i where "i \<in> set (items t)" "it_container i = vl_container w \<and> it_name i = vl_name w"
      using v by (auto simp: delete_items_def vals_ok_def)
    with w show "\<exists>i \<in> set (items ?t). it_container i = vl_container w \<and> it_name i = vl_name w"
      by (auto simp: delete_items_def)
  qed
  moreover have "containers_ok ?t = containers_ok t" "blocks_ok ?t = blocks_ok t" "frames_ok ?t = frames_ok t"
    "loops_ok ?t = loops_ok t"
    by (rule ok_congs; simp add: delete_items_def)+
  ultimately show ?thesis using assms by (simp add: tables_ok_def)
qed

lemma one_scalar_loop_filter: "one_scalar_loop ls \<Longrightarrow> one_scalar_loop (filter P ls)"
  unfolding one_scalar_loop_def by (meson filter_is_subset subsetD)

lemma loops_ok_filter:
  "loops_ok t \<Longrightarrow> loops t' = filter P (loops t) \<Longrightarrow> containers t' = containers t \<Longrightarrow> loops_ok t'"
  using one_scalar_loop_filter by (auto simp: loops_ok_def row_ok_def)

lemma ok_delete_loops:
  assumes "tables_ok t"
  shows "tables_ok (delete_loops P t)"
proof -
  let ?Q = "\<lambda>i. \<exists>l \<in> set (loops t). P l \<and> lp_container l = it_container i \<and> lp_num l = it_loop i"
  let ?d = "delete_items ?Q t" and ?t = "delete_loops P t"
  have t: "?t = ?d\<lparr>loops := filter (\<lambda>l. \<not> P l) (loops t)\<rparr>" by (simp add: delete_loops_def)
  have d: "tables_ok ?d" using assms by (rule ok_delete_items)
  have ld: "loops ?d = loops t" by (simp add: delete_items_def)
  have l: "loops_ok ?t"
    by (rule loops_ok_filter[of ?d ?t "\<lambda>l. \<not> P l"]) (use d in \<open>simp_all add: t ld tables_ok_def\<close>)
  have i: "items_ok ?t"
  proof (rule items_okI[of t])
    show "items_ok t" using assms by (simp add: tables_ok_def)
    show "\<exists>R. items ?t = filter R (items t)" by (auto simp: t delete_items_def)
    fix i assume i: "i \<in> set (items ?t)"
    then obtain l where "l \<in> set (loops t)" "lp_container l = it_container i \<and> lp_num l = it_loop i"
      using assms by (auto simp: t delete_items_def tables_ok_def items_ok_def)
    with i show "\<exists>l \<in> set (loops ?t). lp_container l = it_container i \<and> lp_num l = it_loop i"
      by (auto simp: t delete_items_def)
  qed
  have "containers_ok ?t = containers_ok ?d" "blocks_ok ?t = blocks_ok ?d" "frames_ok ?t = frames_ok ?d"
    "vals_ok ?t = vals_ok ?d"
    by (rule ok_congs; simp add: t)+
  then show ?thesis using d l i by (simp add: tables_ok_def)
qed

lemma ok_destroy:
  assumes "tables_ok t"
  shows "tables_ok (snd (destroy_container_stmt t c))"
proof -
  let ?d = "delete_loops (\<lambda>l. lp_container l = c) t" and ?t = "snd (destroy_container_stmt t c)"
  show ?thesis
  proof (cases "has_container t c")
    case True
    then have t: "?t = ?d\<lparr>containers := filter (\<lambda>r. con_id r \<noteq> c) (containers t),
        blocks := filter (\<lambda>b. blk_id b \<noteq> c) (blocks t),
        frames := filter (\<lambda>f. frm_id f \<noteq> c \<and> frm_parent f \<noteq> c) (frames t)\<rparr>"
      by (simp add: destroy_container_stmt_def)
    have d: "tables_ok ?d" using assms by (rule ok_delete_loops)
    have same: "containers ?d = containers t" "blocks ?d = blocks t" "frames ?d = frames t" "last_id ?d = last_id t"
      "loops ?d = filter (\<lambda>l. lp_container l \<noteq> c) (loops t)"
      by (simp_all add: delete_loops_def delete_items_def)
    have h: "has_container ?t i \<longleftrightarrow> has_container t i \<and> i \<noteq> c" for i
      by (auto simp: t has_container_def)
    have "containers_ok ?t"
      using assms by (auto simp: t same tables_ok_def containers_ok_def)
    moreover have "blocks_ok ?t"
      using assms by (intro blocks_okI) (auto simp: t tables_ok_def blocks_ok_def h[unfolded t])
    moreover have "frames_ok ?t"
      using assms by (intro frames_okI) (auto simp: t tables_ok_def frames_ok_def h[unfolded t])
    moreover have "loops_ok ?t"
      using d by (auto simp: t same tables_ok_def loops_ok_def row_ok_def) metis
    moreover have "items_ok ?t = items_ok ?d" "vals_ok ?t = vals_ok ?d"
      by (rule ok_congs; simp add: t)+
    ultimately show ?thesis using d by (simp add: tables_ok_def)
  qed (use assms in \<open>simp add: destroy_container_stmt_def\<close>)
qed

lemma one_scalar_loop_snoc:
  assumes "one_scalar_loop ls"
    and "\<not> (lp_category r = Some [] \<and> (\<exists>l \<in> set ls. lp_container l = lp_container r \<and> lp_category l = Some []))"
  shows "one_scalar_loop (ls @ [r])"
  unfolding one_scalar_loop_def
proof (intro ballI impI)
  fix l l'
  assume "l \<in> set (ls @ [r])" "l' \<in> set (ls @ [r])"
    and same: "lp_category l = Some [] \<and> lp_category l' = Some [] \<and> lp_container l = lp_container l'"
  then consider "l \<in> set ls" "l' \<in> set ls" | "l = r" "l' = r" | "l \<in> set ls" "l' = r" | "l = r" "l' \<in> set ls"
    by (simp only: set_append list.set) blast
  then show "lp_num l = lp_num l'"
  proof cases
    case 1
    then show ?thesis using assms(1) same unfolding one_scalar_loop_def by blast
  qed (use assms(2) same in metis)+
qed

lemma find_Some: "find P xs = Some x \<Longrightarrow> x \<in> set xs \<and> P x"
  by (induction xs) (auto split: if_splits)

lemma ok_loop:
  assumes "create_loop_stmt t c category = Inr t'" and "tables_ok t"
  shows "tables_ok t'"
proof -
  obtain n where n: "next_loop_num t c = Some n" "0 \<le> n"
    "\<not> (\<exists>l \<in> set (loops t). lp_container l = c \<and> lp_num l = n)"
    and nosc: "\<not> (category = Some [] \<and> (\<exists>l \<in> set (loops t). lp_container l = c \<and> lp_category l = Some []))"
    and t': "t' = t\<lparr>loops := loops t @
                   [\<lparr>lp_container = c, lp_num = n, lp_category = category, lp_last_row = 0\<rparr>],
                 containers := map (\<lambda>r. if con_id r = c
                   then r\<lparr>con_next_loop_num := con_next_loop_num r + 1\<rparr> else r) (containers t)\<rparr>"
    using assms(1) by (auto simp: create_loop_stmt_def split: if_splits option.splits)
  obtain r where r: "r \<in> set (containers t)" "con_id r = c" "con_next_loop_num r = n"
    using n(1) find_Some by (fastforce simp: next_loop_num_def)
  have ids: "map con_id (containers t') = map con_id (containers t)" by (auto simp: t')
  have h: "has_container t' i = has_container t i" for i
    unfolding has_container_def using ids by (metis set_map)
  have "distinct (map con_id (containers t'))"
    unfolding ids using assms(2) by (simp add: tables_ok_def containers_ok_def)
  then have "containers_ok t'"
    using assms(2) unfolding tables_ok_def containers_ok_def by (auto simp: t')
  note containers = this
  have lt: "loops t' = loops t @ [\<lparr>lp_container = c, lp_num = n, lp_category = category, lp_last_row = 0\<rparr>]"
    by (simp add: t')
  have "one_scalar_loop (loops t')"
    unfolding lt
    by (rule one_scalar_loop_snoc) (use nosc assms(2) in \<open>auto simp: tables_ok_def loops_ok_def\<close>)
  moreover have "distinct (map (\<lambda>l. (lp_container l, lp_num l)) (loops t'))"
    using n(3) assms(2) by (auto simp: t' tables_ok_def loops_ok_def)
  moreover have "row_ok t' l" if "l \<in> set (loops t')" for l
  proof -
    let ?new = "\<lparr>lp_container = c, lp_num = n, lp_category = category, lp_last_row = 0\<rparr>"
    have keep: "\<exists>r \<in> set (containers t'). con_id r = i \<and> m < con_next_loop_num r"
      if ex: "\<exists>r \<in> set (containers t). con_id r = i \<and> m < con_next_loop_num r" for i m
    proof -
      obtain q where q: "q \<in> set (containers t)" "con_id q = i" "m < con_next_loop_num q" using ex by blast
      let ?q = "if con_id q = c then q\<lparr>con_next_loop_num := con_next_loop_num q + 1\<rparr> else q"
      have "?q \<in> set (containers t')" using q(1) unfolding t' by simp
      moreover have "con_id ?q = i \<and> m < con_next_loop_num ?q" using q by simp
      ultimately show ?thesis by blast
    qed
    from that consider "l \<in> set (loops t)" | "l = ?new" by (auto simp: t')
    then show ?thesis
    proof cases
      case 1
      then have "row_ok t l" using assms(2) by (simp add: tables_ok_def loops_ok_def)
      then show ?thesis using keep[of "lp_container l" "lp_num l"] by (simp add: row_ok_def)
    next
      case 2
      have "r\<lparr>con_next_loop_num := n + 1\<rparr> \<in> set (containers t')"
        using imageI[OF r(1), of "\<lambda>r. if con_id r = c then r\<lparr>con_next_loop_num := con_next_loop_num r + 1\<rparr> else r"] r
        by (simp add: t')
      then have "\<exists>r \<in> set (containers t'). con_id r = c \<and> n < con_next_loop_num r"
        using r(2) by (intro bexI) auto
      then show ?thesis using n(2) by (simp add: 2 row_ok_def)
    qed
  qed
  ultimately have "loops_ok t'" by (simp add: loops_ok_def)
  moreover note containers
  moreover have "blocks_ok t'" "frames_ok t'"
    using assms(2) unfolding tables_ok_def blocks_ok_def frames_ok_def h by (simp_all add: t')
  moreover have "items_ok t'"
    using assms(2) by (auto simp: t' tables_ok_def items_ok_def)
  moreover have "vals_ok t' = vals_ok t" by (rule ok_congs; simp add: t')
  ultimately show ?thesis using assms(2) by (simp add: tables_ok_def)
qed

lemma ok_loop_item:
  assumes "add_loop_item_stmt t c name orig n = Some t'" and "tables_ok t"
  shows "tables_ok t'"
proof -
  let ?i = "\<lparr>it_container = c, it_name = name, it_name_orig = orig, it_loop = n\<rparr>"
  have t': "t' = t\<lparr>items := items t @ [?i]\<rparr>"
    and new: "\<not> (\<exists>i \<in> set (items t). it_container i = c \<and> it_name i = name)"
      "\<exists>l \<in> set (loops t). lp_container l = c \<and> lp_num l = n"
    using assms(1) by (auto simp: add_loop_item_stmt_def split: if_splits)
  have "items_ok t'"
    using assms(2) new by (auto simp: t' tables_ok_def items_ok_def)
  moreover have "vals_ok t'"
    using assms(2) by (auto simp: t' tables_ok_def vals_ok_def)
  moreover have "containers_ok t' = containers_ok t" "blocks_ok t' = blocks_ok t" "frames_ok t' = frames_ok t"
    "loops_ok t' = loops_ok t"
    by (rule ok_congs; simp add: t')+
  ultimately show ?thesis using assms(2) by (simp add: tables_ok_def)
qed

lemma ok_update_loop:
  assumes "update_loop_stmt f t c n = Some (k, t')" and "tables_ok t"
    and f: "\<And>l. lp_container (f l) = lp_container l \<and> lp_num (f l) = lp_num l
              \<and> (0 \<le> lp_last_row l \<longrightarrow> 0 \<le> lp_last_row (f l))
              \<and> (lp_category (f l) = Some [] \<longrightarrow> lp_category l = Some [])"
  shows "tables_ok t'"
proof -
  let ?g = "\<lambda>l. if lp_container l = c \<and> lp_num l = n then f l else l"
  have t': "t' = t\<lparr>loops := map ?g (loops t)\<rparr>"
    and trigger: "\<not> (\<exists>l \<in> set (loops t). (lp_container l = c \<and> lp_num l = n)
        \<and> lp_category (f l) = Some [] \<and> lp_last_row (f l) > 1)"
    using assms(1) by (auto simp: update_loop_stmt_def Let_def split: if_splits)
  have key: "lp_container (?g l) = lp_container l" "lp_num (?g l) = lp_num l"
    "lp_category (?g l) = Some [] \<Longrightarrow> lp_category l = Some []" for l
    using f[of l] by (auto split: if_splits)
  have lt: "loops t' = map ?g (loops t)" by (simp add: t')
  have "distinct (map (\<lambda>l. (lp_container l, lp_num l)) (loops t'))"
    using assms(2) unfolding lt map_map comp_def key by (simp add: tables_ok_def loops_ok_def)
  moreover have "one_scalar_loop (loops t')"
  proof -
    have "one_scalar_loop (loops t)" using assms(2) by (simp add: tables_ok_def loops_ok_def)
    then show ?thesis unfolding lt one_scalar_loop_def ball_simps set_map key(1,2) using key(3) by blast
  qed
  moreover have "row_ok t' (?g l)" if "l \<in> set (loops t)" for l
  proof -
    have l: "row_ok t l" using assms(2) that by (simp add: tables_ok_def loops_ok_def)
    have "lp_category (?g l) = Some [] \<longrightarrow> lp_last_row (?g l) \<le> 1"
      using trigger that l by (auto simp: row_ok_def)
    then show ?thesis
      using l f[of l] unfolding row_ok_def key by (simp add: t')
  qed
  ultimately have "loops_ok t'" unfolding loops_ok_def lt set_map by blast
  moreover have "items_ok t'"
    using assms(2) unfolding tables_ok_def items_ok_def lt set_map bex_simps key by (simp add: t')
  moreover have "containers_ok t' = containers_ok t" "blocks_ok t' = blocks_ok t" "frames_ok t' = frames_ok t"
    "vals_ok t' = vals_ok t"
    by (rule ok_congs; simp add: t')+
  ultimately show ?thesis using assms(2) by (simp add: tables_ok_def)
qed

lemma ok_vals:
  assumes "tables_ok t" "vals_ok (t\<lparr>vals := vs\<rparr>)"
  shows "tables_ok (t\<lparr>vals := vs\<rparr>)"
proof -
  let ?t = "t\<lparr>vals := vs\<rparr>"
  have "containers_ok ?t = containers_ok t" "blocks_ok ?t = blocks_ok t" "frames_ok ?t = frames_ok t"
    "loops_ok ?t = loops_ok t" "items_ok ?t = items_ok t"
    by (rule ok_congs; simp)+
  then show ?thesis using assms by (simp add: tables_ok_def)
qed

lemma ok_insert_value:
  assumes "insert_value_stmt t v = Some t'" and "tables_ok t"
  shows "tables_ok t'"
proof -
  have t': "t' = t\<lparr>vals := vals t @ [v]\<rparr>" and v: "val_allowed t v"
    and new: "(vl_container v, vl_name v, vl_row v) \<notin> (\<lambda>v. (vl_container v, vl_name v, vl_row v)) ` set (vals t)"
    using assms(1) by (auto simp: insert_value_stmt_def same_val_key_def split: if_splits)
  show ?thesis
    unfolding t' using v new assms(2) by (intro ok_vals) (auto simp: val_allowed_def tables_ok_def vals_ok_def)
qed

lemma ok_update_value:
  assumes "update_value_stmt t v = Some t'" and "tables_ok t"
  shows "tables_ok t'"
proof -
  have t': "t' = t\<lparr>vals := filter (\<lambda>u. \<not> same_val_key u v) (vals t) @ [v]\<rparr>" and v: "val_allowed t v"
    using assms(1) by (auto simp: update_value_stmt_def split: if_splits)
  have "(vl_container v, vl_name v, vl_row v)
      \<notin> (\<lambda>v. (vl_container v, vl_name v, vl_row v)) ` set (filter (\<lambda>u. \<not> same_val_key u v) (vals t))"
    by (auto simp: same_val_key_def)
  then show ?thesis
    unfolding t' using v assms(2) by (intro ok_vals) (auto simp: val_allowed_def tables_ok_def vals_ok_def)
qed

lemma ok_remove_packet: "tables_ok t \<Longrightarrow> tables_ok (remove_packet_stmt t c n row)"
  unfolding remove_packet_stmt_def by (rule ok_vals) (auto simp: tables_ok_def vals_ok_def)

interpretation integrity: statement_invariant tables_ok
proof
  show "tables_ok t'"
    if "update_loop_stmt (\<lambda>r. r\<lparr>lp_category := category\<rparr>) t c n = Some (k, t')" "category \<noteq> Some []" "tables_ok t"
    for category t c n k t'
    using that by (auto intro: ok_update_loop)
  show "tables_ok t'"
    if "update_loop_stmt (\<lambda>r. r\<lparr>lp_last_row := lp_last_row r + 1\<rparr>) t c n = Some (k, t')" "tables_ok t" for t c n k t'
    using that by (auto intro: ok_update_loop)
  show "tables_ok t'"
    if "update_loop_stmt (\<lambda>r. r\<lparr>lp_last_row := 0\<rparr>) t c n = Some (k, t')" "tables_ok t" for t c n k t'
    using that by (auto intro: ok_update_loop)
qed (simp_all only: ok_empty ok_destroy ok_delete_loops ok_delete_items ok_remove_packet ok_block ok_frame ok_loop
  ok_loop_item ok_update_value ok_insert_value)

section \<open>Calls of the API\<close>

text \<open>
  The calls that use the database, with any arguments: handles may be stale, iterators may
  have outlived their transaction, names may be anything. The parser and the API create blocks
  and frames with lenient and with strict codes. The other functions of the API only read.
\<close>

inductive api_step :: "icu \<Rightarrow> db \<Rightarrow> db \<Rightarrow> bool" for I where
  step_create_block: "api_step I d (snd (cif_create_block_internal I code lenient d))"
| step_create_frame: "api_step I d (snd (cif_container_create_frame_internal I container code lenient d))"
| step_destroy: "api_step I d (snd (cif_container_destroy container d))"
| step_create_loop: "api_step I d (snd (cif_container_create_loop I container category names d))"
| step_get_all_loops: "api_step I d (snd (cif_container_get_all_loops container d))"
| step_prune: "api_step I d (snd (cif_container_prune c d))"
| step_set_value: "api_step I d (snd (cif_container_set_value I c name val d))"
| step_remove_item: "api_step I d (snd (cif_container_remove_item I container name d))"
| step_loop_destroy: "api_step I d (snd (cif_loop_destroy l d))"
| step_set_category: "api_step I d (snd (snd (cif_loop_set_category l category d)))"
| step_get_names: "api_step I d (snd (cif_loop_get_names I l d))"
| step_add_item: "api_step I d (snd (cif_loop_add_item I l name val d))"
| step_add_packet: "api_step I d (snd (cif_loop_add_packet l packet d))"
| step_get_packets: "api_step I d (snd (cif_loop_get_packets I l d))"
| step_update_packet: "api_step I d (snd (cif_pktitr_update_packet it packet d))"
| step_remove_packet: "api_step I d (snd (snd (cif_pktitr_remove_packet it d)))"
| step_close: "api_step I d (snd (cif_pktitr_close d))"
| step_abort: "api_step I d (snd (cif_pktitr_abort d))"

definition reachable :: "icu \<Rightarrow> db \<Rightarrow> bool" where
  "reachable I d \<longleftrightarrow> (api_step I)\<^sup>*\<^sup>* new_db d"

lemma reachable_new: "reachable I new_db"
  by (simp add: reachable_def)

lemma reachable_step: "reachable I d \<Longrightarrow> api_step I d d' \<Longrightarrow> reachable I d'"
  by (simp add: reachable_def rtranclp.rtrancl_into_rtrancl)

lemma reachable_induct [consumes 1, case_names new step]:
  assumes "reachable I d" and "P new_db" and "\<And>d d'. reachable I d \<Longrightarrow> P d \<Longrightarrow> api_step I d d' \<Longrightarrow> P d'"
  shows "P d"
  using assms(1) unfolding reachable_def
  by (induction rule: rtranclp_induct) (use assms(2,3) in \<open>auto simp: reachable_def\<close>)

text \<open>Any invariant that statements keep holds in what is reachable.\<close>

context statement_invariant
begin

lemma keep_step: "api_step I d d' \<Longrightarrow> db_inv d \<Longrightarrow> db_inv d'"
  by (induction rule: api_step.induct)
     (simp_all add: keep_create_block keep_create_frame keep_destroy keep_create_loop keep_get_all_loops
       keep_prune keep_set_value keep_remove_item keep_loop_destroy keep_set_category cif_loop_get_names_def
       keep_get_names_internal keep_add_item keep_add_packet keep_get_packets keep_update_packet
       keep_remove_packet keep_close keep_abort)

lemma reachable_inv: "reachable I d \<Longrightarrow> db_inv d"
  by (induction rule: reachable_induct) (auto intro: db_inv_new keep_step)

end

lemma reachable_ok: "reachable I d \<Longrightarrow> tables_ok (cur d)"
  using integrity.reachable_inv[of I d] by (simp add: integrity.db_inv_def)

text \<open>A database with a block \<open>A\<close> and in it a frame \<open>f\<close>, for the witnesses.\<close>

definition block_a :: cif_container where
  "block_a = \<lparr>cont_id = 1, cont_code = kw ''a'', cont_code_orig = kw ''A'', cont_parent_id = -1\<rparr>"

definition frame_f :: cif_container where
  "frame_f = \<lparr>cont_id = 2, cont_code = kw ''f'', cont_code_orig = kw ''f'', cont_parent_id = 1\<rparr>"

definition sample_db1 :: db where
  "sample_db1 =
     \<lparr>cur = \<lparr>containers = [\<lparr>con_id = 1, con_next_loop_num = 0\<rparr>],
        blocks = [\<lparr>blk_id = 1, blk_name = kw ''a'', blk_name_orig = kw ''A''\<rparr>], frames = [],
        loops = [], items = [], vals = [], last_id = 1\<rparr>, tx = None, saves = []\<rparr>"

definition sample_db2 :: db where
  "sample_db2 =
     \<lparr>cur = \<lparr>containers = [\<lparr>con_id = 1, con_next_loop_num = 0\<rparr>, \<lparr>con_id = 2, con_next_loop_num = 0\<rparr>],
        blocks = [\<lparr>blk_id = 1, blk_name = kw ''a'', blk_name_orig = kw ''A''\<rparr>],
        frames = [\<lparr>frm_id = 2, frm_parent = 1, frm_name = kw ''f'', frm_name_orig = kw ''f''\<rparr>],
        loops = [], items = [], vals = [], last_id = 2\<rparr>, tx = None, saves = []\<rparr>"

lemma sample1: "cif_create_block_internal ascii_icu (Some (kw ''A'')) False new_db = (Inr block_a, sample_db1)"
  by code_simp

lemma sample2:
  "cif_container_create_frame_internal ascii_icu (Some block_a) (Some (kw ''f'')) False sample_db1
     = (Inr frame_f, sample_db2)"
  by code_simp

lemma sample_reachable: "reachable ascii_icu sample_db1" "reachable ascii_icu sample_db2"
proof -
  show "reachable ascii_icu sample_db1"
    using reachable_step[OF reachable_new step_create_block] sample1 by (metis snd_conv)
  then show "reachable ascii_icu sample_db2"
    using reachable_step[OF _ step_create_frame] sample2 by (metis snd_conv)
qed

text \<open>
  C1. Integrity of the database. Whatever calls of the API are made, in whatever order, with
  stale handles and in the middle of transactions: the tables that result, and those that a
  rollback of the open transaction would restore, satisfy every key, reference and check of
  the schema; no container has two scalar loops or a scalar loop that counts more than one
  packet; and no save frame is nested in itself.
\<close>

theorem reachable_integrity:
  assumes "reachable I d"
  shows "tables_ok (cur d) \<and> (\<forall>t. tx d = Some t \<longrightarrow> tables_ok t) \<and> (\<forall>t \<in> set (saves d). tables_ok t)"
  using integrity.reachable_inv[OF assms] by (simp add: integrity.db_inv_def)

lemma reachable_integrity_witness: "frames (cur sample_db2) \<noteq> [] \<and> tables_ok (cur sample_db2)"
  using reachable_integrity[OF sample_reachable(2)] by (simp add: sample_db2_def)

end
