(* ===== verification/Atomicity.thy ===== *)
theory Atomicity
  imports Integrity
begin

text \<open>
  Operations that change the database in several statements do all of it or nothing: when they
  report an error, the tables are as before the call, and the transaction that was open, if
  one was, still is.
\<close>

definition restored :: "db \<Rightarrow> db \<Rightarrow> bool" where
  "restored d d' \<longleftrightarrow> cur d' = cur d \<and> tx d' = tx d"

lemma restored_refl [simp, intro]: "restored d d"
  by (simp add: restored_def)

lemma rollback_begin: "BEGIN d = Some d1 \<Longrightarrow> tx d2 = tx d1 \<Longrightarrow> restored d (ROLLBACK d2)"
  by (auto simp: BEGIN_def ROLLBACK_def restored_def split: if_splits)

lemma rollback_nested:
  "BEGIN_NESTTX d = (b, d1) \<Longrightarrow> tx d2 = tx d1 \<Longrightarrow> saves d2 = saves d1 \<Longrightarrow> restored d (ROLLBACK_NESTTX b d2)"
  by (auto simp: BEGIN_NESTTX_def BEGIN_def SAVE_def ROLLBACK_NESTTX_def ROLLBACK_TO_def ROLLBACK_def autocommit_def
      restored_def split: if_splits)

lemma commit_begin: "BEGIN d = Some d1 \<Longrightarrow> tx d2 = tx d1 \<Longrightarrow> COMMIT d2 \<noteq> None"
  by (auto simp: BEGIN_def COMMIT_def split: if_splits)

section \<open>Nested operations keep the transaction\<close>

lemma tx_nested:
  assumes "BEGIN_NESTTX d = (b, d1)" "tx d = Some t"
  shows "b = False \<and> d1 = SAVE d"
  using assms by (simp add: BEGIN_NESTTX_def autocommit_def)

lemma tx_ops [simp]:
  "tx (SAVE d) = tx d" "saves (SAVE d) = cur d # saves d" "cur (SAVE d) = cur d"
  "tx (ROLLBACK_TO d) = tx d" "ROLLBACK_NESTTX False d = ROLLBACK_TO d" "COMMIT_NESTTX False d = RELEASE d"
  by (simp_all add: SAVE_def ROLLBACK_TO_def ROLLBACK_NESTTX_def COMMIT_NESTTX_def split: list.split)

lemma tx_RELEASE: "RELEASE d = Some d' \<Longrightarrow> tx d' = tx d \<and> cur d' = cur d"
  by (auto simp: RELEASE_def split: list.splits)

lemma tx_set_all_values:
  "cif_container_set_all_values c name v d = (r, d') \<Longrightarrow> tx d' = tx d \<and> saves d' = saves d"
  by (auto simp: cif_container_set_all_values_def split: option.splits sum.splits)

lemma tx_create_loop_internal:
  "cif_container_create_loop_internal c category names names_norm d = (r, d') \<Longrightarrow> tx d = Some t \<Longrightarrow> tx d' = Some t"
  unfolding cif_container_create_loop_internal_def Let_def
  by (auto dest!: tx_nested tx_RELEASE split: prod.splits sum.splits option.splits)

lemma tx_add_item_internal:
  "cif_loop_add_item_internal l c name norm v d = (r, d') \<Longrightarrow> tx d = Some t \<Longrightarrow> tx d' = Some t"
  unfolding cif_loop_add_item_internal_def Let_def
  by (auto dest!: tx_nested tx_RELEASE tx_set_all_values split: prod.splits sum.splits option.splits)

lemma tx_add_packet:
  "cif_loop_add_packet l p d = (r, d') \<Longrightarrow> tx d = Some t \<Longrightarrow> tx d' = Some t"
  unfolding cif_loop_add_packet_def Let_def
  by (auto dest!: tx_nested tx_RELEASE split: prod.splits sum.splits option.splits if_splits)

lemma tx_add_scalar:
  assumes "cif_container_add_scalar I c name orig v d = (r, d')" "tx d = Some t"
  shows "tx d' = Some t"
proof -
  obtain loop d1 where start: "(case cif_container_get_category_loop (Some c) (Some []) d of
       Inr l \<Rightarrow> (Inr l, d)
     | Inl e \<Rightarrow>
         if e = CIF_NOSUCH_LOOP then cif_container_create_loop_internal c (Some []) [] [] d
         else (Inl e, d)) = (loop, d1)" by force
  have d1: "tx d1 = Some t"
    using start assms(2) by (auto dest: tx_create_loop_internal split: sum.splits if_splits)
  show ?thesis
  proof (cases loop)
    case (Inr l)
    obtain x d2 where add: "cif_loop_add_item_internal l c orig name v d1 = (x, d2)" by force
    have "tx d2 = Some t" using add d1 by (rule tx_add_item_internal)
    then show ?thesis
      using assms(1) unfolding cif_container_add_scalar_def start Let_def
      by (auto simp: Inr add dest: tx_add_packet split: sum.splits option.splits prod.splits if_splits)
  qed (use assms(1) d1 in \<open>simp add: cif_container_add_scalar_def start\<close>)
qed

lemma tx_set_or_add: "set_or_add I c name orig v d = (r, d') \<Longrightarrow> tx d = Some t \<Longrightarrow> tx d' = Some t"
  by (auto simp: set_or_add_def dest: tx_set_all_values tx_add_scalar split: sum.splits if_splits prod.splits)

section \<open>Failing operations\<close>

lemma fail_create_block:
  "cif_create_block_internal I code lenient d = (Inl e, d') \<Longrightarrow> restored d d'"
  unfolding cif_create_block_internal_def Let_def
  by (auto split: sum.splits option.splits intro: rollback_begin)

lemma fail_create_frame:
  "cif_container_create_frame_internal I c code lenient d = (Inl e, d') \<Longrightarrow> restored d d'"
  unfolding cif_container_create_frame_internal_def Let_def
  by (auto split: sum.splits option.splits intro: rollback_begin)

lemma fail_create_loop:
  "cif_container_create_loop I c category names d = (Inl e, d') \<Longrightarrow> restored d d'"
  unfolding cif_container_create_loop_def cif_container_create_loop_internal_def Let_def
  by (auto split: sum.splits option.splits prod.splits if_splits intro: rollback_nested)

lemma fail_add_item_internal:
  "cif_loop_add_item_internal l c name norm v d = (Inl e, d') \<Longrightarrow> restored d d'"
  unfolding cif_loop_add_item_internal_def Let_def
  by (auto split: sum.splits option.splits prod.splits dest!: tx_set_all_values intro!: rollback_nested)

lemma fail_add_item: "cif_loop_add_item I l name v d = (e, d') \<Longrightarrow> e \<noteq> CIF_OK \<Longrightarrow> restored d d'"
  unfolding cif_loop_add_item_def Let_def
  by (auto split: sum.splits option.splits prod.splits dest: fail_add_item_internal)

lemma fail_add_packet: "cif_loop_add_packet l p d = (e, d') \<Longrightarrow> e \<noteq> CIF_OK \<Longrightarrow> restored d d'"
  unfolding cif_loop_add_packet_def Let_def
  by (auto split: sum.splits option.splits prod.splits if_splits intro!: rollback_nested)

lemma fail_set_value:
  assumes "cif_container_set_value I c name_orig val d = (e, d')" "e \<noteq> CIF_OK"
  shows "restored d d'"
proof (cases name_orig)
  case (Some orig)
  show ?thesis
  proof (cases "cif_normalize_item_name I (Some orig) (-1) CIF_INVALID_ITEMNAME")
    case name: (Inr name)
    show ?thesis
    proof (cases "BEGIN d")
      case d1: (Some d1)
      obtain r d2 where body: "set_or_add I c name orig (value_or_unknown val) d1 = (r, d2)" by force
      have "tx d2 = tx d1"
        using d1 body by (auto simp: BEGIN_def dest: tx_set_or_add split: if_splits)
      then show ?thesis
        using assms rollback_begin[OF d1] commit_begin[OF d1]
        by (auto simp: cif_container_set_value_def Some name d1 body split: if_splits option.splits)
    qed (use assms Some name in \<open>simp add: cif_container_set_value_def\<close>)
  qed (use assms Some in \<open>simp add: cif_container_set_value_def\<close>)
qed (use assms in \<open>simp add: cif_container_set_value_def\<close>)

lemma fail_remove_item: "cif_container_remove_item I c name d = (e, d') \<Longrightarrow> e \<noteq> CIF_OK \<Longrightarrow> restored d d'"
  unfolding cif_container_remove_item_def Let_def
  by (auto split: sum.splits option.splits prod.splits if_splits intro: rollback_begin)

lemma fail_update_packet: "cif_pktitr_update_packet it p d = (e, d') \<Longrightarrow> e \<noteq> CIF_OK \<Longrightarrow> restored d d'"
  unfolding cif_pktitr_update_packet_def Let_def
  by (auto simp: restored_def ROLLBACK_TO_def RELEASE_def split: sum.splits option.splits if_splits list.splits)

lemma reset_packet_number_saves:
  "cif_pktitr_reset_packet_number l d = (r, d') \<Longrightarrow> tx d' = tx d \<and> saves d' = saves d"
  by (auto simp: cif_pktitr_reset_packet_number_def split: option.splits)

lemma rollback_to_saved:
  "tx d2 = tx d \<Longrightarrow> saves d2 = cur d # ss \<Longrightarrow> restored d (ROLLBACK_TO d2)"
  by (simp add: restored_def ROLLBACK_TO_def)

lemma fail_remove_packet:
  assumes "cif_pktitr_remove_packet it d = (e, it', d')" "e \<noteq> CIF_OK"
  shows "restored d d' \<and> it' = it"
proof -
  define d1 where "d1 = (SAVE d)\<lparr>cur := remove_packet_stmt (cur d) (itr_container_id it)
       (loop_num (itr_loop it)) (itr_previous_row it)\<rparr>"
  obtain r d2 where reset: "(if cif_loop_get_category (itr_loop it) = Some []
      then cif_pktitr_reset_packet_number (itr_loop it) d1 else (CIF_OK, d1)) = (r, d2)" by force
  have "tx d2 = tx d" "saves d2 = cur d # saves d"
    using reset by (auto simp: d1_def dest: reset_packet_number_saves split: if_splits)
  then show ?thesis
    using assms rollback_to_saved[of d2 d] reset
    by (cases "cif_loop_get_category (itr_loop it) = Some []")
      (auto simp: cif_pktitr_remove_packet_def Let_def d1_def[symmetric] split: if_splits option.splits)
qed

text \<open>With distinct keys, a statement that names a loop changes one at most.\<close>

lemma distinct_singleton: "distinct xs \<Longrightarrow> set xs \<subseteq> {a} \<Longrightarrow> length xs = 0 \<or> length xs = 1"
  using card_mono[of "{a}" "set xs"] distinct_card[of xs] by (cases xs) auto

lemma loop_key_unique:
  assumes "loops_ok t"
  shows "length (filter (\<lambda>l. lp_container l = c \<and> lp_num l = n) (loops t)) = 0
    \<or> length (filter (\<lambda>l. lp_container l = c \<and> lp_num l = n) (loops t)) = 1"
proof -
  let ?ks = "map (\<lambda>l. (lp_container l, lp_num l)) (filter (\<lambda>l. lp_container l = c \<and> lp_num l = n) (loops t))"
  have "distinct ?ks" using assms by (simp add: loops_ok_def)
  moreover have "set ?ks \<subseteq> {(c, n)}" by auto
  ultimately have "length ?ks = 0 \<or> length ?ks = 1" by (rule distinct_singleton)
  then show ?thesis by (simp only: length_map)
qed

lemma update_loop_none:
  assumes "update_loop_stmt f t c n = Some (0, t')"
  shows "t' = t"
proof -
  have "filter (\<lambda>l. lp_container l = c \<and> lp_num l = n) (loops t) = []"
    using assms by (auto simp: update_loop_stmt_def Let_def split: if_splits)
  then have "map (\<lambda>l. if lp_container l = c \<and> lp_num l = n then f l else l) (loops t) = loops t"
    by (intro map_idI) (auto simp: filter_empty_conv)
  then show ?thesis
    using assms by (simp add: update_loop_stmt_def Let_def split: if_splits)
qed

lemma update_loop_count:
  assumes "loops_ok t" "update_loop_stmt f t c n = Some (k, t')"
  shows "k = 0 \<or> k = 1"
  using loop_key_unique[OF assms(1), of c n] assms(2)
  by (auto simp: update_loop_stmt_def Let_def split: if_splits)

lemma fail_set_category:
  assumes "cif_loop_set_category l category d = (e, l', d')" "e \<noteq> CIF_OK" "loops_ok (cur d)"
  shows "restored d d'"
proof (cases "loop_container l")
  case (Some c)
  show ?thesis
  proof (cases "update_loop_stmt (\<lambda>r. r\<lparr>lp_category := category\<rparr>) (cur d) (cont_id c) (loop_num l)")
    case upd: (Some nt)
    obtain n t where nt: "nt = (n, t)" by force
    have "n = 0 \<or> n = 1" and "n = 0 \<longrightarrow> t = cur d"
      using upd assms(3) by (auto simp: nt dest: update_loop_count update_loop_none)
    then show ?thesis
      using assms(1,2) by (auto simp: cif_loop_set_category_def Some upd nt restored_def split: if_splits)
  qed (use assms(1) in \<open>auto simp: cif_loop_set_category_def Some split: if_splits\<close>)
qed (use assms(1) in \<open>auto simp: cif_loop_set_category_def split: if_splits\<close>)

lemma fail_loop_destroy:
  assumes "cif_loop_destroy l d = (e, d')" "e \<noteq> CIF_OK" "loops_ok (cur d)"
  shows "restored d d'"
proof (cases "loop_container l")
  case (Some c)
  let ?P = "\<lambda>r. lp_container r = cont_id c \<and> lp_num r = loop_num l"
  have n: "length (filter ?P (loops (cur d))) = 0 \<or> length (filter ?P (loops (cur d))) = 1"
    by (rule loop_key_unique[OF assms(3)])
  have none: "filter ?P (loops (cur d)) = [] \<Longrightarrow> delete_loops ?P (cur d) = cur d"
    by (auto simp: delete_loops_def delete_items_def filter_empty_conv filter_id_conv intro!: tables.equality)
  show ?thesis
    using assms(1,2) n none by (auto simp: cif_loop_destroy_def Some Let_def restored_def split: if_splits)
qed (use assms(1) in \<open>simp add: cif_loop_destroy_def\<close>)

lemma fail_destroy:
  "cif_container_destroy c d = (e, d') \<Longrightarrow> e \<noteq> CIF_OK \<Longrightarrow> restored d d'"
  by (auto simp: cif_container_destroy_def destroy_container_stmt_def has_container_def restored_def filter_empty_conv
      split: option.splits if_splits)

section \<open>The failing calls\<close>

inductive failed_call :: "icu \<Rightarrow> db \<Rightarrow> db \<Rightarrow> bool" for I where
  "cif_create_block_internal I code lenient d = (Inl e, d') \<Longrightarrow> failed_call I d d'"
| "cif_container_create_frame_internal I container code lenient d = (Inl e, d') \<Longrightarrow> failed_call I d d'"
| "cif_container_destroy container d = (e, d') \<Longrightarrow> e \<noteq> CIF_OK \<Longrightarrow> failed_call I d d'"
| "cif_container_create_loop I container category names d = (Inl e, d') \<Longrightarrow> failed_call I d d'"
| "cif_container_set_value I c name val d = (e, d') \<Longrightarrow> e \<noteq> CIF_OK \<Longrightarrow> failed_call I d d'"
| "cif_container_remove_item I container name d = (e, d') \<Longrightarrow> e \<noteq> CIF_OK \<Longrightarrow> failed_call I d d'"
| "cif_loop_destroy l d = (e, d') \<Longrightarrow> e \<noteq> CIF_OK \<Longrightarrow> failed_call I d d'"
| "cif_loop_set_category l category d = (e, l', d') \<Longrightarrow> e \<noteq> CIF_OK \<Longrightarrow> failed_call I d d'"
| "cif_loop_add_item I l name val d = (e, d') \<Longrightarrow> e \<noteq> CIF_OK \<Longrightarrow> failed_call I d d'"
| "cif_loop_add_packet l packet d = (e, d') \<Longrightarrow> e \<noteq> CIF_OK \<Longrightarrow> failed_call I d d'"
| "cif_pktitr_update_packet it packet d = (e, d') \<Longrightarrow> e \<noteq> CIF_OK \<Longrightarrow> failed_call I d d'"
| "cif_pktitr_remove_packet it d = (e, it', d') \<Longrightarrow> e \<noteq> CIF_OK \<Longrightarrow> failed_call I d d'"

text \<open>
  C4. Every call that changes the database and reports an error has changed nothing: the
  tables are those before the call, and a transaction that was open (as during an iteration)
  is still open and would roll back to the same tables.
\<close>

theorem failed_call_restores:
  assumes "failed_call I d d'" "loops_ok (cur d)"
  shows "cur d' = cur d \<and> tx d' = tx d"
proof -
  have "restored d d'"
    using assms
  proof (induction rule: failed_call.induct)
  qed (blast intro: fail_create_block fail_create_frame fail_destroy fail_create_loop fail_set_value fail_remove_item
      fail_loop_destroy fail_set_category fail_add_item fail_add_packet fail_update_packet
      dest: fail_remove_packet)+
  then show ?thesis by (simp add: restored_def)
qed

text \<open>A block of the same name, in another case, is refused.\<close>

lemma failed_call_restores_witness:
  "\<exists>d'. cif_create_block_internal ascii_icu (Some (kw ''a'')) False sample_db2 = (Inl CIF_DUP_BLOCKCODE, d')
     \<and> cur d' = cur sample_db2"
proof -
  have 1: "fst (cif_create_block_internal ascii_icu (Some (kw ''a'')) False sample_db2) = Inl CIF_DUP_BLOCKCODE"
    by code_simp
  obtain d' where 2: "cif_create_block_internal ascii_icu (Some (kw ''a'')) False sample_db2 = (Inl CIF_DUP_BLOCKCODE, d')"
    using 1 by (metis prod.collapse)
  have "loops_ok (cur sample_db2)"
    using reachable_ok[OF sample_reachable(2)] by (simp add: tables_ok_def)
  from failed_call_restores[OF failed_call.intros(1)[OF 2] this] 2 show ?thesis by blast
qed

end
