(* ===== verification/Items.thy ===== *)
theory Items
  imports Atomicity
begin

text \<open>
  What is read back after it was written: values through the columns of the database, and the
  values of items through \<open>cif_container_set_value\<close> and \<open>cif_container_get_value\<close>.
\<close>

section \<open>Values in columns\<close>

text \<open>
  The values that the columns represent: those of numbers are redundant, as the sign and the
  digits are also in the text, and are checked; those of lists and tables must survive serialisation
  (and be smaller than the address space).
\<close>

fun storable :: "cif_value \<Rightarrow> bool" where
  "storable (NumbValue q t sign digits su scale) \<longleftrightarrow>
     t \<noteq> [] \<and> sign = (if hd t = UCHAR_MINUS then -1 else 1) \<and> digits_check digits
     \<and> (case su of None \<Rightarrow> True | Some ds \<Rightarrow> digits_check ds)"
| "storable (ListValue es) \<longleftrightarrow> readable (ListValue es) \<and> length (value_bytes (ListValue es)) < 2 ^ 64"
| "storable (TableValue es) \<longleftrightarrow> readable (TableValue es) \<and> length (value_bytes (TableValue es)) < 2 ^ 64"
| "storable v \<longleftrightarrow> True"

text \<open>The values that are serialised.\<close>

fun composite :: "cif_value \<Rightarrow> bool" where
  "composite (ListValue es) = True" | "composite (TableValue es) = True" | "composite v = False"

lemma quoted_cases: "(case q of CIF_QUOTED \<Rightarrow> CIF_QUOTED | CIF_NOT_QUOTED \<Rightarrow> CIF_NOT_QUOTED) = q"
  by (cases q) simp_all

lemma composite_cols:
  assumes "composite v" "storable v"
  shows "set_value_props v =
    (if length (value_bytes v) \<le> 768
     then Inr \<lparr>col_kind = cif_value_kind v, col_quoted = None, col_val = ValBlob (value_bytes v),
       col_text = None, col_digits = None, col_su_digits = None, col_scale = None\<rparr>
     else Inl NO_RETURN)"
    "length (value_bytes v) \<le> 768 \<Longrightarrow> value_of_blob (ValBlob (value_bytes v)) = Inr v"
proof -
  have v: "readable v" "length (value_bytes v) < 2 ^ 64" using assms by (cases v; simp)+
  have none: "cif_value_serialize v = None" if "\<not> length (value_bytes v) \<le> 768"
    using serialize_outcome [OF readable_own_keys [OF v(1)] v(2)] that by simp
  have some: "\<exists>buf. cif_value_serialize v = Some (Inr buf) \<and> wb_start buf = value_bytes v
      \<and> cif_value_deserialize (Suc (length (value_bytes v))) (wb_start buf) = Some (Inr v)"
    if "length (value_bytes v) \<le> 768"
    using serialize_read [OF v(1) that, of "Suc (length (value_bytes v))"] that by simp
  show "set_value_props v =
    (if length (value_bytes v) \<le> 768
     then Inr \<lparr>col_kind = cif_value_kind v, col_quoted = None, col_val = ValBlob (value_bytes v),
       col_text = None, col_digits = None, col_su_digits = None, col_scale = None\<rparr>
     else Inl NO_RETURN)"
    using assms(1) none some by (cases v; cases "length (value_bytes v) \<le> 768"; fastforce)
  show "value_of_blob (ValBlob (value_bytes v)) = Inr v" if "length (value_bytes v) \<le> 768"
    using some [OF that] by (auto simp: value_of_blob_def)
qed

lemma value_cols_scalar:
  "storable v \<Longrightarrow> \<not> composite v \<Longrightarrow> \<exists>cols. set_value_props v = Inr cols \<and> value_check cols \<and> get_value_props cols = Inr v"
  by (cases v) (auto simp: value_check_def get_value_props_def digits_check_def Let_def quoted_cases
      split: cif_quoted.splits option.splits)

lemma value_cols_composite:
  assumes "storable v" "composite v" "length (value_bytes v) \<le> 768"
  shows "\<exists>cols. set_value_props v = Inr cols \<and> value_check cols \<and> get_value_props cols = Inr v"
  using composite_cols [OF assms(2,1)] assms(2,3)
  by (cases v) (auto simp: value_check_def get_value_props_def)

lemma value_cols_ok:
  assumes "storable v" "set_value_props v = Inr cols"
  shows "value_check cols \<and> get_value_props cols = Inr v"
proof (cases "composite v")
  case True
  then have "length (value_bytes v) \<le> 768"
    using composite_cols(1) [OF True assms(1)] assms(2) by (simp split: if_splits)
  then show ?thesis using value_cols_composite [OF assms(1) True] assms(2) by auto
next
  case False
  then show ?thesis using value_cols_scalar [OF assms(1)] assms(2) by auto
qed











section \<open>Setting all values of an item\<close>

text \<open>The packets of the loop of an item, by row; and the number of values that the item has.\<close>

lemma update_values_vals:
  assumes "update_values t vs = Some t'" "distinct (map (\<lambda>v. (vl_container v, vl_name v, vl_row v)) vs)"
  shows "t' = t\<lparr>vals := filter (\<lambda>u. \<not> (\<exists>v \<in> set vs. same_val_key u v)) (vals t) @ vs\<rparr>"
  using assms
proof (induction vs arbitrary: t)
  case (Cons v vs)
  obtain t1 where t1: "update_value_stmt t v = Some t1" "update_values t1 vs = Some t'"
    using Cons.prems(1) by (auto split: option.splits)
  have v1: "t1 = t\<lparr>vals := filter (\<lambda>u. \<not> same_val_key u v) (vals t) @ [v]\<rparr>"
    using t1(1) by (auto simp: update_value_stmt_def split: if_splits)
  have new: "\<not> (\<exists>w \<in> set vs. same_val_key v w)"
    using Cons.prems(2) by (force simp: same_val_key_def)
  have "t' = t1\<lparr>vals := filter (\<lambda>u. \<not> (\<exists>w \<in> set vs. same_val_key u w)) (vals t1) @ vs\<rparr>"
    using Cons.prems(2) by (intro Cons.IH t1(2)) simp
  then show ?case using new by (simp add: v1 conj_commute)
qed simp

definition val_of :: "value_cols \<Rightarrow> int \<Rightarrow> ustring \<Rightarrow> int \<Rightarrow> val_row" where
  "val_of cols c name n = \<lparr>vl_container = c, vl_name = name, vl_row = n, vl_cols = cols\<rparr>"

lemma set_all_values_vals:
  assumes "set_all_values_stmt t cols c name = Some (k, t')"
  shows "k = int (length (loop_rows_of_item t c name))"
    "t' = t\<lparr>vals := filter (\<lambda>u. \<not> (vl_container u = c \<and> vl_name u = name
                \<and> vl_row u \<in> set (loop_rows_of_item t c name))) (vals t)
            @ map (val_of cols c name) (loop_rows_of_item t c name)\<rparr>"
proof -
  let ?rows = "loop_rows_of_item t c name" and ?mk = "val_of cols c name"
  have k: "k = int (length ?rows)" and u: "update_values t (map ?mk ?rows) = Some t'"
    using assms by (auto simp: set_all_values_stmt_def Let_def val_of_def[abs_def])
  show "k = int (length ?rows)" by (rule k)
  have d: "distinct (map (\<lambda>v. (vl_container v, vl_name v, vl_row v)) (map ?mk ?rows))"
    by (simp add: distinct_map loop_rows_of_item_def val_of_def inj_on_def)
  have "(\<exists>v \<in> set (map ?mk ?rows). same_val_key u v) \<longleftrightarrow> vl_container u = c \<and> vl_name u = name \<and> vl_row u \<in> set ?rows" for u
    by (auto simp: same_val_key_def val_of_def)
  then show "t' = t\<lparr>vals := filter (\<lambda>u. \<not> (vl_container u = c \<and> vl_name u = name \<and> vl_row u \<in> set ?rows)) (vals t)
            @ map ?mk ?rows\<rparr>"
    using update_values_vals[OF u d] by simp
qed

lemma concat_if: "concat (map (\<lambda>x. if P x then [f x] else []) xs) = map f (filter P xs)"
  by (induction xs) auto

lemma get_value_stmt_filter:
  "get_value_stmt t c name = map vl_cols (filter (\<lambda>v. vl_container v = c \<and> vl_name v = name) (vals t))"
  by (simp add: get_value_stmt_def concat_if)

lemma rows_of_own_values:
  assumes "vals_ok t" "v \<in> set (vals t)"
  shows "vl_row v \<in> set (loop_rows_of_item t (vl_container v) (vl_name v))"
proof -
  obtain i where "i \<in> set (items t)" "it_container i = vl_container v" "it_name i = vl_name v"
    using assms by (auto simp: vals_ok_def)
  then show ?thesis
    using assms(2) by (auto simp: loop_rows_of_item_def)
qed

lemma set_all_values_get:
  assumes "set_all_values_stmt t cols c name = Some (k, t')" "vals_ok t"
  shows "get_value_stmt t' c name = replicate (nat k) cols"
    "(c', name') \<noteq> (c, name) \<Longrightarrow> get_value_stmt t' c' name' = get_value_stmt t c' name'"
proof -
  let ?rows = "loop_rows_of_item t c name"
  note t' = set_all_values_vals[OF assms(1)]
  have none: "filter (\<lambda>v. vl_container v = c \<and> vl_name v = name)
      (filter (\<lambda>u. \<not> (vl_container u = c \<and> vl_name u = name \<and> vl_row u \<in> set ?rows)) (vals t)) = []"
    using rows_of_own_values[OF assms(2)] by (auto simp: filter_empty_conv)
  show "get_value_stmt t' c name = replicate (nat k) cols"
    using none by (simp add: get_value_stmt_filter t' comp_def val_of_def map_replicate_const filter_map)
  show "get_value_stmt t' c' name' = get_value_stmt t c' name'" if "(c', name') \<noteq> (c, name)"
  proof -
    have "filter (\<lambda>v. vl_container v = c' \<and> vl_name v = name') (map (val_of cols c name) ?rows) = []"
      using that by (auto simp: filter_empty_conv val_of_def)
    moreover have "filter (\<lambda>v. vl_container v = c' \<and> vl_name v = name')
          (filter (\<lambda>u. \<not> (vl_container u = c \<and> vl_name u = name \<and> vl_row u \<in> set ?rows)) (vals t))
        = filter (\<lambda>v. vl_container v = c' \<and> vl_name v = name') (vals t)"
      using that by (auto simp only: filter_filter intro!: filter_cong)
    ultimately show ?thesis
      by (simp add: get_value_stmt_filter t'(2) del: filter_filter)
  qed
qed

section \<open>What successful operations do to the tables\<close>

lemma cur_BEGIN_NESTTX: "BEGIN_NESTTX d = (b, d1) \<Longrightarrow> cur d1 = cur d"
  by (auto simp: BEGIN_NESTTX_def BEGIN_def SAVE_def split: if_splits option.splits)

lemma cur_COMMIT_NESTTX: "COMMIT_NESTTX b d = Some d' \<Longrightarrow> cur d' = cur d"
  by (auto simp: COMMIT_NESTTX_def COMMIT_def RELEASE_def split: if_splits list.splits)

lemma cur_BEGIN: "BEGIN d = Some d1 \<Longrightarrow> cur d1 = cur d"
  by (auto simp: BEGIN_def split: if_splits)

lemma cur_COMMIT: "COMMIT d = Some d1 \<Longrightarrow> cur d1 = cur d"
  by (auto simp: COMMIT_def split: if_splits)

text \<open>The columns that a value is bound to, and the rows that a packet adds.\<close>

definition bound_cols :: "cif_value \<Rightarrow> value_cols" where
  "bound_cols v = projr (set_value_props v)"

definition packet_rows :: "int \<Rightarrow> int \<Rightarrow> map_entry list \<Rightarrow> val_row list" where
  "packet_rows c row es = map (\<lambda>e. val_of (bound_cols (entry_value e)) c (entry_key e) row) es"

text \<open>Does the item belong to the loop?  Is no value of the loop numbered higher than its last packet?\<close>

definition in_loop :: "tables \<Rightarrow> int \<Rightarrow> int \<Rightarrow> ustring \<Rightarrow> bool" where
  "in_loop t c n name \<longleftrightarrow> (\<exists>i \<in> set (items t). it_container i = c \<and> it_name i = name \<and> it_loop i = n)"

definition rows_counted :: "tables \<Rightarrow> int \<Rightarrow> int \<Rightarrow> bool" where
  "rows_counted t c n \<longleftrightarrow> (\<forall>v \<in> set (vals t). vl_container v = c \<and> in_loop t c n (vl_name v) \<longrightarrow>
     (case get_packet_num_stmt t c n of None \<Rightarrow> False | Some count \<Rightarrow> vl_row v \<le> count))"

lemma add_packet_values_rows:
  "add_packet_values c n row es t = Inr t' \<Longrightarrow>
     t' = t\<lparr>vals := vals t @ packet_rows c row es\<rparr>
     \<and> (\<forall>e \<in> set es. in_loop t c n (entry_key e) \<and> set_value_props (entry_value e) = Inr (bound_cols (entry_value e))
          \<and> (\<forall>v \<in> set (vals t). vl_container v = c \<and> vl_name v = entry_key e \<longrightarrow> vl_row v \<noteq> row))"
proof (induction c n row es t rule: add_packet_values.induct)
  case (2 c n row key key_orig v es t)
  obtain cols where cols: "set_value_props v = Inr cols"
    using "2.prems" by (auto split: if_splits sum.splits)
  let ?v = "\<lparr>vl_container = c, vl_name = key, vl_row = row, vl_cols = cols\<rparr>"
  obtain t1 where i: "\<exists>i \<in> set (items t). it_container i = c \<and> it_name i = key \<and> it_loop i = n"
    and t1: "insert_value_stmt t ?v = Some t1" "add_packet_values c n row es t1 = Inr t'"
    using "2.prems" cols by (auto split: if_splits option.splits)
  have t1': "t1 = t\<lparr>vals := vals t @ [?v]\<rparr>" and new: "\<not> (\<exists>u \<in> set (vals t). same_val_key u ?v)"
    using t1(1) by (auto simp: insert_value_stmt_def split: if_splits)
  have "t' = t1\<lparr>vals := vals t1 @ packet_rows c row es\<rparr>
     \<and> (\<forall>e \<in> set es. in_loop t1 c n (entry_key e) \<and> set_value_props (entry_value e) = Inr (bound_cols (entry_value e))
          \<and> (\<forall>v \<in> set (vals t1). vl_container v = c \<and> vl_name v = entry_key e \<longrightarrow> vl_row v \<noteq> row))"
    by (rule "2.IH" [OF _ cols t1(1) t1(2)]) (use i in blast)
  then show ?case
    using i new by (auto simp: t1' packet_rows_def val_of_def in_loop_def same_val_key_def bound_cols_def cols)
qed (simp add: packet_rows_def)

lemma set_value_props_error: "set_value_props v = Inl e \<Longrightarrow> e \<noteq> CIF_OK"
  by (cases v) (auto simp: cif_value_serialize_def split: option.splits sum.splits if_splits prod.splits)

lemma add_packet_values_error: "add_packet_values c n row es t = Inl e \<Longrightarrow> e \<noteq> CIF_OK"
  by (induction c n row es t rule: add_packet_values.induct)
    (auto split: if_splits option.splits sum.splits dest: set_value_props_error)

lemma packet_num_updated:
  assumes "update_loop_stmt (\<lambda>r. r\<lparr>lp_last_row := lp_last_row r + 1\<rparr>) t c n = Some (k, t')" "get_packet_num_stmt t' c n = Some row"
  shows "get_packet_num_stmt t c n = Some (row - 1)"
proof -
  have *: "find (\<lambda>l. lp_container l = c \<and> lp_num l = n)
      (map (\<lambda>l. if lp_container l = c \<and> lp_num l = n then l\<lparr>lp_last_row := lp_last_row l + 1\<rparr> else l) ls)
    = map_option (\<lambda>l. l\<lparr>lp_last_row := lp_last_row l + 1\<rparr>) (find (\<lambda>l. lp_container l = c \<and> lp_num l = n) ls)" for ls
    by (induction ls) auto
  then show ?thesis
    using assms by (auto simp: update_loop_stmt_def get_packet_num_stmt_def Let_def * split: if_splits)
qed

lemma add_packet_effect:
  assumes "cif_loop_add_packet l p d = (CIF_OK, d')"
  obtains c row where "loop_container l = Some c" "map_head p \<noteq> []"
    "get_packet_num_stmt (cur d) (cont_id c) (loop_num l) = Some row"
    "get_packet_num_stmt (cur d') (cont_id c) (loop_num l) = Some (row + 1)"
    "vals (cur d') = vals (cur d) @ packet_rows (cont_id c) (row + 1) (map_head p)"
    "items (cur d') = items (cur d)"
    "\<And>e. e \<in> set (map_head p) \<Longrightarrow> in_loop (cur d) (cont_id c) (loop_num l) (entry_key e)
       \<and> set_value_props (entry_value e) = Inr (bound_cols (entry_value e))
       \<and> (\<forall>v \<in> set (vals (cur d)). vl_container v = cont_id c \<and> vl_name v = entry_key e \<longrightarrow> vl_row v \<noteq> row + 1)"
proof -
  obtain c where c: "loop_container l = Some c" and ne: "map_head p \<noteq> []"
    using assms by (auto simp: cif_loop_add_packet_def split: option.splits if_splits)
  obtain b d1 where nest: "BEGIN_NESTTX d = (b, d1)" by force
  obtain k t row t' where
      t: "update_loop_stmt (\<lambda>r. r\<lparr>lp_last_row := lp_last_row r + 1\<rparr>) (cur d1) (cont_id c) (loop_num l) = Some (k, t)"
    and row: "get_packet_num_stmt t (cont_id c) (loop_num l) = Some row"
    and t': "add_packet_values (cont_id c) (loop_num l) row (map_head p) t = Inr t'"
    and d2: "COMMIT_NESTTX b (d1\<lparr>cur := t'\<rparr>) = Some d'"
    using assms by (auto simp: cif_loop_add_packet_def c ne nest Let_def dest: add_packet_values_error
        split: option.splits sum.splits prod.splits)
  have same: "items t = items (cur d)" "vals t = vals (cur d)"
    using t cur_BEGIN_NESTTX[OF nest] by (auto simp: update_loop_stmt_def Let_def split: if_splits)
  have before: "get_packet_num_stmt (cur d) (cont_id c) (loop_num l) = Some (row - 1)"
    using packet_num_updated[OF t row] cur_BEGIN_NESTTX[OF nest] by simp
  have cur: "cur d' = t'" using cur_COMMIT_NESTTX[OF d2] by simp
  note rows = add_packet_values_rows[OF t']
  have after: "get_packet_num_stmt (cur d') (cont_id c) (loop_num l) = Some row"
    using row rows cur by (simp add: get_packet_num_stmt_def)
  show thesis
    by (rule that[OF c ne before]) (use after rows cur same in \<open>simp_all add: in_loop_def\<close>)
qed

lemma create_loop_effect:
  assumes "cif_container_create_loop_internal c category [] [] d = (Inr l, d')"
  shows "loop_container l = Some c \<and> items (cur d') = items (cur d) \<and> vals (cur d') = vals (cur d)"
proof -
  obtain b d1 where nest: "BEGIN_NESTTX d = (b, d1)" by force
  obtain t where t: "create_loop_stmt (cur d1) (cont_id c) category = Inr t"
    and d': "COMMIT_NESTTX b (d1\<lparr>cur := t\<rparr>) = Some d'" and l: "loop_container l = Some c"
    using assms by (auto simp: cif_container_create_loop_internal_def nest Let_def split: option.splits sum.splits)
  have "items t = items (cur d1) \<and> vals t = vals (cur d1)"
    using t by (auto simp: create_loop_stmt_def split: if_splits option.splits)
  then show ?thesis
    using l cur_COMMIT_NESTTX[OF d'] cur_BEGIN_NESTTX[OF nest] by simp
qed

lemma add_item_effect:
  assumes "cif_loop_add_item_internal l c name_orig name v d = (Inr k, d')"
  obtains t where "items t = items (cur d) @ [\<lparr>it_container = cont_id c, it_name = name, it_name_orig = name_orig,
      it_loop = loop_num l\<rparr>]" "vals t = vals (cur d)"
    "set_value_props v = Inr (bound_cols v)" "set_all_values_stmt t (bound_cols v) (cont_id c) name = Some (k, cur d')"
    "\<not> (\<exists>i \<in> set (items (cur d)). it_container i = cont_id c \<and> it_name i = name)"
proof -
  obtain b d1 where nest: "BEGIN_NESTTX d = (b, d1)" by force
  obtain t t' where t: "add_loop_item_stmt (cur d1) (cont_id c) name name_orig (loop_num l) = Some t"
    and cols: "set_value_props v = Inr (bound_cols v)"
    and t': "set_all_values_stmt t (bound_cols v) (cont_id c) name = Some (k, t')"
    and d': "COMMIT_NESTTX b (d1\<lparr>cur := t'\<rparr>) = Some d'"
    using assms by (auto simp: cif_loop_add_item_internal_def nest Let_def cif_container_set_all_values_def bound_cols_def
        split: option.splits sum.splits prod.splits)
  have "cur d' = t'" using cur_COMMIT_NESTTX[OF d'] by simp
  then show thesis
    using that[of t] t cols t' cur_BEGIN_NESTTX[OF nest] by (auto simp: add_loop_item_stmt_def split: if_splits)
qed

section \<open>Setting a value, and getting it\<close>

text \<open>
  The values of the item, and of every other item, after \<open>set_or_add\<close>: an item that exists has
  the value in every packet of its loop, and a new item has it at least once.
\<close>

definition values_set :: "tables \<Rightarrow> tables \<Rightarrow> int \<Rightarrow> ustring \<Rightarrow> value_cols \<Rightarrow> nat \<Rightarrow> bool" where
  "values_set t t' c name cols k \<longleftrightarrow> get_value_stmt t' c name = replicate k cols
     \<and> (\<forall>c' name'. (c', name') \<noteq> (c, name) \<longrightarrow> get_value_stmt t' c' name' = get_value_stmt t c' name')"

lemma values_setI: "set_all_values_stmt t cols c name = Some (k, t') \<Longrightarrow> vals_ok t \<Longrightarrow> values_set t t' c name cols (nat k)"
  by (simp add: values_set_def set_all_values_get)

lemma values_set_cong: "vals t = vals t0 \<Longrightarrow> values_set t t' c name cols k = values_set t0 t' c name cols k"
  by (simp only: values_set_def get_value_stmt_filter)

lemma get_value_stmt_cong: "vals t' = vals t \<Longrightarrow> get_value_stmt t' c name = get_value_stmt t c name"
  by (simp add: get_value_stmt_def)

lemma item_loop_empty:
  assumes "items_ok t" "get_item_loop_stmt t c name = []" "i \<in> set (items t)" "it_container i = c"
  shows "it_name i \<noteq> name"
  using assms by (fastforce simp: items_ok_def get_item_loop_stmt_def)

lemma vals_ok_snoc_item:
  "vals_ok t \<Longrightarrow> items t' = items t @ [i] \<Longrightarrow> vals t' = vals t \<Longrightarrow> vals_ok t'"
  by (auto simp: vals_ok_def)

lemma packet_one_item:
  assumes "cif_normalize_item_name I (Some name) (-1) CIF_INVALID_ITEMNAME = Inr name"
    "cif_packet_create I None = Inr p0" "cif_packet_set_item p0 name (ArgValue v) = Some (r, p)"
  shows "map_head p = [(name, Some name, cif_value_clone v)]"
  using assms by (auto simp: cif_packet_create_def cif_packet_create_norm_def cif_packet_set_item_def
      cif_map_set_item_def convert_to_standalone_def stored_value_def)

text \<open>The scalar loop: the existing one, or a new one.\<close>

definition scalar_loop :: "cif_container \<Rightarrow> db \<Rightarrow> cif_loop res \<times> db" where
  "scalar_loop c d =
     (case cif_container_get_category_loop (Some c) (Some []) d of
        Inr l \<Rightarrow> (Inr l, d)
      | Inl e \<Rightarrow>
          if e = CIF_NOSUCH_LOOP then cif_container_create_loop_internal c (Some []) [] [] d
          else (Inl e, d))"

lemma scalar_loop_effect:
  assumes "scalar_loop c d = (loop, d1)"
  shows "case loop of
      Inl e \<Rightarrow> e \<noteq> CIF_OK
    | Inr l \<Rightarrow> loop_container l = Some c \<and> items (cur d1) = items (cur d) \<and> vals (cur d1) = vals (cur d)"
proof (cases "cif_container_get_category_loop (Some c) (Some []) d")
  case (Inr l)
  then show ?thesis
    using assms by (auto simp: scalar_loop_def cif_container_get_category_loop_def split: list.splits)
next
  case (Inl e)
  have "e \<noteq> CIF_OK"
    using Inl by (auto simp: cif_container_get_category_loop_def split: list.splits)
  moreover have "e' \<noteq> CIF_OK" if "cif_container_create_loop_internal c (Some []) [] [] d = (Inl e', d1)" for e'
    using that by (auto simp: cif_container_create_loop_internal_def Let_def split: prod.splits sum.splits option.splits if_splits)
  ultimately show ?thesis
    using assms Inl create_loop_effect[of c "Some []" d _ d1]
    by (auto simp: scalar_loop_def split: if_splits sum.splits)
qed

lemma add_scalar_cases:
  assumes "cif_container_add_scalar I c name orig v d = (CIF_OK, d')"
  obtains l d1 k d2 where "scalar_loop c d = (Inr l, d1)" "cif_loop_add_item_internal l c orig name v d1 = (Inr k, d2)"
    "if k \<noteq> 0 then d' = d2
     else \<exists>p0 r p. cif_packet_create I None = Inr p0 \<and> cif_packet_set_item p0 name (ArgValue v) = Some (r, p)
        \<and> cif_loop_add_packet l p d2 = (CIF_OK, d')"
proof -
  obtain loop d1 where s: "scalar_loop c d = (loop, d1)" by force
  obtain l where l: "loop = Inr l"
    using assms scalar_loop_effect[OF s] s[unfolded scalar_loop_def]
    by (cases loop) (simp_all add: cif_container_add_scalar_def Let_def)
  obtain x d2 where add: "cif_loop_add_item_internal l c orig name v d1 = (x, d2)" by force
  note s' = s[unfolded scalar_loop_def l]
  obtain k where k: "x = Inr k"
    using assms add
    by (cases x)
      (auto simp: cif_container_add_scalar_def Let_def s' cif_loop_add_item_internal_def
        split: prod.splits option.splits sum.splits if_splits)
  have "if k \<noteq> 0 then d' = d2
     else \<exists>p0 r p. cif_packet_create I None = Inr p0 \<and> cif_packet_set_item p0 name (ArgValue v) = Some (r, p)
        \<and> cif_loop_add_packet l p d2 = (CIF_OK, d')"
    using assms
    by (auto simp: cif_container_add_scalar_def Let_def s' add k cif_packet_create_def
        split: if_splits option.splits prod.splits)
  then show thesis
    by (rule that[OF s[unfolded l] add[unfolded k]])
qed

lemma add_scalar_effect:
  assumes "cif_container_add_scalar I c name orig v d = (CIF_OK, d')" "vals_ok (cur d)"
    and idem: "cif_normalize_item_name I (Some name) (-1) CIF_INVALID_ITEMNAME = Inr name" "keys_owned v"
  shows "set_value_props v = Inr (bound_cols v) \<and> (\<exists>k > 0. values_set (cur d) (cur d') (cont_id c) name (bound_cols v) k)"
proof -
  let ?cols = "bound_cols v"
  obtain l d1 k d2 where s: "scalar_loop c d = (Inr l, d1)"
    and add: "cif_loop_add_item_internal l c orig name v d1 = (Inr k, d2)"
    and rest: "if k \<noteq> 0 then d' = d2
     else \<exists>p0 r p. cif_packet_create I None = Inr p0 \<and> cif_packet_set_item p0 name (ArgValue v) = Some (r, p)
        \<and> cif_loop_add_packet l p d2 = (CIF_OK, d')"
    using assms(1) by (rule add_scalar_cases)
  have l: "loop_container l = Some c" "items (cur d1) = items (cur d)" "vals (cur d1) = vals (cur d)"
    using scalar_loop_effect[OF s] by simp_all
  obtain t where t: "items t = items (cur d1) @ [\<lparr>it_container = cont_id c, it_name = name, it_name_orig = orig,
      it_loop = loop_num l\<rparr>]" "vals t = vals (cur d1)" and cols: "set_value_props v = Inr ?cols"
    and set: "set_all_values_stmt t ?cols (cont_id c) name = Some (k, cur d2)"
    using add by (rule add_item_effect)
  have vt: "vals_ok t"
    using vals_ok_snoc_item[OF assms(2)] t l by simp
  have v2: "values_set (cur d) (cur d2) (cont_id c) name ?cols (nat k)"
    using values_setI[OF set vt] values_set_cong[of t "cur d"] t(2) l(3) by simp
  have k0: "k \<ge> 0" using set_all_values_vals(1)[OF set] by simp
  show ?thesis
  proof (cases "k = 0")
    case True
    then obtain p0 r p where p: "cif_packet_create I None = Inr p0" "cif_packet_set_item p0 name (ArgValue v) = Some (r, p)"
      and d': "cif_loop_add_packet l p d2 = (CIF_OK, d')" using rest by auto
    have es: "map_head p = [(name, Some name, v)]"
      using packet_one_item[OF idem(1) p] clone_id[OF idem(2)] by simp
    obtain row where row: "vals (cur d') = vals (cur d2) @ packet_rows (cont_id c) row (map_head p)"
      using d' by (rule add_packet_effect) (use l(1) in auto)
    have "values_set (cur d) (cur d') (cont_id c) name ?cols 1"
      using v2 True by (auto simp: values_set_def get_value_stmt_filter row es packet_rows_def val_of_def)
    then show ?thesis using cols by (intro conjI exI[of _ 1]) simp_all
  next
    case False
    then show ?thesis using cols v2 rest k0 by (intro conjI exI[of _ "nat k"]) simp_all
  qed
qed

lemma no_item_no_loop:
  "\<not> (\<exists>i \<in> set (items t). it_container i = c \<and> it_name i = name) \<Longrightarrow> get_item_loop_stmt t c name = []"
  by (auto simp: get_item_loop_stmt_def)

lemma set_or_add_effect:
  assumes "set_or_add I c name orig v d = (CIF_OK, d')" "tables_ok (cur d)"
    and "cif_normalize_item_name I (Some name) (-1) CIF_INVALID_ITEMNAME = Inr name" "keys_owned v"
  shows "set_value_props v = Inr (bound_cols v) \<and> (\<exists>k. values_set (cur d) (cur d') (cont_id c) name (bound_cols v) k
    \<and> (if \<exists>i \<in> set (items (cur d)). it_container i = cont_id c \<and> it_name i = name
       then k = length (loop_rows_of_item (cur d) (cont_id c) name) else k > 0))"
proof (cases "cif_container_get_item_loop_internal c name d")
  case (Inl e)
  have vals: "vals_ok (cur d)" and items: "items_ok (cur d)" using assms(2) by (simp_all add: tables_ok_def)
  have e: "e = CIF_NOSUCH_ITEM" and add: "cif_container_add_scalar I c name orig v d = (CIF_OK, d')"
    using assms(1) Inl by (auto simp: set_or_add_def cif_container_get_item_loop_internal_def
        split: if_splits list.splits)
  have "get_item_loop_stmt (cur d) (cont_id c) name = []"
    using Inl e by (auto simp: cif_container_get_item_loop_internal_def split: list.splits prod.splits)
  then have "\<not> (\<exists>i \<in> set (items (cur d)). it_container i = cont_id c \<and> it_name i = name)"
    using item_loop_empty[OF items] by blast
  then show ?thesis
    using add_scalar_effect[OF add vals assms(3,4)] by (simp only: if_False) blast
next
  case (Inr l)
  obtain k where cols: "set_value_props v = Inr (bound_cols v)"
    and set: "set_all_values_stmt (cur d) (bound_cols v) (cont_id c) name = Some (k, cur d')"
    using assms(1) Inr
    by (auto simp: bound_cols_def set_or_add_def cif_container_set_all_values_def dest: set_value_props_error
        split: option.splits prod.splits sum.splits)
  have "\<exists>i \<in> set (items (cur d)). it_container i = cont_id c \<and> it_name i = name"
  proof (rule ccontr)
    assume "\<not> ?thesis"
    with no_item_no_loop[OF this] Inr show False by (simp add: cif_container_get_item_loop_internal_def)
  qed
  then show ?thesis
    using cols values_setI[OF set] set_all_values_vals(1)[OF set] assms(2)
    by (intro conjI exI[of _ "nat k"]) (simp_all add: tables_ok_def)
qed

lemma set_value_effect:
  assumes "cif_container_set_value I c (Some orig) (Some v) d = (CIF_OK, d')" "tables_ok (cur d)"
    and norm: "item_norm I orig = Some n" "item_norm I n = Some n" and "keys_owned v"
  shows "set_value_props v = Inr (bound_cols v) \<and> (\<exists>k. values_set (cur d) (cur d') (cont_id c) n (bound_cols v) k
    \<and> (if \<exists>i \<in> set (items (cur d)). it_container i = cont_id c \<and> it_name i = n
       then k = length (loop_rows_of_item (cur d) (cont_id c) n) else k > 0))"
proof -
  have n: "cif_normalize_item_name I (Some orig) (-1) CIF_INVALID_ITEMNAME = Inr n"
    "cif_normalize_item_name I (Some n) (-1) CIF_INVALID_ITEMNAME = Inr n"
    using norm by (auto simp: item_norm_def intro: item_name_code)
  obtain d1 where d1: "BEGIN d = Some d1"
    using assms(1) n(1) by (auto simp: cif_container_set_value_def split: option.splits)
  obtain d2 where body: "set_or_add I c n orig v d1 = (CIF_OK, d2)" and d': "COMMIT d2 = Some d'"
    using assms(1) n(1) d1 by (auto simp: cif_container_set_value_def value_or_unknown_def split: option.splits if_splits prod.splits)
  have t: "tables_ok (cur d1)" using assms(2) cur_BEGIN[OF d1] by simp
  show ?thesis
    using set_or_add_effect[OF body t n(2) assms(5)] unfolding cur_BEGIN[OF d1] cur_COMMIT[OF d'] .
qed

lemma get_value_replicate:
  assumes "cif_normalize_item_name I (Some name) (-1) CIF_NOSUCH_ITEM = Inr n"
    and "get_value_stmt (cur d) (cont_id c) n = replicate k cols" "storable v" "set_value_props v = Inr cols"
  shows "cif_container_get_value I c (Some name) True d =
    (if k = 0 then (CIF_NOSUCH_ITEM, None) else (if k = 1 then CIF_OK else CIF_AMBIGUOUS_ITEM, Some v))"
  using assms value_cols_ok[OF assms(3,4)]
  by (cases k) (auto simp: cif_container_get_value_def Let_def)

text \<open>
  C10. Setting the value of an item. When \<open>cif_container_set_value\<close> succeeds, every spelling of
  the name then gives that value, marked ambiguous where the item is in a loop of several
  packets; unless the item was in a loop without packets, where the call changes nothing and
  the item still has no value. The values of all other items of all containers are as before.
  (The value is \<open>storable\<close> as above and owns its keys; the database satisfies the schema; and normalising a normal
  form again is taken to change nothing.)
\<close>

theorem get_after_set_value:
  assumes set: "cif_container_set_value I c (Some orig) (Some v) d = (CIF_OK, d')"
    and "tables_ok (cur d)" "storable v" "keys_owned v"
    and norm: "item_norm I orig = Some n" "item_norm I n = Some n" "item_norm I name = Some n'"
  shows "cif_container_get_value I c' (Some name) True d' =
    (if cont_id c' = cont_id c \<and> n' = n then
       (if (\<exists>i \<in> set (items (cur d)). it_container i = cont_id c \<and> it_name i = n)
           \<and> loop_rows_of_item (cur d) (cont_id c) n = []
        then (CIF_NOSUCH_ITEM, None)
        else (if length (get_value_stmt (cur d') (cont_id c) n) = 1 then CIF_OK else CIF_AMBIGUOUS_ITEM, Some v))
     else cif_container_get_value I c' (Some name) True d)"
proof -
  obtain k where cols: "set_value_props v = Inr (bound_cols v)"
    and vs: "values_set (cur d) (cur d') (cont_id c) n (bound_cols v) k"
    and k: "if \<exists>i \<in> set (items (cur d)). it_container i = cont_id c \<and> it_name i = n
       then k = length (loop_rows_of_item (cur d) (cont_id c) n) else k > 0"
    using set_value_effect[OF set assms(2) norm(1,2) assms(4)] by blast
  have n': "cif_normalize_item_name I (Some name) (-1) CIF_NOSUCH_ITEM = Inr n'"
    using norm(3) by (auto simp: item_norm_def intro: item_name_code)
  show ?thesis
  proof (cases "cont_id c' = cont_id c \<and> n' = n")
    case True
    then have get: "get_value_stmt (cur d') (cont_id c) n = replicate k (bound_cols v)"
      using vs by (simp add: values_set_def)
    then have g': "get_value_stmt (cur d') (cont_id c') n' = replicate k (bound_cols v)" using True by simp
    show ?thesis
      using get_value_replicate[OF n' g' assms(3) cols] True k get by (auto split: if_splits)
  next
    case False
    then have "get_value_stmt (cur d') (cont_id c') n' = get_value_stmt (cur d) (cont_id c') n'"
      using vs by (auto simp: values_set_def)
    then show ?thesis
      using False n' by (auto simp: cif_container_get_value_def)
  qed
qed

lemma get_after_set_value_witness:
  "\<exists>d'. cif_container_set_value ascii_icu block_a (Some (kw ''_X'')) (Some NaValue) sample_db1 = (CIF_OK, d')
     \<and> snd (cif_container_get_value ascii_icu block_a (Some (kw ''_x'')) True d') = Some NaValue"
proof -
  let ?r = "cif_container_set_value ascii_icu block_a (Some (kw ''_X'')) (Some NaValue) sample_db1"
  have "fst ?r = CIF_OK" by code_simp
  then have set: "?r = (CIF_OK, snd ?r)" by (cases ?r) simp
  have norm: "item_norm ascii_icu (kw ''_X'') = Some (kw ''_x'')" "item_norm ascii_icu (kw ''_x'') = Some (kw ''_x'')"
    by code_simp+
  have "items (cur sample_db1) = []" by (simp add: sample_db1_def)
  then show ?thesis
    using get_after_set_value[OF set reachable_ok[OF sample_reachable(1)] _ _ norm norm(2), of block_a] set
    by (intro exI[of _ "snd ?r"]) simp
qed

text \<open>
  C12. Adding a packet to a loop, when it succeeds, counts the packets of the loop on by one, and appends exactly
  the values of the packet to the table of values, all with the new count as their row number; every item of the
  packet is an item of that loop and had no value of that number. If the count was not behind the numbers
  of the loop's values before (it is after an iterator from an outdated handle of a scalar loop has reset it), then
  no value of the loop had the number, so that the packet is one of its own, and the count is
  not behind afterwards.
\<close>

theorem add_packet_appends:
  assumes "cif_loop_add_packet l p d = (CIF_OK, d')"
  shows "\<exists>c count. loop_container l = Some c \<and> map_head p \<noteq> []
    \<and> get_packet_num_stmt (cur d) (cont_id c) (loop_num l) = Some count
    \<and> get_packet_num_stmt (cur d') (cont_id c) (loop_num l) = Some (count + 1)
    \<and> vals (cur d') = vals (cur d) @ packet_rows (cont_id c) (count + 1) (map_head p)
    \<and> (\<forall>e \<in> set (map_head p). in_loop (cur d) (cont_id c) (loop_num l) (entry_key e)
         \<and> set_value_props (entry_value e) = Inr (bound_cols (entry_value e))
         \<and> (\<forall>v \<in> set (vals (cur d)). vl_container v = cont_id c \<and> vl_name v = entry_key e \<longrightarrow> vl_row v \<noteq> count + 1))
    \<and> (rows_counted (cur d) (cont_id c) (loop_num l) \<longrightarrow>
         rows_counted (cur d') (cont_id c) (loop_num l)
         \<and> (\<forall>v \<in> set (vals (cur d)). vl_container v = cont_id c \<and> in_loop (cur d) (cont_id c) (loop_num l) (vl_name v)
              \<longrightarrow> vl_row v \<noteq> count + 1))"
proof -
  obtain c count where c: "loop_container l = Some c" "map_head p \<noteq> []"
    "get_packet_num_stmt (cur d) (cont_id c) (loop_num l) = Some count"
    "get_packet_num_stmt (cur d') (cont_id c) (loop_num l) = Some (count + 1)"
    "vals (cur d') = vals (cur d) @ packet_rows (cont_id c) (count + 1) (map_head p)"
    and items: "items (cur d') = items (cur d)"
    and e: "\<And>e. e \<in> set (map_head p) \<Longrightarrow> in_loop (cur d) (cont_id c) (loop_num l) (entry_key e)
       \<and> set_value_props (entry_value e) = Inr (bound_cols (entry_value e))
       \<and> (\<forall>v \<in> set (vals (cur d)). vl_container v = cont_id c \<and> vl_name v = entry_key e \<longrightarrow> vl_row v \<noteq> count + 1)"
    using assms by (rule add_packet_effect) blast
  have "rows_counted (cur d') (cont_id c) (loop_num l)" if "rows_counted (cur d) (cont_id c) (loop_num l)"
    using that c(3,4,5) items by (fastforce simp: rows_counted_def in_loop_def packet_rows_def val_of_def)
  moreover have "vl_row v \<noteq> count + 1"
    if "rows_counted (cur d) (cont_id c) (loop_num l)" "v \<in> set (vals (cur d))" "vl_container v = cont_id c"
      "in_loop (cur d) (cont_id c) (loop_num l) (vl_name v)" for v
    using that c(3) by (fastforce simp: rows_counted_def)
  ultimately show ?thesis using c e by blast
qed

text \<open>Setting a scalar in a block without a scalar loop adds a packet to a new one.\<close>

lemma add_packet_appends_witness:
  "\<exists>d'. cif_loop_add_packet \<lparr>loop_container = Some block_a, loop_num = 0, loop_category = None, loop_names = None\<rparr>
          \<lparr>map_head = [(kw ''_x'', None, NaValue)], is_standalone = True, normalizer = cif_normalize_item_name ascii_icu\<rparr>
          (snd (cif_container_create_loop ascii_icu (Some block_a) None (Some [kw ''_x'']) sample_db1)) = (CIF_OK, d')
     \<and> length (vals (cur d')) = 1"
proof -
  let ?d = "snd (cif_container_create_loop ascii_icu (Some block_a) None (Some [kw ''_x'']) sample_db1)"
  let ?l = "\<lparr>loop_container = Some block_a, loop_num = 0, loop_category = None, loop_names = None\<rparr>"
  let ?p = "\<lparr>map_head = [(kw ''_x'', None, NaValue)], is_standalone = True,
      normalizer = cif_normalize_item_name ascii_icu\<rparr>"
  have "fst (cif_loop_add_packet ?l ?p ?d) = CIF_OK" by code_simp
  then have add: "cif_loop_add_packet ?l ?p ?d = (CIF_OK, snd (cif_loop_add_packet ?l ?p ?d))"
    by (cases "cif_loop_add_packet ?l ?p ?d") simp
  have "vals (cur ?d) = []" by code_simp
  then show ?thesis
    using add_packet_appends[OF add] add by (intro exI[of _ "snd (cif_loop_add_packet ?l ?p ?d)"]) (auto simp: packet_rows_def)
qed

text \<open>
  C23. Setting the value of an item that exists, outside a transaction, to a \<open>storable\<close> list or table that takes
  more than 768 bytes: the call never returns, as the serialisation of the value does not.
\<close>

theorem setting_long_composite_hangs:
  assumes "composite v" "storable v" "length (value_bytes v) > 768"
    and "item_norm I orig = Some n" "BEGIN d = Some d1" "cif_container_get_item_loop_internal c n d1 = Inr l"
  shows "fst (cif_container_set_value I c (Some orig) (Some v) d) = NO_RETURN"
proof -
  have "cif_normalize_item_name I (Some orig) (-1) CIF_INVALID_ITEMNAME = Inr n"
    using assms(4) by (auto simp: item_norm_def intro: item_name_code)
  moreover have "set_value_props v = Inl NO_RETURN" using composite_cols(1) [OF assms(1,2)] assms(3) by simp
  ultimately show ?thesis
    using assms(5,6) by (simp add: cif_container_set_value_def set_or_add_def cif_container_set_all_values_def value_or_unknown_def)
qed

lemma setting_long_composite_hangs_witness:
  "fst (cif_container_set_value ascii_icu block_a (Some (kw ''_x''))
     (Some (ListValue [CharValue CIF_QUOTED (replicate 400 0x61)]))
     (snd (cif_container_create_loop ascii_icu (Some block_a) None (Some [kw ''_x'']) sample_db1))) = NO_RETURN"
proof -
  let ?d = "snd (cif_container_create_loop ascii_icu (Some block_a) None (Some [kw ''_x'']) sample_db1)"
  let ?v = "ListValue [CharValue CIF_QUOTED (replicate 400 0x61)]"
  have v: "composite ?v" "storable ?v" "length (value_bytes ?v) > 768" by simp_all
  have n: "item_norm ascii_icu (kw ''_x'') = Some (kw ''_x'')" by code_simp
  have "\<not> Option.is_none (BEGIN ?d)" by code_simp
  then obtain d1 where d1: "BEGIN ?d = Some d1" by (cases "BEGIN ?d") auto
  have "\<not> isl (cif_container_get_item_loop_internal block_a (kw ''_x'') (the (BEGIN ?d)))" by code_simp
  then obtain l where l: "cif_container_get_item_loop_internal block_a (kw ''_x'') d1 = Inr l"
    using d1 by (cases "cif_container_get_item_loop_internal block_a (kw ''_x'') d1") auto
  show ?thesis by (rule setting_long_composite_hangs [OF v n d1 l])
qed

end
