(* ===== verification/Iteration.thy ===== *)
theory Iteration
  imports Items
begin

text \<open>
  Iterating over the packets of a loop. \<open>iterate\<close> is a caller that asks for packets until the
  iterator reports that it is finished (or an error); the packets it gets are compared with the
  contents of the tables.
\<close>

section \<open>The packets of a loop, from the tables\<close>

definition value_of_cols :: "value_cols \<Rightarrow> cif_value" where
  "value_of_cols cols = (case get_value_props cols of Inr v \<Rightarrow> v | Inl _ \<Rightarrow> UnkValue)"

definition fill_entry :: "val_row list \<Rightarrow> map_entry \<Rightarrow> map_entry" where
  "fill_entry g = (\<lambda>(key, key_orig, v).
     (key, key_orig, case find (\<lambda>r. vl_name r = key) g of None \<Rightarrow> v | Some r \<Rightarrow> value_of_cols (vl_cols r)))"

text \<open>The packet with the rows \<open>g\<close>: an item without a row has the unknown value.\<close>

definition packet_of :: "icu \<Rightarrow> ustring list \<Rightarrow> val_row list \<Rightarrow> cif_map" where
  "packet_of I names g =
     (let p = cif_packet_create_norm I names True in p\<lparr>map_head := map (fill_entry g) (map_head p)\<rparr>)"

section \<open>Reading the rows of one packet\<close>

lemma hash_find_fill:
  "hash_find (map (fill_entry g) es) k = map_option (fill_entry g) (hash_find es k)"
  by (induction es) (auto simp: fill_entry_def split: prod.splits)

lemma fill_entry_Nil [simp]: "fill_entry [] = id"
  by (auto simp: fill_entry_def fun_eq_iff)

lemma hash_replace_fill:
  assumes "distinct (map entry_key es)" "hash_find es (vl_name r) = Some (vl_name r, ko, v)"
    and "get_value_props (vl_cols r) = Inr x" "vl_name r \<notin> vl_name ` set g"
  shows "map (fill_entry g) (hash_replace es (vl_name r) (vl_name r, ko, x)) = map (fill_entry (r # g)) es"
  using assms
proof (induction es)
  case (Cons e es)
  obtain k ko' w where e: "e = (k, ko', w)" by (cases e)
  have none: "find (\<lambda>q. vl_name q = vl_name r) g = None"
    using Cons.prems(4) by (auto simp: find_None_iff image_iff)
  show ?case
  proof (cases "k = vl_name r")
    case True
    then have "vl_name r \<notin> entry_key ` set es" using Cons.prems(1) by (simp add: e)
    then have "map (fill_entry g) es = map (fill_entry (r # g)) es"
      by (intro map_cong refl) (auto simp: fill_entry_def image_iff)
    then show ?thesis
      using Cons.prems True none by (simp add: e fill_entry_def value_of_cols_def)
  next
    case False
    then show ?thesis using Cons by (simp add: e fill_entry_def)
  qed
qed simp

lemma read_values_group:
  assumes "distinct (map entry_key es)" "distinct (map vl_name (r # g))"
    and "\<And>q. q \<in> set (r # g) \<Longrightarrow> vl_row q = row"
    and "\<And>q. q \<in> set (r # g) \<Longrightarrow> \<exists>ko. hash_find es (vl_name q) = Some (vl_name q, ko, UnkValue)"
    and "\<And>q. q \<in> set (r # g) \<Longrightarrow> \<exists>x. get_value_props (vl_cols q) = Inr x"
    and "\<And>q qs. rest = q # qs \<Longrightarrow> vl_row q \<noteq> row"
  shows "read_values es row (r # g @ rest) = (Inr (map (fill_entry (r # g)) es), rest, rest = [])"
  using assms
proof (induction g arbitrary: r es)
  case Nil
  obtain ko x where ko: "hash_find es (vl_name r) = Some (vl_name r, ko, UnkValue)" and x: "get_value_props (vl_cols r) = Inr x"
    using Nil.prems(4,5)[of r] by auto
  have "hash_replace es (vl_name r) (vl_name r, ko, x) = map (fill_entry [r]) es"
    using hash_replace_fill[OF Nil.prems(1) ko x, of "[]"] by simp
  then show ?case using ko x Nil.prems(6) by (cases rest) simp_all
next
  case (Cons r' g)
  obtain ko x where ko: "hash_find es (vl_name r) = Some (vl_name r, ko, UnkValue)" and x: "get_value_props (vl_cols r) = Inr x"
    using Cons.prems(4,5)[of r] by auto
  let ?es = "hash_replace es (vl_name r) (vl_name r, ko, x)"
  have keys: "distinct (map entry_key ?es)" using Cons.prems(1) by simp
  have "read_values ?es row (r' # g @ rest) = (Inr (map (fill_entry (r' # g)) ?es), rest, rest = [])"
  proof (rule Cons.IH[OF keys])
    show "\<exists>ko. hash_find ?es (vl_name q) = Some (vl_name q, ko, UnkValue)" if q: "q \<in> set (r' # g)" for q
    proof -
      have "vl_name q \<noteq> vl_name r" using q Cons.prems(2) by (auto simp: image_iff)
      then show ?thesis using q Cons.prems(4)[of q] ko by (simp add: hash_find_replace)
    qed
  qed (use Cons.prems in auto)
  moreover have "map (fill_entry (r' # g)) ?es = map (fill_entry (r # r' # g)) es"
    using Cons.prems(2) by (intro hash_replace_fill[OF Cons.prems(1) ko x]) auto
  moreover have "vl_row r' = row" using Cons.prems(3) by simp
  ultimately show ?case using ko x by simp
qed

section \<open>Iterating to the end\<close>

function iterate :: "icu \<Rightarrow> pktitr \<Rightarrow> db \<Rightarrow> cif_map list \<times> int" where
  "iterate I it d =
     (case cif_pktitr_next_packet I it NewPacket d of
        (r, p, it') \<Rightarrow>
          if r \<noteq> CIF_OK then ([], r)
          else (case iterate I it' d of (ps, r') \<Rightarrow> (case p of None \<Rightarrow> ps | Some p \<Rightarrow> p # ps, r')))"
  by pat_completeness auto
termination
  by (relation "measure (\<lambda>(I, it, d). length (itr_rows it))") (auto dest: next_packet_rows[OF sym])

declare iterate.simps [simp del]

text \<open>The rows of the query, packet by packet.\<close>

function row_groups :: "val_row list \<Rightarrow> val_row list list" where
  "row_groups [] = []"
| "row_groups (r # rs) = (r # takeWhile (\<lambda>q. vl_row q = vl_row r) rs) # row_groups (dropWhile (\<lambda>q. vl_row q = vl_row r) rs)"
  by pat_completeness auto
termination
  by (relation "measure length") (auto simp: le_imp_less_Suc length_dropWhile_le)

definition group_ok :: "ustring list \<Rightarrow> val_row list \<Rightarrow> bool" where
  "group_ok names g \<longleftrightarrow> distinct (map vl_name g) \<and> (\<forall>q \<in> set g. vl_name q \<in> set names)
     \<and> (\<forall>q \<in> set g. \<exists>x. get_value_props (vl_cols q) = Inr x)"

lemma norm_packet_find:
  "n \<in> set names \<Longrightarrow> hash_find (map_head (cif_packet_create_norm I names b)) n = Some (n, None, UnkValue)"
  by (induction names) (auto simp: cif_packet_create_norm_def)

lemma norm_packet_keys: "map entry_key (map_head (cif_packet_create_norm I names b)) = names"
  by (induction names) (auto simp: cif_packet_create_norm_def)

lemma iterate_groups:
  assumes "distinct (itr_names it)" "tx d \<noteq> None"
    and "\<And>g. g \<in> set (row_groups (itr_rows it)) \<Longrightarrow> group_ok (itr_names it) g"
    and "itr_finished it \<longleftrightarrow> itr_rows it = []"
  shows "iterate I it d = (map (packet_of I (itr_names it)) (row_groups (itr_rows it)), CIF_FINISHED)"
  using assms
proof (induction "length (itr_rows it)" arbitrary: it rule: less_induct)
  case less
  show ?case
  proof (cases "itr_rows it")
    case Nil
    then show ?thesis using less.prems(4) by (simp add: iterate.simps cif_pktitr_next_packet_def Let_def)
  next
    case (Cons r rs)
    let ?same = "\<lambda>q. vl_row q = vl_row r"
    let ?g = "takeWhile ?same rs" and ?rest = "dropWhile ?same rs"
    let ?p = "cif_packet_create_norm I (itr_names it) True"
    have ok: "group_ok (itr_names it) (r # ?g)" using less.prems(3)[of "r # ?g"] Cons by simp
    have "read_values (map_head ?p) (vl_row r) (r # ?g @ ?rest)
        = (Inr (map (fill_entry (r # ?g)) (map_head ?p)), ?rest, ?rest = [])"
    proof (rule read_values_group)
      show "distinct (map entry_key (map_head ?p))" using less.prems(1) by (simp add: norm_packet_keys)
      show "distinct (map vl_name (r # ?g))" using ok by (simp add: group_ok_def)
      show "vl_row q = vl_row r" if "q \<in> set (r # ?g)" for q
        using that by (auto dest: set_takeWhileD)
      show "\<exists>ko. hash_find (map_head ?p) (vl_name q) = Some (vl_name q, ko, UnkValue)" if "q \<in> set (r # ?g)" for q
        using that ok by (auto simp: group_ok_def norm_packet_find)
      show "\<exists>x. get_value_props (vl_cols q) = Inr x" if "q \<in> set (r # ?g)" for q
        using that ok by (auto simp: group_ok_def)
      show "vl_row q \<noteq> vl_row r" if "?rest = q # qs" for q qs
        using that hd_dropWhile[of ?same rs] by simp
    qed
    then have "read_values (map_head ?p) (vl_row r) (itr_rows it)
        = (Inr (map (fill_entry (r # ?g)) (map_head ?p)), ?rest, ?rest = [])"
      using Cons by simp
    then have step: "cif_pktitr_next_packet I it NewPacket d =
        (CIF_OK, Some (packet_of I (itr_names it) (r # ?g)),
         it\<lparr>itr_rows := ?rest, itr_finished := ?rest = [], itr_previous_row := vl_row r\<rparr>)"
      using less.prems(2,4) Cons
      by (simp add: cif_pktitr_next_packet_def Let_def autocommit_def packet_of_def)
    have "iterate I (it\<lparr>itr_rows := ?rest, itr_finished := ?rest = [], itr_previous_row := vl_row r\<rparr>) d
        = (map (packet_of I (itr_names it)) (row_groups ?rest), CIF_FINISHED)"
      using less.hyps[of "it\<lparr>itr_rows := ?rest, itr_finished := ?rest = [], itr_previous_row := vl_row r\<rparr>"]
        less.prems(1,2) less.prems(3) Cons length_dropWhile_le[of ?same rs] by (simp add: le_imp_less_Suc)
    then show ?thesis
      using Cons by (subst iterate.simps) (simp add: step)
  qed
qed

section \<open>The rows, sorted\<close>

lemma sorted_takeWhile_filter:
  assumes "sorted (map f (r # rs))"
  shows "takeWhile (\<lambda>q. f q = f r) rs = filter (\<lambda>q. f q = f r) rs
    \<and> dropWhile (\<lambda>q. f q = f r) rs = filter (\<lambda>q. f q \<noteq> f r) rs"
  using assms
proof (induction rs)
  case (Cons q rs)
  show ?case
  proof (cases "f q = f r")
    case False
    then have "\<forall>p \<in> set (q # rs). f p \<noteq> f r" using Cons.prems by auto
    then have "filter (\<lambda>p. f p = f r) (q # rs) = []" "filter (\<lambda>p. f p \<noteq> f r) (q # rs) = q # rs"
      by (simp_all only: filter_empty_conv filter_id_conv)
    then show ?thesis using False by simp
  qed (use Cons in auto)
qed simp

lemma row_groups_sorted:
  "sorted (map vl_row rows) \<Longrightarrow>
     row_groups rows = map (\<lambda>n. filter (\<lambda>v. vl_row v = n) rows) (sorted_list_of_set (vl_row ` set rows))"
proof (induction rows rule: row_groups.induct)
  case (2 r rs)
  let ?rest = "dropWhile (\<lambda>q. vl_row q = vl_row r) rs" and ?S = "vl_row ` set (r # rs)"
  have tw: "takeWhile (\<lambda>q. vl_row q = vl_row r) rs = filter (\<lambda>q. vl_row q = vl_row r) rs"
    and rest: "?rest = filter (\<lambda>q. vl_row q \<noteq> vl_row r) rs"
    using sorted_takeWhile_filter[OF "2.prems"] by auto
  have "sorted (map vl_row ?rest)" using "2.prems" unfolding rest by (simp add: sorted_filter)
  note IH = "2.IH"[OF this]
  have min: "Min ?S = vl_row r" using "2.prems" by (intro Min_eqI) auto
  have S: "?S - {vl_row r} = vl_row ` set ?rest" unfolding rest by auto
  have list: "sorted_list_of_set ?S = vl_row r # sorted_list_of_set (vl_row ` set ?rest)"
    using sorted_list_of_set_nonempty[of ?S] by (simp only: min S) simp
  have "filter (\<lambda>v. vl_row v = n) (r # rs) = filter (\<lambda>v. vl_row v = n) ?rest"
    if "n \<in> set (sorted_list_of_set (vl_row ` set ?rest))" for n
  proof -
    have "n \<noteq> vl_row r" using that unfolding rest by auto
    then show ?thesis unfolding rest by (auto intro!: filter_cong)
  qed
  then have "map (\<lambda>n. filter (\<lambda>v. vl_row v = n) (r # rs)) (sorted_list_of_set (vl_row ` set ?rest)) = row_groups ?rest"
    unfolding IH by (intro map_cong refl)
  then show ?case unfolding list by (simp add: tw)
qed simp

section \<open>Iterating over a loop\<close>

text \<open>The names of a loop's items, and its values.\<close>

definition loop_item_names :: "tables \<Rightarrow> int \<Rightarrow> int \<Rightarrow> ustring list" where
  "loop_item_names t c n = map it_name (filter (\<lambda>i. it_container i = c \<and> it_loop i = n) (items t))"

definition loop_vals :: "tables \<Rightarrow> int \<Rightarrow> int \<Rightarrow> val_row list" where
  "loop_vals t c n = filter (\<lambda>v. vl_container v = c \<and> vl_name v \<in> set (loop_item_names t c n)) (vals t)"

definition names_normal :: "icu \<Rightarrow> tables \<Rightarrow> bool" where
  "names_normal I t \<longleftrightarrow> (\<forall>i \<in> set (items t). item_norm I (it_name_orig i) = Some (it_name i))"

definition vals_readable :: "tables \<Rightarrow> bool" where
  "vals_readable t \<longleftrightarrow> (\<forall>v \<in> set (vals t). \<exists>x. get_value_props (vl_cols v) = Inr x)"

lemma normalize_all_map:
  assumes "\<And>i. i \<in> set is \<Longrightarrow> item_norm I (it_name_orig i) = Some (it_name i)"
  shows "normalize_all I (map it_name_orig is) = Inr (map it_name is)"
  using assms
proof (induction "is")
  case (Cons i "is")
  have "cif_normalize_item_name I (Some (it_name_orig i)) (-1) CIF_INTERNAL_ERROR = Inr (it_name i)"
    using Cons.prems[of i] by (auto simp: item_norm_def intro: item_name_code)
  then show ?case using Cons by simp
qed simp

lemma get_loop_names_filter:
  "get_loop_names_stmt t c n = map it_name_orig (filter (\<lambda>i. it_container i = c \<and> it_loop i = n) (items t))"
  by (simp add: get_loop_names_stmt_def concat_if)

lemma get_loop_values_sorted: "get_loop_values_stmt t c n = sort_key vl_row (loop_vals t c n)"
proof -
  have "filter (\<lambda>v. vl_container v = c \<and> (\<exists>i \<in> set (items t). it_container i = c \<and> it_loop i = n \<and> it_name i = vl_name v))
      (vals t) = loop_vals t c n"
    unfolding loop_vals_def by (intro filter_cong refl) (auto simp: loop_item_names_def image_iff)
  then show ?thesis
    by (simp add: get_loop_values_stmt_def concat_if[where f = "\<lambda>v. v"])
qed

lemma get_packets_iterator:
  assumes get: "cif_loop_get_packets I l d = (Inr it, d')" and "loop_num l \<ge> 0"
    and "names_normal I (cur d)"
  obtains c where "loop_container l = Some c" "itr_names it = loop_item_names (cur d) (cont_id c) (loop_num l)"
    "itr_rows it = get_loop_values_stmt (cur d) (cont_id c) (loop_num l)" "itr_rows it \<noteq> []"
    "\<not> itr_finished it" "tx d' = Some (cur d)" "cur d' = cur d" "tx d = None"
proof -
  obtain c where c: "loop_container l = Some c"
    using get by (auto simp: cif_loop_get_packets_def split: option.splits)
  obtain names d1 d2 where n: "cif_loop_get_names_internal I l True d = (Inr (Some names), d1)"
    and d2: "BEGIN d1 = Some d2" and it: "d' = d2" "itr_names it = names"
      "itr_rows it = get_loop_values_stmt (cur d2) (cont_id c) (loop_num l)" "itr_rows it \<noteq> []" "\<not> itr_finished it"
    using get by (auto simp: cif_loop_get_packets_def c Let_def split: sum.splits option.splits prod.splits if_splits)
  have tx1: "tx d1 = None" using d2 by (auto simp: BEGIN_def split: if_splits)
  obtain b d0 where nest: "BEGIN_NESTTX d = (b, d0)" by force
  have d1: "d1 = ROLLBACK_NESTTX b d0" and
    names: "normalize_all I (get_loop_names_stmt (cur d) (cont_id c) (loop_num l)) = Inr names"
    using n assms(2) cur_BEGIN_NESTTX[OF nest]
    by (auto simp: cif_loop_get_names_internal_def c nest Let_def split: if_splits sum.splits)
  have "restored d d1" unfolding d1 using nest by (rule rollback_nested) simp_all
  then have "cur d1 = cur d" "tx d = None" using tx1 by (auto simp: restored_def)
  moreover have "names = loop_item_names (cur d) (cont_id c) (loop_num l)"
  proof -
    have "normalize_all I (get_loop_names_stmt (cur d) (cont_id c) (loop_num l))
        = Inr (loop_item_names (cur d) (cont_id c) (loop_num l))"
      unfolding get_loop_names_filter loop_item_names_def
      by (rule normalize_all_map) (use assms(3) in \<open>auto simp: names_normal_def\<close>)
    then show ?thesis using names by simp
  qed
  moreover have "tx d' = Some (cur d1)" "cur d' = cur d1"
    using d2 it(1) by (auto simp: BEGIN_def split: if_splits)
  ultimately show thesis
    by (intro that[OF c]) (use it in simp_all)
qed

lemma distinct_map_inj: "distinct (map f xs) \<Longrightarrow> (\<And>x y. x \<in> set xs \<Longrightarrow> y \<in> set xs \<Longrightarrow> g x = g y \<Longrightarrow> f x = f y) \<Longrightarrow> distinct (map g xs)"
  unfolding distinct_map inj_on_def by blast

lemma loop_names_distinct: "items_ok t \<Longrightarrow> distinct (loop_item_names t c n)"
  unfolding loop_item_names_def
  by (rule distinct_map_inj[where f = "\<lambda>i. (it_container i, it_name i)"]) (auto simp: items_ok_def)

text \<open>
  C5. Iterating over a loop. The packets that an iterator delivers, one call after the other,
  are those of the loop in the order of their row numbers; each packet has exactly the items of
  the loop, in their order, with the value that the tables hold for that item and row, or the
  unknown value where there is none. After the last packet, and not before, the iterator
  reports that it is finished.
\<close>

theorem iteration_delivers_loop:
  assumes get: "cif_loop_get_packets I l d = (Inr it, d')" and num: "loop_num l \<ge> 0"
    and ok: "tables_ok (cur d)" "names_normal I (cur d)" "vals_readable (cur d)"
  shows "\<exists>c. loop_container l = Some c \<and> (let t = cur d; names = loop_item_names t (cont_id c) (loop_num l);
      vs = loop_vals t (cont_id c) (loop_num l)
    in iterate I it d' = (map (\<lambda>row. packet_of I names (filter (\<lambda>v. vl_row v = row) vs))
                            (sorted_list_of_set (vl_row ` set vs)), CIF_FINISHED))"
proof -
  obtain c where c: "loop_container l = Some c" and names: "itr_names it = loop_item_names (cur d) (cont_id c) (loop_num l)"
    and rows: "itr_rows it = get_loop_values_stmt (cur d) (cont_id c) (loop_num l)" "itr_rows it \<noteq> []"
    and fin: "\<not> itr_finished it" and d': "tx d' = Some (cur d)"
    using get_packets_iterator[OF get num ok(2)] by metis
  let ?vs = "loop_vals (cur d) (cont_id c) (loop_num l)"
  have sorted: "itr_rows it = sort_key vl_row ?vs" using rows(1) by (simp add: get_loop_values_sorted)
  have filter_rows: "filter (\<lambda>v. vl_row v = n) (sort_key vl_row ?vs) = filter (\<lambda>v. vl_row v = n) ?vs" for n
    by (rule sort_key_stable)
  have groups: "row_groups (itr_rows it)
      = map (\<lambda>n. filter (\<lambda>v. vl_row v = n) ?vs) (sorted_list_of_set (vl_row ` set ?vs))"
    unfolding sorted by (subst row_groups_sorted) (simp_all only: sorted_sort_key filter_rows set_sort)
  have group: "group_ok (itr_names it) (filter (\<lambda>v. vl_row v = n) ?vs)" for n
  proof -
    have "distinct (map (\<lambda>v. (vl_container v, vl_name v, vl_row v)) (filter (\<lambda>v. vl_row v = n) ?vs))"
      using ok(1) by (simp add: tables_ok_def vals_ok_def loop_vals_def)
    then have "distinct (map vl_name (filter (\<lambda>v. vl_row v = n) ?vs))"
      by (rule distinct_map_inj) (auto simp: loop_vals_def)
    then show ?thesis
      using ok(3) by (auto simp: group_ok_def names loop_vals_def vals_readable_def)
  qed
  have "iterate I it d' = (map (packet_of I (itr_names it)) (row_groups (itr_rows it)), CIF_FINISHED)"
  proof (rule iterate_groups)
    show "distinct (itr_names it)" using ok(1) loop_names_distinct by (simp add: names tables_ok_def)
    show "group_ok (itr_names it) g" if "g \<in> set (row_groups (itr_rows it))" for g
      using that group by (auto simp: groups)
  qed (use d' fin rows(2) in simp_all)
  then show ?thesis
    using c by (simp add: groups names Let_def comp_def)
qed

text \<open>The block \<open>A\<close> with a loop of \<open>_x\<close> and \<open>_Y\<close> that has one packet, for the witnesses.\<close>

definition sample_loop :: cif_loop where
  "sample_loop = \<lparr>loop_container = Some block_a, loop_num = 0, loop_category = None, loop_names = None\<rparr>"

definition sample_packet :: cif_map where
  "sample_packet = \<lparr>map_head = [(kw ''_y'', None, NaValue)], is_standalone = True,
     normalizer = cif_normalize_item_name ascii_icu\<rparr>"

definition sample_db3 :: db where
  "sample_db3 = snd (cif_container_create_loop ascii_icu (Some block_a) None (Some [kw ''_x'', kw ''_Y'']) sample_db1)"

definition sample_db4 :: db where
  "sample_db4 = snd (cif_loop_add_packet sample_loop sample_packet sample_db3)"

lemma sample_loop_reachable: "reachable ascii_icu sample_db3" "reachable ascii_icu sample_db4"
  unfolding sample_db4_def sample_db3_def
  by (rule reachable_step[OF _ step_add_packet] reachable_step[OF _ step_create_loop] sample_reachable(1))+

lemma sample_db4_eq:
  "cur sample_db4 =
     \<lparr>containers = [\<lparr>con_id = 1, con_next_loop_num = 1\<rparr>],
        blocks = [\<lparr>blk_id = 1, blk_name = kw ''a'', blk_name_orig = kw ''A''\<rparr>], frames = [],
        loops = [\<lparr>lp_container = 1, lp_num = 0, lp_category = None, lp_last_row = 1\<rparr>],
        items = [\<lparr>it_container = 1, it_name = kw ''_x'', it_name_orig = kw ''_x'', it_loop = 0\<rparr>,
                 \<lparr>it_container = 1, it_name = kw ''_y'', it_name_orig = kw ''_Y'', it_loop = 0\<rparr>],
        vals = [\<lparr>vl_container = 1, vl_name = kw ''_y'', vl_row = 1, vl_cols = bound_cols NaValue\<rparr>], last_id = 1\<rparr>"
  by code_simp

lemma iteration_delivers_loop_witness:
  "\<exists>it d' p. cif_loop_get_packets ascii_icu sample_loop sample_db4 = (Inr it, d')
     \<and> iterate ascii_icu it d' = ([p], CIF_FINISHED)
     \<and> map_head p = [(kw ''_x'', None, UnkValue), (kw ''_y'', None, NaValue)]"
proof -
  let ?r = "cif_loop_get_packets ascii_icu sample_loop sample_db4"
  have "\<not> isl (fst ?r)" by code_simp
  then obtain it d' where get: "?r = (Inr it, d')" by (cases ?r; cases "fst ?r") auto
  have n: "item_norm ascii_icu (kw ''_x'') = Some (kw ''_x'')" "item_norm ascii_icu (kw ''_Y'') = Some (kw ''_y'')"
    by code_simp+
  have "names_normal ascii_icu (cur sample_db4)" "vals_readable (cur sample_db4)"
    using n by (simp_all add: names_normal_def vals_readable_def sample_db4_eq get_value_props_def bound_cols_def)
  note it = iteration_delivers_loop[OF get _ reachable_ok[OF sample_loop_reachable(2)] this]
  define v where "v = \<lparr>vl_container = 1, vl_name = kw ''_y'', vl_row = 1, vl_cols = bound_cols NaValue\<rparr>"
  have names: "loop_item_names (cur sample_db4) 1 0 = [kw ''_x'', kw ''_y'']" by code_simp
  have vals: "loop_vals (cur sample_db4) 1 0 = [v]" unfolding v_def by code_simp
  have l: "loop_container sample_loop = Some block_a" "loop_num sample_loop = 0" "cont_id block_a = 1" "vl_row v = 1"
    by (simp_all add: sample_loop_def block_a_def v_def)
  have "iterate ascii_icu it d' = ([packet_of ascii_icu [kw ''_x'', kw ''_y''] [v]], CIF_FINISHED)"
    using it names vals l by (simp del: kw_simps)
  moreover have "map_head (packet_of ascii_icu [kw ''_x'', kw ''_y''] [v])
      = [(kw ''_x'', None, UnkValue), (kw ''_y'', None, NaValue)]"
    by (simp add: packet_of_def cif_packet_create_norm_def fill_entry_def v_def value_of_cols_def get_value_props_def bound_cols_def)
  ultimately show ?thesis using get by blast
qed

end
