(* ===== verification/Writer.thy ===== *)
theory Writer
  imports Cif Analyze
begin

text \<open>
  Writing a CIF: the second half of src/ciffile.c, its handlers for the walker and \<open>cif_write\<close>.

  The output file is the list of the code units written to it; writing does not fail, and
  \<open>u_fprintf\<close> answers with the number of units it has written. Encoding them is the converter's
  work. Where the code reads outside an array or an assertion fails, the model sets the flag
  \<open>aborted\<close> and gives CIF_ERROR, which every caller passes on or turns into another error.
\<close>

section \<open>The context\<close>

record write_context =
  out_units :: ustring
  write_item_names :: bool
  separate_values :: bool
  last_column :: int
  ctx_depth :: int
  ctx_version :: int
  aborted :: bool

definition CONTEXT_INITIALIZE :: write_context where
  "CONTEXT_INITIALIZE =
     \<lparr>out_units = [], write_item_names = False, separate_values = True, last_column = 0,
      ctx_depth = 0, ctx_version = 0, aborted = False\<rparr>"

abbreviation (input) FOLDING_WINDOW :: nat where "FOLDING_WINDOW \<equiv> 6"

definition text_prefix :: ustring where
  "text_prefix = [0x3e, UCHAR_SP]"

definition emit :: "write_context \<Rightarrow> ustring \<Rightarrow> write_context" where
  "emit c us = c\<lparr>out_units := out_units c @ us\<rparr>"

definition abort :: "write_context \<Rightarrow> int \<times> write_context" where
  "abort c = (CIF_ERROR, c\<lparr>aborted := True\<rparr>)"

definition IS_CIF1 :: "write_context \<Rightarrow> bool" where
  "IS_CIF1 c \<longleftrightarrow> ctx_version c = 1"

section \<open>The characters of CIF 1.1\<close>

definition cif11_chars :: "uchar list" where
  "cif11_chars = [UCHAR_TAB, UCHAR_CR, UCHAR_NL] @ map of_nat [0x20..<0x7f]"

text \<open>
  The table has 128 entries, but the test for its end is against its size in bytes, 512: units
  from 128 to 511 are looked up outside it (\<open>None\<close>).
\<close>

fun cif_validate_cif11_characters :: "ustring \<Rightarrow> int option" where
  "cif_validate_cif11_characters [] = Some CIF_OK"
| "cif_validate_cif11_characters (c # cs) =
     (if c \<ge> 512 then Some CIF_DISALLOWED_CHAR
      else if c \<ge> 128 then None
      else if c \<notin> set cif11_chars then Some CIF_DISALLOWED_CHAR
      else cif_validate_cif11_characters cs)"

text \<open>The test that is made where the output is CIF 1.1.\<close>

definition validate_if_cif1 :: "write_context \<Rightarrow> ustring \<Rightarrow> int option" where
  "validate_if_cif1 c s = (if IS_CIF1 c then cif_validate_cif11_characters s else Some CIF_OK)"

section \<open>Literals\<close>

definition write_newline :: "write_context \<Rightarrow> write_context" where
  "write_newline c = (emit c [UCHAR_NL])\<lparr>last_column := 0\<rparr>"

text \<open>\<open>write_uliteral\<close> counts code points where it is not given a length.\<close>

definition write_units :: "ustring \<Rightarrow> int \<Rightarrow> bool \<Rightarrow> write_context \<Rightarrow> int \<times> write_context" where
  "write_units str len wrap c =
     (if len = 0 then (0, c)
      else if len + last_column c > CIF_LINE_LENGTH \<and> \<not> wrap then (- CIF_OVERLENGTH_LINE, c)
      else
        (let c = (if len + last_column c > CIF_LINE_LENGTH then write_newline c else c);
             us = take (nat len) str;
             nchars = int (length us)
         in (nchars, if nchars > 0 then (emit c us)\<lparr>last_column := last_column c + nchars\<rparr> else emit c us)))"

definition write_literal :: "ustring \<Rightarrow> int \<Rightarrow> bool \<Rightarrow> write_context \<Rightarrow> int \<times> write_context" where
  "write_literal str len wrap c =
     write_units str (if len < 0 then int (length str) else len) wrap c"

definition write_uliteral :: "icu \<Rightarrow> ustring \<Rightarrow> int \<Rightarrow> bool \<Rightarrow> write_context \<Rightarrow> int \<times> write_context" where
  "write_uliteral I str len wrap c =
     write_units str (if len < 0 then count_char32 I str else len) wrap c"

definition ENSURE_SPACED :: "write_context \<Rightarrow> bool \<times> write_context" where
  "ENSURE_SPACED c =
     (if last_column c \<le> 0 then (True, c)
      else
        (case write_literal [UCHAR_SP] 1 False c of
           (t, c) \<Rightarrow> if t = - CIF_OVERLENGTH_LINE then (True, write_newline c) else (t = 1, c)))"

section \<open>Quoted and unquoted strings\<close>

definition write_unquoted :: "icu \<Rightarrow> ustring \<Rightarrow> int \<Rightarrow> write_context \<Rightarrow> int \<times> write_context" where
  "write_unquoted I str len c =
     (case write_uliteral I str len True c of
        (nchars, c) \<Rightarrow>
          (if nchars < 0 then - nchars else if len < 0 \<or> len = nchars then CIF_OK else CIF_ERROR, c))"

definition write_quoted :: "ustring \<Rightarrow> int \<Rightarrow> uchar \<Rightarrow> write_context \<Rightarrow> int \<times> write_context" where
  "write_quoted str len delimiter c =
     (let c = (if last_column c + len + 2 > CIF_LINE_LENGTH then write_newline c else c);
          us = [delimiter] @ take (nat len) str @ [delimiter];
          nchars = int (length us)
      in (if nchars = len + 2 then CIF_OK else CIF_ERROR,
          (emit c us)\<lparr>last_column := last_column c + nchars\<rparr>))"

text \<open>
  The unit at \<open>line1_length\<close> is looked at when the first line fits in the current one; it must
  not be beyond the terminator, and must be a line terminator or the end of the text.
\<close>

definition write_triple_quoted ::
    "ustring \<Rightarrow> int \<Rightarrow> int \<Rightarrow> uchar \<Rightarrow> write_context \<Rightarrow> int \<times> write_context" where
  "write_triple_quoted str line1_length last_line_length delimiter c =
     (let wraps = last_column c + line1_length + 3 > CIF_LINE_LENGTH;
          u = unit_at str (nat line1_length)
      in if \<not> wraps \<and> (nat line1_length > length str \<or> (u \<noteq> 0 \<and> u \<noteq> UCHAR_NL)) then abort c
         else
           (let c = (if wraps then write_newline c else c);
                column0 = (if wraps \<or> u \<noteq> 0 then 0 else last_column c);
                us = replicate 3 delimiter @ str @ replicate 3 delimiter;
                nchars = int (length us)
            in (if nchars \<ge> line1_length + 6 then CIF_OK else CIF_ERROR,
                (emit c us)\<lparr>last_column := column0 + last_line_length + 3\<rparr>)))"

section \<open>Folding a line\<close>

definition IS_SURROGATE_PAIR :: "uchar \<Rightarrow> uchar \<Rightarrow> bool" where
  "IS_SURROGATE_PAIR u1 u2 \<longleftrightarrow> 0xdc00 \<le> u2 \<and> u2 \<le> 0xdfff \<and> 0xd800 \<le> u1 \<and> u1 < 0xdc00"

definition is_blank :: "uchar \<Rightarrow> bool" where
  "is_blank c \<longleftrightarrow> c = UCHAR_SP \<or> c = UCHAR_TAB"

text \<open>
  The first loop: up to the target length. \<open>Inl\<close>: the end of the line; \<open>Inr\<close>: the last folding
  boundary seen, -1 for none.
\<close>

function fold_below :: "ustring \<Rightarrow> nat \<Rightarrow> nat \<Rightarrow> int \<Rightarrow> nat + int" where
  "fold_below str target len low_candidate =
     (if len > target then Inr low_candidate
      else if unit_at str len = 0 then Inl len
      else fold_below str target (len + 1) (if is_blank (unit_at str len) then int len else low_candidate))"
  by pat_completeness auto
termination by (relation "measure (\<lambda>(str, target, len, low). target + 1 - len)") auto

declare fold_below.simps [simp del]

text \<open>The scan for the end of the line within the window.\<close>

function find_end :: "ustring \<Rightarrow> nat \<Rightarrow> nat \<Rightarrow> nat option" where
  "find_end str limit len =
     (if len > limit then None
      else if unit_at str len = 0 then Some len
      else find_end str limit (len + 1))"
  by pat_completeness auto
termination by (relation "measure (\<lambda>(str, limit, len). limit + 1 - len)") auto

declare find_end.simps [simp del]

text \<open>The second loop, over the window above the target length. \<open>None\<close>: it ends normally.\<close>

function fold_above :: "ustring \<Rightarrow> nat \<Rightarrow> nat \<Rightarrow> int \<Rightarrow> nat \<Rightarrow> nat option" where
  "fold_above str target window low_candidate len =
     (if len > target + window then None
      else if unit_at str len = 0 then Some len
      else if is_blank (unit_at str len) then
        (case find_end str (target + window) (len + 1) of
           Some e \<Rightarrow> Some e
         | None \<Rightarrow>
             if low_candidate < int target - int window then Some len
             else if (int len + low_candidate) div 2 < int target then Some len
             else Some (nat low_candidate))
      else fold_above str target window low_candidate (len + 1))"
  by pat_completeness auto
termination by (relation "measure (\<lambda>(str, target, window, low, len). target + window + 1 - len)") auto

declare fold_above.simps [simp del]

text \<open>A place where the line may be split in default of whitespace.\<close>

definition fold_point :: "ustring \<Rightarrow> bool \<Rightarrow> nat \<Rightarrow> bool" where
  "fold_point str for_prefix len \<longleftrightarrow>
     (unit_at str len \<noteq> UCHAR_SEMI \<or> for_prefix)
     \<and> \<not> IS_SURROGATE_PAIR (unit_at str (len - 1)) (unit_at str len)"

text \<open>
  The loop that goes back and forth around the target length: the steps are 0, +1, -2, +3 and
  so on. \<open>Inr\<close>: where it stands when it ends.
\<close>

function fold_near :: "ustring \<Rightarrow> bool \<Rightarrow> nat \<Rightarrow> nat \<Rightarrow> nat \<Rightarrow> nat + nat" where
  "fold_near str for_prefix window counter len =
     (if counter > 2 * window then Inr len
      else
        (let len = (if odd counter then len + counter else len - counter)
         in if fold_point str for_prefix len then Inl len
            else fold_near str for_prefix window (counter + 1) len))"
  by pat_completeness auto
termination by (relation "measure (\<lambda>(str, p, window, counter, len). 2 * window + 1 - counter)") auto

declare fold_near.simps [simp del]

primrec fold_down :: "ustring \<Rightarrow> bool \<Rightarrow> nat \<Rightarrow> nat option" where
  "fold_down str for_prefix 0 = None"
| "fold_down str for_prefix (Suc len) =
     (if len > 0 then (if fold_point str for_prefix len then Some len else fold_down str for_prefix len) else None)"

function fold_up :: "ustring \<Rightarrow> bool \<Rightarrow> nat \<Rightarrow> nat" where
  "fold_up str for_prefix len =
     (if unit_at str len = 0 then 0
      else if fold_point str for_prefix len then len
      else fold_up str for_prefix (len + 1))"
  by pat_completeness auto
termination by (relation "measure (\<lambda>(str, p, len). length str - len)") (auto simp: unit_at_def split: if_splits)

declare fold_up.simps [simp del]

definition fold_line :: "ustring \<Rightarrow> bool \<Rightarrow> nat \<Rightarrow> nat \<Rightarrow> bool \<Rightarrow> nat" where
  "fold_line str do_fold target window for_prefix =
     (if \<not> do_fold then length str
      else
        (case fold_below str target 0 (-1) of
           Inl len \<Rightarrow> len
         | Inr low_candidate \<Rightarrow>
             (case fold_above str target window low_candidate (target + 1) of
                Some len \<Rightarrow> len
              | None \<Rightarrow>
                  (case fold_near str for_prefix window 0 target of
                     Inl len \<Rightarrow> len
                   | Inr len \<Rightarrow>
                       (case fold_down str for_prefix len of
                          Some len \<Rightarrow> len
                        | None \<Rightarrow> fold_up str for_prefix (target + window + 1))))))"

section \<open>Text blocks\<close>

text \<open>
  The scan of one logical line: the line, whether the backslash at its end needs protection, and
  the text after its terminator if it has one.
\<close>

fun scan_logical_line :: "bool \<Rightarrow> bool \<Rightarrow> ustring \<Rightarrow> ustring \<times> bool \<times> ustring option" where
  "scan_logical_line fld protect [] = ([], protect, None)"
| "scan_logical_line fld protect (c # cs) =
     (if c = UCHAR_NL then ([], protect, Some cs)
      else
        (case scan_logical_line fld
                (if is_blank c then protect else if c = UCHAR_BSL then fld else False) cs of
           (l, protect, rest) \<Rightarrow> (c # l, protect, rest)))"

lemma scan_logical_line_rest: "scan_logical_line fld protect cs = (l, p, Some rest) \<Longrightarrow> length rest < length cs"
  by (induction cs arbitrary: protect l) (auto split: prod.splits if_splits, fastforce+)

text \<open>The segments of one line. The target length is that of a line less 8.\<close>

definition target_length :: nat where
  "target_length = nat (CIF_LINE_LENGTH - 8)"

function write_segments :: "bool \<Rightarrow> bool \<Rightarrow> bool \<Rightarrow> ustring \<Rightarrow> write_context \<Rightarrow> int \<times> write_context" where
  "write_segments fld pfx protect tok c =
     (if tok = [] then (CIF_OK, c)
      else
        (let len = fold_line tok fld target_length FOLDING_WINDOW pfx
         in if len = 0 then (CIF_INTERNAL_ERROR, c)
            else
              write_segments fld pfx protect (drop len tok)
                (emit c ([UCHAR_NL] @ (if pfx then text_prefix else []) @ take len tok
                         @ (if len < length tok \<or> protect then [UCHAR_BSL] else [])))))"
  by pat_completeness auto
termination by (relation "measure (\<lambda>(fld, pfx, protect, tok, c). length tok)") auto

declare write_segments.simps [simp del]

function write_lines :: "bool \<Rightarrow> bool \<Rightarrow> ustring \<Rightarrow> write_context \<Rightarrow> int \<times> write_context" where
  "write_lines fld pfx str c =
     (if str \<noteq> [] \<and> hd str = UCHAR_NL then write_lines fld pfx (tl str) (emit c [UCHAR_NL])
      else
        (case scan_logical_line fld False str of
           (l, protect, rest) \<Rightarrow>
             (case write_segments fld pfx protect l c of
                (result, c) \<Rightarrow>
                  if result \<noteq> CIF_OK then (result, c)
                  else
                    (let c = (if protect then emit c [UCHAR_NL] else c)
                     in case rest of None \<Rightarrow> (CIF_OK, c) | Some r \<Rightarrow> write_lines fld pfx r c))))"
  by pat_completeness auto
termination
  by (relation "measure (\<lambda>(fld, pfx, str, c). length str)") (auto dest: scan_logical_line_rest [OF sym])

declare write_lines.simps [simp del]

definition write_text :: "ustring \<Rightarrow> bool \<Rightarrow> bool \<Rightarrow> write_context \<Rightarrow> int \<times> write_context" where
  "write_text str fld pfx c =
     (if str = [] then abort c
      else
        (let c = emit c ([UCHAR_NL, UCHAR_SEMI] @ (if pfx then text_prefix @ [UCHAR_BSL] else [])
                         @ (if fld then [UCHAR_BSL] else []))
         in case (if \<not> fld \<and> \<not> pfx then (CIF_OK, emit c str) else write_lines fld pfx str c) of
              (result, c) \<Rightarrow>
                if result \<noteq> CIF_OK then (result, c)
                else (CIF_OK, (emit c [UCHAR_NL, UCHAR_SEMI])\<lparr>last_column := 1\<rparr>)))"

section \<open>Values\<close>

definition write_char :: "icu \<Rightarrow> cif_value \<Rightarrow> bool \<Rightarrow> write_context \<Rightarrow> int \<times> write_context" where
  "write_char I v allow_text c =
     (case cif_value_get_text v of
        None \<Rightarrow> (CIF_ERROR, c)
      | Some str \<Rightarrow>
          (case validate_if_cif1 c str of
             None \<Rightarrow> abort c
           | Some result \<Rightarrow>
               if result \<noteq> CIF_OK then (result, c)
               else
                 (let a = cif_analyze_string str (cif_value_is_quoted v \<noteq> CIF_QUOTED) (\<not> IS_CIF1 c) CIF_LINE_LENGTH
                  in if delim_length a = 0 then write_unquoted I str (length_max a) c
                     else if delim_length a = 1 then write_quoted str (length_all a) (unit_at (delim a) 0) c
                     else if delim_length a = 3 then
                       write_triple_quoted str (length_first a + 3) (length_last a) (unit_at (delim a) 0) c
                     else if delim_length a = 2 then
                       (if \<not> allow_text \<or> (contains_text_delim a \<and> IS_CIF1 c) then (CIF_DISALLOWED_VALUE, c)
                        else
                          write_text str
                            (length_first a \<ge> CIF_LINE_LENGTH \<or> length_max a > CIF_LINE_LENGTH
                             \<or> has_reserved_start a \<or> max_semi_run a \<ge> CIF_LINE_LENGTH - 1)
                            (contains_text_delim a) c)
                     else (CIF_INTERNAL_ERROR, c))))"

definition write_numb :: "icu \<Rightarrow> cif_value \<Rightarrow> write_context \<Rightarrow> int \<times> write_context" where
  "write_numb I v c =
     (if cif_value_is_quoted v = CIF_QUOTED then write_char I v True c
      else
        (case cif_value_get_text v of
           None \<Rightarrow> (CIF_ERROR, c)
         | Some str \<Rightarrow>
             (case write_uliteral I str (-1) (separate_values c) c of
                (nchars, c) \<Rightarrow> (if nchars < 0 then - nchars else if nchars > 0 then 0 else CIF_ERROR, c))))"

text \<open>
  The loop over the elements of a list, with the function that writes one.
\<close>

fun write_elements ::
    "(cif_value \<Rightarrow> write_context \<Rightarrow> int \<times> write_context) \<Rightarrow> cif_value \<Rightarrow> nat list \<Rightarrow> write_context \<Rightarrow>
     int \<times> write_context" where
  "write_elements item v [] c = (CIF_OK, c)"
| "write_elements item v (i # is) c =
     (case cif_value_get_element_at v i of
        Inl e \<Rightarrow> (CIF_INTERNAL_ERROR, c)
      | Inr element \<Rightarrow>
          (case item element c of (result, c) \<Rightarrow> if result > 0 then (result, c) else write_elements item v is c))"

definition write_list ::
    "(cif_value \<Rightarrow> write_context \<Rightarrow> int \<times> write_context) \<Rightarrow> cif_value \<Rightarrow> write_context \<Rightarrow> int \<times> write_context" where
  "write_list item v c =
     (case cif_value_get_element_count v of
        Inl e \<Rightarrow> (CIF_INTERNAL_ERROR, c)
      | Inr count \<Rightarrow>
          (case write_literal [UCHAR_OBRK] 1 True c of
             (n, c) \<Rightarrow>
               if n \<noteq> 1 then (CIF_ERROR, c)
               else
                 (let write_names_save = write_item_names c; separate_values_save = separate_values c
                  in case write_elements item v [0..<count] (c\<lparr>write_item_names := False, separate_values := True\<rparr>) of
                       (result, c) \<Rightarrow>
                         if result \<noteq> CIF_OK then (result, c)
                         else
                           (case write_literal [UCHAR_SP, UCHAR_CBRK] 2 True c of
                              (n, c) \<Rightarrow>
                                if n = 2 then
                                  (CIF_OK, c\<lparr>separate_values := separate_values_save,
                                              write_item_names := write_names_save\<rparr>)
                                else (CIF_ERROR, c)))))"

text \<open>The loop over the keys of a table.\<close>

definition u_strHasMoreChar32Than :: "icu \<Rightarrow> ustring \<Rightarrow> int \<Rightarrow> bool" where
  "u_strHasMoreChar32Than I str n \<longleftrightarrow> n < 0 \<or> count_char32 I str > n"

definition write_entry ::
    "icu \<Rightarrow> (cif_value \<Rightarrow> write_context \<Rightarrow> int \<times> write_context) \<Rightarrow> ustring \<Rightarrow> cif_value \<Rightarrow> write_context \<Rightarrow>
     int \<times> write_context" where
  "write_entry I item key v c =
     (let c = (if u_strHasMoreChar32Than I key (CIF_LINE_LENGTH - (last_column c + 4)) then write_newline c else c)
      in case ENSURE_SPACED (c\<lparr>separate_values := False\<rparr>) of
           (spaced, c) \<Rightarrow>
             if \<not> spaced then (CIF_ERROR, c)
             else
               (case write_char I (snd (cif_value_copy_char (cif_value_create CIF_UNK_KIND) (Some key))) False c of
                  (result, c) \<Rightarrow>
                    if result \<noteq> CIF_OK then (result, c)
                    else
                      (case write_literal [UCHAR_COLON] 1 False c of
                         (n, c) \<Rightarrow>
                           if n \<noteq> 1 then (CIF_ERROR, c)
                           else (case item v c of (result, c) \<Rightarrow> (if result > 0 then result else CIF_OK, c)))))"

fun write_entries ::
    "icu \<Rightarrow> (cif_value \<Rightarrow> write_context \<Rightarrow> int \<times> write_context) \<Rightarrow> cif_value \<Rightarrow> ustring list \<Rightarrow> write_context \<Rightarrow>
     int \<times> write_context" where
  "write_entries I item v [] c = (CIF_OK, c)"
| "write_entries I item v (key # keys) c =
     (case cif_value_get_item_by_key I v key of
        Inl e \<Rightarrow> (CIF_INTERNAL_ERROR, c)
      | Inr value \<Rightarrow>
          (case write_entry I item key value c of
             (result, c) \<Rightarrow> if result \<noteq> CIF_OK then (result, c) else write_entries I item v keys c))"

definition write_table ::
    "icu \<Rightarrow> (cif_value \<Rightarrow> write_context \<Rightarrow> int \<times> write_context) \<Rightarrow> cif_value \<Rightarrow> write_context \<Rightarrow> int \<times> write_context" where
  "write_table I item v c =
     (case cif_value_get_keys I v of
        Inl e \<Rightarrow> (e, c)
      | Inr keys \<Rightarrow>
          (let separate_values_save = separate_values c
           in case write_literal [UCHAR_OBRC] 1 separate_values_save c of
                (n, c) \<Rightarrow>
                  if n \<noteq> 1 then (CIF_ERROR, c)
                  else
                    (let write_names_save = write_item_names c
                     in case write_entries I item v keys (c\<lparr>write_item_names := False\<rparr>) of
                          (result, c) \<Rightarrow>
                            if result \<noteq> CIF_OK then (result, c)
                            else
                              (case write_literal [UCHAR_SP, UCHAR_CBRC] 2 True c of
                                 (n, c) \<Rightarrow>
                                   if n = 2 then
                                     (CIF_OK, c\<lparr>separate_values := separate_values_save,
                                                 write_item_names := write_names_save\<rparr>)
                                   else (CIF_ERROR, c)))))"

text \<open>What \<open>write_list\<close> and \<open>write_table\<close> write are elements and entries of the value.\<close>

lemma write_elements_cong:
  "(\<And>e i c. cif_value_get_element_at v i = Inr e \<Longrightarrow> f e c = g e c) \<Longrightarrow>
   write_elements f v is c = write_elements g v is c"
  by (induction "is" arbitrary: c) (auto split: sum.splits prod.splits)

lemma write_list_cong [fundef_cong]:
  assumes "v = v'" "c = c'" "\<And>e i c. cif_value_get_element_at v' i = Inr e \<Longrightarrow> f e c = g e c"
  shows "write_list f v c = write_list g v' c'"
proof -
  have "write_elements f v' = write_elements g v'" by (intro ext write_elements_cong assms(3))
  then show ?thesis by (simp only: write_list_def assms(1,2))
qed

lemma write_entries_cong:
  assumes "\<And>e key c. cif_value_get_item_by_key I v key = Inr e \<Longrightarrow> f e c = g e c"
  shows "write_entries I f v keys c = write_entries I g v keys c"
  using assms
proof (induction keys arbitrary: c)
  case (Cons key keys)
  have "write_entry I f key e c = write_entry I g key e c"
    if "cif_value_get_item_by_key I v key = Inr e" for e
  proof -
    have "f e = g e" using Cons.prems [OF that] by blast
    then show ?thesis by (simp only: write_entry_def)
  qed
  then show ?case using Cons by (simp split: sum.split prod.split)
qed simp

lemma write_table_cong [fundef_cong]:
  assumes "I = I'" "v = v'" "c = c'" "\<And>e key c. cif_value_get_item_by_key I' v' key = Inr e \<Longrightarrow> f e c = g e c"
  shows "write_table I f v c = write_table I' g v' c'"
proof -
  have "write_entries I' f v' = write_entries I' g v'" by (intro ext write_entries_cong assms(4))
  then show ?thesis by (simp only: write_table_def assms(1-3))
qed

lemma size_element: "cif_value_get_element_at v i = Inr e \<Longrightarrow> size e < size v"
  by (cases v) (auto split: if_splits simp: less_Suc_eq_le dest: nth_mem intro!: size_list_estimation')

lemma hash_entry_in: "hash_find es key = Some e \<Longrightarrow> e \<in> set es"
  by (induction es) (auto split: if_splits)

lemma size_entry_mem: "(k, ko, v) \<in> set es \<Longrightarrow> size v < size (TableValue es)"
  by (induction es) auto

lemma size_entry: "cif_value_get_item_by_key I v key = Inr e \<Longrightarrow> size e < size v"
  by (cases v)
     (auto simp: cif_map_retrieve_item_def table_map_def split: sum.splits option.splits
       dest!: hash_entry_in dest: size_entry_mem)

function write_item :: "icu \<Rightarrow> ustring option \<Rightarrow> cif_value \<Rightarrow> write_context \<Rightarrow> int \<times> write_context" where
  "write_item I name v c =
     (case
        (if \<not> write_item_names c then (CIF_OK, c)
         else
           (case name of
              None \<Rightarrow> abort c
            | Some n \<Rightarrow>
                (case validate_if_cif1 c n of
                   None \<Rightarrow> abort c
                 | Some result \<Rightarrow>
                     if result \<noteq> CIF_OK then (result, c)
                     else
                       (case write_uliteral I n (-1) False (if last_column c > 0 then write_newline c else c) of
                          (nchars, c) \<Rightarrow> (if nchars < 2 then CIF_ERROR else CIF_OK, c)))))
      of (result, c) \<Rightarrow>
        if result \<noteq> CIF_OK then (result, c)
        else
          (case (if separate_values c then ENSURE_SPACED c else (True, c)) of
             (spaced, c) \<Rightarrow>
               if \<not> spaced then (CIF_ERROR, c)
               else
                 (case cif_value_kind v of
                    CIF_CHAR_KIND \<Rightarrow> write_char I v True c
                  | CIF_NUMB_KIND \<Rightarrow> write_numb I v c
                  | CIF_LIST_KIND \<Rightarrow>
                      if IS_CIF1 c then (CIF_DISALLOWED_VALUE, c)
                      else write_list (\<lambda>e c. write_item I None e c) v c
                  | CIF_TABLE_KIND \<Rightarrow>
                      if IS_CIF1 c then (CIF_DISALLOWED_VALUE, c)
                      else write_table I (\<lambda>e c. write_item I None e c) v c
                  | CIF_NA_KIND \<Rightarrow>
                      (case write_literal [UCHAR_DECIMAL] 1 True c of (n, c) \<Rightarrow> (if n = 1 then CIF_OK else CIF_ERROR, c))
                  | CIF_UNK_KIND \<Rightarrow>
                      (case write_literal [UCHAR_QUERY] 1 True c of (n, c) \<Rightarrow> (if n = 1 then CIF_OK else CIF_ERROR, c)))))"
  by pat_completeness auto
termination
  by (relation "measure (\<lambda>(I, name, v, c). size v)") (auto dest: size_element size_entry)

declare write_item.simps [simp del]

section \<open>Handlers\<close>

definition write_cif_start :: "write_context step" where
  "write_cif_start w =
     (case w of (c, d) \<Rightarrow>
        (CIF_TRAVERSE_CONTINUE,
         (emit c ([UCHAR_HASH, UCHAR_BSL] @ (if IS_CIF1 c then kw ''#CIF_1.1'' else kw ''#CIF_2.0'') @ [UCHAR_NL]))
           \<lparr>last_column := 0\<rparr>, d))"

definition write_cif_end :: "write_context step" where
  "write_cif_end w = (case w of (c, d) \<Rightarrow> (CIF_TRAVERSE_CONTINUE, write_newline c, d))"

definition write_container_start :: "cif_container \<Rightarrow> write_context step" where
  "write_container_start block w =
     (case w of (c, d) \<Rightarrow>
        (let code = cif_container_get_code block;
             this_header_type = (if ctx_depth c = 0 then kw ''data_'' else kw ''save_'')
         in case validate_if_cif1 c code of
              None \<Rightarrow> (fst (abort c), snd (abort c), d)
            | Some result \<Rightarrow>
                if result \<noteq> CIF_OK then (result, c, d)
                else
                  (let us = [UCHAR_NL] @ this_header_type @ code @ [UCHAR_NL];
                       c = (emit c us)\<lparr>last_column := 0\<rparr>
                   in if length us > 7 then (CIF_TRAVERSE_CONTINUE, c\<lparr>ctx_depth := ctx_depth c + 1\<rparr>, d)
                      else (CIF_ERROR, c, d))))"

definition write_container_end :: "cif_container \<Rightarrow> write_context step" where
  "write_container_end block w =
     (case w of (c, d) \<Rightarrow>
        (let c = c\<lparr>ctx_depth := ctx_depth c - 1, last_column := 0\<rparr>
         in if ctx_depth c = 0 then (CIF_TRAVERSE_CONTINUE, write_newline c, d)
            else (CIF_TRAVERSE_CONTINUE, emit c ([UCHAR_NL] @ kw ''save_'' @ [UCHAR_NL]), d)))"

text \<open>The names of a loop's header; after an error the rest are only freed.\<close>

fun write_loop_names :: "ustring list \<Rightarrow> write_context \<Rightarrow> int \<times> write_context" where
  "write_loop_names [] c = (CIF_OK, c)"
| "write_loop_names (n # ns) c =
     (case validate_if_cif1 c n of
        None \<Rightarrow> abort c
      | Some result \<Rightarrow>
          if result \<noteq> CIF_TRAVERSE_CONTINUE then (result, c)
          else
            (let us = [UCHAR_SP] @ n @ [UCHAR_NL]; c = (emit c us)\<lparr>last_column := 0\<rparr>
             in if length us < 4 then (CIF_ERROR, c) else write_loop_names ns c))"

text \<open>The array of names ends in NULL; without an array the first access goes wrong.\<close>

definition write_loop_start :: "icu \<Rightarrow> cif_loop \<Rightarrow> write_context step" where
  "write_loop_start I l w =
     (case w of (c, d) \<Rightarrow>
        if cif_loop_get_category l = Some [] then
          (CIF_TRAVERSE_CONTINUE, (write_newline c)\<lparr>write_item_names := True\<rparr>, d)
        else
          (let c = (emit (c\<lparr>write_item_names := False\<rparr>) ([UCHAR_NL] @ kw ''loop_'' @ [UCHAR_NL]))\<lparr>last_column := 0\<rparr>
           in case cif_loop_get_names I l d of
                (Inl e, d) \<Rightarrow> (e, c, d)
              | (Inr None, d) \<Rightarrow> (fst (abort c), snd (abort c), d)
              | (Inr (Some ns), d) \<Rightarrow> (case write_loop_names ns c of (result, c) \<Rightarrow> (result, c, d))))"

definition write_loop_end :: "cif_loop \<Rightarrow> write_context step" where
  "write_loop_end l w = (case w of (c, d) \<Rightarrow> (CIF_TRAVERSE_CONTINUE, write_newline c, d))"

definition write_packet_start :: "cif_map \<Rightarrow> write_context step" where
  "write_packet_start packet w = (CIF_TRAVERSE_CONTINUE, w)"

definition write_packet_end :: "cif_map \<Rightarrow> write_context step" where
  "write_packet_end packet w = (case w of (c, d) \<Rightarrow> (CIF_TRAVERSE_CONTINUE, write_newline c, d))"

definition write_handler :: "icu \<Rightarrow> write_context cif_handler" where
  "write_handler I =
     \<lparr>handle_cif_start = Some write_cif_start, handle_cif_end = Some write_cif_end,
      handle_block_start = Some write_container_start, handle_block_end = Some write_container_end,
      handle_frame_start = Some write_container_start, handle_frame_end = Some write_container_end,
      handle_loop_start = Some (write_loop_start I), handle_loop_end = Some write_loop_end,
      handle_packet_start = Some write_packet_start, handle_packet_end = Some write_packet_end,
      handle_item = Some (\<lambda>name v w. case w of (c, d) \<Rightarrow>
                       (case write_item I (Some name) v c of (result, c) \<Rightarrow> (result, c, d)))\<rparr>"

text \<open>
  \<open>version\<close> is that of the options, \<open>None\<close> without options. The result is that of the walk,
  with the context at its end. \<open>None\<close>: out of fuel.
\<close>

definition cif_write :: "nat \<Rightarrow> icu \<Rightarrow> int option \<Rightarrow> db \<Rightarrow> (int \<times> write_context \<times> db) option" where
  "cif_write fuel I version d =
     cif_walk fuel I (write_handler I)
       (if version = Some 1 then CONTEXT_INITIALIZE\<lparr>ctx_version := 1\<rparr> else CONTEXT_INITIALIZE, d)"

end
