(* ===== verification/Scanner.thy ===== *)
theory Scanner
  imports Names
begin

text \<open>
  The scanner of src/parser.c: character classes, buffering of the character source, and the
  functions that recognise one token at a time.

  The scanner's buffer is a list as long as the allocated array; pointers into it are indices.
  The character source is the list of what successive reads deliver: an error, or some code
  units, handed out in pieces when the caller's room is smaller. User callbacks do not change
  the scanner: the error callback is a function of the history of what was reported, the
  current report first, so that it can be any callback with a state of its own; the calls of
  the whitespace, keyword and data name callbacks are in the same history. Line and column numbers do not wrap.
\<close>

section \<open>Character classes\<close>

datatype char_class =
  NO_CLASS | GENERAL_CLASS | WS_CLASS | EOL_CLASS | HASH_CLASS | UNDERSC_CLASS | QUOTE_CLASS
| SEMI_CLASS | OBRAK_CLASS | CBRAK_CLASS | OCURL_CLASS | CCURL_CLASS | DOLLAR_CLASS
| OBRAK1_CLASS | CBRAK1_CLASS | A_CLASS | B_CLASS | D_CLASS | E_CLASS | G_CLASS | L_CLASS
| O_CLASS | P_CLASS | S_CLASS | T_CLASS | V_CLASS

datatype meta_class = NO_META | GENERAL_META | WS_META | OPEN_META | CLOSE_META

datatype token_type =
  BLOCK_HEAD | FRAME_HEAD | FRAME_TERM | LOOPKW | NAME | OTABLE | CTABLE | OLIST | CLIST | KEY
| TKEY | VALUE | QVALUE | TVALUE | END | ERROR

abbreviation (input) CHAR_TABLE_MAX :: uchar where "CHAR_TABLE_MAX \<equiv> 160"
abbreviation (input) CIF1_MAX_CHAR :: uchar where "CIF1_MAX_CHAR \<equiv> 0x7e"
abbreviation (input) EOF_CHAR :: uchar where "EOF_CHAR \<equiv> 0xffff"
abbreviation (input) REPL_CHAR :: uchar where "REPL_CHAR \<equiv> 0xfffd"
abbreviation (input) REPL1_CHAR :: uchar where "REPL1_CHAR \<equiv> 0x2a"
abbreviation (input) CIF_EOF :: int where "CIF_EOF \<equiv> -1"
abbreviation (input) BUF_MIN_FILL :: nat where "BUF_MIN_FILL \<equiv> 2050"

text \<open>The assignments at the end of INIT_V2_SCANNER.\<close>

definition fixed_classes :: "(uchar \<times> char_class) list" where
  "fixed_classes =
    [(UCHAR_TAB, WS_CLASS), (UCHAR_NL, EOL_CLASS), (UCHAR_CR, EOL_CLASS), (0x20, WS_CLASS),
     (0x22, QUOTE_CLASS), (0x23, HASH_CLASS), (0x24, DOLLAR_CLASS), (0x27, QUOTE_CLASS),
     (UCHAR_COLON, GENERAL_CLASS), (UCHAR_SEMI, SEMI_CLASS), (0x5b, OBRAK_CLASS), (0x5d, CBRAK_CLASS),
     (0x5f, UNDERSC_CLASS), (0x7b, OCURL_CLASS), (0x7d, CCURL_CLASS),
     (0x41, A_CLASS), (0x61, A_CLASS), (0x42, B_CLASS), (0x62, B_CLASS), (0x44, D_CLASS), (0x64, D_CLASS),
     (0x45, E_CLASS), (0x65, E_CLASS), (0x47, G_CLASS), (0x67, G_CLASS), (0x4c, L_CLASS), (0x6c, L_CLASS),
     (0x4f, O_CLASS), (0x6f, O_CLASS), (0x50, P_CLASS), (0x70, P_CLASS), (0x53, S_CLASS), (0x73, S_CLASS),
     (0x54, T_CLASS), (0x74, T_CLASS), (0x56, V_CLASS), (0x76, V_CLASS), (0x7f, NO_CLASS)]"

text \<open>
  The class table of INIT_V2_SCANNER, for indices below CHAR_TABLE_MAX: the extra whitespace
  and line terminator characters are applied after the ranges and before the fixed entries.
\<close>

definition init_v2_class :: "uchar list \<Rightarrow> uchar list \<Rightarrow> uchar \<Rightarrow> char_class" where
  "init_v2_class ws eol c =
     (case map_of fixed_classes c of
        Some k \<Rightarrow> k
      | None \<Rightarrow>
          if c \<in> set eol then EOL_CLASS
          else if c \<in> set ws then WS_CLASS
          else if 32 \<le> c \<and> c < 127 then GENERAL_CLASS
          else NO_CLASS)"

definition set_v1_class :: "(uchar \<Rightarrow> char_class) \<Rightarrow> uchar \<Rightarrow> char_class" where
  "set_v1_class tbl =
     tbl(0x5b := OBRAK1_CLASS, 0x5d := CBRAK1_CLASS, 0x7b := GENERAL_CLASS, 0x7d := GENERAL_CLASS)"

fun init_meta_class :: "char_class \<Rightarrow> meta_class" where
  "init_meta_class NO_CLASS = NO_META"
| "init_meta_class WS_CLASS = WS_META"
| "init_meta_class EOL_CLASS = WS_META"
| "init_meta_class OBRAK_CLASS = OPEN_META"
| "init_meta_class OCURL_CLASS = OPEN_META"
| "init_meta_class CBRAK_CLASS = CLOSE_META"
| "init_meta_class CCURL_CLASS = CLOSE_META"
| "init_meta_class _ = GENERAL_META"

section \<open>The scanner's state\<close>

text \<open>A report: code, line, column and the text the callback is shown.\<close>

datatype event =
    ErrorEvent int int int ustring
  | WhitespaceEvent int int ustring
  | KeywordEvent int int ustring
  | DatanameEvent int int ustring

record scanner =
  buffer :: ustring
  buffer_limit :: nat
  next_char :: nat
  ttype :: token_type
  text_start :: nat
  tvalue_start :: nat
  tvalue_length :: int
  line :: int
  column :: int
  char_class :: "uchar \<Rightarrow> char_class"
  char_source :: "(int + ustring) list"
  at_eof :: bool
  cif_version :: int
  line_unfolding :: int
  prefix_removing :: int
  max_frame_depth :: int
  skip_depth :: int
  events :: "event list"
  error_callback :: "event list \<Rightarrow> int"

definition buffer_size :: "scanner \<Rightarrow> nat" where
  "buffer_size s = length (buffer s)"

definition CLASS_OF :: "uchar \<Rightarrow> scanner \<Rightarrow> char_class" where
  "CLASS_OF c s =
     (if c < CHAR_TABLE_MAX then char_class s c
      else if cif_version s \<ge> 2 then GENERAL_CLASS else NO_CLASS)"

definition METACLASS_OF :: "uchar \<Rightarrow> scanner \<Rightarrow> meta_class" where
  "METACLASS_OF c s = init_meta_class (CLASS_OF c s)"

text \<open>The call of the error callback with \<open>len\<close> units of the buffer from \<open>pos\<close>.\<close>

definition report_error :: "scanner \<Rightarrow> int \<Rightarrow> int \<Rightarrow> nat \<Rightarrow> nat \<Rightarrow> int \<times> scanner" where
  "report_error s code col pos len =
     (let s' = s\<lparr>events := ErrorEvent code (line s) col (take len (drop pos (buffer s))) # events s\<rparr>
      in (error_callback s (events s'), s'))"

definition report_ws :: "scanner \<Rightarrow> nat \<Rightarrow> nat \<Rightarrow> scanner" where
  "report_ws s pos len =
     s\<lparr>events := WhitespaceEvent (line s) (column s) (take len (drop pos (buffer s))) # events s\<rparr>"

section \<open>The character source\<close>

text \<open>
  What a read of up to \<open>count\<close> units gives: an error code, or the units (none at the end of the
  source), and the source that is left.
\<close>

fun read_func :: "(int + ustring) list \<Rightarrow> nat \<Rightarrow> ustring res \<times> (int + ustring) list" where
  "read_func [] count = (Inr [], [])"
| "read_func (Inl e # src) count = (if count = 0 then (Inr [], Inl e # src) else (Inl e, src))"
| "read_func (Inr us # src) count =
     (if count = 0 then (Inr [], Inr us # src)
      else if us = [] then read_func src count
      else if length us \<le> count then (Inr us, src)
      else (Inr (take count us), Inr (drop count us) # src))"

text \<open>\<open>u_memchr\<close> for a carriage return from a position on.\<close>

fun find_cr :: "ustring \<Rightarrow> nat \<Rightarrow> nat option" where
  "find_cr [] i = None"
| "find_cr (c # cs) 0 = (if c = UCHAR_CR then Some 0 else map_option Suc (find_cr cs 0))"
| "find_cr (c # cs) (Suc i) = map_option Suc (find_cr cs i)"

lemma find_cr_bounds: "find_cr r i = Some j \<Longrightarrow> i \<le> j \<and> j < length r \<and> r ! j = UCHAR_CR"
  by (induction r i arbitrary: j rule: find_cr.induct) (auto split: if_splits)

text \<open>
  The \<open>do\<close> loops of \<open>get_more_chars\<close>: the next CR that an LF follows; a bare CR before it is
  replaced by LF in place.
\<close>

function find_crlf :: "ustring \<Rightarrow> nat \<Rightarrow> ustring \<times> nat option" where
  "find_crlf r lead =
     (case find_cr r lead of
        None \<Rightarrow> (r, None)
      | Some i \<Rightarrow>
          if i + 1 < length r \<and> r ! (i + 1) = UCHAR_NL then (r, Some i)
          else find_crlf (r[i := UCHAR_NL]) (i + 1))"
  by pat_completeness auto
termination
  by (relation "measure (\<lambda>(r, lead). length r - lead)") (auto dest: find_cr_bounds)

declare find_crlf.simps [simp del]

definition u_memmove :: "ustring \<Rightarrow> nat \<Rightarrow> nat \<Rightarrow> nat \<Rightarrow> ustring" where
  "u_memmove r dest src len =
     map (\<lambda>i. if dest \<le> i \<and> i < dest + len then r ! (src + (i - dest)) else r ! i) [0..<length r]"

lemma length_u_memmove [simp]: "length (u_memmove r dest src len) = length r"
  by (simp add: u_memmove_def)

lemma find_crlf_length [simp]: "length (fst (find_crlf r lead)) = length r"
proof (induction r lead rule: find_crlf.induct)
  case (1 r lead)
  then show ?case by (subst find_crlf.simps) (auto split: option.split)
qed

lemma find_crlf_Some: "find_crlf r lead = (r', Some i) \<Longrightarrow> lead \<le> i \<and> i + 1 < length r"
proof (induction r lead rule: find_crlf.induct)
  case (1 r lead)
  show ?case
  proof (cases "find_cr r lead")
    case None
    then show ?thesis using 1(2) by (simp add: find_crlf.simps [of r lead])
  next
    case (Some j)
    then show ?thesis
      using 1 find_cr_bounds [OF Some] by (fastforce simp: find_crlf.simps [of r lead] split: if_splits)
  qed
qed

text \<open>
  The loop that closes the gaps: \<open>lead\<close> is the CR of a CRLF pair, \<open>dest\<close> where the next piece
  goes; the number of units read is decreased when a further pair is found.
\<close>

function move_lines :: "ustring \<Rightarrow> nat \<Rightarrow> nat \<Rightarrow> nat \<Rightarrow> ustring \<times> nat" where
  "move_lines r dest lead nread =
     (let trail = lead + 1; (r, nxt) = find_crlf r trail
      in case nxt of
           None \<Rightarrow> (u_memmove r dest trail (length r - trail), nread)
         | Some i \<Rightarrow>
             move_lines (u_memmove r dest trail (i - trail)) (dest + (i - trail)) i (nread - 1))"
  by pat_completeness auto
termination
  by (relation "measure (\<lambda>(r, dest, lead, n). length r - lead)")
     (auto dest: find_crlf_Some, metis find_crlf_Some Suc_eq_plus1 Suc_le_lessD add_lessD1 diff_less_mono2 find_crlf_length fst_conv lessI less_trans)


declare move_lines.simps [simp del]

text \<open>The conversion of the line terminators of the units just read, and how many the code counts.\<close>

definition convert_terminators :: "ustring \<Rightarrow> ustring \<times> nat" where
  "convert_terminators r =
     (case find_crlf r 0 of
        (r, None) \<Rightarrow> (r, length r)
      | (r, Some lead) \<Rightarrow> move_lines r lead lead (length r))"

section \<open>Buffering\<close>

text \<open>
  The first part of \<open>get_more_chars\<close>: reset an empty buffer; otherwise, when too little room is
  left, move the current text to the front, of the same array or of one of twice the size
  (whose other units are uninitialised: 0 here).
\<close>

definition make_room :: "scanner \<Rightarrow> scanner" where
  "make_room s =
     (let chars_read = next_char s; chars_consumed = text_start s in
      if chars_consumed \<ge> buffer_limit s then
        s\<lparr>text_start := 0, tvalue_start := 0, next_char := 0, buffer_limit := 0\<rparr>
      else if buffer_size s < buffer_limit s + BUF_MIN_FILL then
        (let current_chars = chars_read - chars_consumed;
             tvalue_diff = tvalue_start s - text_start s;
             buf = (if current_chars * 2 < buffer_size s
                    then u_memmove (buffer s) 0 (text_start s) current_chars
                    else take current_chars (drop (text_start s) (buffer s))
                         @ replicate (buffer_size s * 2 - current_chars) 0)
         in s\<lparr>buffer := buf, text_start := 0, tvalue_start := tvalue_diff,
              next_char := current_chars, buffer_limit := current_chars\<rparr>)
      else s)"

definition get_more_chars :: "scanner \<Rightarrow> int \<times> scanner" where
  "get_more_chars s0 =
     (let s = make_room s0;
          (units, src) = (if at_eof s then (Inr [], char_source s)
                          else read_func (char_source s) (buffer_size s - buffer_limit s));
          s = s\<lparr>char_source := src\<rparr>
      in case units of
           Inl read_error \<Rightarrow> (read_error, s)
         | Inr us \<Rightarrow>
             if us = [] then (CIF_EOF, s\<lparr>at_eof := True\<rparr>)
             else (let (r, nread) = convert_terminators us
                   in (CIF_OK, s\<lparr>buffer := take (buffer_limit s) (buffer s) @ r
                                 @ drop (buffer_limit s + length r) (buffer s),
                               buffer_limit := buffer_limit s + nread\<rparr>)))"

text \<open>
  \<open>get_first_char\<close>. After an initial CR the second read is for as much as the buffer holds;
  only its first unit is looked at.
\<close>

definition get_first_char :: "scanner \<Rightarrow> int \<times> scanner" where
  "get_first_char s0 =
     (let s = s0\<lparr>tvalue_start := 0\<rparr>;
          (units, src) = read_func (char_source s) 1;
          s = s\<lparr>char_source := src\<rparr>
      in case units of
           Inl read_error \<Rightarrow> (read_error, s)
         | Inr [] \<Rightarrow> (CIF_EOF, s\<lparr>at_eof := True\<rparr>)
         | Inr (ch # _) \<Rightarrow>
             (let s = s\<lparr>buffer := (buffer s)[0 := ch]\<rparr> in
              if (if ch > CIF1_MAX_CHAR then ch \<noteq> UCHAR_BOM else char_class s ch = NO_CLASS) then
                (let (result, s) = report_error s CIF_DISALLOWED_INITIAL_CHAR 0 0 1
                 in if result \<noteq> CIF_OK then (result, s)
                    else (CIF_OK, s\<lparr>buffer_limit := buffer_limit s + 1\<rparr>))
              else if ch = UCHAR_CR then
                (let s = s\<lparr>buffer := (buffer s)[0 := UCHAR_NL]\<rparr>;
                     (units, src) = read_func (char_source s) (buffer_size s - 1);
                     s = s\<lparr>char_source := src\<rparr>
                 in case units of
                      Inl read_error \<Rightarrow> (read_error, s)
                    | Inr us \<Rightarrow>
                        if us = [] then (CIF_OK, s\<lparr>at_eof := True, buffer_limit := buffer_limit s + 1\<rparr>)
                        else
                          (let s = s\<lparr>buffer := take 1 (buffer s) @ us @ drop (1 + length us) (buffer s)\<rparr>
                           in (CIF_OK, s\<lparr>buffer_limit :=
                                 buffer_limit s + (if hd us \<noteq> UCHAR_NL then 1 else 0) + 1\<rparr>)))
              else (CIF_OK, s\<lparr>buffer_limit := buffer_limit s + 1\<rparr>)))"

text \<open>The size of what the source still holds; a read that delivers something makes it smaller.\<close>

fun pending :: "(int + ustring) list \<Rightarrow> nat" where
  "pending [] = 0"
| "pending (Inl e # src) = 1 + pending src"
| "pending (Inr us # src) = 1 + length us + pending src"

lemma read_func_pending:
  "read_func src n = (u, src') \<Longrightarrow> pending src' \<le> pending src \<and> (u \<noteq> Inr [] \<longrightarrow> pending src' < pending src)"
  by (induction src n arbitrary: u src' rule: read_func.induct) (fastforce split: if_splits)+

lemma make_room_source [simp]: "char_source (make_room s) = char_source s" "at_eof (make_room s) = at_eof s"
  by (simp_all add: make_room_def Let_def)

lemma get_more_chars_pending:
  "get_more_chars s = (r, s') \<Longrightarrow>
   pending (char_source s') \<le> pending (char_source s) \<and> (r = CIF_OK \<longrightarrow> pending (char_source s') < pending (char_source s))"
  using read_func_pending [of "char_source s" "buffer_size (make_room s) - buffer_limit (make_room s)"]
  by (auto simp: get_more_chars_def Let_def split: prod.splits sum.splits if_splits)

section \<open>The macros that move in the buffer\<close>

definition ENSURE_CHARS :: "scanner \<Rightarrow> int \<times> scanner" where
  "ENSURE_CHARS s =
     (if next_char s \<ge> buffer_limit s
      then (if \<not> at_eof s then get_more_chars s else (CIF_EOF, s))
      else (CIF_OK, s))"

text \<open>The character is meaningful only with the code CIF_OK.\<close>

definition PEEK_CHAR :: "scanner \<Rightarrow> int \<times> uchar \<times> scanner" where
  "PEEK_CHAR s = (case ENSURE_CHARS s of (ev, s) \<Rightarrow> (ev, buffer s ! next_char s, s))"

definition NEXT_CHAR :: "scanner \<Rightarrow> int \<times> uchar \<times> scanner" where
  "NEXT_CHAR s =
     (case PEEK_CHAR s of (ev, c, s) \<Rightarrow>
        if ev = CIF_OK then (ev, c, s\<lparr>next_char := next_char s + 1, column := column s + 1\<rparr>)
        else (ev, c, s))"

definition BACK_UP :: "scanner \<Rightarrow> scanner" where
  "BACK_UP s = s\<lparr>next_char := next_char s - 1, column := column s - 1\<rparr>"

definition CONSUME_TOKEN :: "scanner \<Rightarrow> scanner" where
  "CONSUME_TOKEN s = s\<lparr>text_start := next_char s, tvalue_start := next_char s, tvalue_length := 0\<rparr>"

definition REJECT_TOKEN :: "scanner \<Rightarrow> token_type \<Rightarrow> scanner" where
  "REJECT_TOKEN s t =
     s\<lparr>next_char := text_start s, tvalue_start := text_start s, tvalue_length := 0, ttype := t\<rparr>"

definition TRIM_TOKEN :: "scanner \<Rightarrow> nat \<Rightarrow> scanner" where
  "TRIM_TOKEN s n =
     s\<lparr>next_char := text_start s + n, tvalue_length := int (text_start s + n) - int (tvalue_start s)\<rparr>"

definition repl_char :: "scanner \<Rightarrow> uchar" where
  "repl_char s = (if cif_version s \<ge> 2 then REPL_CHAR else REPL1_CHAR)"

definition HANDLE_UNPAIRED_LEAD :: "scanner \<Rightarrow> bool \<Rightarrow> int \<times> scanner" where
  "HANDLE_UNPAIRED_LEAD s lead_fl =
     (if lead_fl then
        (let (ev, s) = report_error s CIF_INVALID_CHAR (column s) (next_char s - 1) 1
         in if ev \<noteq> 0 then (ev, s)
            else (ev, s\<lparr>buffer := (buffer s)[next_char s - 1 := repl_char s]\<rparr>))
      else (CIF_OK, s))"

text \<open>
  The disallowed characters of the Basic Multilingual Plane: by class below the table's size.
\<close>

definition disallowed_bmp :: "scanner \<Rightarrow> uchar \<Rightarrow> bool" where
  "disallowed_bmp s c \<longleftrightarrow>
     (if c < CHAR_TABLE_MAX then char_class s c = NO_CLASS
      else c AND 0xfffe = 0xfffe \<or> c = UCHAR_BOM \<or> (0xfdd0 \<le> c \<and> c \<le> 0xfdef))"

text \<open>A check of the current character, which reports an error where the condition holds.\<close>

definition report_if :: "bool \<Rightarrow> scanner \<Rightarrow> int \<Rightarrow> nat \<Rightarrow> nat \<Rightarrow> int \<times> scanner" where
  "report_if b s code pos len = (if b then report_error s code (column s) pos len else (CIF_OK, s))"

text \<open>SCAN_UCHAR: the event code, the character scanned, the new surrogate flag and scanner.\<close>

definition SCAN_UCHAR :: "scanner \<Rightarrow> bool \<Rightarrow> int \<times> uchar \<times> bool \<times> scanner" where
  "SCAN_UCHAR s0 lead_fl =
     (let c = buffer s0 ! next_char s0;
          s = s0\<lparr>column := column s0 + 1\<rparr>;
          surrogate_mask = c AND 0xfc00
      in if surrogate_mask = 0xdc00 then
           (if lead_fl then
              (let (ev, s) = report_if (c AND 0xfffe = 0xdffe \<and> (buffer s ! (next_char s - 1)) AND 0xfc3f = 0xd83f)
                               s CIF_DISALLOWED_CHAR (next_char s - 1) 2
               in if ev \<noteq> 0 then (ev, c, lead_fl, s)
                  else (ev, c, False, s\<lparr>column := column s - 1, next_char := next_char s + 1\<rparr>))
            else
              (let (ev, s) = report_if True s CIF_INVALID_CHAR (next_char s) 1
               in if ev \<noteq> 0 then (ev, c, lead_fl, s)
                  else (ev, repl_char s, lead_fl,
                        s\<lparr>buffer := (buffer s)[next_char s := repl_char s], next_char := next_char s + 1\<rparr>)))
         else
           (let (ev, s) = report_if (disallowed_bmp s c) s CIF_DISALLOWED_CHAR (next_char s) 1
            in if ev \<noteq> CIF_OK then (ev, c, lead_fl, s)
               else
                 (let (ev, s) = report_if (cif_version s < 2 \<and> c > CIF1_MAX_CHAR) s CIF_DISALLOWED_CHAR (next_char s) 1
                  in if ev \<noteq> CIF_OK then (ev, c, lead_fl, s)
                     else
                       (let (ev, s) = HANDLE_UNPAIRED_LEAD s lead_fl
                        in (ev, c, surrogate_mask = 0xd800, s\<lparr>next_char := next_char s + 1\<rparr>)))))"

text \<open>
  HANDLE_EOL: \<open>Inl\<close> is the return from the host function, \<open>Inr\<close> the new state of the
  terminator accounting (two bits for each of the last two terminators).
\<close>

definition HANDLE_EOL :: "scanner \<Rightarrow> uchar \<Rightarrow> nat \<Rightarrow> nat res \<times> scanner" where
  "HANDLE_EOL s c sol =
     (let (ev, s) = (if column s > CIF_LINE_LENGTH
                     then report_error s CIF_OVERLENGTH_LINE (column s) (next_char s - 1) 0
                     else (CIF_OK, s))
      in if ev \<noteq> CIF_OK then (Inl ev, s)
         else
           (let sol = (sol * 4 + (if c = UCHAR_NL then 1 else if c = UCHAR_CR then 2 else 3)) mod 16
            in (Inr sol, s\<lparr>line := line s + (if sol = 9 then 0 else 1), column := 0\<rparr>)))"

text \<open>The end of most scanning functions: the token's value extends to the scan position.\<close>

definition end_of_token :: "scanner \<Rightarrow> nat \<Rightarrow> nat \<Rightarrow> scanner" where
  "end_of_token s open_size close_size =
     (let start = tvalue_start s + open_size
      in s\<lparr>tvalue_start := start, tvalue_length := int (next_char s) - int start - int close_size\<rparr>)"

section \<open>What the macros leave alone\<close>

text \<open>The scan position and everything the loops depend on, other than the contents of the buffer.\<close>

definition place :: "scanner \<Rightarrow> (int + ustring) list \<times> bool \<times> nat \<times> nat \<times> nat \<times> nat \<times> nat" where
  "place s = (char_source s, at_eof s, buffer_limit s, length (buffer s), text_start s, tvalue_start s, next_char s)"

lemma place_eq_iff:
  "place s = place t \<longleftrightarrow> char_source s = char_source t \<and> at_eof s = at_eof t \<and> buffer_limit s = buffer_limit t
     \<and> length (buffer s) = length (buffer t) \<and> text_start s = text_start t
     \<and> tvalue_start s = tvalue_start t \<and> next_char s = next_char t"
  by (auto simp: place_def)

lemma place_updates [simp]:
  "place (s\<lparr>column := x\<rparr>) = place s" "place (s\<lparr>line := y\<rparr>) = place s" "place (s\<lparr>events := e\<rparr>) = place s"
  "place (s\<lparr>buffer := (buffer s)[i := c]\<rparr>) = place s"
  by (simp_all add: place_def)

lemma report_error_eq:
  "report_error s code col pos len =
    (error_callback s (ErrorEvent code (line s) col (take len (drop pos (buffer s))) # events s),
     s\<lparr>events := ErrorEvent code (line s) col (take len (drop pos (buffer s))) # events s\<rparr>)"
  by (simp add: report_error_def Let_def)

lemma place_report_error [simp]: "place (snd (report_error s code col pos len)) = place s"
  by (simp add: report_error_eq)

lemma buffer_report_error [simp]: "buffer (snd (report_error s code col pos len)) = buffer s"
  by (simp add: report_error_eq)

lemma next_report_error [simp]: "next_char (snd (report_error s code col pos len)) = next_char s"
  by (simp add: report_error_eq)

lemma place_unpaired_lead [simp]: "place (snd (HANDLE_UNPAIRED_LEAD s lead)) = place s"
  by (simp add: HANDLE_UNPAIRED_LEAD_def report_error_eq Let_def place_def)

lemma place_HANDLE_EOL [simp]: "place (snd (HANDLE_EOL s c sol)) = place s"
  by (simp add: HANDLE_EOL_def report_error_eq Let_def)

lemma buffer_HANDLE_EOL [simp]: "buffer (snd (HANDLE_EOL s c sol)) = buffer s"
  by (simp add: HANDLE_EOL_def report_error_eq Let_def)

lemma place_report_if: "report_if b s code pos len = (ev, s') \<Longrightarrow> place s' = place s"
  by (cases b) (auto simp: report_if_def report_error_eq)

lemma place_unpaired: "HANDLE_UNPAIRED_LEAD s lead = (ev, s') \<Longrightarrow> place s' = place s"
  using place_unpaired_lead [of s lead] by simp

lemma place_next: "place s = place t \<Longrightarrow> next_char s = next_char t"
  by (simp add: place_def)

lemma place_advance: "place s = place t \<Longrightarrow> place (s\<lparr>next_char := n\<rparr>) = place (t\<lparr>next_char := n\<rparr>)"
  by (simp add: place_def)

text \<open>After SCAN_UCHAR the scanner is where it was, or, always on success, one unit further.\<close>

lemma place_step:
  "place t = place s \<Longrightarrow> place (t\<lparr>next_char := next_char t + 1\<rparr>) = place (s\<lparr>next_char := Suc (next_char s)\<rparr>)"
  "place t = place s \<Longrightarrow> place (t\<lparr>column := x, next_char := next_char t + 1\<rparr>) = place (s\<lparr>next_char := Suc (next_char s)\<rparr>)"
  "place t = place s \<Longrightarrow> place (t\<lparr>buffer := (buffer t)[i := c], next_char := next_char t + 1\<rparr>)
     = place (s\<lparr>next_char := Suc (next_char s)\<rparr>)"
  by (auto simp: place_def)

lemma SCAN_UCHAR_cases:
  assumes "SCAN_UCHAR s lead = (ev, c, lead', s')"
  shows "ev \<noteq> CIF_OK \<and> place s' = place s \<or> place s' = place (s\<lparr>next_char := Suc (next_char s)\<rparr>)"
proof -
  define c0 s0 where c0: "c0 = buffer s ! next_char s" and s0: "s0 = s\<lparr>column := column s + 1\<rparr>"
  have start: "place s0 = place s" by (simp add: s0)
  note scan = assms [unfolded SCAN_UCHAR_def, folded c0, folded s0, unfolded Let_def]
  consider (trail) "c0 AND 0xfc00 = 0xdc00" "lead" | (lone) "c0 AND 0xfc00 = 0xdc00" "\<not> lead"
    | (bmp) "c0 AND 0xfc00 \<noteq> 0xdc00" by blast
  then show ?thesis
  proof cases
    case trail
    obtain e1 s1 where 1: "report_if (c0 AND 0xfffe = 0xdffe \<and> (buffer s0 ! (next_char s0 - 1)) AND 0xfc3f = 0xd83f)
        s0 CIF_DISALLOWED_CHAR (next_char s0 - 1) 2 = (e1, s1)" by fastforce
    have p: "place s1 = place s" using place_report_if [OF 1] start by simp
    have "ev \<noteq> 0 \<and> s' = s1 \<or> s' = s1\<lparr>column := column s1 - 1, next_char := next_char s1 + 1\<rparr>"
      using scan by (simp only: trail 1 if_True prod.case split: if_splits) blast+
    then show ?thesis using p place_step [OF p] by blast
  next
    case lone
    obtain e1 s1 where 1: "report_if True s0 CIF_INVALID_CHAR (next_char s0) 1 = (e1, s1)" by fastforce
    have p: "place s1 = place s" using place_report_if [OF 1] start by simp
    have "ev \<noteq> 0 \<and> s' = s1
        \<or> s' = s1\<lparr>buffer := (buffer s1)[next_char s1 := repl_char s1], next_char := next_char s1 + 1\<rparr>"
      using scan by (simp only: lone 1 if_True if_False prod.case split: if_splits) blast+
    then show ?thesis using p place_step [OF p] by blast
  next
    case bmp
    obtain e1 s1 where 1: "report_if (disallowed_bmp s0 c0) s0 CIF_DISALLOWED_CHAR (next_char s0) 1 = (e1, s1)"
      by fastforce
    obtain e2 s2 where 2: "report_if (cif_version s1 < 2 \<and> c0 > CIF1_MAX_CHAR) s1 CIF_DISALLOWED_CHAR (next_char s1) 1 = (e2, s2)"
      by fastforce
    obtain e3 s3 where 3: "HANDLE_UNPAIRED_LEAD s2 lead = (e3, s3)" by fastforce
    have p: "place s1 = place s" "place s2 = place s" "place s3 = place s"
      using place_report_if [OF 1] place_report_if [OF 2] place_unpaired [OF 3] start by simp_all
    have "ev \<noteq> 0 \<and> (s' = s1 \<or> s' = s2) \<or> s' = s3\<lparr>next_char := next_char s3 + 1\<rparr>"
      using scan by (simp only: bmp 1 2 3 if_True if_False prod.case split: if_splits) blast+
    then show ?thesis using p place_step [OF p(3)] by blast
  qed
qed

lemma SCAN_UCHAR_place:
  assumes "SCAN_UCHAR s lead = (ev, c, lead', s')"
  shows "place s' = place (s\<lparr>next_char := next_char s'\<rparr>)" "next_char s \<le> next_char s'"
    "next_char s' \<le> Suc (next_char s)" "ev = CIF_OK \<Longrightarrow> next_char s' = Suc (next_char s)"
  using SCAN_UCHAR_cases [OF assms] by (auto simp: place_def)

lemma SCAN_UCHAR_source:
  assumes "SCAN_UCHAR s lead = (ev, c, lead', s')"
  shows "char_source s' = char_source s" "buffer_limit s' = buffer_limit s" "text_start s' = text_start s"
    "tvalue_start s' = tvalue_start s" "length (buffer s') = length (buffer s)" "at_eof s' = at_eof s"
  using SCAN_UCHAR_place(1) [OF assms] by (simp_all add: place_def)

lemma HANDLE_EOL_place:
  assumes "HANDLE_EOL s c sol = (r, s')"
  shows "place s' = place s" "buffer s' = buffer s"
  using place_HANDLE_EOL [of s c sol] buffer_HANDLE_EOL [of s c sol] assms by simp_all

section \<open>The scanning functions\<close>

text \<open>
  The loops read up to the end of the buffered units, then for more; each round reads a unit or
  makes the source smaller.
\<close>

definition scan_measure :: "scanner \<Rightarrow> nat \<times> nat" where
  "scan_measure s = (pending (char_source s), buffer_limit s - next_char s)"

abbreviation (input) scan_order :: "((nat \<times> nat) \<times> (nat \<times> nat)) set" where
  "scan_order \<equiv> less_than <*lex*> less_than"

lemma wf_scan [intro]: "wf (inv_image scan_order f)"
  by (intro wf_inv_image wf_lex_prod wf_less_than)

lemma scan_more [intro]:
  "(x, y) = get_more_chars s \<Longrightarrow> \<not> x \<noteq> CIF_OK \<Longrightarrow> (scan_measure y, scan_measure s) \<in> scan_order"
  using get_more_chars_pending [of s x y] by (simp add: scan_measure_def)

lemma scan_uchar [intro]:
  "next_char s < buffer_limit s \<Longrightarrow> (x, y) = SCAN_UCHAR s lead \<Longrightarrow> (c, z) = y \<Longrightarrow> (lead', s') = z \<Longrightarrow>
   \<not> x \<noteq> CIF_OK \<Longrightarrow> (scan_measure s', scan_measure s) \<in> scan_order"
  using SCAN_UCHAR_source [of s lead CIF_OK c lead' s'] SCAN_UCHAR_place [of s lead CIF_OK c lead' s']
  by (simp add: scan_measure_def)

lemma scan_eol [intro]:
  "(r, s') = HANDLE_EOL t c sol \<Longrightarrow> (scan_measure t, m) \<in> scan_order \<Longrightarrow> (scan_measure s', m) \<in> scan_order"
  using HANDLE_EOL_place(1) [of t c sol r s'] by (simp add: scan_measure_def place_def)

function scan_ws_loop :: "nat \<Rightarrow> scanner \<Rightarrow> int \<times> scanner" where
  "scan_ws_loop sol s =
     (if next_char s < buffer_limit s then
        (let c = buffer s ! next_char s in
         case CLASS_OF c s of
           WS_CLASS \<Rightarrow> scan_ws_loop 0 (s\<lparr>column := column s + 1, next_char := next_char s + 1\<rparr>)
         | EOL_CLASS \<Rightarrow>
             (case HANDLE_EOL s c sol of
                (Inl ev, s') \<Rightarrow> (ev, s')
              | (Inr sol', s') \<Rightarrow> scan_ws_loop sol' (s'\<lparr>next_char := next_char s' + 1\<rparr>))
         | _ \<Rightarrow> (CIF_OK, end_of_token s 0 0))
      else
        (case get_more_chars s of (result, s') \<Rightarrow>
           if result = CIF_EOF then (CIF_OK, end_of_token s' 0 0)
           else if result \<noteq> CIF_OK then (result, s')
           else scan_ws_loop sol s'))"
  by pat_completeness auto
termination
proof (relation "inv_image scan_order (\<lambda>(_, s). scan_measure s)", goal_cases)
  case (3 sol s)
  then show ?case using HANDLE_EOL_place(1) [OF 3(4) [symmetric]] by (simp add: scan_measure_def place_def)
next
  case (4 sol s)
  then show ?case by (simp (no_asm) only: in_inv_image prod.case) (erule scan_more, assumption)
qed (auto simp: scan_measure_def)

definition scan_ws :: "scanner \<Rightarrow> int \<times> scanner" where
  "scan_ws s = scan_ws_loop 0 s"

text \<open>
  The common loop of \<open>scan_to_ws\<close> and \<open>scan_to_eol\<close>, which stop before a character of the
  metaclass of whitespace and of the class of line terminators.
\<close>

function scan_to_loop :: "bool \<Rightarrow> bool \<Rightarrow> scanner \<Rightarrow> int \<times> scanner" where
  "scan_to_loop to_eol lead s =
     (if next_char s < buffer_limit s then
        (case SCAN_UCHAR s lead of (result, c, lead', s') \<Rightarrow>
           if result \<noteq> CIF_OK then (result, s')
           else if (if to_eol then CLASS_OF c s' = EOL_CLASS else METACLASS_OF c s' = WS_META)
             then (CIF_OK, end_of_token (BACK_UP s') 0 0)
           else scan_to_loop to_eol lead' s')
      else
        (case get_more_chars s of (result, s') \<Rightarrow>
           if result = CIF_EOF then
             (case HANDLE_UNPAIRED_LEAD s' lead of (ev, s') \<Rightarrow>
                if ev \<noteq> CIF_OK then (ev, s') else (CIF_OK, end_of_token s' 0 0))
           else if result \<noteq> CIF_OK then (result, s')
           else scan_to_loop to_eol lead s'))"
  by pat_completeness auto
termination
  by (relation "inv_image scan_order (\<lambda>(_, _, s). scan_measure s)")
     (rule wf_scan, (simp (no_asm) only: in_inv_image prod.case, (erule (4) scan_uchar | erule (1) scan_more))+)

definition scan_to_ws :: "scanner \<Rightarrow> int \<times> scanner" where
  "scan_to_ws s = scan_to_loop False False s"

definition scan_to_eol :: "scanner \<Rightarrow> int \<times> scanner" where
  "scan_to_eol s = scan_to_loop True False s"

definition data_classes :: "char_class list" where
  "data_classes = [D_CLASS, A_CLASS, T_CLASS, A_CLASS, UNDERSC_CLASS]"

definition save_classes :: "char_class list" where
  "save_classes = [S_CLASS, A_CLASS, V_CLASS, E_CLASS, UNDERSC_CLASS]"

text \<open>
  \<open>data_kw\<close> and \<open>save_kw\<close> are the two bits of \<open>kw_flags\<close>; \<open>offset\<close> is the number of units
  scanned (the code's \<open>offset\<close> plus one).
\<close>

function scan_unquoted_loop :: "bool \<Rightarrow> bool \<Rightarrow> bool \<Rightarrow> nat \<Rightarrow> scanner \<Rightarrow> int \<times> scanner" where
  "scan_unquoted_loop data_kw save_kw lead offset s =
     (if next_char s < buffer_limit s then
        (case SCAN_UCHAR s lead of (result, c, lead', s') \<Rightarrow>
           if result \<noteq> CIF_OK then (result, s')
           else
             (case METACLASS_OF c s' of
                GENERAL_META \<Rightarrow>
                  (if offset < 5 then
                     scan_unquoted_loop (data_kw \<and> CLASS_OF c s' = data_classes ! offset)
                       (save_kw \<and> CLASS_OF c s' = save_classes ! offset) lead' (offset + 1) s'
                   else scan_unquoted_loop data_kw save_kw lead' (offset + 1) s')
              | OPEN_META \<Rightarrow>
                  (if \<not> (data_kw \<or> save_kw) \<or> offset < 5 then
                     (case report_error s' CIF_MISSING_SPACE (column s') (next_char s' - 1) 0 of (ev, s') \<Rightarrow>
                        if ev \<noteq> CIF_OK then (ev, s')
                        else (CIF_OK, end_of_token (BACK_UP (report_ws s' (next_char s' - 1) 0)) 0 0))
                   else scan_unquoted_loop data_kw save_kw lead' (offset + 1) s')
              | CLOSE_META \<Rightarrow>
                  (if \<not> (data_kw \<or> save_kw) \<or> offset < 5
                   then (CIF_OK, end_of_token (BACK_UP s') 0 0)
                   else scan_unquoted_loop data_kw save_kw lead' (offset + 1) s')
              | WS_META \<Rightarrow>
                  (CIF_OK, end_of_token (if c \<noteq> EOF_CHAR then BACK_UP s' else s') 0 0)
              | NO_META \<Rightarrow> scan_unquoted_loop data_kw save_kw lead' (offset + 1) s'))
      else
        (case get_more_chars s of (result, s') \<Rightarrow>
           if result = CIF_EOF then
             (case HANDLE_UNPAIRED_LEAD s' lead of (ev, s') \<Rightarrow>
                if ev \<noteq> CIF_OK then (ev, s') else (CIF_OK, end_of_token s' 0 0))
           else if result \<noteq> CIF_OK then (result, s')
           else scan_unquoted_loop data_kw save_kw lead offset s'))"
  by pat_completeness auto
termination
  by (relation "inv_image scan_order (\<lambda>(_, _, _, _, s). scan_measure s)")
     (rule wf_scan, (simp (no_asm) only: in_inv_image prod.case, (erule (4) scan_uchar | erule (1) scan_more))+)

definition scan_unquoted :: "scanner \<Rightarrow> int \<times> scanner" where
  "scan_unquoted s = scan_unquoted_loop True True False 0 s"

function scan_triple_loop :: "uchar \<Rightarrow> nat \<Rightarrow> bool \<Rightarrow> nat \<Rightarrow> scanner \<Rightarrow> int \<times> scanner" where
  "scan_triple_loop dlm delim_count lead sol s =
     (if next_char s < buffer_limit s then
        (case SCAN_UCHAR s lead of (result, c, lead', s') \<Rightarrow>
           if result \<noteq> CIF_OK then (result, s')
           else if c = dlm then
             (if delim_count + 1 \<ge> 3 then (CIF_OK, end_of_token s' 3 3)
              else scan_triple_loop dlm (delim_count + 1) lead' sol s')
           else if CLASS_OF c s' = EOL_CLASS then
             (case HANDLE_EOL s' c sol of
                (Inl ev, t) \<Rightarrow> (ev, t)
              | (Inr sol', t) \<Rightarrow> scan_triple_loop dlm 0 lead' sol' t)
           else scan_triple_loop dlm 0 lead' 0 s')
      else
        (case get_more_chars s of (result, s') \<Rightarrow>
           if result = CIF_EOF then
             (case HANDLE_UNPAIRED_LEAD s' lead of (ev, s') \<Rightarrow>
                if ev \<noteq> CIF_OK then (ev, s')
                else
                  (case report_error s' CIF_UNCLOSED_TEXT (column s') (next_char s' - 1) 0 of (ev, s') \<Rightarrow>
                     if ev \<noteq> CIF_OK then (ev, s') else (CIF_OK, end_of_token s' 3 0)))
           else if result \<noteq> CIF_OK then (result, s')
           else scan_triple_loop dlm delim_count lead sol s'))"
  by pat_completeness auto
termination
  by (relation "inv_image scan_order (\<lambda>(_, _, _, _, s). scan_measure s)")
     (rule wf_scan, (simp (no_asm) only: in_inv_image prod.case,
        (erule (4) scan_uchar | erule (1) scan_more | erule scan_eol, erule (4) scan_uchar))+)

definition scan_triple_delim_string :: "scanner \<Rightarrow> int \<times> scanner" where
  "scan_triple_delim_string s = scan_triple_loop (buffer s ! text_start s) 0 False 0 s"

definition unterminated_quote :: "scanner \<Rightarrow> int \<times> scanner" where
  "unterminated_quote s =
     (case report_error s CIF_MISSING_ENDQUOTE (column s) (next_char s) 0 of (result, s) \<Rightarrow>
        if result \<noteq> CIF_OK then (result, s) else (CIF_OK, end_of_token s 1 0))"

lemma PEEK_CHAR_measure:
  "(r, y) = PEEK_CHAR s \<Longrightarrow> (c, t) = y \<Longrightarrow> \<not> r \<noteq> CIF_OK \<Longrightarrow>
   pending (char_source t) < pending (char_source s) \<or> t = s"
  using get_more_chars_pending [of s CIF_OK]
  by (auto simp: PEEK_CHAR_def ENSURE_CHARS_def split: if_splits prod.splits)

definition delim_measure :: "nat \<Rightarrow> scanner \<Rightarrow> nat \<times> nat" where
  "delim_measure upto_pos s = (pending (char_source s), upto_pos - next_char s)"

lemma delim_uchar:
  "next_char s < upto_pos \<Longrightarrow> (x, y) = SCAN_UCHAR s lead \<Longrightarrow> (c, z) = y \<Longrightarrow> (lead', s') = z \<Longrightarrow>
   \<not> x \<noteq> CIF_OK \<Longrightarrow> (delim_measure upto_pos s', delim_measure upto_pos s) \<in> scan_order"
  using SCAN_UCHAR_source [of s lead CIF_OK c lead' s'] SCAN_UCHAR_place [of s lead CIF_OK c lead' s']
  by (simp add: delim_measure_def)

lemma delim_peek:
  "(r, y) = PEEK_CHAR s \<Longrightarrow> (c, t) = y \<Longrightarrow> \<not> r \<noteq> CIF_OK \<Longrightarrow> (delim_measure p s, m) \<in> scan_order \<Longrightarrow>
   (delim_measure p t, m) \<in> scan_order"
  using PEEK_CHAR_measure [of r y s c t] by (cases m) (auto simp: delim_measure_def)

lemma delim_more:
  "(x, y) = get_more_chars s \<Longrightarrow> \<not> x \<noteq> CIF_OK \<Longrightarrow> (delim_measure p y, delim_measure q s) \<in> scan_order"
  using get_more_chars_pending [of s x y] by (simp add: delim_measure_def)

text \<open>
  \<open>upto_pos\<close> (the code's \<open>top\<close>) is the end of the buffered units when the inner loop started. The look-ahead after a
  delimiter may buffer more units and move the text; \<open>upto_pos\<close> (the code's \<open>top\<close>) then is what it was.
\<close>

function scan_delim_loop :: "uchar \<Rightarrow> nat \<Rightarrow> bool \<Rightarrow> scanner \<Rightarrow> int \<times> scanner" where
  "scan_delim_loop dlm upto_pos lead s =
     (if next_char s < upto_pos then
        (case SCAN_UCHAR s lead of (result, c, lead', s') \<Rightarrow>
           if result \<noteq> CIF_OK then (result, s')
           else if c = dlm then
             (case PEEK_CHAR s' of (result, c, t) \<Rightarrow>
                if result = CIF_EOF then (CIF_OK, end_of_token t 1 1)
                else if result \<noteq> CIF_OK then (result, t)
                else if cif_version t < 2 then
                  (if METACLASS_OF c t \<noteq> WS_META then scan_delim_loop dlm upto_pos lead' t
                   else (CIF_OK, end_of_token t 1 1))
                else if next_char t - text_start t = 2 \<and> c = dlm then
                  scan_triple_delim_string (t\<lparr>next_char := next_char t + 1\<rparr>)
                else (CIF_OK, end_of_token t 1 1))
           else if CLASS_OF c s' = EOL_CLASS then unterminated_quote (BACK_UP s')
           else scan_delim_loop dlm upto_pos lead' s')
      else
        (case get_more_chars s of (result, s') \<Rightarrow>
           if result = CIF_EOF then
             (case HANDLE_UNPAIRED_LEAD s' lead of (ev, s') \<Rightarrow>
                if ev \<noteq> CIF_OK then (ev, s') else unterminated_quote s')
           else if result \<noteq> CIF_OK then (result, s')
           else scan_delim_loop dlm (buffer_limit s') lead s'))"
  by pat_completeness auto
termination
  by (relation "inv_image scan_order (\<lambda>(_, upto_pos, _, s). delim_measure upto_pos s)")
     (rule wf_scan, (simp (no_asm) only: in_inv_image prod.case,
        (erule (2) delim_peek, erule (4) delim_uchar | erule (4) delim_uchar | erule (1) delim_more))+)

definition scan_delim_string :: "scanner \<Rightarrow> int \<times> scanner" where
  "scan_delim_string s = scan_delim_loop (buffer s ! text_start s) (buffer_limit s) False s"

function scan_text_loop :: "bool \<Rightarrow> nat \<Rightarrow> scanner \<Rightarrow> int \<times> scanner" where
  "scan_text_loop lead sol s =
     (if next_char s < buffer_limit s then
        (case SCAN_UCHAR s lead of (result, c, lead', s') \<Rightarrow>
           if result \<noteq> CIF_OK then (result, s')
           else
             (case CLASS_OF c s' of
                SEMI_CLASS \<Rightarrow>
                  (if sol \<noteq> 0 then
                     (CIF_OK, end_of_token s' 1
                        (if buffer s' ! (next_char s' - 2) = UCHAR_NL
                            \<and> buffer s' ! (next_char s' - 3) = UCHAR_CR then 3 else 2))
                   else scan_text_loop lead' sol s')
              | EOL_CLASS \<Rightarrow>
                  (case HANDLE_EOL s' c sol of
                     (Inl ev, t) \<Rightarrow> (ev, t)
                   | (Inr sol', t) \<Rightarrow> scan_text_loop lead' sol' t)
              | _ \<Rightarrow> scan_text_loop lead' 0 s'))
      else
        (case get_more_chars s of (result, s') \<Rightarrow>
           if result = CIF_EOF then
             (case HANDLE_UNPAIRED_LEAD s' lead of (ev, s') \<Rightarrow>
                if ev \<noteq> CIF_OK then (ev, s')
                else
                  (case report_error s' CIF_UNCLOSED_TEXT (column s') (next_char s' - 1) 0 of (ev, s') \<Rightarrow>
                     if ev \<noteq> CIF_OK then (ev, s') else (CIF_OK, end_of_token s' 1 0)))
           else if result \<noteq> CIF_OK then (result, s')
           else scan_text_loop lead sol s'))"
  by pat_completeness auto
termination
  by (relation "inv_image scan_order (\<lambda>(_, _, s). scan_measure s)")
     (rule wf_scan, (simp (no_asm) only: in_inv_image prod.case,
        (erule scan_eol, erule (4) scan_uchar | erule (4) scan_uchar | erule (1) scan_more))+)

definition scan_text :: "scanner \<Rightarrow> int \<times> scanner" where
  "scan_text s = scan_text_loop False 0 s"

section \<open>Tokens\<close>

text \<open>
  Reserved words among the whitespace-delimited tokens: \<open>None\<close> for a word that is reported and
  dropped, otherwise the token's type and how much of its start is not part of its value.
\<close>

definition class_at :: "scanner \<Rightarrow> nat \<Rightarrow> char_class" where
  "class_at s i = CLASS_OF (buffer s ! (tvalue_start s + i)) s"

definition token_classes :: "scanner \<Rightarrow> nat \<Rightarrow> char_class list \<Rightarrow> bool" where
  "token_classes s i ks \<longleftrightarrow> (\<forall>j < length ks. class_at s (i + j) = ks ! j)"

definition reserved_token :: "scanner \<Rightarrow> (token_type \<times> nat) option" where
  "reserved_token s =
     (let n = tvalue_length s in
      if n > 4 \<and> class_at s 4 = UNDERSC_CLASS then
        (if token_classes s 0 [D_CLASS, A_CLASS, T_CLASS, A_CLASS] then
           (if n = 5 then None else Some (BLOCK_HEAD, 5))
         else if token_classes s 0 [S_CLASS, A_CLASS, V_CLASS, E_CLASS] then
           Some (if n = 5 then FRAME_TERM else FRAME_HEAD, 5)
         else if n = 5 \<and> token_classes s 2 [O_CLASS, P_CLASS] then
           (if token_classes s 0 [L_CLASS, O_CLASS] then Some (LOOPKW, 5)
            else if token_classes s 0 [S_CLASS, T_CLASS] then None
            else Some (VALUE, 0))
         else Some (VALUE, 0))
      else if n = 7 \<and> class_at s 6 = UNDERSC_CLASS
          \<and> token_classes s 0 [G_CLASS, L_CLASS, O_CLASS, B_CLASS, A_CLASS, L_CLASS] then None
      else Some (VALUE, 0))"

text \<open>
  What a round of the loop of \<open>next_token\<close> comes to: another round, with the flag \<open>after_ws\<close>,
  or the result, the token type and the scanner.
\<close>

datatype round = Again bool scanner | Stop int token_type scanner

definition finish_value :: "bool \<Rightarrow> int \<times> scanner \<Rightarrow> round" where
  "finish_value after_ws r =
     (case r of (result, s) \<Rightarrow>
        if result \<noteq> CIF_OK then Stop result VALUE s
        else
          (case reserved_token s of
             Some (t, n) \<Rightarrow>
               Stop CIF_OK t (s\<lparr>tvalue_start := tvalue_start s + n, tvalue_length := tvalue_length s - int n\<rparr>)
           | None \<Rightarrow>
               (case report_error s CIF_RESERVED_WORD (column s - tvalue_length s) (tvalue_start s)
                       (nat (tvalue_length s)) of (result, s) \<Rightarrow>
                  if result = CIF_OK then Again after_ws (CONSUME_TOKEN s)
                  else Stop result VALUE (CONSUME_TOKEN s))))"

text \<open>The result of a whitespace run or a comment: reported and consumed.\<close>

definition finish_ws :: "bool \<Rightarrow> bool \<Rightarrow> int \<times> scanner \<Rightarrow> round" where
  "finish_ws after_ws report r =
     (case r of (result, s) \<Rightarrow>
        if result \<noteq> CIF_OK then Stop result ERROR s
        else Again after_ws (CONSUME_TOKEN
               (if report then report_ws s (tvalue_start s) (nat (tvalue_length s)) else s)))"

text \<open>A token of one bracket or brace.\<close>

definition bracket :: "token_type \<Rightarrow> scanner \<Rightarrow> round" where
  "bracket t s = Stop CIF_OK t (s\<lparr>tvalue_length := 1\<rparr>)"

definition finish_quoted :: "int \<times> scanner \<Rightarrow> round" where
  "finish_quoted r =
     (case r of (result, s) \<Rightarrow>
        if result \<noteq> CIF_OK then Stop result ERROR s
        else
          (case PEEK_CHAR s of (result, c, s) \<Rightarrow>
             if result = CIF_OK \<and> c = UCHAR_COLON then Stop CIF_OK KEY (s\<lparr>next_char := next_char s + 1\<rparr>)
             else if result = CIF_OK \<or> result = CIF_EOF then Stop CIF_OK QVALUE s
             else Stop result ERROR s))"

definition finish_text :: "int \<times> scanner \<Rightarrow> round" where
  "finish_text r =
     (case r of (result, s) \<Rightarrow>
        if result \<noteq> CIF_OK then Stop result ERROR s
        else if cif_version s < 2 then Stop CIF_OK TVALUE s
        else
          (case PEEK_CHAR s of (result, c, s) \<Rightarrow>
             if result = CIF_OK then
               (if c = UCHAR_COLON then Stop CIF_OK TKEY (s\<lparr>next_char := next_char s + 1\<rparr>)
                else Stop CIF_OK TVALUE s)
             else if result = CIF_EOF then Stop CIF_OK TVALUE s
             else Stop result TVALUE s))"

text \<open>The \<open>switch\<close> on the class of the first character, which has been consumed.\<close>

definition token_dispatch :: "bool \<Rightarrow> char_class \<Rightarrow> scanner \<Rightarrow> round" where
  "token_dispatch after_ws clazz s =
     (case clazz of
        EOL_CLASS \<Rightarrow>
          (let r = scan_ws (BACK_UP s) in finish_ws True (skip_depth (snd r) \<le> 0) r)
      | WS_CLASS \<Rightarrow>
          (let r = scan_ws s in finish_ws True (skip_depth (snd r) \<le> 0) r)
      | HASH_CLASS \<Rightarrow> finish_ws after_ws True (scan_to_eol s)
      | UNDERSC_CLASS \<Rightarrow> (case scan_to_ws s of (result, s) \<Rightarrow> Stop result NAME s)
      | OBRAK_CLASS \<Rightarrow> bracket OLIST s
      | CBRAK_CLASS \<Rightarrow> bracket CLIST s
      | OCURL_CLASS \<Rightarrow> bracket OTABLE s
      | CCURL_CLASS \<Rightarrow> bracket CTABLE s
      | QUOTE_CLASS \<Rightarrow> finish_quoted (scan_delim_string s)
      | SEMI_CLASS \<Rightarrow>
          (if column s = 1 then finish_text (scan_text s)
           else finish_value after_ws (scan_unquoted s))
      | _ \<Rightarrow> finish_value after_ws (scan_unquoted (BACK_UP s)))"

text \<open>One round, which starts with no token ready.\<close>

definition token_round :: "bool \<Rightarrow> scanner \<Rightarrow> round" where
  "token_round after_ws s0 =
     (case NEXT_CHAR (s0\<lparr>tvalue_start := text_start s0, tvalue_length := 0\<rparr>) of (result, c, s) \<Rightarrow>
        if result = CIF_EOF then Stop CIF_OK END s
        else if result \<noteq> CIF_OK then Stop result ERROR s
        else
          (let clazz = CLASS_OF c s; meta = METACLASS_OF c s;
               (ev, s) = (if meta \<noteq> CLOSE_META \<and> meta \<noteq> WS_META \<and> \<not> after_ws
                          then report_error s CIF_MISSING_SPACE (column s - 1) (next_char s - 1) 0
                          else (CIF_OK, s))
           in if ev \<noteq> CIF_OK then Stop ev (ttype s) s
              else token_dispatch after_ws clazz
                     (if meta = WS_META \<or> clazz = HASH_CLASS then s
                      else report_ws s (next_char s - 1) 0)))"

section \<open>Progress\<close>

text \<open>
  From one scanner state to a later one: units were read from the source, or the position moved
  forward in the same text, or the buffered units are used up.
\<close>

definition progress :: "scanner \<Rightarrow> scanner \<Rightarrow> bool" where
  "progress s t \<longleftrightarrow>
     pending (char_source t) < pending (char_source s)
     \<or> pending (char_source t) = pending (char_source s)
       \<and> (buffer_limit t \<le> next_char t
          \<or> buffer_limit t = buffer_limit s \<and> tvalue_start t = tvalue_start s \<and> next_char s \<le> next_char t)"

lemma progress_refl [simp]: "progress s s"
  by (simp add: progress_def)

lemma progress_trans: "progress s t \<Longrightarrow> progress t u \<Longrightarrow> progress s u"
  by (auto simp: progress_def)

lemma place_progress: "place s = place t \<Longrightarrow> progress s t"
  by (simp add: place_def progress_def)

lemma progress_place: "progress s t \<Longrightarrow> place t = place u \<Longrightarrow> progress s u"
  by (auto simp: place_def progress_def)

lemma progress_advance [simp]: "progress s (s\<lparr>next_char := next_char s + 1\<rparr>)"
  "progress s (s\<lparr>column := x, next_char := next_char s + 1\<rparr>)"
  by (simp_all add: progress_def)

lemma progress_uchar: "SCAN_UCHAR s lead = (ev, c, lead', t) \<Longrightarrow> progress s t"
  using SCAN_UCHAR_source [of s lead ev c lead' t] SCAN_UCHAR_place(2) [of s lead ev c lead' t]
  by (simp add: progress_def)

lemma make_room_limit: "buffer_limit s \<le> next_char s \<Longrightarrow> buffer_limit (make_room s) \<le> next_char (make_room s)"
  by (auto simp: make_room_def Let_def)

lemma progress_more: "buffer_limit s \<le> next_char s \<Longrightarrow> get_more_chars s = (r, t) \<Longrightarrow> r = CIF_OK \<or> r = CIF_EOF \<Longrightarrow> progress s t"
  using read_func_pending [of "char_source s" "buffer_size (make_room s) - buffer_limit (make_room s)"]
    make_room_limit [of s]
  by (fastforce simp: get_more_chars_def progress_def Let_def split: prod.splits sum.splits if_splits)

lemma progress_unpaired: "HANDLE_UNPAIRED_LEAD s lead = (ev, t) \<Longrightarrow> progress s t"
  using place_unpaired [of s lead ev t] place_progress [of s t] by simp

lemma progress_eol: "HANDLE_EOL s c sol = (ev, t) \<Longrightarrow> progress s t"
  using HANDLE_EOL_place(1) [of s c sol ev t] place_progress [of s t] by simp

lemma end_of_token_fields [simp]:
  "char_source (end_of_token s m n) = char_source s" "buffer_limit (end_of_token s m n) = buffer_limit s"
  "next_char (end_of_token s m n) = next_char s" "tvalue_start (end_of_token s m n) = tvalue_start s + m"
  "tvalue_length (end_of_token s m n) = int (next_char s) - int (tvalue_start s + m) - int n"
  "text_start (end_of_token s m n) = text_start s" "skip_depth (end_of_token s m n) = skip_depth s"
  by (simp_all add: end_of_token_def Let_def)

lemma progress_end [simp]: "progress s (end_of_token t 0 n) = progress s t"
  by (simp add: progress_def)

lemma HANDLE_EOL_Inl: "HANDLE_EOL s c sol = (Inl ev, t) \<Longrightarrow> ev \<noteq> CIF_OK"
  by (auto simp: HANDLE_EOL_def Let_def split: prod.splits if_splits)

lemma place_back_up: "SCAN_UCHAR s lead = (CIF_OK, c, lead', t) \<Longrightarrow> place (BACK_UP t) = place s"
  using SCAN_UCHAR_place [of s lead CIF_OK c lead' t] by (simp add: BACK_UP_def place_def)

lemma progress_back_up: "SCAN_UCHAR s lead = (CIF_OK, c, lead', t) \<Longrightarrow> progress s (BACK_UP t)"
  using place_back_up place_progress by metis

lemma progress_report [simp]: "progress s (snd (report_error s code col pos len))" "progress s (report_ws s pos len)"
  by (simp_all add: report_error_eq report_ws_def progress_def)

lemma scan_ws_progress: "scan_ws_loop sol s = (CIF_OK, t) \<Longrightarrow> progress s t"
proof (induction sol s rule: scan_ws_loop.induct)
  case (1 sol s)
  show ?case
  proof (cases "next_char s < buffer_limit s")
    case True
    let ?c = "buffer s ! next_char s"
    consider (ws) "CLASS_OF ?c s = WS_CLASS" | (eol) "CLASS_OF ?c s = EOL_CLASS"
      | (other) "CLASS_OF ?c s \<noteq> WS_CLASS" "CLASS_OF ?c s \<noteq> EOL_CLASS" by blast
    then show ?thesis
    proof cases
      case ws
      then have "progress (s\<lparr>column := column s + 1, next_char := next_char s + 1\<rparr>) t"
        using 1(1) [OF True refl ws] 1(4) True by (simp add: scan_ws_loop.simps [of sol s])
      then show ?thesis using progress_trans progress_advance(2) by blast
    next
      case eol
      obtain r s1 where h: "HANDLE_EOL s ?c sol = (r, s1)" by fastforce
      then obtain sol' where r: "r = Inr sol'"
        using 1(4) True eol HANDLE_EOL_Inl [of s ?c sol] by (cases r) (auto simp: scan_ws_loop.simps [of sol s])
      have "progress (s1\<lparr>next_char := next_char s1 + 1\<rparr>) t"
        using 1(2) [OF True refl eol, of r s1] 1(4) True eol h r by (simp add: scan_ws_loop.simps [of sol s])
      then show ?thesis using progress_trans progress_advance(1) progress_eol [OF h] by blast
    next
      case other
      then show ?thesis using 1(4) True by (cases "CLASS_OF ?c s") (auto simp: scan_ws_loop.simps [of sol s])
    qed
  next
    case False
    obtain r s1 where g: "get_more_chars s = (r, s1)" by fastforce
    then show ?thesis
      using 1(3) [OF False, of r s1] 1(4) False progress_more [of s r s1] progress_trans [of s s1 t]
      by (auto simp: scan_ws_loop.simps [of sol s] split: if_splits)
  qed
qed

lemma scan_to_progress: "scan_to_loop e lead s = (CIF_OK, t) \<Longrightarrow> progress s t"
proof (induction e lead s rule: scan_to_loop.induct)
  case (1 e lead s)
  show ?case
  proof (cases "next_char s < buffer_limit s")
    case True
    obtain r c l s1 where u: "SCAN_UCHAR s lead = (r, c, l, s1)" using prod_cases4 by metis
    then have r: "r = CIF_OK" using 1(3) True by (auto simp: scan_to_loop.simps [of e lead s] split: if_splits)
    show ?thesis
    proof (cases "if e then CLASS_OF c s1 = EOL_CLASS else METACLASS_OF c s1 = WS_META")
      case stop: True
      have "t = end_of_token (BACK_UP s1) 0 0"
        using 1(3) True u r stop by (auto simp: scan_to_loop.simps [of e lead s] split: if_splits)
      then show ?thesis using progress_back_up u r by simp
    next
      case False
      have "scan_to_loop e l s1 = (CIF_OK, t)"
        using 1(3) True u r False by (auto simp: scan_to_loop.simps [of e lead s] split: if_splits)
      then show ?thesis
        using 1(1) [OF True, of r _ c _ l s1] u r False progress_uchar [OF u] progress_trans by fastforce
    qed
  next
    case False
    obtain r s1 where g: "get_more_chars s = (r, s1)" by fastforce
    show ?thesis
    proof (cases "r = CIF_OK")
      case True
      then have "progress s1 t"
        using 1(2) [OF False, of r s1] 1(3) False g by (simp add: scan_to_loop.simps [of e lead s])
      then show ?thesis using progress_more [of s r s1] False g True progress_trans by simp
    next
      case no: False
      then show ?thesis
        using 1(3) False g progress_more [of s r s1] progress_unpaired [of s1 lead] progress_trans [of s s1]
        by (auto simp: scan_to_loop.simps [of e lead s] split: if_splits prod.splits)
    qed
  qed
qed

text \<open>What a step of \<open>scan_unquoted\<close> comes to.\<close>

lemma scan_unquoted_step:
  assumes "scan_unquoted_loop d v lead n s = (CIF_OK, t)" "next_char s < buffer_limit s"
    and u: "SCAN_UCHAR s lead = (r, c, l, s1)"
  obtains (again) d' v' where "r = CIF_OK" "scan_unquoted_loop d' v' l (n + 1) s1 = (CIF_OK, t)"
  | (stop) "progress s t" "tvalue_length t = int (next_char t) - int (tvalue_start t)"
proof -
  have r: "r = CIF_OK"
    using assms by (auto simp: scan_unquoted_loop.simps [of d v lead n s] split: if_splits)
  note loop = assms(1) [unfolded scan_unquoted_loop.simps [of d v lead n s]]
  have p: "progress s (BACK_UP s1)" using progress_back_up u r by simp
  show ?thesis
  proof (cases "METACLASS_OF c s1")
    case OPEN_META
    show ?thesis
    proof (cases "\<not> (d \<or> v) \<or> n < 5")
      case True
      obtain e s2 where e: "report_error s1 CIF_MISSING_SPACE (column s1) (next_char s1 - 1) 0 = (e, s2)" by fastforce
      have "place (BACK_UP (report_ws s2 (next_char s2 - 1) 0)) = place (BACK_UP s1)"
        using e by (auto simp: report_error_eq report_ws_def BACK_UP_def place_def)
      moreover have "t = end_of_token (BACK_UP (report_ws s2 (next_char s2 - 1) 0)) 0 0"
        using loop assms(2) u r OPEN_META True e by (simp split: if_splits)
      ultimately show ?thesis using progress_place [OF p, of "BACK_UP (report_ws s2 (next_char s2 - 1) 0)"] stop by simp
    next
      case False
      then show ?thesis using loop assms(2) u r OPEN_META again by simp
    qed
  next
    case WS_META
    have "t = end_of_token (if c \<noteq> EOF_CHAR then BACK_UP s1 else s1) 0 0"
      using loop assms(2) u r WS_META by simp
    then show ?thesis using p progress_uchar [OF u] stop by (cases "c = EOF_CHAR") simp_all
  next
    case CLOSE_META
    then show ?thesis
      using loop assms(2) u r p by (cases "\<not> (d \<or> v) \<or> n < 5") (auto intro: again stop)
  next
    case GENERAL_META
    then show ?thesis
      using loop assms(2) u r by (cases "n < 5") (auto intro: again)
  next
    case NO_META
    then show ?thesis using loop assms(2) u r by (auto intro: again)
  qed
qed

lemma scan_unquoted_progress:
  "scan_unquoted_loop d v lead n s = (CIF_OK, t) \<Longrightarrow>
   progress s t \<and> tvalue_length t = int (next_char t) - int (tvalue_start t)"
proof (induction "scan_measure s" arbitrary: d v lead n s rule: wf_induct_rule [OF wf_lex_prod [OF wf_less_than wf_less_than]])
  case 1
  note IH = 1(1) and run = 1(2)
  show ?case
  proof (cases "next_char s < buffer_limit s")
    case True
    obtain r c l s1 where u: "SCAN_UCHAR s lead = (r, c, l, s1)" using prod_cases4 by metis
    from run True u show ?thesis
    proof (cases rule: scan_unquoted_step)
      case (again d' v')
      have "(scan_measure s1, scan_measure s) \<in> less_than <*lex*> less_than"
        using scan_uchar [OF True, of r _ lead c _ l s1] u again(1) by simp
      then have "progress s1 t \<and> tvalue_length t = int (next_char t) - int (tvalue_start t)"
        using IH [OF _ again(2)] by simp
      then show ?thesis using progress_uchar [OF u] progress_trans by blast
    next
      case stop
      then show ?thesis by simp
    qed
  next
    case False
    obtain r s1 where g: "get_more_chars s = (r, s1)" by fastforce
    show ?thesis
    proof (cases "r = CIF_OK")
      case True
      have "(scan_measure s1, scan_measure s) \<in> less_than <*lex*> less_than"
        using scan_more [of r s1 s] g True by simp
      then have "progress s1 t \<and> tvalue_length t = int (next_char t) - int (tvalue_start t)"
        using IH [of s1 d v lead n] run False g True by (simp add: scan_unquoted_loop.simps [of d v lead n s])
      then show ?thesis using progress_more [of s r s1] False g True progress_trans by simp
    next
      case no: False
      then show ?thesis
        using run False g progress_more [of s r s1] progress_unpaired [of s1 lead] progress_trans [of s s1]
        by (auto simp: scan_unquoted_loop.simps [of d v lead n s] split: if_splits prod.splits)
    qed
  qed
qed

text \<open>Strict progress makes the loop's measure smaller.\<close>

lemma progress_measure:
  assumes "progress s1 t" and "pending (char_source s1) < pending (char_source s)
     \<or> pending (char_source s1) = pending (char_source s) \<and> buffer_limit s1 = buffer_limit s
       \<and> next_char s < buffer_limit s \<and> (tvalue_start t = tvalue_start s1 \<longrightarrow> next_char s1 \<le> next_char t \<longrightarrow> next_char s < next_char t)"
  shows "(scan_measure t, scan_measure s) \<in> scan_order"
  using assms by (auto simp: progress_def scan_measure_def)

lemma scan_ws_first:
  assumes "next_char s < buffer_limit s" "CLASS_OF (buffer s ! next_char s) s = EOL_CLASS"
    and "scan_ws s = (CIF_OK, t)"
  shows "\<exists>s1. place s1 = place (s\<lparr>next_char := next_char s + 1\<rparr>) \<and> progress s1 t"
proof -
  obtain r s1 where h: "HANDLE_EOL s (buffer s ! next_char s) 0 = (r, s1)" by fastforce
  then obtain sol where r: "r = Inr sol"
    using assms HANDLE_EOL_Inl [of s "buffer s ! next_char s" 0] by (cases r) (auto simp: scan_ws_def scan_ws_loop.simps [of 0 s])
  have "scan_ws_loop sol (s1\<lparr>next_char := next_char s1 + 1\<rparr>) = (CIF_OK, t)"
    using assms h r by (simp add: scan_ws_def scan_ws_loop.simps [of 0 s])
  moreover have "place (s1\<lparr>next_char := next_char s1 + 1\<rparr>) = place (s\<lparr>next_char := next_char s + 1\<rparr>)"
    using HANDLE_EOL_place(1) [OF h] by (simp add: place_def)
  ultimately show ?thesis using scan_ws_progress by blast
qed

lemma NEXT_CHAR_place:
  assumes "NEXT_CHAR s = (CIF_OK, c, t)"
  shows "c = buffer t ! (next_char t - 1) \<and> 0 < next_char t \<and>
    (pending (char_source t) < pending (char_source s)
     \<or> next_char s < buffer_limit s \<and> t = s\<lparr>next_char := next_char s + 1, column := column s + 1\<rparr>)"
  using assms get_more_chars_pending [of s CIF_OK]
  by (auto simp: NEXT_CHAR_def PEEK_CHAR_def ENSURE_CHARS_def split: prod.splits if_splits)

lemma finish_ws_Again:
  "finish_ws a report r = Again b t \<Longrightarrow> \<exists>s. r = (CIF_OK, s) \<and> scan_measure t = scan_measure s"
  by (cases r) (auto simp: finish_ws_def CONSUME_TOKEN_def report_ws_def scan_measure_def split: if_splits)

lemma finish_value_Again:
  "finish_value a r = Again b t \<Longrightarrow>
   \<exists>s. r = (CIF_OK, s) \<and> scan_measure t = scan_measure s \<and> tvalue_length s > 4"
  by (cases r)
     (auto simp: finish_value_def reserved_token_def Let_def CONSUME_TOKEN_def report_error_eq scan_measure_def
       split: if_splits option.splits)

lemma token_dispatch_Again:
  assumes "token_dispatch a k s = Again b t"
  obtains (eol) u where "k = EOL_CLASS" "scan_ws (BACK_UP s) = (CIF_OK, u)" "scan_measure t = scan_measure u"
  | (ws) u where "k = WS_CLASS" "scan_ws s = (CIF_OK, u)" "scan_measure t = scan_measure u"
  | (hash) u where "k = HASH_CLASS" "scan_to_eol s = (CIF_OK, u)" "scan_measure t = scan_measure u"
  | (word) u s' where "s' = s \<or> s' = BACK_UP s" "scan_unquoted s' = (CIF_OK, u)" "scan_measure t = scan_measure u"
      "tvalue_length u > 4"
proof -
  have word: thesis if "finish_value a (scan_unquoted s') = Again b t" "s' = s \<or> s' = BACK_UP s" for s'
    using finish_value_Again [OF that(1)] that(2) word by blast
  have ws: "\<exists>u. r = (CIF_OK, u) \<and> scan_measure t = scan_measure u" if "finish_ws x y r = Again b t" for x y r
    using finish_ws_Again [OF that] by blast
  show thesis
  proof (cases k)
    case WS_CLASS
    then show ?thesis using assms ws that(2) by (fastforce simp: token_dispatch_def Let_def)
  next
    case EOL_CLASS
    then show ?thesis using assms ws that(1) by (fastforce simp: token_dispatch_def Let_def)
  next
    case HASH_CLASS
    then show ?thesis using assms ws that(3) by (fastforce simp: token_dispatch_def Let_def)
  next
    case SEMI_CLASS
    then show ?thesis
      using assms word [of s]
      by (auto simp: token_dispatch_def finish_text_def split: if_splits prod.splits)
  next
    case QUOTE_CLASS
    then show ?thesis using assms by (auto simp: token_dispatch_def finish_quoted_def split: if_splits prod.splits)
  qed (use assms word [of "BACK_UP s"] in \<open>auto simp: token_dispatch_def bracket_def split: prod.splits\<close>)
qed

lemma CLASS_OF_class: "char_class s = char_class t \<Longrightarrow> cif_version s = cif_version t \<Longrightarrow> CLASS_OF c s = CLASS_OF c t"
  by (simp add: CLASS_OF_def)

text \<open>A round that asks for another one has made strict progress.\<close>

lemma token_round_start:
  assumes "token_round after_ws s = Again a t"
  obtains c s1 s3 where "NEXT_CHAR (s\<lparr>tvalue_start := text_start s, tvalue_length := 0\<rparr>) = (CIF_OK, c, s1)"
    "place s3 = place s1" "METACLASS_OF c s1 = WS_META \<longrightarrow> s3 = s1" "token_dispatch after_ws (CLASS_OF c s1) s3 = Again a t"
proof -
  obtain r c s1 where n: "NEXT_CHAR (s\<lparr>tvalue_start := text_start s, tvalue_length := 0\<rparr>) = (r, c, s1)"
    using prod_cases3 by metis
  define es where "es = (if METACLASS_OF c s1 \<noteq> CLOSE_META \<and> METACLASS_OF c s1 \<noteq> WS_META \<and> \<not> after_ws
      then report_error s1 CIF_MISSING_SPACE (column s1 - 1) (next_char s1 - 1) 0 else (CIF_OK, s1))"
  define s3 where "s3 = (if METACLASS_OF c s1 = WS_META \<or> CLASS_OF c s1 = HASH_CLASS then snd es
      else report_ws (snd es) (next_char (snd es) - 1) 0)"
  have p: "place (snd es) = place s1" by (simp add: es_def)
  note start = assms [unfolded token_round_def n prod.case Let_def, folded es_def, unfolded case_prod_beta, folded s3_def]
  have "r = CIF_OK" "token_dispatch after_ws (CLASS_OF c s1) s3 = Again a t"
    using start by (simp_all only: split: if_splits) blast+
  moreover have "place s3 = place s1" using p by (auto simp: s3_def report_ws_def place_def)
  moreover have "METACLASS_OF c s1 = WS_META \<longrightarrow> s3 = s1" by (simp add: s3_def es_def)
  ultimately show ?thesis using that n by blast
qed

lemma token_round_measure:
  assumes round: "token_round after_ws s = Again a t" and start: "next_char s \<le> text_start s"
  shows "(scan_measure t, scan_measure s) \<in> scan_order"
proof -
  let ?s = "s\<lparr>tvalue_start := text_start s, tvalue_length := 0\<rparr>"
  obtain c s1 s3 where n: "NEXT_CHAR ?s = (CIF_OK, c, s1)" and p: "place s3 = place s1"
    and meta: "METACLASS_OF c s1 = WS_META \<longrightarrow> s3 = s1"
    and disp: "token_dispatch after_ws (CLASS_OF c s1) s3 = Again a t"
    using token_round_start [OF round] by metis
  have next_s1: "pending (char_source s1) < pending (char_source s)
     \<or> next_char s < buffer_limit s \<and> s1 = ?s\<lparr>next_char := next_char s + 1, column := column s + 1\<rparr>"
    using NEXT_CHAR_place [OF n] by simp
  have pend: "char_source s3 = char_source s1" "char_source (BACK_UP s3) = char_source s1"
    using p by (simp_all add: place_def BACK_UP_def)
  have moved: "next_char s3 = next_char s + 1" "tvalue_start s3 = text_start s" "buffer_limit s3 = buffer_limit s"
    "next_char s < buffer_limit s" "pending (char_source s1) = pending (char_source s)"
    if "\<not> pending (char_source s1) < pending (char_source s)"
    using next_s1 that p by (auto simp: place_def)
  have fwd: "(scan_measure u, scan_measure s) \<in> scan_order" if "progress s3 u" for u
    using that moved pend by (intro progress_measure [of s3 u s]) auto
  have word: "(scan_measure u, scan_measure s) \<in> scan_order"
    if "progress (BACK_UP s3) u" "tvalue_length u = int (next_char u) - int (tvalue_start u)" "tvalue_length u > 4" for u
  proof (intro progress_measure [OF that(1)])
    show "pending (char_source (BACK_UP s3)) < pending (char_source s)
      \<or> pending (char_source (BACK_UP s3)) = pending (char_source s) \<and> buffer_limit (BACK_UP s3) = buffer_limit s
        \<and> next_char s < buffer_limit s \<and> (tvalue_start u = tvalue_start (BACK_UP s3) \<longrightarrow>
            next_char (BACK_UP s3) \<le> next_char u \<longrightarrow> next_char s < next_char u)"
      using moved pend that(2,3) start by (auto simp: BACK_UP_def)
  qed
  from disp show ?thesis
  proof (cases rule: token_dispatch_Again)
    case (ws u)
    then show ?thesis using fwd [OF scan_ws_progress [of 0 s3 u]] by (simp add: scan_ws_def)
  next
    case (hash u)
    then show ?thesis using fwd [OF scan_to_progress [of True False s3 u]] by (simp add: scan_to_eol_def)
  next
    case (word u s')
    then show ?thesis
      using fwd \<open>\<And>u. progress (BACK_UP s3) u \<Longrightarrow> _ \<Longrightarrow> _ \<Longrightarrow> _\<close> [of u] scan_unquoted_progress [of True True False 0 s' u]
      by (auto simp: scan_unquoted_def)
  next
    case (eol u)
    show ?thesis
    proof (cases "pending (char_source s1) < pending (char_source s)")
      case True
      have "progress (BACK_UP s3) u" using eol scan_ws_progress [of 0 "BACK_UP s3" u] by (simp add: scan_ws_def)
      then show ?thesis using True pend eol(3) by (auto intro!: progress_measure)
    next
      case False
      have s3: "s3 = s1" using meta eol(1) by (simp add: METACLASS_OF_def)
      have c: "c = buffer s1 ! (next_char s1 - 1)" using NEXT_CHAR_place [OF n] by simp
      have "next_char (BACK_UP s3) < buffer_limit (BACK_UP s3)" using moved [OF False] by (simp add: BACK_UP_def)
      moreover have "CLASS_OF (buffer (BACK_UP s3) ! next_char (BACK_UP s3)) (BACK_UP s3) = EOL_CLASS"
        using eol(1) c s3 by (auto simp: BACK_UP_def CLASS_OF_def split: if_splits)
      ultimately obtain v where v: "place v = place ((BACK_UP s3)\<lparr>next_char := next_char (BACK_UP s3) + 1\<rparr>)" "progress v u"
        using scan_ws_first [OF _ _ eol(2)] by blast
      have "place v = place s3" using v(1) moved(1) [OF False] by (simp add: place_def BACK_UP_def)
      then have "progress s3 u" using v(2) place_progress [of s3 v] progress_trans by simp
      then show ?thesis using fwd eol(3) by simp
    qed
  qed
qed

text \<open>The loop of \<open>next_token\<close>: no token is ready.\<close>

function next_token_loop :: "bool \<Rightarrow> scanner \<Rightarrow> int \<times> scanner" where
  "next_token_loop after_ws s =
     (if text_start s \<ge> next_char s then
        (case token_round after_ws s of
           Again after_ws' s' \<Rightarrow> next_token_loop after_ws' s'
         | Stop result t s' \<Rightarrow> (result, s'\<lparr>ttype := t\<rparr>))
      else (CIF_OK, s))"
  by pat_completeness auto
termination
  by (relation "inv_image scan_order (\<lambda>(_, s). scan_measure s)")
     (auto intro: wf_scan dest: token_round_measure)

declare next_token_loop.simps [simp del]

definition next_token :: "scanner \<Rightarrow> int \<times> scanner" where
  "next_token s = next_token_loop (ttype s \<in> {OLIST, OTABLE, KEY, TKEY, END}) s"

section \<open>Starting a parse\<close>

definition CIF1_MAGIC :: ustring where
  "CIF1_MAGIC = [0x23, 0x5c, 0x23, 0x43, 0x49, 0x46, 0x5f, 0x31, 0x2e, 0x31]"

definition CIF2_MAGIC :: ustring where
  "CIF2_MAGIC = [0x23, 0x5c, 0x23, 0x43, 0x49, 0x46, 0x5f, 0x32, 0x2e, 0x30]"

definition token_value :: "scanner \<Rightarrow> ustring" where
  "token_value s = take (nat (tvalue_length s)) (drop (tvalue_start s) (buffer s))"

text \<open>The buffer and INIT_V2_SCANNER; \<open>n\<close> is BUF_SIZE_INITIAL.\<close>

definition init_scanner :: "nat \<Rightarrow> ustring \<Rightarrow> ustring \<Rightarrow> scanner \<Rightarrow> scanner" where
  "init_scanner n ws eol s =
     s\<lparr>buffer := replicate n 0, buffer_limit := 0, line := 1, column := 0, ttype := END,
       line_unfolding := line_unfolding s + 1, prefix_removing := prefix_removing s + 1,
       skip_depth := 0, char_class := init_v2_class ws eol,
       next_char := 0, text_start := 0, tvalue_start := 0, tvalue_length := 0\<rparr>"

definition SET_V1 :: "scanner \<Rightarrow> scanner" where
  "SET_V1 s = s\<lparr>line_unfolding := line_unfolding s - 1, prefix_removing := prefix_removing s - 1,
     char_class := set_v1_class (char_class s)\<rparr>"

text \<open>The choice of the CIF version by the magic code in an initial comment.\<close>

definition choose_version :: "uchar \<Rightarrow> scanner \<Rightarrow> int \<times> scanner" where
  "choose_version c s =
     (if cif_version s > 0 then (CIF_OK, s)
      else
        (let s = s\<lparr>cif_version := if cif_version s < 0 then - cif_version s else 1\<rparr> in
         if CLASS_OF c s \<noteq> HASH_CLASS then (CIF_OK, s)
         else
           (case scan_to_ws s of (result, s) \<Rightarrow>
              if result \<noteq> CIF_OK then (result, s)
              else if tvalue_length s \<noteq> 10 then (CIF_OK, s)
              else if token_value s = CIF2_MAGIC then (CIF_OK, s\<lparr>cif_version := 2\<rparr>)
              else if take 7 (token_value s) = take 7 CIF1_MAGIC then (CIF_OK, s\<lparr>cif_version := 1\<rparr>)
              else (CIF_OK, s))))"

text \<open>
  Starting a parse: the first character, a byte-order mark, the version. The first component says
  whether the parse goes on with the grammar; if not, the second is its result.
\<close>

definition prepare_parse :: "nat \<Rightarrow> bool \<Rightarrow> ustring \<Rightarrow> ustring \<Rightarrow> scanner \<Rightarrow> bool \<times> int \<times> scanner" where
  "prepare_parse n not_utf8 extra_ws extra_eol s0 =
     (case get_first_char (init_scanner n extra_ws extra_eol s0) of (result, s) \<Rightarrow>
        if result = CIF_EOF then (False, CIF_OK, s)
        else if result \<noteq> CIF_OK then (False, result, s)
        else
          (let c = buffer s ! next_char s; s = s\<lparr>next_char := next_char s + 1\<rparr>;
               scanned_bom = (c = UCHAR_BOM);
               (result, c, s) = (if scanned_bom then NEXT_CHAR (CONSUME_TOKEN s) else (CIF_OK, c, s))
           in if result = CIF_EOF then (False, CIF_OK, s)
              else if result \<noteq> CIF_OK then (False, result, s)
              else
                (case choose_version c s of (result, s) \<Rightarrow>
                   if result \<noteq> CIF_OK then (False, result, s)
                   else
                     (let s = s\<lparr>next_char := text_start s, column := 0\<rparr>;
                          (result, s) =
                            (if cif_version s = 1 then
                               (case (if scanned_bom
                                      then report_error s CIF_DISALLOWED_CHAR 0 (next_char s - 1) 1
                                      else (CIF_OK, s)) of (r, s) \<Rightarrow> (r, SET_V1 s))
                             else if cif_version s = 2 \<and> not_utf8
                             then report_error s CIF_WRONG_ENCODING 1 (next_char s) 0
                             else (CIF_OK, s))
                      in (result = CIF_OK, result, s)))))"

end
