(* ===== verification/TextField.thy ===== *)
theory TextField
  imports Scanner Values
begin

text \<open>
  Decoding the content of a text field: \<open>decode_text\<close> of src/parser.c, which removes line
  prefixes, joins folded lines and converts line terminators. Pointers into the text are the
  rest of the text from there on; the output buffer is the list of the units before \<open>buf_pos\<close>.
\<close>

section \<open>The first line\<close>

text \<open>
  The scan of the first line: \<open>i\<close> units have been read. The result has the number of units
  before the last backslash (-1: none), the number of backslashes, whether anything but
  whitespace follows the last of them, what was copied to the buffer and the rest of the text.
\<close>

fun scan_first_line ::
    "scanner \<Rightarrow> ustring \<Rightarrow> int \<Rightarrow> int \<Rightarrow> int \<Rightarrow> bool \<Rightarrow> ustring \<Rightarrow> int \<times> int \<times> bool \<times> ustring \<times> ustring" where
  "scan_first_line s [] i prefix_length backslash_count nonws buf =
     (prefix_length, backslash_count, nonws, buf, [])"
| "scan_first_line s (c # cs) i prefix_length backslash_count nonws buf =
     (if c = UCHAR_BSL then scan_first_line s cs (i + 1) i (backslash_count + 1) False (buf @ [c])
      else if c = UCHAR_CR then
        (prefix_length, backslash_count, nonws, buf @ [UCHAR_NL],
         if cs \<noteq> [] \<and> hd cs = UCHAR_NL then tl cs else cs)
      else if c = UCHAR_NL then (prefix_length, backslash_count, nonws, buf @ [c], cs)
      else (case CLASS_OF c s of
              EOL_CLASS \<Rightarrow> (prefix_length, backslash_count, nonws, buf @ [c], cs)
            | WS_CLASS \<Rightarrow> scan_first_line s cs (i + 1) prefix_length backslash_count nonws (buf @ [c])
            | _ \<Rightarrow> scan_first_line s cs (i + 1) prefix_length backslash_count True (buf @ [c])))"

text \<open>
  The analysis of the first line: the length of the prefix, whether lines are folded, what of
  the first line is kept, and the rest.
\<close>

definition text_protocol :: "scanner \<Rightarrow> ustring \<Rightarrow> int \<times> bool \<times> ustring \<times> ustring" where
  "text_protocol s text =
     (if unit_at text 0 = UCHAR_SEMI \<or> (line_unfolding s \<le> 0 \<and> prefix_removing s \<le> 0)
      then (0, False, [], text)
      else
        (let (prefix_length, backslash_count, nonws, buf, rest) = scan_first_line s text 0 (-1) 0 False [];
             prefix_length = (if prefix_removing s > 0 then prefix_length + 1 - backslash_count else 0)
         in if \<not> nonws \<and> (backslash_count = 1
                 \<or> (backslash_count = 2 \<and> prefix_length > 0 \<and> unit_at text (nat prefix_length) = UCHAR_BSL))
            then (prefix_length,
                  (prefix_length = 0 \<or> backslash_count = 2) \<and> line_unfolding s > 0, [], rest)
            else (0, False, buf, rest)))"

section \<open>The other lines\<close>

text \<open>Copying the rest of a text that is neither prefixed nor folded.\<close>

fun copy_rest :: "scanner \<Rightarrow> ustring \<Rightarrow> ustring" where
  "copy_rest s [] = []"
| "copy_rest s [c] = [if CLASS_OF c s = EOL_CLASS then UCHAR_NL else c]"
| "copy_rest s (c # c2 # cs) =
     (if CLASS_OF c s = EOL_CLASS \<and> c \<noteq> UCHAR_NL then
        UCHAR_NL # (if c = UCHAR_CR \<and> c2 = UCHAR_NL then copy_rest s cs else copy_rest s (c2 # cs))
      else c # copy_rest s (c2 # cs))"

text \<open>
  Copying one physical line to the buffer; \<open>buf_temp\<close> is where the last backslash went, while
  only whitespace follows it.
\<close>

fun copy_line :: "scanner \<Rightarrow> bool \<Rightarrow> ustring \<Rightarrow> ustring \<Rightarrow> nat option \<Rightarrow> ustring \<times> ustring" where
  "copy_line s folded [] buf buf_temp = (buf, [])"
| "copy_line s folded (c # cs) buf buf_temp =
     (if c = UCHAR_BSL \<and> folded then copy_line s folded cs (buf @ [c]) (Some (length buf))
      else
        (let klass = CLASS_OF c s in
         if klass = EOL_CLASS then
           (let buf = buf @ [UCHAR_NL];
                rest = (if c = UCHAR_CR \<and> cs \<noteq> [] \<and> hd cs = UCHAR_NL then tl cs else cs)
            in (case buf_temp of None \<Rightarrow> (buf, rest) | Some i \<Rightarrow> (take i buf, rest)))
         else copy_line s folded cs (buf @ [c]) (if klass \<noteq> WS_CLASS then None else buf_temp)))"

lemma copy_line_rest: "length (snd (copy_line s folded cs buf t)) \<le> length cs - 1"
proof (induction cs arbitrary: buf t)
  case (Cons c cs)
  have "length (snd (copy_line s folded cs (buf @ [c]) u)) \<le> length cs" for u
    using Cons.IH [of "buf @ [c]" u] by simp
  then show ?case by (cases t) (auto simp: Let_def)
qed simp

text \<open>The prefix is that of the text's first line.\<close>

definition drop_prefix :: "ustring \<Rightarrow> nat \<Rightarrow> ustring \<Rightarrow> ustring" where
  "drop_prefix text prefix_length cs =
     (if prefix_length > 0 \<and> length cs \<ge> prefix_length \<and> take prefix_length cs = take prefix_length text
      then drop prefix_length cs else cs)"

lemma line_shorter:
  "cs \<noteq> [] \<Longrightarrow> copy_line s f (drop_prefix t p cs) buf None = (buf', rest) \<Longrightarrow> length rest < length cs"
  using copy_line_rest [of s f "drop_prefix t p cs" buf None]
  by (cases cs) (auto simp: drop_prefix_def split: if_splits)

function decode_lines :: "scanner \<Rightarrow> ustring \<Rightarrow> nat \<Rightarrow> bool \<Rightarrow> ustring \<Rightarrow> ustring \<Rightarrow> ustring" where
  "decode_lines s text prefix_length folded cs buf =
     (if cs = [] then buf
      else
        (case copy_line s folded (drop_prefix text prefix_length cs) buf None of
           (buf, rest) \<Rightarrow> decode_lines s text prefix_length folded rest buf))"
  by pat_completeness auto
termination
  by (relation "measure (\<lambda>(s, t, p, f, cs, buf). length cs)") (auto dest: line_shorter [OF _ sym])

declare decode_lines.simps [simp del]

section \<open>The whole text\<close>

text \<open>The decoded text, and the value that gets it: up to a NUL, if there is one.\<close>

definition decoded :: "scanner \<Rightarrow> ustring \<Rightarrow> ustring" where
  "decoded s text =
     (case text_protocol s text of
        (prefix_length, folded, buf, rest) \<Rightarrow>
          if \<not> folded \<and> prefix_length = 0 then buf @ copy_rest s rest
          else decode_lines s text (nat prefix_length) folded rest buf)"

definition decode_text :: "scanner \<Rightarrow> ustring \<Rightarrow> cif_value \<Rightarrow> int \<times> cif_value" where
  "decode_text s text v =
     (if text = [] then cif_value_init v CIF_CHAR_KIND
      else cif_value_init_char v (Some (cstr (decoded s text))))"

end
