(* ===== verification/FoldProps.thy ===== *)
theory FoldProps
  imports Writer TextField "HOL-Library.Sublist"
begin

text \<open>
  Folding and prefixing lines, and undoing it: where \<open>fold_line\<close> may split a line, what
  \<open>copy_line\<close> and \<open>decode_lines\<close> make of physical lines, and that the lines \<open>write_lines\<close> writes
  for a text are decoded to it.
\<close>

section \<open>Folding\<close>

definition good_fold :: "ustring \<Rightarrow> bool \<Rightarrow> nat \<Rightarrow> bool" where
  "good_fold str pfx len \<longleftrightarrow>
     len = length str \<or> (len < length str \<and> fold_point str pfx len)"

lemma unit_at_0_iff: "0 \<notin> set str \<Longrightarrow> unit_at str len = 0 \<longleftrightarrow> length str \<le> len"
  by (metis in_set_conv_nth not_le unit_at_def)

lemma fold_below_Inl: "0 \<notin> set str \<Longrightarrow> n \<le> length str \<Longrightarrow> fold_below str target n low = Inl len \<Longrightarrow>
    len = length str \<and> len \<le> target"
  by (induction str target n low rule: fold_below.induct)
     (subst (asm) fold_below.simps, auto simp: unit_at_0_iff not_le Suc_le_eq split: if_splits)

lemma fold_below_Inr:
  "0 \<notin> set str \<Longrightarrow> fold_below str target n low = Inr low' \<Longrightarrow>
     (n \<le> target \<longrightarrow> target < length str)
     \<and> (low' = low \<or> (\<exists>i. low' = int i \<and> n \<le> i \<and> i \<le> target \<and> is_blank (unit_at str i)))"
proof (induction str target n low rule: fold_below.induct)
  case (1 str target n low)
  show ?case
  proof (cases "n > target")
    case True
    then show ?thesis using 1(3) by (subst (asm) fold_below.simps) simp
  next
    case False
    then have nz: "unit_at str n \<noteq> 0" using 1(3) by (subst (asm) fold_below.simps) (auto split: if_splits)
    let ?low = "if is_blank (unit_at str n) then int n else low"
    have eq: "fold_below str target (n + 1) ?low = Inr low'"
      using 1(3) False nz by (subst (asm) fold_below.simps) simp
    note IH = 1(1) [OF False nz 1(2) eq]
    have "n < length str" using nz 1(2) by (simp add: unit_at_0_iff)
    then show ?thesis using IH False by (cases "n + 1 \<le> target") (auto split: if_splits)
  qed
qed

lemma find_end_Some: "0 \<notin> set str \<Longrightarrow> n \<le> length str \<Longrightarrow> find_end str limit n = Some e \<Longrightarrow> e = length str \<and> e \<le> limit"
  by (induction str limit n rule: find_end.induct)
     (subst (asm) find_end.simps, auto simp: unit_at_0_iff not_le Suc_le_eq split: if_splits)

lemma blank_fold_point: "is_blank (unit_at str i) \<Longrightarrow> fold_point str pfx i"
  by (auto simp: is_blank_def fold_point_def IS_SURROGATE_PAIR_def)

lemma fold_above_Some:
  assumes "0 \<notin> set str" "n \<le> length str" "target < n" "fold_above str target window low n = Some len"
    "low = -1 \<or> (\<exists>i. low = int i \<and> i \<le> target \<and> is_blank (unit_at str i))" "window \<le> target"
  shows "good_fold str pfx len \<and> target - window \<le> len \<and> len \<le> target + window"
  using assms
proof (induction str target window low n rule: fold_above.induct)
  case (1 str target window low n)
  note unfolded = 1(5) [unfolded fold_above.simps [of str target window low n]]
  have "n \<le> target + window" using unfolded by (simp split: if_splits)
  then consider (go_on) "n \<le> target + window" "n < length str" "\<not> is_blank (unit_at str n)"
    | (at_end) "n \<le> target + window" "n = length str" | (blank) "n \<le> target + window" "n < length str" "is_blank (unit_at str n)"
    using 1(3) le_neq_implies_less by blast
  then show ?case
  proof cases
    case go_on
    then show ?thesis
      using 1(1) 1(2,4,6,7) unfolded unit_at_0_iff [OF 1(2), of n] by simp
  next
    case at_end
    then show ?thesis using unfolded 1(2,4) by (simp add: unit_at_0_iff good_fold_def)
  next
    case blank
    have end_le: "e = length str \<and> e \<le> target + window" if "find_end str (target + window) (n + 1) = Some e" for e
      using find_end_Some [OF 1(2) _ that] blank by simp
    have fp: "fold_point str pfx n" "low = int i \<Longrightarrow> is_blank (unit_at str i) \<Longrightarrow> fold_point str pfx (nat low)" for i
      using blank(3) by (auto intro: blank_fold_point)
    show ?thesis
    proof (cases "find_end str (target + window) (n + 1)")
      case (Some e)
      then show ?thesis using end_le [OF Some] unfolded blank 1(2,4) by (simp add: unit_at_0_iff good_fold_def)
    next
      case None
      then have "len = n \<or> (len = nat low \<and> int target - int window \<le> low)"
        using unfolded blank 1(2) by (auto simp: unit_at_0_iff split: if_splits)
      then show ?thesis
        using 1(4,6,7) blank fp by (auto simp: good_fold_def)
    qed
  qed
qed

lemma fold_above_None:
  assumes "0 \<notin> set str" "n \<le> length str" "fold_above str target window low n = None" "n \<le> target + window"
  shows "target + window < length str"
  using assms
proof (induction str target window low n rule: fold_above.induct)
  case (1 str target window low n)
  note unfolded = 1(4) [unfolded fold_above.simps [of str target window low n]]
  then have "n < length str" "\<not> is_blank (unit_at str n)"
    using 1(2,3,5) unit_at_0_iff [OF 1(2), of n] by (auto split: option.splits if_splits)
  then show ?case
    using 1 unfolded unit_at_0_iff [OF 1(2), of n] by (cases "n = target + window") auto
qed

lemma fold_near_Inl:
  "fold_near str pfx window k n = Inl len \<Longrightarrow> fold_point str pfx len"
  by (induction str pfx window k n rule: fold_near.induct)
     (subst (asm) (2) fold_near.simps, auto simp: Let_def split: if_splits)

lemma fold_down_Some: "fold_down str pfx n = Some len \<Longrightarrow> fold_point str pfx len \<and> 0 < len \<and> len < n"
  by (induction n) (auto split: if_splits)

lemma fold_up_spec:
  "0 \<notin> set str \<Longrightarrow> 0 < n \<Longrightarrow> fold_up str pfx n \<noteq> 0 \<Longrightarrow> good_fold str pfx (fold_up str pfx n)"
proof (induction str pfx n rule: fold_up.induct)
  case (1 str pfx n)
  note eq = fold_up.simps [of str pfx n]
  then have "unit_at str n \<noteq> 0" using 1(4) by auto
  then have "n < length str" by (simp add: unit_at_def split: if_splits)
  then show ?case using 1 eq \<open>unit_at str n \<noteq> 0\<close> by (cases "fold_point str pfx n") (simp_all add: good_fold_def)
qed

text \<open>The range in which the loop around the target length moves.\<close>

lemma near_cases:
  "case fold_near str pfx 6 0 2040 of
     Inl len \<Rightarrow> 2034 \<le> len \<and> len \<le> 2046
   | Inr len \<Rightarrow> len = 2034 \<and> \<not> fold_point str pfx 2040 \<and> \<not> fold_point str pfx 2041"
  by (simp add: fold_near.simps)

lemma fold_line_good:
  assumes "0 \<notin> set str" "fold_line str fld target_length FOLDING_WINDOW pfx = len" "0 < len"
  shows "good_fold str pfx len \<and> (\<not> fld \<longrightarrow> len = length str)"
proof (cases fld)
  case True
  consider (short) "fold_below str 2040 0 (-1) = Inl len"
    | (long) low where "fold_below str 2040 0 (-1) = Inr low"
        "(case fold_above str 2040 6 low 2041 of
            Some len \<Rightarrow> len
          | None \<Rightarrow>
              (case fold_near str pfx 6 0 2040 of
                 Inl len \<Rightarrow> len
               | Inr len \<Rightarrow> (case fold_down str pfx len of Some len \<Rightarrow> len | None \<Rightarrow> fold_up str pfx 2047))) = len"
    using assms(2) True
    by (cases "fold_below str 2040 0 (-1)")
       (simp_all add: fold_line_def target_length_def cong: sum.case_cong option.case_cong)
  then show ?thesis
  proof cases
    case short
    then show ?thesis using fold_below_Inl [OF assms(1) _ short] True by (simp add: good_fold_def)
  next
    case long
    have low: "2040 < length str" "low = -1 \<or> (\<exists>i. low = int i \<and> i \<le> 2040 \<and> is_blank (unit_at str i))"
      using fold_below_Inr [OF assms(1) long(1)] by auto
    show ?thesis
    proof (cases "fold_above str 2040 6 low 2041")
      case (Some l)
      then show ?thesis
        using fold_above_Some [OF assms(1) _ _ Some low(2), of pfx] low(1) long(2) True by simp
    next
      case None
      note above = this
      have long_enough: "2047 \<le> length str" using fold_above_None [OF assms(1) _ None] low(1) by simp
      show ?thesis
      proof (cases "fold_near str pfx 6 0 2040")
        case (Inl l)
        then show ?thesis
          using fold_near_Inl [OF Inl] near_cases [of str pfx] long_enough above long(2) True by (simp add: good_fold_def)
      next
        case (Inr n)
        then have n: "n = 2034" using near_cases [of str pfx] by simp
        then show ?thesis
          using Inr above long(2) True long_enough fold_down_Some [of str pfx n]
            fold_up_spec [OF assms(1), of 2047 pfx] assms(3)
          by (auto simp: good_fold_def split: option.splits)
      qed
    qed
  qed
qed (use assms in \<open>simp add: fold_line_def good_fold_def\<close>)

lemma unit_at_mem: "unit_at str i \<in> insert 0 (set str)"
  by (simp add: unit_at_def)

lemma adjacent_fold_points:
  "UCHAR_SEMI \<notin> set str \<or> pfx \<Longrightarrow> fold_point str pfx i \<or> fold_point str pfx (i + 1)"
  using unit_at_mem [of str i] unit_at_mem [of str "i + 1"]
  by (auto simp: fold_point_def IS_SURROGATE_PAIR_def)

text \<open>
  C28. A line without semicolons, or one that gets a prefix, is always folded, and within the window:
  the segment is at most 2046 units long; if the line is longer, it has at least 2034 and ends
  neither before a semicolon that would start a line without prefix nor inside a surrogate pair.
\<close>

theorem fold_line_bounds:
  assumes "0 \<notin> set str" "str \<noteq> []" "UCHAR_SEMI \<notin> set str \<or> pfx"
  shows "let len = fold_line str True target_length FOLDING_WINDOW pfx
         in 0 < len \<and> len \<le> 2046 \<and>
            (len = length str \<or> (2034 \<le> len \<and> len < length str \<and> fold_point str pfx len))"
proof -
  define len where "len = fold_line str True target_length FOLDING_WINDOW pfx"
  have "0 < len \<and> len \<le> 2046 \<and> (len = length str \<or> 2034 \<le> len)"
  proof (cases "fold_below str 2040 0 (-1)")
    case (Inl l)
    then show ?thesis
      using fold_below_Inl [OF assms(1) _ Inl] assms(2) by (simp add: len_def fold_line_def target_length_def)
  next
    case (Inr low)
    have low: "2040 < length str" "low = -1 \<or> (\<exists>i. low = int i \<and> i \<le> 2040 \<and> is_blank (unit_at str i))"
      using fold_below_Inr [OF assms(1) Inr] by auto
    show ?thesis
    proof (cases "fold_above str 2040 6 low 2041")
      case (Some l)
      then show ?thesis
        using fold_above_Some [OF assms(1) _ _ Some low(2), of pfx] low(1) Inr
        by (simp add: len_def fold_line_def target_length_def)
    next
      case None
      then obtain l where "fold_near str pfx 6 0 2040 = Inl l" "2034 \<le> l" "l \<le> 2046"
        using near_cases [of str pfx] adjacent_fold_points [OF assms(3), of 2040] by (auto split: sum.splits)
      then show ?thesis using None Inr by (simp add: len_def fold_line_def target_length_def)
    qed
  qed
  then show ?thesis
    using fold_line_good [OF assms(1) len_def [symmetric]] by (auto simp: Let_def good_fold_def simp flip: len_def)
qed

lemma fold_line_bounds_witness:
  "let len = fold_line [0x61, 0x62] True target_length FOLDING_WINDOW False
   in 0 < len \<and> len \<le> 2046 \<and>
      (len = length [0x61::uchar, 0x62] \<or> (2034 \<le> len \<and> len < length [0x61::uchar, 0x62] \<and> fold_point [0x61, 0x62] False len))"
  by (rule fold_line_bounds) simp_all

section \<open>What decoding does to one physical line\<close>

definition standard_scanner :: "scanner \<Rightarrow> bool" where
  "standard_scanner s \<longleftrightarrow>
     (\<forall>c. (CLASS_OF c s = EOL_CLASS) = (c = UCHAR_NL \<or> c = UCHAR_CR) \<and> (CLASS_OF c s = WS_CLASS) = is_blank c)
     \<and> line_unfolding s > 0 \<and> prefix_removing s > 0"

lemma standard_class:
  "standard_scanner s \<Longrightarrow> CLASS_OF c s = EOL_CLASS \<longleftrightarrow> c = UCHAR_NL \<or> c = UCHAR_CR"
  "standard_scanner s \<Longrightarrow> CLASS_OF c s = WS_CLASS \<longleftrightarrow> is_blank c"
  by (simp_all add: standard_scanner_def)

text \<open>Where the backslash is that ends a line, if one does: \<open>n\<close> is the position of the first unit.\<close>

fun mark :: "bool \<Rightarrow> ustring \<Rightarrow> nat \<Rightarrow> nat option \<Rightarrow> nat option" where
  "mark fld [] n t = t"
| "mark fld (c # cs) n t =
     mark fld cs (n + 1) (if c = UCHAR_BSL \<and> fld then Some n else if is_blank c then t else None)"

definition no_eol :: "ustring \<Rightarrow> bool" where
  "no_eol l \<longleftrightarrow> UCHAR_NL \<notin> set l \<and> UCHAR_CR \<notin> set l"

lemma no_eol_simps [simp]: "no_eol []" "no_eol (c # l) \<longleftrightarrow> c \<noteq> UCHAR_NL \<and> c \<noteq> UCHAR_CR \<and> no_eol l"
  "no_eol (a @ b) \<longleftrightarrow> no_eol a \<and> no_eol b"
  by (auto simp: no_eol_def)

lemma mark_append: "mark fld (a @ b) n t = mark fld b (n + length a) (mark fld a n t)"
  by (induction a arbitrary: n t) auto

lemma mark_bsl: "mark True (a @ [UCHAR_BSL]) n t = Some (n + length a)"
  by (simp add: mark_append)

lemma mark_bound: "mark fld l n t = Some i \<Longrightarrow> (\<forall>j. t = Some j \<longrightarrow> j < n) \<Longrightarrow> i < n + length l"
  by (induction l arbitrary: n t) (fastforce split: if_splits)+

lemma mark_None: "mark fld l n t = None \<Longrightarrow> (t = None \<Longrightarrow> u = None) \<Longrightarrow> mark fld l m u = None"
proof (induction l arbitrary: n m t u)
  case (Cons c l)
  let ?step = "\<lambda>n t. if c = UCHAR_BSL \<and> fld then Some n else if is_blank c then t else None"
  have "mark fld l (m + 1) (?step m u) = None"
    by (rule Cons.IH [of "n + 1" "?step n t"]) (use Cons.prems in \<open>auto split: if_splits\<close>)
  then show ?case by simp
qed auto

lemma mark_position: "mark fld l n t = None \<longleftrightarrow> mark fld l m t = None"
  using mark_None [of fld l n t t m] mark_None [of fld l m t t n] by blast

lemma mark_unfolded: "mark False l n None = None"
  by (induction l arbitrary: n) auto

lemma copy_line_eol:
  assumes "standard_scanner s" "no_eol l"
  shows "copy_line s fld (l @ UCHAR_NL # rest) buf t =
    (case mark fld l (length buf) t of
       None \<Rightarrow> (buf @ l @ [UCHAR_NL], rest) | Some i \<Rightarrow> (take i (buf @ l @ [UCHAR_NL]), rest))"
  using assms(2)
proof (induction l arbitrary: buf t)
  case Nil
  then show ?case using assms(1) by (simp add: standard_class Let_def split: option.split)
next
  case (Cons c l)
  have "is_blank c \<Longrightarrow> c \<noteq> UCHAR_BSL" by (auto simp: is_blank_def)
  then show ?case using Cons assms(1) by (auto simp: standard_class Let_def split: option.split)
qed

lemma copy_line_last:
  "standard_scanner s \<Longrightarrow> no_eol l \<Longrightarrow> copy_line s fld l buf t = (buf @ l, [])"
  by (induction l arbitrary: buf t) (auto simp: standard_class Let_def)

lemma mark_shift: "mark fld l (n + k) (map_option (\<lambda>i. i + k) t) = map_option (\<lambda>i. i + k) (mark fld l n t)"
proof (induction l arbitrary: n t)
  case (Cons c l)
  show ?case
    using Cons.IH [of "n + 1" "Some n"] Cons.IH [of "n + 1" t] Cons.IH [of "n + 1" None] by (cases "c = UCHAR_BSL \<and> fld") auto
qed simp

section \<open>Physical lines\<close>

definition strip :: "bool \<Rightarrow> ustring \<Rightarrow> ustring" where
  "strip pfx l = (if pfx \<and> take 2 l = text_prefix then drop 2 l else l)"

definition ended :: "bool \<Rightarrow> ustring \<Rightarrow> ustring" where
  "ended fld l = (case mark fld l 0 None of None \<Rightarrow> l @ [UCHAR_NL] | Some i \<Rightarrow> take i l)"

fun join_lines :: "ustring list \<Rightarrow> ustring" where
  "join_lines [] = []"
| "join_lines [l] = l"
| "join_lines (l # m # ls) = l @ UCHAR_NL # join_lines (m # ls)"

text \<open>What decoding makes of the physical lines after the first.\<close>

fun undo :: "bool \<Rightarrow> bool \<Rightarrow> ustring list \<Rightarrow> ustring" where
  "undo fld pfx [] = []"
| "undo fld pfx [l] = strip pfx l"
| "undo fld pfx (l # m # ls) = ended fld (strip pfx l) @ undo fld pfx (m # ls)"

lemma undo_Cons: "ls \<noteq> [] \<Longrightarrow> undo fld pfx (l # ls) = ended fld (strip pfx l) @ undo fld pfx ls"
  by (cases ls) auto

lemma join_Cons: "ls \<noteq> [] \<Longrightarrow> join_lines (l # ls) = l @ UCHAR_NL # join_lines ls"
  by (cases ls) auto

lemma strip_Nil [simp]: "strip pfx [] = []"
  by (simp add: strip_def text_prefix_def)

lemma strip_prefix [simp]: "strip pfx ((if pfx then text_prefix else []) @ l) = l"
  by (cases pfx) (simp_all add: strip_def text_prefix_def)

lemma strip_text_prefix [simp]: "strip True (text_prefix @ l) = l" "strip False l = l"
  by (simp_all add: strip_def text_prefix_def)

lemma ended_Nil [simp]: "ended fld [] = [UCHAR_NL]"
  by (simp add: ended_def)

lemma ended_bsl [simp]: "ended True (l @ [UCHAR_BSL]) = l"
  by (simp add: ended_def mark_bsl)

lemma ended_plain: "mark fld l 0 None = None \<Longrightarrow> ended fld l = l @ [UCHAR_NL]"
  by (simp add: ended_def)

lemma no_eol_strip: "no_eol l \<Longrightarrow> no_eol (strip pfx l)"
  by (auto simp: strip_def no_eol_def dest: in_set_dropD)

lemma take_prefix_line:
  "no_eol l \<Longrightarrow> take 2 (l @ UCHAR_NL # r) = text_prefix \<longleftrightarrow> take 2 l = text_prefix"
  by (cases l rule: list.exhaust [case_names Nil Cons]; cases "tl l")
     (auto simp: text_prefix_def)

lemma drop_prefix_strip:
  assumes "pfx \<Longrightarrow> take 2 t = text_prefix" "no_eol l"
  shows "drop_prefix t (if pfx then 2 else 0) l = strip pfx l"
    "drop_prefix t (if pfx then 2 else 0) (l @ UCHAR_NL # r) = strip pfx l @ UCHAR_NL # r"
proof -
  have len: "take 2 x = text_prefix \<Longrightarrow> 2 \<le> length x" for x
    by (metis One_nat_def Suc_1 length_Cons length_take list.size(3) min.cobounded1 text_prefix_def)
  show "drop_prefix t (if pfx then 2 else 0) l = strip pfx l"
    using assms len [of l] by (auto simp: drop_prefix_def strip_def)
  show "drop_prefix t (if pfx then 2 else 0) (l @ UCHAR_NL # r) = strip pfx l @ UCHAR_NL # r"
    using assms len [of l] take_prefix_line [OF assms(2), of r] by (auto simp: drop_prefix_def strip_def)
qed

lemma copy_line_ended:
  assumes "standard_scanner s" "no_eol l"
  shows "copy_line s fld (l @ UCHAR_NL # rest) buf None = (buf @ ended fld l, rest)"
proof -
  have "mark fld l (length buf) None = map_option (\<lambda>i. i + length buf) (mark fld l 0 None)"
    using mark_shift [of fld l 0 "length buf" None] by simp
  then show ?thesis
    using mark_bound [of fld l 0 None] by (auto simp: copy_line_eol [OF assms] ended_def split: option.split)
qed

lemma decode_lines_undo:
  assumes "standard_scanner s" "pfx \<Longrightarrow> take 2 t = text_prefix" "\<forall>l\<in>set ls. no_eol l"
  shows "decode_lines s t (if pfx then 2 else 0) fld (join_lines ls) buf = buf @ undo fld pfx ls"
  using assms(3)
proof (induction ls arbitrary: buf rule: join_lines.induct)
  case 1
  show ?case by (simp add: decode_lines.simps)
next
  case (2 l)
  then show ?case
    using assms(1,2) copy_line_last [OF assms(1) no_eol_strip]
    by (subst decode_lines.simps) (simp add: drop_prefix_strip decode_lines.simps [of _ _ _ _ "[]"])
next
  case (3 l m ls)
  then show ?case
    using assms(1,2) copy_line_ended [OF assms(1) no_eol_strip]
    by (subst decode_lines.simps) (simp add: drop_prefix_strip)
qed

section \<open>What is written for a logical line\<close>

lemma emit_simps [simp]: "emit (emit c a) b = emit c (a @ b)" "emit c [] = c"
  "out_units (emit c a) = out_units c @ a"
  by (simp_all add: emit_def)

definition lines_text :: "ustring list \<Rightarrow> ustring" where
  "lines_text ls = concat (map ((#) UCHAR_NL) ls)"

lemma lines_text_simps [simp]: "lines_text [] = []" "lines_text (l # ls) = UCHAR_NL # l @ lines_text ls"
  "lines_text (xs @ ys) = lines_text xs @ lines_text ys"
  by (simp_all add: lines_text_def)

lemma lines_text_join: "ls \<noteq> [] \<Longrightarrow> lines_text ls = UCHAR_NL # join_lines ls"
  by (induction ls rule: join_lines.induct) auto

lemma no_eol_take_drop: "no_eol l \<Longrightarrow> no_eol (take n l)" "no_eol l \<Longrightarrow> no_eol (drop n l)"
  by (auto simp: no_eol_def dest: in_set_takeD in_set_dropD)

text \<open>Lines that do not start with a semicolon.\<close>

definition no_semi :: "ustring \<Rightarrow> bool" where
  "no_semi l \<longleftrightarrow> l = [] \<or> hd l \<noteq> UCHAR_SEMI"

lemma no_semi_prefixed: "pfx \<or> no_semi l \<Longrightarrow> l \<noteq> [] \<Longrightarrow> no_semi ((if pfx then text_prefix else []) @ l @ b)"
  by (cases l) (auto simp: no_semi_def text_prefix_def)

lemma write_segments_lines:
  assumes "write_segments fld pfx protect tok c = (CIF_OK, c')" "no_eol tok" "0 \<notin> set tok" "tok \<noteq> []"
    "protect \<Longrightarrow> fld" "\<not> protect \<Longrightarrow> mark fld tok 0 None = None"
  shows "\<exists>ls. ls \<noteq> [] \<and> c' = emit c (lines_text ls) \<and> (\<forall>l\<in>set ls. no_eol l)
    \<and> (\<forall>tail. undo fld pfx (ls @ (if protect then [[]] else []) @ tail) =
              tok @ (if tail = [] then [] else UCHAR_NL # undo fld pfx tail))
    \<and> (pfx \<or> no_semi tok \<longrightarrow> (\<forall>l\<in>set ls. no_semi l)) \<and> (\<not> pfx \<longrightarrow> hd ls \<noteq> [] \<and> hd (hd ls) = hd tok)"
  using assms
proof (induction fld pfx protect tok c rule: write_segments.induct)
  case (1 fld pfx protect tok c)
  define len where "len = fold_line tok fld target_length FOLDING_WINDOW pfx"
  let ?p = "if pfx then text_prefix else []"
  let ?l = "?p @ take len tok @ (if len < length tok \<or> protect then [UCHAR_BSL] else [])"
  note unfolded = 1(2) [unfolded write_segments.simps [of fld pfx protect tok c] Let_def, folded len_def]
  have "len \<noteq> 0" using unfolded 1(5) by (auto split: if_splits)
  moreover have "write_segments fld pfx protect (drop len tok) (emit c (UCHAR_NL # ?l)) = (CIF_OK, c')"
    using unfolded 1(5) \<open>len \<noteq> 0\<close> by simp
  ultimately have rest: "len \<noteq> 0" "write_segments fld pfx protect (drop len tok) (emit c (UCHAR_NL # ?l)) = (CIF_OK, c')"
    by blast+
  then have good: "good_fold tok pfx len" "fld \<or> len = length tok"
    using fold_line_good [OF 1(4) len_def [symmetric]] by auto
  then have len: "len \<le> length tok" by (auto simp: good_fold_def)
  have l: "no_eol ?l" using 1(3) by (auto simp: no_eol_take_drop text_prefix_def)
  have l_hd: "\<not> pfx \<Longrightarrow> ?l \<noteq> [] \<and> hd ?l = hd tok"
    using rest(1) 1(5) by (cases tok; cases len) auto
  have l_semi: "pfx \<or> no_semi tok \<longrightarrow> no_semi ?l"
    using rest(1) 1(5) by (cases tok; cases len) (auto simp: no_semi_def text_prefix_def)
  show ?case
  proof (cases "len = length tok")
    case True
    have "write_segments fld pfx protect [] x = (CIF_OK, x)" for x by (simp add: write_segments.simps)
    then have "c' = emit c (lines_text [?l])" using rest(2) True by simp
    moreover have "undo fld pfx ([?l] @ (if protect then [[]] else []) @ tail) =
        tok @ (if tail = [] then [] else UCHAR_NL # undo fld pfx tail)" for tail
      using True 1(6,7) by (cases protect; cases "tail = []") (auto simp: undo_Cons ended_plain)
    ultimately show ?thesis using l l_semi l_hd by (intro exI [of _ "[?l]"]) simp
  next
    case False
    then have lt: "len < length tok" and fp: "fold_point tok pfx len" and fld using good by (auto simp: good_fold_def)
    have "mark fld tok 0 None = mark fld (drop len tok) len (mark fld (take len tok) 0 None)"
      using mark_append [of fld "take len tok" "drop len tok" 0 None] lt by simp
    then have mark_drop: "\<not> protect \<Longrightarrow> mark fld (drop len tok) 0 None = None"
      using 1(7) mark_None [of fld "drop len tok" len "mark fld (take len tok) 0 None" None] by simp
    have nul: "0 \<notin> set (drop len tok)" using 1(4) by (meson in_set_dropD)
    obtain ls where ls: "ls \<noteq> []" "c' = emit (emit c (UCHAR_NL # ?l)) (lines_text ls)" "\<forall>l\<in>set ls. no_eol l"
      "\<And>tail. undo fld pfx (ls @ (if protect then [[]] else []) @ tail) =
              drop len tok @ (if tail = [] then [] else UCHAR_NL # undo fld pfx tail)"
      "pfx \<or> no_semi (drop len tok) \<longrightarrow> (\<forall>l\<in>set ls. no_semi l)"
      using 1(1) [OF 1(5) len_def rest(1)] rest(2) 1(3,6) nul mark_drop lt
      by (auto simp: no_eol_take_drop)
    have "undo fld pfx ((?l # ls) @ (if protect then [[]] else []) @ tail) =
        tok @ (if tail = [] then [] else UCHAR_NL # undo fld pfx tail)" for tail
      using ls(1,4) \<open>fld\<close> lt by (simp add: undo_Cons)
    moreover have "pfx \<or> no_semi (drop len tok)"
      using fp lt by (auto simp: fold_point_def no_semi_def unit_at_def hd_drop_conv_nth)
    ultimately show ?thesis
      using ls l l_semi l_hd by (intro exI [of _ "?l # ls"]) (auto simp: no_semi_prefixed)
  qed
qed

section \<open>All lines of a text\<close>

text \<open>The line terminator at the end of a text is lost.\<close>

definition strip_nl :: "ustring \<Rightarrow> ustring" where
  "strip_nl t = (if t \<noteq> [] \<and> last t = UCHAR_NL then butlast t else t)"

lemma strip_nl_line: "no_eol l \<Longrightarrow> strip_nl l = l"
  by (cases l rule: rev_cases) (auto simp: strip_nl_def)

lemma strip_nl_lines: "no_eol l \<Longrightarrow> strip_nl (l @ UCHAR_NL # r) = (if r = [] then l else l @ UCHAR_NL # strip_nl r)"
  by (auto simp: strip_nl_def butlast_append)

definition text_free :: "ustring \<Rightarrow> bool" where
  "text_free t \<longleftrightarrow> no_semi t \<and> \<not> sublist text_delim t"

lemma text_free_lines:
  assumes "text_free (l @ UCHAR_NL # r)"
  shows "no_semi l" "text_free r"
proof -
  show "no_semi l" using assms by (cases l) (auto simp: text_free_def no_semi_def)
  have "sublist r (l @ UCHAR_NL # r)" by (metis append_Cons append_Nil append_assoc sublist_append_leftI sublist_order.order_refl)
  moreover have "sublist text_delim (l @ UCHAR_NL # r)" if "r \<noteq> []" "hd r = UCHAR_SEMI"
  proof -
    have "l @ UCHAR_NL # r = l @ text_delim @ tl r" using that by (cases r) (auto simp: text_delim_def)
    then show ?thesis by (metis sublist_appendI)
  qed
  ultimately show "text_free r"
    using assms by (auto simp: text_free_def no_semi_def intro: sublist_order.order_trans)
qed

lemma scan_logical_line_spec:
  "scan_logical_line fld p t = (l, p', rest) \<Longrightarrow> (p \<Longrightarrow> fld) \<Longrightarrow>
     t = l @ (case rest of None \<Rightarrow> [] | Some r \<Rightarrow> UCHAR_NL # r)
     \<and> UCHAR_NL \<notin> set l \<and> (p' \<longrightarrow> fld) \<and> (p' \<longleftrightarrow> mark fld l 0 (if p then Some 0 else None) \<noteq> None)"
proof (induction t arbitrary: p l)
  case (Cons c t)
  show ?case
  proof (cases "c = UCHAR_NL")
    case False
    let ?p = "if is_blank c then p else if c = UCHAR_BSL then fld else False"
    obtain l' where l': "scan_logical_line fld ?p t = (l', p', rest)" "l = c # l'"
      using Cons.prems(1) False by (auto split: prod.splits)
    have p_fld: "?p \<longrightarrow> fld" using Cons.prems(2) by auto
    then have IH: "t = l' @ (case rest of None \<Rightarrow> [] | Some r \<Rightarrow> UCHAR_NL # r)
        \<and> UCHAR_NL \<notin> set l' \<and> (p' \<longrightarrow> fld) \<and> (p' \<longleftrightarrow> mark fld l' 0 (if ?p then Some 0 else None) \<noteq> None)"
      using Cons.IH [OF l'(1)] by blast
    have "\<not> is_blank UCHAR_BSL" by (simp add: is_blank_def)
    then have step: "mark fld (c # l') 0 (if p then Some 0 else None) = mark fld l' 1 (if ?p then Some 0 else None)"
      by (cases "c = UCHAR_BSL") auto
    let ?u = "if ?p then Some 0 else None"
    have "mark fld l' 1 ?u = None \<longleftrightarrow> mark fld l' 0 ?u = None"
      by (rule mark_position)
    then have eq: "mark fld l 0 (if p then Some 0 else None) = None \<longleftrightarrow> mark fld l' 0 ?u = None"
      unfolding l'(2) step .
    have "p' \<longleftrightarrow> mark fld l' 0 ?u \<noteq> None" using IH by (elim conjE)
    then have "p' \<longleftrightarrow> mark fld l 0 (if p then Some 0 else None) \<noteq> None" by (simp only: eq)
    moreover have "c # t = l @ (case rest of None \<Rightarrow> [] | Some r \<Rightarrow> UCHAR_NL # r)" "UCHAR_NL \<notin> set l" "p' \<longrightarrow> fld"
      using conjunct1 [OF IH] conjunct1 [OF conjunct2 [OF IH]] conjunct1 [OF conjunct2 [OF conjunct2 [OF IH]]] False l'(2)
      by simp_all
    ultimately show ?thesis by (intro conjI)
  qed (use Cons.prems in auto)
qed auto

lemma write_lines_text:
  assumes "write_lines fld pfx t c = (CIF_OK, c')" "UCHAR_CR \<notin> set t" "0 \<notin> set t"
  shows "\<exists>ls. c' = emit c (lines_text ls) \<and> (ls = [] \<longleftrightarrow> t = []) \<and> (\<forall>l\<in>set ls. no_eol l)
    \<and> undo fld pfx ls = strip_nl t \<and> (pfx \<or> text_free t \<longrightarrow> (\<forall>l\<in>set ls. no_semi l))
    \<and> (\<not> pfx \<and> t \<noteq> [] \<and> hd t \<noteq> UCHAR_NL \<longrightarrow> hd ls \<noteq> [] \<and> hd (hd ls) = hd t)"
  using assms
proof (induction fld pfx t c rule: write_lines.induct)
  case (1 fld pfx t c)
  note unfolded = 1(3) [unfolded write_lines.simps [of fld pfx t c]]
  show ?case
  proof (cases "t \<noteq> [] \<and> hd t = UCHAR_NL")
    case True
    then obtain x where t: "t = UCHAR_NL # x" by (cases t) auto
    obtain ls where ls: "c' = emit (emit c [UCHAR_NL]) (lines_text ls)" "ls = [] \<longleftrightarrow> x = []" "\<forall>l\<in>set ls. no_eol l"
      "undo fld pfx ls = strip_nl x" "pfx \<or> text_free x \<longrightarrow> (\<forall>l\<in>set ls. no_semi l)"
      using 1(1) [OF True] unfolded True 1(4,5) by (auto simp: t)
    have "undo fld pfx ([] # ls) = strip_nl t"
      using ls(2,4) strip_nl_lines [of "[]" x] by (cases "ls = []") (auto simp: t undo_Cons)
    moreover have "text_free t \<Longrightarrow> text_free x" using text_free_lines(2) [of "[]" x] by (simp add: t)
    ultimately show ?thesis
      using ls by (intro exI [of _ "[] # ls"]) (auto simp: t no_semi_def)
  next
    case False
    note nostart = False
    obtain l protect rest where scan: "scan_logical_line fld False t = (l, protect, rest)"
      by (cases "scan_logical_line fld False t") auto
    then have t: "t = l @ (case rest of None \<Rightarrow> [] | Some r \<Rightarrow> UCHAR_NL # r)" and l: "UCHAR_NL \<notin> set l"
      and protect: "protect \<Longrightarrow> fld" "protect \<longleftrightarrow> mark fld l 0 None \<noteq> None"
      using scan_logical_line_spec [of fld False t l protect rest] by auto
    obtain c1 where c1: "write_segments fld pfx protect l c = (CIF_OK, c1)"
      using unfolded False scan by (auto split: prod.splits if_splits)
    let ?c2 = "if protect then emit c1 [UCHAR_NL] else c1"
    have c': "case rest of None \<Rightarrow> c' = ?c2 | Some r \<Rightarrow> write_lines fld pfx r ?c2 = (CIF_OK, c')"
      using unfolded False scan c1 by (auto simp: Let_def split: option.splits)
    have no_eol: "no_eol l" "0 \<notin> set l" using l 1(4,5) t by (auto simp: no_eol_def)
    show ?thesis
    proof (cases "l = []")
      case True
      then have "rest = None" "\<not> protect" using t False protect(2) by (auto split: option.splits)
      then show ?thesis
        using True t c1 c' by (intro exI [of _ "[]"]) (auto simp: write_segments.simps [of _ _ _ "[]"] strip_nl_def)
    next
      case False
      obtain ls where ls: "ls \<noteq> []" "c1 = emit c (lines_text ls)" "\<forall>l\<in>set ls. no_eol l"
        "\<And>tail. undo fld pfx (ls @ (if protect then [[]] else []) @ tail) =
                l @ (if tail = [] then [] else UCHAR_NL # undo fld pfx tail)"
        "pfx \<or> no_semi l \<longrightarrow> (\<forall>l\<in>set ls. no_semi l)" "\<not> pfx \<longrightarrow> hd ls \<noteq> [] \<and> hd (hd ls) = hd l"
        using write_segments_lines [OF c1 no_eol False] protect by blast
      let ?ls = "ls @ (if protect then [[]] else [])"
      have c2: "?c2 = emit c (lines_text ?ls)" using ls(2) by simp
      have ls_ok: "\<forall>l\<in>set ?ls. no_eol l" "pfx \<or> no_semi l \<longrightarrow> (\<forall>l\<in>set ?ls. no_semi l)"
        using ls(3,5) by (auto simp: no_semi_def)
      show ?thesis
      proof (cases rest)
        case None
        then show ?thesis
          using t c' c2 ls(1,6) ls(4) [of "[]"] ls_ok False no_eol
          by (intro exI [of _ ?ls]) (auto simp: strip_nl_line text_free_def)
      next
        case (Some r)
        have tr: "t = l @ UCHAR_NL # r" using t Some by simp
        have "UCHAR_CR \<notin> set r" "0 \<notin> set r" using 1(4,5) tr by auto
        moreover have "write_lines fld pfx r ?c2 = (CIF_OK, c')" using c' Some by simp
        ultimately obtain rs where rs: "c' = emit ?c2 (lines_text rs)" "rs = [] \<longleftrightarrow> r = []" "\<forall>l\<in>set rs. no_eol l"
          "undo fld pfx rs = strip_nl r" "pfx \<or> text_free r \<longrightarrow> (\<forall>l\<in>set rs. no_semi l)"
          using 1(2) [OF nostart scan [symmetric] refl c1 [symmetric] _ refl Some] by auto
        show ?thesis
          using rs c2 ls(1,6) ls(4) [of rs] ls_ok tr False text_free_lines [of l r] strip_nl_lines [OF no_eol(1), of r]
          by (intro exI [of _ "?ls @ rs"]) auto
      qed
    qed
  qed
qed

end
