(* ===== verification/WriterProps.thy ===== *)
theory WriterProps
  imports FoldProps CifMap
begin

text \<open>
  What \<open>write_char\<close> writes and what \<open>decode_text\<close> reads: a text block comes back, but for a
  terminator at its end where lines are folded or prefixed; and the texts for which writing goes
  wrong.
\<close>

section \<open>The first line of a text block\<close>

lemma scan_ordinary:
  "standard_scanner s \<Longrightarrow> c \<noteq> UCHAR_BSL \<Longrightarrow> c \<noteq> UCHAR_NL \<Longrightarrow> c \<noteq> UCHAR_CR \<Longrightarrow>
   scan_first_line s (c # cs) i p bc nonws buf =
     scan_first_line s cs (i + 1) p bc (if is_blank c then nonws else True) (buf @ [c])"
  using standard_class [of s c] by (cases "CLASS_OF c s") auto

lemma text_protocol_flags:
  assumes "standard_scanner s" "fld \<or> pfx"
  shows "text_protocol s ((if pfx then text_prefix @ [UCHAR_BSL] else []) @ (if fld then [UCHAR_BSL] else []) @ UCHAR_NL # x) =
    (if pfx then 2 else 0, fld, [], x)"
  using assms
  by (cases pfx; cases fld)
     (simp_all add: text_protocol_def text_prefix_def scan_ordinary Let_def is_blank_def standard_scanner_def
       del: scan_first_line.simps(2) add: scan_first_line.simps(2) [of s UCHAR_BSL] scan_first_line.simps(2) [of s UCHAR_NL])

text \<open>A first line that does not end in a backslash is not taken for a signature.\<close>

lemma scan_first_line_plain:
  assumes "standard_scanner s" "no_eol l" "0 \<le> bc"
  shows "\<exists>p' bc' nonws'.
     scan_first_line s (l @ (case rest of None \<Rightarrow> [] | Some r \<Rightarrow> UCHAR_NL # r)) i p bc nonws buf =
       (p', bc', nonws', buf @ l @ (case rest of None \<Rightarrow> [] | Some r \<Rightarrow> [UCHAR_NL]), case rest of None \<Rightarrow> [] | Some r \<Rightarrow> r)
     \<and> 0 \<le> bc' \<and> (bc' = 0 \<or> nonws' \<or> mark True l 0 (if 0 < bc \<and> \<not> nonws then Some 0 else None) \<noteq> None)"
  using assms(2,3)
proof (induction l arbitrary: i p bc nonws buf)
  case Nil
  then show ?case by (cases rest) auto
next
  case (Cons c l)
  show ?case
  proof (cases "c = UCHAR_BSL")
    case True
    have "mark True l 1 (Some 0) = None \<longleftrightarrow> mark True l 0 (Some 0) = None" by (rule mark_position)
    then show ?thesis using Cons.IH [of "bc + 1" "i + 1" i False "buf @ [c]"] Cons.prems True by auto
  next
    case False
    let ?nw = "if is_blank c then nonws else True"
    have "mark True l 1 u = None \<longleftrightarrow> mark True l 0 u = None" for u by (rule mark_position)
    then show ?thesis
      using Cons.IH [of bc "i + 1" p ?nw "buf @ [c]"] Cons.prems False scan_ordinary [OF assms(1), of c]
      by (auto split: if_splits)
  qed
qed

lemma copy_rest_id: "standard_scanner s \<Longrightarrow> UCHAR_CR \<notin> set r \<Longrightarrow> copy_rest s r = r"
  by (induction s r rule: copy_rest.induct) (auto simp: standard_class)

lemma decoded_plain:
  assumes "standard_scanner s" "UCHAR_CR \<notin> set t" "t = l @ (case rest of None \<Rightarrow> [] | Some r \<Rightarrow> UCHAR_NL # r)"
    "UCHAR_NL \<notin> set l" "unit_at t 0 = UCHAR_SEMI \<or> mark True l 0 None = None"
  shows "decoded s t = t"
proof (cases "unit_at t 0 = UCHAR_SEMI")
  case True
  then show ?thesis using copy_rest_id [OF assms(1,2)] by (simp add: decoded_def text_protocol_def)
next
  case False
  have l: "no_eol l" and cr: "UCHAR_CR \<notin> set (case rest of None \<Rightarrow> [] | Some r \<Rightarrow> r)"
    using assms(2-4) by (auto simp: no_eol_def split: option.splits)
  obtain p bc nonws where scan: "scan_first_line s t 0 (-1) 0 False [] =
      (p, bc, nonws, l @ (case rest of None \<Rightarrow> [] | Some r \<Rightarrow> [UCHAR_NL]), case rest of None \<Rightarrow> [] | Some r \<Rightarrow> r)"
    "bc = 0 \<or> nonws"
    using scan_first_line_plain [OF assms(1) l, of 0 rest 0 "-1" False "[]"] assms(3,5) False by auto
  have "text_protocol s t =
      (0, False, l @ (case rest of None \<Rightarrow> [] | Some r \<Rightarrow> [UCHAR_NL]), case rest of None \<Rightarrow> [] | Some r \<Rightarrow> r)"
    using scan False assms(1) by (auto simp: text_protocol_def standard_scanner_def Let_def)
  then show ?thesis
    using copy_rest_id [OF assms(1) cr] by (simp add: decoded_def assms(3) split: option.split)
qed

section \<open>A text block comes back\<close>

lemma delim_append:
  "UCHAR_NL \<notin> set f \<Longrightarrow>
   sublist text_delim (f @ UCHAR_NL # r) \<longleftrightarrow> (r \<noteq> [] \<and> hd r = UCHAR_SEMI) \<or> sublist text_delim r"
proof (induction f)
  case Nil
  show ?case by (cases r) (auto simp: text_delim_def sublist_Cons_right)
qed (auto simp: text_delim_def sublist_Cons_right)

lemma no_delim_plain: "UCHAR_NL \<notin> set f \<Longrightarrow> \<not> sublist text_delim f"
  by (auto simp: text_delim_def dest: set_mono_sublist)

lemma no_delim_lines:
  "UCHAR_NL \<notin> set f \<Longrightarrow> \<forall>l\<in>set ls. no_eol l \<and> no_semi l \<Longrightarrow> \<not> sublist text_delim (f @ lines_text ls)"
proof (induction ls arbitrary: f)
  case (Cons l ls)
  have "\<not> sublist text_delim (l @ lines_text ls)" using Cons by (simp add: no_eol_def)
  moreover have "l @ lines_text ls = [] \<or> hd (l @ lines_text ls) \<noteq> UCHAR_SEMI"
    using Cons.prems(2) by (cases l; cases ls) (auto simp: no_semi_def)
  ultimately show ?case using Cons.prems(1) by (auto simp: delim_append)
qed (simp add: no_delim_plain)

lemma text_block_content:
  assumes "write_text t fld pfx c = (CIF_OK, c')" "UCHAR_CR \<notin> set t" "0 \<notin> set t" "standard_scanner s"
    "fld \<or> pfx"
  shows "\<exists>body. out_units c' = out_units c @ [UCHAR_NL, UCHAR_SEMI] @ body @ [UCHAR_NL, UCHAR_SEMI]
    \<and> decoded s body = strip_nl t \<and> body \<noteq> []
    \<and> (pfx \<or> text_free t \<longrightarrow> \<not> sublist text_delim body)
    \<and> (\<not> pfx \<and> hd t = UCHAR_SEMI \<longrightarrow> sublist text_delim body)"
proof -
  let ?flags = "(if pfx then text_prefix @ [UCHAR_BSL] else []) @ (if fld then [UCHAR_BSL] else [])"
  have "t \<noteq> []" using assms(1) by (auto simp: write_text_def abort_def)
  obtain c1 where c1: "write_lines fld pfx t (emit c ([UCHAR_NL, UCHAR_SEMI] @ ?flags)) = (CIF_OK, c1)"
    and c': "c' = (emit c1 [UCHAR_NL, UCHAR_SEMI])\<lparr>last_column := 1\<rparr>"
    using assms(1,5) \<open>t \<noteq> []\<close> by (auto simp: write_text_def Let_def split: prod.splits if_splits)
  then obtain ls where ls: "c1 = emit (emit c ([UCHAR_NL, UCHAR_SEMI] @ ?flags)) (lines_text ls)" "ls \<noteq> []"
    "\<forall>l\<in>set ls. no_eol l" "undo fld pfx ls = strip_nl t" "pfx \<or> text_free t \<longrightarrow> (\<forall>l\<in>set ls. no_semi l)"
    "\<not> pfx \<and> t \<noteq> [] \<and> hd t \<noteq> UCHAR_NL \<longrightarrow> hd ls \<noteq> [] \<and> hd (hd ls) = hd t"
    using write_lines_text [OF c1 assms(2,3)] \<open>t \<noteq> []\<close> by blast
  let ?body = "?flags @ lines_text ls"
  have "out_units c' = out_units c @ [UCHAR_NL, UCHAR_SEMI] @ ?body @ [UCHAR_NL, UCHAR_SEMI]"
    by (simp add: c' ls(1))
  moreover have "decoded s ?body = strip_nl t"
  proof -
    have "text_protocol s ?body = (if pfx then 2 else 0, fld, [], join_lines ls)"
      using text_protocol_flags [OF assms(4,5), of "join_lines ls"] lines_text_join [OF ls(2)] by simp
    moreover have "pfx \<Longrightarrow> take 2 ?body = text_prefix" by (simp add: text_prefix_def)
    ultimately show ?thesis
      using decode_lines_undo [OF assms(4) _ ls(3), of pfx ?body fld "[]"] ls(4) assms(5)
      by (auto simp: decoded_def)
  qed
  moreover have "?body \<noteq> []" using assms(5) by (auto simp: text_prefix_def)
  moreover have "pfx \<or> text_free t \<longrightarrow> \<not> sublist text_delim ?body"
    using ls(3,5) no_delim_lines [of "?flags" ls] by (auto simp: text_prefix_def)
  moreover have "sublist text_delim ?body" if semi: "\<not> pfx" "hd t = UCHAR_SEMI"
  proof -
    obtain l ls' where "ls = (UCHAR_SEMI # l) # ls'"
      using ls(2,6) semi \<open>t \<noteq> []\<close> by (cases ls; cases "hd ls") auto
    then have "?body = ?flags @ text_delim @ l @ lines_text ls'" by (simp add: text_delim_def)
    then show ?thesis by (metis sublist_appendI)
  qed
  ultimately show ?thesis by blast
qed

section \<open>What the analysis says of a text\<close>

lemma has_nl_semi_loop:
  "UCHAR_CR \<notin> set t \<Longrightarrow>
   has_nl_semi (analyze_loop p t st) \<longleftrightarrow> has_nl_semi st \<or> sublist text_delim t"
proof (induction t arbitrary: p st)
  case Nil
  then show ?case by (simp add: track_trailing_ws_def remember_semis_def text_delim_def)
next
  case (Cons ch t)
  have "has_nl_semi (analyze_char p ch (unit_at t 0) st) \<longleftrightarrow>
      has_nl_semi st \<or> (ch = UCHAR_NL \<and> unit_at t 0 = UCHAR_SEMI)"
    using Cons.prems
    by (auto simp: analyze_char_def end_line_def count_char_def track_trailing_ws_def remember_semis_def Let_def)
  moreover have "sublist text_delim (ch # t) \<longleftrightarrow> (ch = UCHAR_NL \<and> unit_at t 0 = UCHAR_SEMI) \<or> sublist text_delim t"
    by (cases t) (auto simp: text_delim_def sublist_Cons_right)
  ultimately show ?case using Cons by auto
qed

lemma contains_text_delim_iff:
  "UCHAR_CR \<notin> set t \<Longrightarrow> contains_text_delim (cif_analyze_string t u tr lim) \<longleftrightarrow> sublist text_delim t"
  using has_nl_semi_loop [of t None stats_init]
  by (simp add: cif_analyze_string_def Let_def analyze_stats_def last_line_stats_def stats_init_def)

lemma ends_in_backslash_mark: "ends_in_backslash (rev l) \<longleftrightarrow> mark True l 0 None \<noteq> None"
  by (induction l rule: rev_induct) (auto simp: mark_append is_blank_def)

lemma split_lines_first:
  "UCHAR_CR \<notin> set t \<Longrightarrow> (\<exists>rest. t = hd (split_lines t) @ (case rest of None \<Rightarrow> [] | Some r \<Rightarrow> UCHAR_NL # r))
     \<and> UCHAR_NL \<notin> set (hd (split_lines t))"
proof (induction t)
  case Nil
  show ?case by (auto intro: exI [of _ None])
next
  case (Cons c t)
  show ?case
  proof (cases "c = UCHAR_NL")
    case True
    then show ?thesis by (auto intro: exI [of _ "Some t"])
  next
    case False
    then show ?thesis using Cons by auto
  qed
qed

lemma no_first_crlf: "UCHAR_CR \<notin> set t \<Longrightarrow> \<not> first_ends_crlf t"
  by (induction t) auto

lemma choose_delim_length: "choose_delim t st u tr lim = Some d \<Longrightarrow> length d \<noteq> 2"
  by (auto simp: choose_delim_def choose_triple_def Let_def apos_delim_def quot_delim_def apos3_delim_def
      quot3_delim_def split: if_splits)

lemma reserved_start_iff:
  assumes "UCHAR_CR \<notin> set t" "delim_length (cif_analyze_string t u tr lim) = 2"
  shows "has_reserved_start (cif_analyze_string t u tr lim) \<longleftrightarrow>
    unit_at t 0 \<noteq> UCHAR_SEMI \<and> mark True (hd (split_lines t)) 0 None \<noteq> None"
proof -
  have "choose_delim t (analyze_stats t) u tr lim = None"
    using assms(2) choose_delim_length [of t "analyze_stats t" u tr lim]
    by (auto simp: cif_analyze_string_def Let_def split: option.splits)
  moreover have "take (length (hd (split_lines t))) t = hd (split_lines t)"
    using split_lines_first [OF assms(1)] by (metis append_eq_conv_conj)
  ultimately show ?thesis
    using first_line_eq [of t] no_first_crlf [OF assms(1)]
    by (simp add: cif_analyze_string_def Let_def ends_in_backslash_mark)
qed

section \<open>Values written as text blocks\<close>

lemma strip_nl_nul: "0 \<notin> set t \<Longrightarrow> 0 \<notin> set (strip_nl t)"
  by (auto simp: strip_nl_def dest: in_set_butlastD)

text \<open>When \<open>write_char\<close> folds lines or prefixes them.\<close>

definition folds :: "string_analysis \<Rightarrow> bool" where
  "folds a \<longleftrightarrow> length_first a \<ge> CIF_LINE_LENGTH \<or> length_max a > CIF_LINE_LENGTH \<or> has_reserved_start a
     \<or> max_semi_run a \<ge> CIF_LINE_LENGTH - 1"

text \<open>
  C6. When \<open>write_char\<close> writes a value whose text has no carriage return as a text block, what stands between
  its delimiters is decoded to the same text, whether lines are folded, prefixed, both or neither; where they are,
  a line terminator at the very end of the text is lost. (A carriage return does not survive, and it may hide
  that the text starts like a marker: the two examples below.) The block has no early end, except where
  a text that starts with a semicolon is folded. The reader is any scanner with the two
  protocols enabled and the standard white space.
\<close>

theorem text_block_roundtrip:
  fixes I v c t
  defines "a \<equiv> cif_analyze_string t (cif_value_is_quoted v \<noteq> CIF_QUOTED) (\<not> IS_CIF1 c) CIF_LINE_LENGTH"
  assumes "standard_scanner s" "cif_value_get_text v = Some t" "0 \<notin> set t" "UCHAR_CR \<notin> set t"
    "delim_length a = 2" "write_char I v True c = (CIF_OK, c')"
  shows "\<exists>body. out_units c' = out_units c @ [UCHAR_NL, UCHAR_SEMI] @ body @ [UCHAR_NL, UCHAR_SEMI]
    \<and> decode_text s body UnkValue =
        (CIF_OK, CharValue CIF_QUOTED (if folds a \<or> contains_text_delim a then strip_nl t else t))
    \<and> (\<not> folds a \<or> hd t \<noteq> UCHAR_SEMI \<longrightarrow> \<not> sublist text_delim body)"
proof -
  have w: "write_text t (folds a) (contains_text_delim a) c = (CIF_OK, c')"
    using assms(3,6,7) unfolding a_def folds_def
    by (auto simp: write_char_def abort_def Let_def split: option.splits if_splits)
  then have "t \<noteq> []" by (auto simp: write_text_def abort_def)
  have delim: "contains_text_delim a \<longleftrightarrow> sublist text_delim t"
    unfolding a_def by (rule contains_text_delim_iff [OF assms(5)])
  show ?thesis
  proof (cases "folds a \<or> contains_text_delim a")
    case True
    obtain body where body: "out_units c' = out_units c @ [UCHAR_NL, UCHAR_SEMI] @ body @ [UCHAR_NL, UCHAR_SEMI]"
      "decoded s body = strip_nl t" "body \<noteq> []" "contains_text_delim a \<or> text_free t \<longrightarrow> \<not> sublist text_delim body"
      using text_block_content [OF w assms(5,4,2) True] by blast
    have "decode_text s body UnkValue = (CIF_OK, CharValue CIF_QUOTED (strip_nl t))"
      using body(2,3) cstr_id [OF strip_nl_nul [OF assms(4)]] by (simp add: decode_text_def cif_value_init_char_def)
    moreover have "\<not> folds a \<or> hd t \<noteq> UCHAR_SEMI \<longrightarrow> \<not> sublist text_delim body"
      using body(4) True delim by (auto simp: text_free_def no_semi_def)
    ultimately show ?thesis using body(1) True by (intro exI [of _ body]) simp
  next
    case False
    obtain rest where t: "t = hd (split_lines t) @ (case rest of None \<Rightarrow> [] | Some r \<Rightarrow> UCHAR_NL # r)"
      "UCHAR_NL \<notin> set (hd (split_lines t))"
      using split_lines_first [OF assms(5)] by blast
    have "unit_at t 0 = UCHAR_SEMI \<or> mark True (hd (split_lines t)) 0 None = None"
      using False reserved_start_iff [OF assms(5) assms(6) [unfolded a_def]] by (auto simp: folds_def a_def)
    then have "decoded s t = t" by (rule decoded_plain [OF assms(2,5) t])
    moreover have "out_units c' = out_units c @ [UCHAR_NL, UCHAR_SEMI] @ t @ [UCHAR_NL, UCHAR_SEMI]"
      using w False \<open>t \<noteq> []\<close> by (auto simp: write_text_def Let_def)
    ultimately show ?thesis
      using False delim \<open>t \<noteq> []\<close> by (intro exI [of _ t]) (simp add: decode_text_def cif_value_init_char_def cstr_id [OF assms(4)])
  qed
qed

section \<open>The default scanner\<close>

lemma default_class_eol: "init_v2_class [] [] c = EOL_CLASS \<longleftrightarrow> c = UCHAR_NL \<or> c = UCHAR_CR"
  by (simp add: init_v2_class_def fixed_classes_def)

lemma default_class_ws: "init_v2_class [] [] c = WS_CLASS \<longleftrightarrow> c = UCHAR_TAB \<or> c = UCHAR_SP"
  by (simp add: init_v2_class_def fixed_classes_def)

lemma standard_default:
  "0 \<le> line_unfolding s \<Longrightarrow> 0 \<le> prefix_removing s \<Longrightarrow> standard_scanner (init_scanner n [] [] s)"
  by (auto simp: standard_scanner_def CLASS_OF_def init_scanner_def default_class_eol default_class_ws is_blank_def)

definition sample_scanner :: scanner where
  "sample_scanner =
     init_scanner 0 [] []
       \<lparr>buffer = [], buffer_limit = 0, next_char = 0, ttype = END, text_start = 0, tvalue_start = 0,
        tvalue_length = 0, line = 0, column = 0, char_class = (\<lambda>_. NO_CLASS), char_source = [], at_eof = False,
        cif_version = 2, line_unfolding = 0, prefix_removing = 0, max_frame_depth = 1, skip_depth = 0,
        events = [], error_callback = (\<lambda>_. 0)\<rparr>"

lemma standard_sample: "standard_scanner sample_scanner"
  unfolding sample_scanner_def by (rule standard_default) simp_all

lemma text_block_roundtrip_witness:
  "\<exists>body c'. write_char ascii_icu (CharValue CIF_QUOTED [0x61, UCHAR_BSL, UCHAR_NL, 0x62]) True
        (CONTEXT_INITIALIZE\<lparr>ctx_version := 1\<rparr>) = (CIF_OK, c')
     \<and> out_units c' = [UCHAR_NL, UCHAR_SEMI] @ body @ [UCHAR_NL, UCHAR_SEMI]
     \<and> decode_text sample_scanner body UnkValue = (CIF_OK, CharValue CIF_QUOTED [0x61, UCHAR_BSL, UCHAR_NL, 0x62])
     \<and> \<not> sublist text_delim body"
proof -
  let ?t = "[0x61, UCHAR_BSL, UCHAR_NL, 0x62] :: ustring"
  let ?v = "CharValue CIF_QUOTED ?t"
  let ?c = "CONTEXT_INITIALIZE\<lparr>ctx_version := 1\<rparr>"
  have 1: "fst (write_char ascii_icu ?v True ?c) = CIF_OK" by code_simp
  have 2: "delim_length (cif_analyze_string ?t (cif_value_is_quoted ?v \<noteq> CIF_QUOTED) (\<not> IS_CIF1 ?c) CIF_LINE_LENGTH) = 2"
    by code_simp
  obtain c' where c': "write_char ascii_icu ?v True ?c = (CIF_OK, c')" using 1 by (metis prod.collapse)
  have "strip_nl ?t = ?t" "hd ?t \<noteq> UCHAR_SEMI" "out_units ?c = []" by (simp_all add: strip_nl_def CONTEXT_INITIALIZE_def)
  then show ?thesis
    using text_block_roundtrip [OF standard_sample _ _ _ 2 c'] c' by auto
qed

text \<open>
  A carriage return in a text is written as it is and decoded to a line feed; and where the first line of a text
  ends in CR LF, a backslash at its end is not seen, so that it is read as the marker of folded lines, with the
  line terminators that the scanner has made of CR LF then.
\<close>

lemma carriage_return_changed:
  "fst (write_char ascii_icu (CharValue CIF_QUOTED [0x61, UCHAR_CR, 0x62]) True (CONTEXT_INITIALIZE\<lparr>ctx_version := 1\<rparr>)) = CIF_OK"
  "out_units (snd (write_char ascii_icu (CharValue CIF_QUOTED [0x61, UCHAR_CR, 0x62]) True (CONTEXT_INITIALIZE\<lparr>ctx_version := 1\<rparr>)))
     = [UCHAR_NL, UCHAR_SEMI] @ [0x61, UCHAR_CR, 0x62] @ [UCHAR_NL, UCHAR_SEMI]"
  "decode_text sample_scanner [0x61, UCHAR_CR, 0x62] UnkValue = (CIF_OK, CharValue CIF_QUOTED [0x61, UCHAR_NL, 0x62])"
  by code_simp+

lemma crlf_hides_marker:
  "out_units (snd (write_char ascii_icu (CharValue CIF_QUOTED [UCHAR_BSL, UCHAR_CR, UCHAR_NL, 0x62]) True
       (CONTEXT_INITIALIZE\<lparr>ctx_version := 1\<rparr>)))
     = [UCHAR_NL, UCHAR_SEMI] @ [UCHAR_BSL, UCHAR_CR, UCHAR_NL, 0x62] @ [UCHAR_NL, UCHAR_SEMI]"
  "decode_text sample_scanner [UCHAR_BSL, UCHAR_NL, 0x62] UnkValue = (CIF_OK, CharValue CIF_QUOTED [0x62])"
  by code_simp+

section \<open>Three ways in which writing goes wrong\<close>

lemma one_line: "UCHAR_CR \<notin> set t \<Longrightarrow> UCHAR_NL \<notin> set t \<Longrightarrow> split_lines t = [t]"
  by (induction t) auto

lemma one_line_lengths:
  assumes "num_lines (cif_analyze_string t u tr lim) = 1"
  shows "UCHAR_CR \<notin> set t \<and> UCHAR_NL \<notin> set t \<and> length_first (cif_analyze_string t u tr lim) = int (length t)"
proof -
  have "length (split_lines t) = 1"
    using assms stats_num_lines_stats [of t] by (simp add: cif_analyze_string_def Let_def)
  then have chars: "UCHAR_CR \<notin> set t" "UCHAR_NL \<notin> set t" using single_line [of t] by blast+
  then show ?thesis
    using first_line_eq [of t] no_first_crlf [of t] one_line [of t] by (simp add: cif_analyze_string_def Let_def)
qed

lemma no_triple: "choose_delim t st u False lim = Some d \<Longrightarrow> length d \<noteq> 3"
  by (auto simp: choose_delim_def Let_def apos_delim_def quot_delim_def split: if_splits)

lemma triple_allowed: "delim_length (cif_analyze_string t u tr lim) = 3 \<Longrightarrow> tr"
  using no_triple [of t "analyze_stats t" u lim]
  by (cases tr) (auto simp: cif_analyze_string_def Let_def text_delim_def split: option.splits)

text \<open>
  A value of one line that needs triple quotes, because it has both quotation marks, is never
  written successfully: the third argument of \<open>write_triple_quoted\<close> counts the delimiter once
  too often, and the result is CIF_ERROR.
\<close>

theorem single_line_triple_quotes:
  fixes v c t
  defines "a \<equiv> cif_analyze_string t (cif_value_is_quoted v \<noteq> CIF_QUOTED) (\<not> IS_CIF1 c) CIF_LINE_LENGTH"
  assumes "cif_value_get_text v = Some t" "delim_length a = 3" "num_lines a = 1"
  shows "fst (write_char I v allow_text c) = CIF_ERROR"
proof -
  have "length_first a = int (length t)" using one_line_lengths assms(4) by (simp add: a_def)
  moreover have "\<not> IS_CIF1 c" using triple_allowed assms(3) unfolding a_def by blast
  ultimately show ?thesis
    using assms(2,3) unfolding a_def
    by (simp add: write_char_def validate_if_cif1_def write_triple_quoted_def abort_def Let_def)
qed

lemma single_line_triple_quotes_witness:
  "fst (write_char ascii_icu (CharValue CIF_QUOTED [UCHAR_SQ, UCHAR_DQ, 0x61]) True CONTEXT_INITIALIZE) = CIF_ERROR"
  by (rule single_line_triple_quotes [where t = "[UCHAR_SQ, UCHAR_DQ, 0x61]"]) code_simp+

text \<open>
  Folding a text that starts with a semicolon, without a prefix, writes a block whose content
  has the closing delimiter: the semicolon of the text comes first on a line.
\<close>

lemma folded_leading_semicolon:
  assumes "write_text t True False c = (CIF_OK, c')" "UCHAR_CR \<notin> set t" "0 \<notin> set t" "hd t = UCHAR_SEMI"
  shows "\<exists>body. out_units c' = out_units c @ [UCHAR_NL, UCHAR_SEMI] @ body @ [UCHAR_NL, UCHAR_SEMI]
    \<and> sublist text_delim body"
  using text_block_content [OF assms(1-3) standard_sample] assms(4) by auto

lemma folded_leading_semicolon_witness:
  "\<exists>body. out_units (snd (write_text [UCHAR_SEMI, 0x61] True False CONTEXT_INITIALIZE)) =
     [UCHAR_NL, UCHAR_SEMI] @ body @ [UCHAR_NL, UCHAR_SEMI] \<and> sublist text_delim body"
proof -
  have "fst (write_text [UCHAR_SEMI, 0x61] True False CONTEXT_INITIALIZE) = CIF_OK" by code_simp
  then obtain c' where c': "write_text [UCHAR_SEMI, 0x61] True False CONTEXT_INITIALIZE = (CIF_OK, c')"
    by (metis prod.collapse)
  show ?thesis using folded_leading_semicolon [OF c'] c' by (simp add: CONTEXT_INITIALIZE_def)
qed

text \<open>A line that is all semicolons but for its first character has no place to fold it.\<close>

lemma semis_unit: "unit_at (c # replicate n UCHAR_SEMI) i = (if i = 0 then c else if i \<le> n then UCHAR_SEMI else 0)"
  by (cases i) (auto simp: unit_at_def)

lemma fold_line_semis:
  assumes "2048 \<le> n" "c \<noteq> 0" "\<not> is_blank c"
  shows "fold_line (c # replicate n UCHAR_SEMI) True target_length FOLDING_WINDOW False = 0"
proof -
  let ?s = "c # replicate n UCHAR_SEMI"
  have nul: "0 \<notin> set ?s" using assms(2) by auto
  have blank: "\<not> is_blank (unit_at ?s i)" for i
    using assms(3) by (simp add: semis_unit is_blank_def)
  have point: "\<not> fold_point ?s False i" if "0 < i" "i \<le> n" for i
    using that by (simp add: fold_point_def semis_unit)
  obtain low where below: "fold_below ?s 2040 0 (-1) = Inr low"
    using fold_below_Inl [OF nul, of 0 2040 "-1"] assms(1) by (cases "fold_below ?s 2040 0 (-1)") auto
  have above: "fold_above ?s 2040 6 low m = None" if "2041 \<le> m" for m
    using that
  proof (induction "2047 - m" arbitrary: m)
    case 0
    then show ?case by (simp add: fold_above.simps)
  next
    case (Suc k)
    then have "unit_at ?s m = UCHAR_SEMI" "\<not> is_blank UCHAR_SEMI" using assms(1) by (auto simp: semis_unit is_blank_def)
    then show ?case using Suc by (simp add: fold_above.simps [of ?s 2040 6 low m])
  qed
  have near: "fold_near ?s False 6 0 2040 = Inr 2034"
    using near_cases [of ?s False] fold_near_Inl [of ?s False 6 0 2040] point assms(1)
    by (auto split: sum.splits)
  have down: "fold_down ?s False m = None" if "m \<le> n" for m
    using that point by (induction m) auto
  have up: "fold_up ?s False m = 0" if "0 < m" for m
    using that
  proof (induction "n + 1 - m" arbitrary: m)
    case 0
    then show ?case by (subst fold_up.simps) (simp add: semis_unit)
  next
    case (Suc k)
    then show ?case using point [of m] by (subst fold_up.simps) (simp add: semis_unit)
  qed
  show ?thesis
    using below above [of 2041] near down [of 2034] up [of 2047] assms(1)
    by (simp add: fold_line_def target_length_def)
qed

lemma validate_semis: "cif_validate_cif11_characters (replicate n UCHAR_SEMI) = Some CIF_OK"
  by (induction n) (simp_all add: cif11_chars_def upt_conv_Cons)

text \<open>
  A value of one character followed by 2048 or more semicolons cannot be written: there is no
  place to fold its line, and the result is CIF_INTERNAL_ERROR with the block just begun.
\<close>

theorem semicolons_unwritable:
  assumes "2048 \<le> n"
  shows "write_char I (CharValue q (0x61 # replicate n UCHAR_SEMI)) True c =
    (CIF_INTERNAL_ERROR, emit c [UCHAR_NL, UCHAR_SEMI, UCHAR_BSL])"
proof -
  define t where "t = (0x61::uchar) # replicate n UCHAR_SEMI"
  define a where "a = cif_analyze_string t (q \<noteq> CIF_QUOTED) (\<not> IS_CIF1 c) CIF_LINE_LENGTH"
  have chars: "UCHAR_CR \<notin> set t" "UCHAR_NL \<notin> set t" "t \<noteq> []" by (auto simp: t_def)
  note lines = one_line [OF chars(1,2)]
  have max: "max_line (analyze_stats t) = int n + 1" unfolding max_line_eq lines by (simp add: t_def)
  have choice: "choose_delim t (analyze_stats t) (q \<noteq> CIF_QUOTED) (\<not> IS_CIF1 c) CIF_LINE_LENGTH = None"
    using max assms by (simp add: choose_delim_def Let_def)
  have a: "delim_length a = 2" "length_first a = int n + 1" "\<not> contains_text_delim a"
    using choice first_line_eq [of t] no_first_crlf [OF chars(1)] lines contains_text_delim_iff [OF chars(1)]
      no_delim_plain [OF chars(2)]
    by (simp_all add: a_def cif_analyze_string_def Let_def text_delim_def t_def)
  obtain protect where scan: "scan_logical_line True False t = (t, protect, None)"
    using scan_logical_line_spec [of True False t] chars(2)
    by (cases "scan_logical_line True False t") (fastforce split: option.splits)
  have "fold_line t True target_length FOLDING_WINDOW False = 0"
    unfolding t_def by (rule fold_line_semis [OF assms]) (simp_all add: is_blank_def)
  then have "write_segments True False protect t c' = (CIF_INTERNAL_ERROR, c')" for c'
    using chars(3) by (simp add: write_segments.simps [of True False protect t c'])
  then have "write_lines True False t c' = (CIF_INTERNAL_ERROR, c')" for c'
    using scan by (simp add: write_lines.simps [of True False t c']) (simp add: t_def)
  then have blk: "write_text t True False c = (CIF_INTERNAL_ERROR, emit c [UCHAR_NL, UCHAR_SEMI, UCHAR_BSL])"
    using chars(3) by (simp add: write_text_def Let_def)
  have valid: "validate_if_cif1 c t = Some CIF_OK"
    using validate_semis [of n] by (simp add: validate_if_cif1_def t_def cif11_chars_def upt_conv_Cons)
  have "write_char I (CharValue q t) True c = write_text t True False c"
    using a assms valid a_def by (simp add: write_char_def Let_def)
  then show ?thesis using blk by (simp add: t_def)
qed

lemma semicolons_unwritable_witness:
  "fst (write_char ascii_icu (CharValue CIF_NOT_QUOTED (0x61 # replicate 3000 UCHAR_SEMI)) True CONTEXT_INITIALIZE)
     = CIF_INTERNAL_ERROR"
  by (simp add: semicolons_unwritable)

end
