(* ===== verification/ParseValue.thy ===== *)
theory ParseValue
  imports TextField CifMap
begin

text \<open>
  The productions of src/parser.c for values: \<open>parse_value\<close>, \<open>parse_list\<close>, \<open>parse_table\<close>.

  Fuel bounds the number of tokens read and the depth of nesting; \<open>None\<close> is out of fuel. A value
  object that a production is given a pointer to is the result it returns; with a code other than
  CIF_OK that value has no meaning, as in the code.
\<close>

section \<open>Reports about the current token\<close>

text \<open>The text of the token, as it is copied to a NUL-terminated string.\<close>

definition token_string :: "scanner \<Rightarrow> ustring" where
  "token_string s = cstr (token_value s)"

definition report_token :: "scanner \<Rightarrow> int \<Rightarrow> int \<times> scanner" where
  "report_token s code =
     report_error s code (column s - tvalue_length s) (tvalue_start s) (nat (tvalue_length s))"

definition report_token0 :: "scanner \<Rightarrow> int \<Rightarrow> int \<times> scanner" where
  "report_token0 s code = report_error s code (column s - tvalue_length s) (tvalue_start s) 0"

text \<open>The tokens that are or start a value.\<close>

definition starts_value :: "token_type \<Rightarrow> bool" where
  "starts_value t \<longleftrightarrow> t \<in> {OLIST, OTABLE, TVALUE, QVALUE, VALUE}"

text \<open>Pushing back the colon after a key that is a value, and the empty whitespace there.\<close>

definition push_back_colon :: "scanner \<Rightarrow> scanner" where
  "push_back_colon s =
     (let s = s\<lparr>next_char := next_char s - 1, ttype := if ttype s = TKEY then TVALUE else QVALUE\<rparr>
      in report_ws s (next_char s - 1) 0)"

text \<open>What the productions for loops and lists do about a key.\<close>

definition expect_no_key :: "scanner \<Rightarrow> int \<times> scanner" where
  "expect_no_key s =
     (if ttype s \<in> {KEY, TKEY} then
        (case report_token s CIF_MISSING_SPACE of (result, s) \<Rightarrow>
           if result \<noteq> CIF_OK then (result, s) else (CIF_OK, push_back_colon s))
      else (CIF_OK, s))"

section \<open>Simple values\<close>

definition parse_quoted :: "scanner \<Rightarrow> int \<times> cif_value \<times> scanner" where
  "parse_quoted s =
     (case cif_value_init_char UnkValue (Some (token_string s)) of (result, v) \<Rightarrow> (result, v, CONSUME_TOKEN s))"

definition parse_bare :: "scanner \<Rightarrow> int \<times> cif_value \<times> scanner" where
  "parse_bare s =
     (if tvalue_length s = 1 \<and> buffer s ! tvalue_start s = UCHAR_QUERY then (CIF_OK, UnkValue, CONSUME_TOKEN s)
      else if tvalue_length s = 1 \<and> buffer s ! tvalue_start s = UCHAR_DECIMAL then (CIF_OK, NaValue, CONSUME_TOKEN s)
      else
        (case cif_value_init_char UnkValue (Some (token_string s)) of (result, v) \<Rightarrow>
           if result \<noteq> CIF_OK then (result, v, CONSUME_TOKEN s)
           else
             (case (if cif_version s < 2 then cif_value_try_quoted v CIF_NOT_QUOTED
                    else cif_value_set_quoted v CIF_NOT_QUOTED) of
                (result, v) \<Rightarrow>
                  (case (if result = CIF_ARGUMENT_ERROR
                         then report_error s CIF_INVALID_BARE_VALUE (column s) (tvalue_start s) 1
                         else (result, s)) of
                     (result, s) \<Rightarrow> (result, v, CONSUME_TOKEN s)))))"

definition parse_text_value :: "scanner \<Rightarrow> int \<times> cif_value \<times> scanner" where
  "parse_text_value s =
     (case decode_text s (token_value s) UnkValue of (result, v) \<Rightarrow> (result, v, CONSUME_TOKEN s))"

section \<open>Elements and entries\<close>

text \<open>Writing to the element or entry that a pointer into a list or table leads to.\<close>

fun set_element :: "cif_value \<Rightarrow> nat \<Rightarrow> cif_value \<Rightarrow> cif_value" where
  "set_element (ListValue es) i v = ListValue (es[i := v])"
| "set_element list i v = list"

fun set_entry :: "icu \<Rightarrow> cif_value \<Rightarrow> ustring \<Rightarrow> cif_value \<Rightarrow> cif_value" where
  "set_entry I (TableValue es) key v =
     (case cif_normalize_table_index I (Some key) (-1) CIF_INVALID_INDEX of
        Inl e \<Rightarrow> TableValue es
      | Inr k \<Rightarrow> TableValue (map (\<lambda>(k', ko, x). if k' = k then (k', ko, v) else (k', ko, x)) es))"
| "set_entry I tbl key v = tbl"

text \<open>The room for the next element, with an unknown value.\<close>

definition append_element :: "cif_value \<Rightarrow> nat \<Rightarrow> int \<times> cif_value" where
  "append_element list i =
     (case cif_value_insert_element_at list i None of
        (result, list) \<Rightarrow>
          if result \<noteq> CIF_OK then
            (if result \<in> {CIF_ARGUMENT_ERROR, CIF_INVALID_INDEX} then CIF_INTERNAL_ERROR else result, list)
          else
            (case cif_value_get_element_at list i of
               Inl e \<Rightarrow> (if e \<in> {CIF_ARGUMENT_ERROR, CIF_INVALID_INDEX} then CIF_INTERNAL_ERROR else e, list)
             | Inr _ \<Rightarrow> (CIF_OK, list)))"

text \<open>The room for the value of a key; nothing to do without a key.\<close>

definition add_key :: "icu \<Rightarrow> cif_value \<Rightarrow> ustring option \<Rightarrow> int \<times> cif_value" where
  "add_key I tbl key =
     (case key of
        None \<Rightarrow> (CIF_OK, tbl)
      | Some k \<Rightarrow>
          (case cif_value_set_item_by_key I tbl k ArgNull of
             None \<Rightarrow> (CIF_ERROR, tbl) \<comment> \<open>not reached: the entries of a parsed table own their keys\<close>
           | Some (result, tbl) \<Rightarrow>
               if result \<noteq> CIF_OK then (result, tbl)
               else
                 (case cif_value_get_item_by_key I tbl k of
                    Inl e \<Rightarrow> (e, tbl)
                  | Inr _ \<Rightarrow> (CIF_OK, tbl))))"

section \<open>Keys\<close>

text \<open>
  An unquoted token where a key belongs: everything before its first colon is the key. \<open>i\<close> is the
  index the loop is at; the token's type says whether a colon was found.
\<close>

function split_key :: "scanner \<Rightarrow> nat \<Rightarrow> int \<times> scanner" where
  "split_key s i =
     (if int i < tvalue_length s then
        (if buffer s ! (tvalue_start s + i) = UCHAR_COLON then
           (case report_token s CIF_UNQUOTED_KEY of (result, s) \<Rightarrow>
              if result \<noteq> CIF_OK then (result, s)
              else (CIF_OK, (TRIM_TOKEN s (i + 1))\<lparr>tvalue_length := int i, ttype := KEY\<rparr>))
         else split_key s (i + 1))
      else (CIF_OK, s))"
  by pat_completeness auto
termination by (relation "measure (\<lambda>(s, i). nat (tvalue_length s) - i)") auto

declare split_key.simps [simp del]

text \<open>What a token means where a key is expected.\<close>

datatype key_result =
    KeyFound "ustring option" scanner     \<comment> \<open>a key, \<open>None\<close> for the NULL key; its value follows\<close>
  | NextEntry scanner                     \<comment> \<open>the token was dropped\<close>
  | DropValue scanner                     \<comment> \<open>a value without a key, to be parsed and dropped\<close>
  | TableEnd int scanner

definition key_token :: "scanner \<Rightarrow> key_result" where
  "key_token s = KeyFound (Some (token_string s)) (CONSUME_TOKEN s)"

definition parse_key :: "scanner \<Rightarrow> key_result" where
  "parse_key s =
     (if ttype s = VALUE then
        (if buffer s ! tvalue_start s = UCHAR_COLON then
           (case report_token s CIF_NULL_KEY of (result, s) \<Rightarrow>
              if result \<noteq> CIF_OK then TableEnd result s
              else KeyFound None (CONSUME_TOKEN (if tvalue_length s > 1 then TRIM_TOKEN s 1 else s)))
         else
           (case split_key s 1 of (result, s) \<Rightarrow>
              if result \<noteq> CIF_OK then TableEnd result s
              else if ttype s = KEY then key_token s
              else
                (case report_token s CIF_MISSING_KEY of (result, s) \<Rightarrow>
                   if result \<noteq> CIF_OK then TableEnd result s else NextEntry (CONSUME_TOKEN s))))
      else if ttype s = KEY then key_token s
      else if ttype s = TKEY then
        (case report_token s CIF_MISQUOTED_KEY of (result, s) \<Rightarrow>
           if result \<noteq> CIF_OK then TableEnd result s
           else
             (case decode_text s (token_value s) UnkValue of (result, v) \<Rightarrow>
                if result \<noteq> CIF_OK then TableEnd result s
                else
                  (case cif_value_get_text v of
                     None \<Rightarrow> TableEnd CIF_ERROR (CONSUME_TOKEN s) \<comment> \<open>not reached: the value is a string\<close>
                   | Some k \<Rightarrow> KeyFound (Some k) (CONSUME_TOKEN s))))
      else if ttype s \<in> {QVALUE, TVALUE, OLIST, OTABLE} then
        (case report_token s CIF_MISSING_KEY of (result, s) \<Rightarrow>
           if result \<noteq> CIF_OK then TableEnd result s else DropValue s)
      else if ttype s = CTABLE then TableEnd CIF_OK (CONSUME_TOKEN s)
      else (case report_token0 s CIF_MISSING_DELIM of (result, s) \<Rightarrow> TableEnd result s))"

section \<open>Values, lists, tables\<close>

fun parse_value :: "nat \<Rightarrow> icu \<Rightarrow> scanner \<Rightarrow> (int \<times> cif_value \<times> scanner) option"
  and parse_list :: "nat \<Rightarrow> icu \<Rightarrow> cif_value \<Rightarrow> nat \<Rightarrow> scanner \<Rightarrow> (int \<times> cif_value \<times> scanner) option"
  and parse_table :: "nat \<Rightarrow> icu \<Rightarrow> cif_value \<Rightarrow> scanner \<Rightarrow> (int \<times> cif_value \<times> scanner) option" where
  "parse_value 0 I s = None"
| "parse_value (Suc n) I s =
     (case next_token s of (result, s) \<Rightarrow>
        if result \<noteq> CIF_OK then Some (result, UnkValue, s)
        else
          (case ttype s of
             OLIST \<Rightarrow> parse_list n I (ListValue []) 0 (CONSUME_TOKEN s)
           | OTABLE \<Rightarrow> parse_table n I (TableValue []) (CONSUME_TOKEN s)
           | TVALUE \<Rightarrow> Some (parse_text_value s)
           | QVALUE \<Rightarrow> Some (parse_quoted s)
           | VALUE \<Rightarrow> Some (parse_bare s)
           | _ \<Rightarrow> Some (CIF_INTERNAL_ERROR, UnkValue, s)))"
| "parse_list 0 I list i s = None"
| "parse_list (Suc n) I list i s =
     (case next_token s of (result, s) \<Rightarrow>
        if result \<noteq> CIF_OK then Some (result, list, s)
        else
          (case expect_no_key s of (result, s) \<Rightarrow>
             if result \<noteq> CIF_OK then Some (result, list, s)
             else if starts_value (ttype s) then
               (case append_element list i of (result, list) \<Rightarrow>
                  if result \<noteq> CIF_OK then Some (result, list, s)
                  else
                    (case parse_value n I s of
                       None \<Rightarrow> None
                     | Some (result, v, s) \<Rightarrow>
                         if result \<noteq> CIF_OK then Some (result, list, s)
                         else parse_list n I (set_element list i v) (i + 1) s))
             else if ttype s = CLIST then Some (CIF_OK, list, CONSUME_TOKEN s)
             else (case report_token s CIF_MISSING_DELIM of (result, s) \<Rightarrow> Some (result, list, s))))"
| "parse_table 0 I tbl s = None"
| "parse_table (Suc n) I tbl s =
     (case next_token s of (result, s) \<Rightarrow>
        if result \<noteq> CIF_OK then Some (result, tbl, s)
        else
          (case parse_key s of
             TableEnd result s \<Rightarrow> Some (result, tbl, s)
           | NextEntry s \<Rightarrow> parse_table n I tbl s
           | DropValue s \<Rightarrow>
               (case parse_value n I s of
                  None \<Rightarrow> None
                | Some (result, v, s) \<Rightarrow>
                    if result \<noteq> CIF_OK then Some (result, tbl, s) else parse_table n I tbl s)
           | KeyFound key s \<Rightarrow>
               (case add_key I tbl key of (result, tbl) \<Rightarrow>
                  if result \<noteq> CIF_OK then Some (result, tbl, s)
                  else
                    (case next_token s of (result, s) \<Rightarrow>
                       if result \<noteq> CIF_OK then Some (result, tbl, s)
                       else if starts_value (ttype s) then
                         (case parse_value n I s of
                            None \<Rightarrow> None
                          | Some (result, v, s) \<Rightarrow>
                              if result \<noteq> CIF_OK then Some (result, tbl, s)
                              else
                                parse_table n I (case key of None \<Rightarrow> tbl | Some k \<Rightarrow> set_entry I tbl k v) s)
                       else
                         (case report_token s CIF_MISSING_VALUE of (result, s) \<Rightarrow>
                            if result \<noteq> CIF_OK then Some (result, tbl, s) else parse_table n I tbl s)))))"

end
