(* ===== verification/Parser.thy ===== *)
theory Parser
  imports ParseValue Cif
begin

text \<open>
  The other productions of src/parser.c: \<open>parse_cif\<close>, \<open>parse_container\<close>, \<open>parse_item\<close>,
  \<open>parse_loop\<close>, \<open>parse_loop_header\<close> and \<open>parse_loop_packets\<close>, with the user's handlers.

  A state is the scanner, the context of the handlers and the database. Handles that may be NULL
  are options: without a target CIF there is no container and no loop. Handlers do not change the
  values and packets they are shown. Fuel bounds tokens and nesting, as in the productions for
  values; \<open>None\<close> is out of fuel.
\<close>

section \<open>Handlers and reports\<close>

text \<open>
  The handlers of a parse get what the productions pass: NULL for a packet that has no values yet,
  the name NULL for a column that is dropped. The handler at the start of a loop gets a loop that
  has only names and may set its category.
\<close>

record 'c parse_handler =
  ph_cif_start :: "'c step option"
  ph_cif_end :: "'c step option"
  ph_block_start :: "(cif_container option \<Rightarrow> 'c step) option"
  ph_block_end :: "(cif_container option \<Rightarrow> 'c step) option"
  ph_frame_start :: "(cif_container option \<Rightarrow> 'c step) option"
  ph_frame_end :: "(cif_container option \<Rightarrow> 'c step) option"
  ph_loop_start :: "(cif_loop \<Rightarrow> 'c \<times> db \<Rightarrow> int \<times> ustring option \<times> 'c \<times> db) option"
  ph_loop_end :: "(cif_loop option \<Rightarrow> 'c step) option"
  ph_packet_start :: "(cif_map option \<Rightarrow> 'c step) option"
  ph_packet_end :: "(cif_map option \<Rightarrow> 'c step) option"
  ph_item :: "(ustring option \<Rightarrow> cif_value \<Rightarrow> 'c step) option"

text \<open>
  What a parse is given: the functions of ICU, the handlers, and, for the array of names of a loop,
  whether an element that was never written happens not to be NULL.
\<close>

record 'c parse_env =
  env_icu :: icu
  env_handler :: "'c parse_handler"
  uninit_names :: "nat \<Rightarrow> bool"

type_synonym 'c pstate = "scanner \<times> 'c \<times> db"

definition call0 :: "'c step option \<Rightarrow> 'c pstate \<Rightarrow> int \<times> 'c pstate" where
  "call0 h w = (case w of (s, x) \<Rightarrow> (case handler_result0 h x of (result, x) \<Rightarrow> (result, s, x)))"

definition call1 :: "('a \<Rightarrow> 'c step) option \<Rightarrow> 'a \<Rightarrow> 'c pstate \<Rightarrow> int \<times> 'c pstate" where
  "call1 h a w = (case w of (s, x) \<Rightarrow> (case handler_result h a x of (result, x) \<Rightarrow> (result, s, x)))"

definition call_loop_start ::
    "'c parse_handler \<Rightarrow> cif_loop \<Rightarrow> 'c pstate \<Rightarrow> int \<times> ustring option \<times> 'c pstate" where
  "call_loop_start h l w =
     (case w of (s, x) \<Rightarrow>
        (case ph_loop_start h of
           None \<Rightarrow> (CIF_OK, loop_category l, s, x)
         | Some f \<Rightarrow> (case f l x of (result, category, x) \<Rightarrow> (result, category, s, x))))"

definition call_item :: "'c parse_handler \<Rightarrow> ustring option \<Rightarrow> cif_value \<Rightarrow> 'c pstate \<Rightarrow> int \<times> 'c pstate" where
  "call_item h name v w =
     (case w of (s, x) \<Rightarrow>
        (case ph_item h of None \<Rightarrow> (CIF_OK, s, x) | Some f \<Rightarrow> (case f name v x of (result, x) \<Rightarrow> (result, s, x))))"

text \<open>An operation of the scanner, of the database, and a change of the scanner.\<close>

definition scan :: "(scanner \<Rightarrow> int \<times> scanner) \<Rightarrow> 'c pstate \<Rightarrow> int \<times> 'c pstate" where
  "scan f w = (case w of (s, x) \<Rightarrow> (case f s of (result, s) \<Rightarrow> (result, s, x)))"

definition on_db :: "(db \<Rightarrow> 'a \<times> db) \<Rightarrow> 'c pstate \<Rightarrow> 'a \<times> 'c pstate" where
  "on_db f w = (case w of (s, c, d) \<Rightarrow> (case f d of (r, d) \<Rightarrow> (r, s, c, d)))"

definition upd :: "(scanner \<Rightarrow> scanner) \<Rightarrow> 'c pstate \<Rightarrow> 'c pstate" where
  "upd f w = (case w of (s, x) \<Rightarrow> (f s, x))"

definition db_of :: "'c pstate \<Rightarrow> db" where
  "db_of w = (case w of (s, c, d) \<Rightarrow> d)"

definition enter :: "scanner \<Rightarrow> scanner" where
  "enter s = (if skip_depth s > 0 then s\<lparr>skip_depth := skip_depth s + 1\<rparr> else s)"

definition leave :: "scanner \<Rightarrow> scanner" where
  "leave s = (if skip_depth s > 0 then s\<lparr>skip_depth := skip_depth s - 1\<rparr> else s)"

definition report_dataname :: "scanner \<Rightarrow> scanner" where
  "report_dataname s = s\<lparr>events := DatanameEvent (line s) (column s) (token_value s) # events s\<rparr>"

definition report_keyword :: "scanner \<Rightarrow> scanner" where
  "report_keyword s = s\<lparr>events := KeywordEvent (line s) (column s) (token_value s) # events s\<rparr>"

text \<open>What the productions for containers and items do about a key.\<close>

definition expect_no_key_here :: "scanner \<Rightarrow> int \<times> scanner" where
  "expect_no_key_here s =
     (if ttype s \<in> {KEY, TKEY} then
        (case report_error s CIF_MISSING_SPACE (column s - 1) (next_char s - 1) 0 of (result, s) \<Rightarrow>
           if result \<noteq> CIF_OK then (result, s) else (CIF_OK, push_back_colon s))
      else (CIF_OK, s))"

section \<open>Items\<close>

definition record_item ::
    "'c parse_env \<Rightarrow> cif_container option \<Rightarrow> ustring option \<Rightarrow> cif_value \<Rightarrow> 'c pstate \<Rightarrow> int \<times> 'c pstate" where
  "record_item E container name v w =
     (case (container, name) of
        (Some c, Some n) \<Rightarrow>
          (case call_item (env_handler E) name v w of
             (result, w) \<Rightarrow>
               if result = CIF_TRAVERSE_CONTINUE
               then on_db (cif_container_set_value (env_icu E) c name (Some v)) w
               else if result = CIF_TRAVERSE_SKIP_CURRENT then (CIF_OK, w)
               else if result = CIF_TRAVERSE_SKIP_SIBLINGS then (CIF_OK, upd (skip_depth_update (\<lambda>_. 2)) w)
               else (result, w))
      | _ \<Rightarrow> (CIF_OK, w))"

definition parse_item ::
    "nat \<Rightarrow> 'c parse_env \<Rightarrow> cif_container option \<Rightarrow> ustring option \<Rightarrow> 'c pstate \<Rightarrow> (int \<times> 'c pstate) option" where
  "parse_item n E container name w =
     (case scan next_token w of (result, w) \<Rightarrow>
        if result \<noteq> CIF_OK then Some (result, w)
        else
          (case scan expect_no_key_here (upd enter w) of (result, s, x) \<Rightarrow>
             (case (if result \<noteq> CIF_OK then Some (result, UnkValue, s)
                    else if starts_value (ttype s) then parse_value n (env_icu E) s
                    else (case report_token s CIF_MISSING_VALUE of
                            (result, s) \<Rightarrow> Some (result, cif_value_create CIF_UNK_KIND, s))) of
                None \<Rightarrow> None
              | Some (result, v, s) \<Rightarrow>
                  (case (if result = CIF_OK then record_item E container name v (s, x) else (result, s, x)) of
                     (result, w) \<Rightarrow> Some (result, upd leave w)))))"

section \<open>Loop headers\<close>

text \<open>
  The names of the header, \<open>None\<close> for one that is already in the container; the value with a code
  other than CIF_OK is what has been read so far.
\<close>

fun parse_loop_header ::
    "nat \<Rightarrow> 'c parse_env \<Rightarrow> cif_container option \<Rightarrow> 'c pstate \<Rightarrow> (int \<times> ustring option list \<times> 'c pstate) option" where
  "parse_loop_header 0 E container w = None"
| "parse_loop_header (Suc n) E container w =
     (case scan next_token w of (result, s, x) \<Rightarrow>
        if result \<noteq> CIF_OK \<or> ttype s \<noteq> NAME then Some (result, [], s, x)
        else
          (let s = (if skip_depth s \<le> 0 then report_dataname s else s);
               name = token_string s;
               found = (case container of
                          None \<Rightarrow> CIF_NOSUCH_ITEM
                        | Some c \<Rightarrow>
                            (case cif_container_get_item_loop (env_icu E) (Some c) (Some name) (snd x) of
                               Inl e \<Rightarrow> e | Inr _ \<Rightarrow> CIF_OK));
               (result, s) = (if found = CIF_OK then report_token s CIF_DUP_ITEMNAME
                              else if found = CIF_NOSUCH_ITEM then (CIF_OK, s)
                              else (found, s))
           in if result \<noteq> CIF_OK then Some (result, [], s, x)
              else
                (case parse_loop_header n E container (CONSUME_TOKEN s, x) of
                   None \<Rightarrow> None
                 | Some (result, names, w) \<Rightarrow>
                     Some (result, (if found = CIF_OK then None else Some name) # names, w))))"

section \<open>Packets of a loop\<close>

text \<open>The value in a packet that the pointer for a column leads to.\<close>

definition put_column :: "icu \<Rightarrow> ustring option \<Rightarrow> cif_value \<Rightarrow> cif_map \<Rightarrow> cif_map" where
  "put_column I name v p =
     (case name of
        None \<Rightarrow> p
      | Some n \<Rightarrow>
          (case cif_normalize_item_name I (Some n) (-1) CIF_INVALID_ITEMNAME of
             Inl e \<Rightarrow> p
           | Inr k \<Rightarrow> p\<lparr>map_head := map (\<lambda>(k', ko, x). if k' = k then (k', ko, v) else (k', ko, x)) (map_head p)\<rparr>))"

text \<open>The pointers to the packet's values are looked up once for each column.\<close>

fun check_columns :: "cif_map \<Rightarrow> ustring option list \<Rightarrow> int" where
  "check_columns p [] = CIF_OK"
| "check_columns p (None # cols) = check_columns p cols"
| "check_columns p (Some n # cols) =
     (case cif_packet_get_item p n of
        Inl e \<Rightarrow> if e = CIF_NOSUCH_ITEM then CIF_INTERNAL_ERROR else e
      | Inr _ \<Rightarrow> check_columns p cols)"

text \<open>The start of a packet: the handler's code for an error is overwritten later.\<close>

definition packet_start :: "'c parse_env \<Rightarrow> 'c pstate \<Rightarrow> bool \<times> 'c pstate" where
  "packet_start E w =
     (if skip_depth (fst w) > 0 then (True, upd enter w)
      else
        (case call1 (ph_packet_start (env_handler E)) None w of
           (result, w) \<Rightarrow>
             if result = CIF_TRAVERSE_SKIP_CURRENT then (True, upd (skip_depth_update (\<lambda>_. 1)) w)
             else if result = CIF_TRAVERSE_SKIP_SIBLINGS then (True, upd (skip_depth_update (\<lambda>_. 2)) w)
             else (result \<noteq> CIF_TRAVERSE_END, w)))"

definition packet_end :: "'c parse_env \<Rightarrow> cif_loop option \<Rightarrow> cif_map \<Rightarrow> 'c pstate \<Rightarrow> int \<times> 'c pstate" where
  "packet_end E l p w =
     (if skip_depth (fst w) > 0 then (CIF_OK, upd leave w)
      else
        (case call1 (ph_packet_end (env_handler E)) (Some p) w of
           (result, w) \<Rightarrow>
             if result = CIF_TRAVERSE_CONTINUE then
               (case l of None \<Rightarrow> (CIF_OK, w) | Some lp \<Rightarrow> on_db (cif_loop_add_packet lp p) w)
             else if result = CIF_TRAVERSE_SKIP_CURRENT then (CIF_OK, w)
             else if result = CIF_TRAVERSE_SKIP_SIBLINGS then (CIF_OK, upd (skip_depth_update (\<lambda>_. 1)) w)
             else (result, w)))"

text \<open>
  The fill of a partial packet. Which columns are set to unknown is decided by the array of the
  names that are not dropped: it has a NULL after the last of them and was not written further.
\<close>

fun fill_partial :: "'c parse_env \<Rightarrow> ustring list \<Rightarrow> ustring option list \<Rightarrow> nat \<Rightarrow> cif_map \<Rightarrow> cif_map" where
  "fill_partial E names [] i p = p"
| "fill_partial E names (col # cols) i p =
     fill_partial E names cols (i + 1)
       (if i < length names \<or> (i > length names \<and> uninit_names E i)
        then put_column (env_icu E) col UnkValue p else p)"

text \<open>One value of a packet: its column's handler, and the end of the packet after the last column.\<close>

definition packet_value ::
    "'c parse_env \<Rightarrow> cif_loop option \<Rightarrow> ustring option list \<Rightarrow> nat \<Rightarrow> cif_value \<Rightarrow> cif_map \<Rightarrow> 'c pstate \<Rightarrow>
     int \<times> cif_map \<times> 'c pstate" where
  "packet_value E l cols i v p w =
     (let p = put_column (env_icu E) (cols ! i) v p
      in case call_item (env_handler E) (cols ! i) v w of
           (result, w) \<Rightarrow>
             (let w = (if result = CIF_TRAVERSE_SKIP_SIBLINGS then upd (skip_depth_update (\<lambda>_. 1)) w else w);
                  result = (if result \<in> {CIF_TRAVERSE_SKIP_CURRENT, CIF_TRAVERSE_SKIP_SIBLINGS} then CIF_OK else result)
              in if result \<noteq> CIF_OK then (result, p, w)
                 else if (i + 1) mod length cols = 0 then
                   (case packet_end E l p w of (result, w) \<Rightarrow> (result, p, w))
                 else (CIF_OK, p, w)))"

text \<open>
  The loop over the tokens of the loop's body: \<open>names\<close> is the array of names, \<open>cols\<close> the list of the
  header with the dropped names.
\<close>

fun parse_packets ::
    "nat \<Rightarrow> 'c parse_env \<Rightarrow> cif_loop option \<Rightarrow> ustring list \<Rightarrow> ustring option list \<Rightarrow> nat \<Rightarrow> bool \<Rightarrow> cif_map \<Rightarrow>
     'c pstate \<Rightarrow> (int \<times> 'c pstate) option" where
  "parse_packets 0 E l names cols i have_packets p w = None"
| "parse_packets (Suc n) E l names cols i have_packets p w =
     (case scan next_token w of (result, w) \<Rightarrow>
        if result \<noteq> CIF_OK then Some (result, w)
        else
          (case scan expect_no_key w of (result, w) \<Rightarrow>
             if result \<noteq> CIF_OK then Some (result, w)
             else if starts_value (ttype (fst w)) then
               (case (if i = 0 then packet_start E w else (True, w)) of
                  (go_on, s, x) \<Rightarrow>
                    if \<not> go_on then Some (CIF_TRAVERSE_END, s, x)
                    else
                      (case parse_value n (env_icu E) s of
                         None \<Rightarrow> None
                       | Some (result, v, s) \<Rightarrow>
                           if result \<noteq> CIF_OK then Some (result, s, x)
                           else
                             (case packet_value E l cols i v p (s, x) of
                                (result, p, w) \<Rightarrow>
                                  if result \<noteq> CIF_OK then Some (result, w)
                                  else
                                    parse_packets n E l names cols ((i + 1) mod length cols)
                                      (have_packets \<or> (i + 1) mod length cols = 0) p w)))
             else if ttype (fst w) \<in> {CLIST, CTABLE} then
               (case scan (\<lambda>s. report_token s CIF_UNEXPECTED_DELIM) w of (result, w) \<Rightarrow>
                  if result \<noteq> CIF_OK then Some (result, w)
                  else parse_packets n E l names cols i have_packets p (upd CONSUME_TOKEN w))
             else if i \<noteq> 0 then
               (case scan (\<lambda>s. report_token0 s CIF_PARTIAL_PACKET) w of (result, w) \<Rightarrow>
                  if result \<noteq> CIF_OK then Some (result, w)
                  else Some (packet_end E l (fill_partial E names (drop i cols) i p) w))
             else if \<not> have_packets then Some (scan (\<lambda>s. report_token s CIF_EMPTY_LOOP) w)
             else Some (CIF_OK, w)))"

definition parse_loop_packets ::
    "nat \<Rightarrow> 'c parse_env \<Rightarrow> cif_loop option \<Rightarrow> ustring list \<Rightarrow> ustring option list \<Rightarrow> 'c pstate \<Rightarrow>
     (int \<times> 'c pstate) option" where
  "parse_loop_packets n E l names cols w =
     (case cif_packet_create (env_icu E) (Some names) of
        Inl e \<Rightarrow> Some (e, w)
      | Inr p \<Rightarrow>
          (let result = check_columns p cols in
             if result \<noteq> CIF_OK then Some (result, w)
             else parse_packets n E l names cols 0 False p w))"

section \<open>Loops\<close>

definition names_of :: "ustring option list \<Rightarrow> ustring list" where
  "names_of cols = map the (filter (\<lambda>c. c \<noteq> None) cols)"

text \<open>
  The start of a loop's body: the handler, which may set the category, and the loop it is stored
  in. The first component says whether packets are parsed, the second is the code when they are not.
\<close>

definition loop_start ::
    "'c parse_env \<Rightarrow> cif_container option \<Rightarrow> ustring list \<Rightarrow> 'c pstate \<Rightarrow>
     bool \<times> int \<times> cif_loop option \<times> 'c pstate" where
  "loop_start E container names w =
     (if skip_depth (fst w) > 0 then (True, CIF_OK, None, w)
      else
        (case call_loop_start (env_handler E)
                \<lparr>loop_container = container, loop_num = -1, loop_category = None, loop_names = Some names\<rparr> w of
           (result, category, w) \<Rightarrow>
             if result = CIF_TRAVERSE_CONTINUE then
               (case container of
                  None \<Rightarrow> (True, CIF_OK, None, w)
                | Some c \<Rightarrow>
                    (case on_db (cif_container_create_loop (env_icu E) (Some c) category (Some names)) w of
                       (Inr l, w) \<Rightarrow> (True, CIF_OK, Some l, w)
                     | (Inl e, w) \<Rightarrow>
                         if e = CIF_NULL_LOOP then (True, CIF_OK, None, w)
                         else if e = CIF_INVALID_ITEMNAME \<or> e = CIF_DUP_ITEMNAME
                         then (False, CIF_INTERNAL_ERROR, None, w)
                         else (False, e, None, w)))
             else if result = CIF_TRAVERSE_SKIP_CURRENT then (True, CIF_OK, None, upd (skip_depth_update (\<lambda>_. 1)) w)
             else if result = CIF_TRAVERSE_SKIP_SIBLINGS then (True, CIF_OK, None, upd (skip_depth_update (\<lambda>_. 2)) w)
             else (result \<noteq> CIF_TRAVERSE_END, result, None, w)))"

definition loop_end :: "'c parse_env \<Rightarrow> cif_loop option \<Rightarrow> int \<Rightarrow> 'c pstate \<Rightarrow> int \<times> 'c pstate" where
  "loop_end E l result w =
     (if skip_depth (fst w) > 0 then (result, upd leave w)
      else if result = CIF_OK then
        (case call1 (ph_loop_end (env_handler E)) l w of
           (result, w) \<Rightarrow>
             if result = CIF_TRAVERSE_SKIP_CURRENT then (CIF_OK, w)
             else if result = CIF_TRAVERSE_SKIP_SIBLINGS then (CIF_OK, upd (skip_depth_update (\<lambda>_. 1)) w)
             else (result, w))
      else (result, w))"

definition parse_loop ::
    "nat \<Rightarrow> 'c parse_env \<Rightarrow> cif_container option \<Rightarrow> 'c pstate \<Rightarrow> (int \<times> 'c pstate) option" where
  "parse_loop n E container w =
     (case parse_loop_header n E container (upd enter w) of
        None \<Rightarrow> None
      | Some (result, cols, w) \<Rightarrow>
          if result \<noteq> CIF_OK then Some (loop_end E None result w)
          else if cols = [] then
            (case scan (\<lambda>s. report_token0 s CIF_NULL_LOOP) w of (result, w) \<Rightarrow> Some (loop_end E None result w))
          else
            (case loop_start E container (names_of cols) w of
               (go_on, result, l, w) \<Rightarrow>
                 if \<not> go_on then Some (loop_end E l result w)
                 else
                   (case parse_loop_packets n E l (names_of cols) cols w of
                      None \<Rightarrow> None
                    | Some (result, w) \<Rightarrow> Some (loop_end E l result w))))"

section \<open>Containers\<close>

definition container_start ::
    "'c parse_env \<Rightarrow> cif_container option \<Rightarrow> bool \<Rightarrow> 'c pstate \<Rightarrow> int \<times> 'c pstate" where
  "container_start E container is_block w =
     (if skip_depth (fst w) > 0 then (CIF_OK, upd enter w)
      else
        (case call1 (if is_block then ph_block_start (env_handler E) else ph_frame_start (env_handler E)) container w of
           (result, w) \<Rightarrow>
             if result = CIF_TRAVERSE_SKIP_CURRENT then (CIF_OK, upd (skip_depth_update (\<lambda>_. 1)) w)
             else if result = CIF_TRAVERSE_SKIP_SIBLINGS then (CIF_OK, upd (skip_depth_update (\<lambda>_. 2)) w)
             else (result, w)))"

definition container_end ::
    "'c parse_env \<Rightarrow> cif_container option \<Rightarrow> bool \<Rightarrow> int \<Rightarrow> 'c pstate \<Rightarrow> int \<times> 'c pstate" where
  "container_end E container is_block result w0 =
     (let w = upd leave w0 in
      if result \<noteq> CIF_OK \<or> skip_depth (fst w) > 0 then (result, w)
      else
        (case (case container of None \<Rightarrow> (CIF_OK, w) | Some c \<Rightarrow> on_db (cif_container_prune c) w) of
           (result, w) \<Rightarrow>
             if result \<noteq> CIF_OK then (result, w)
             else
               (case call1 (if is_block then ph_block_end (env_handler E) else ph_frame_end (env_handler E)) container w of
                  (result, w) \<Rightarrow>
                    if result = CIF_TRAVERSE_SKIP_SIBLINGS then (CIF_OK, upd (skip_depth_update (\<lambda>_. 1)) w)
                    else if result = CIF_TRAVERSE_SKIP_CURRENT then (CIF_OK, w)
                    else (result, w))))"

text \<open>
  Recovery from a code that is already in use: the existing container. The lookup normalises a code
  that has been normalised before.
\<close>

definition use_existing :: "int \<Rightarrow> (db \<Rightarrow> cif_container res option) \<Rightarrow> 'c pstate \<Rightarrow>
    bool \<times> int \<times> cif_container option \<times> 'c pstate" where
  "use_existing code get w =
     (case scan (\<lambda>s. report_token s code) w of
        (result, w) \<Rightarrow>
          if result \<noteq> CIF_OK then (True, result, None, w)
          else
            (case get (db_of w) of
               None \<Rightarrow> (False, CIF_ERROR, None, w)
             | Some (Inl e) \<Rightarrow> (False, e, None, w)
             | Some (Inr c) \<Rightarrow> (False, CIF_OK, Some c, w)))"

text \<open>
  Creating a block or frame for a header: the code is invalid, in use, or taken. The first component
  says whether the production ends at once; \<open>strict\<close> and \<open>lenient\<close> create, \<open>get\<close> looks up.
\<close>

definition create_container ::
    "int \<Rightarrow> int \<Rightarrow> (db \<Rightarrow> cif_container res \<times> db) \<Rightarrow> (db \<Rightarrow> cif_container res \<times> db) \<Rightarrow>
     (db \<Rightarrow> cif_container res option) \<Rightarrow> 'c pstate \<Rightarrow> bool \<times> int \<times> cif_container option \<times> 'c pstate" where
  "create_container invalid dup strict lenient get w =
     (case on_db strict w of
        (Inr c, w) \<Rightarrow> (False, CIF_OK, Some c, w)
      | (Inl e, w) \<Rightarrow>
          if e = invalid then
            (case scan (\<lambda>s. report_token s invalid) w of
               (result, w) \<Rightarrow>
                 if result \<noteq> CIF_OK then (True, result, None, w)
                 else
                   (case on_db lenient w of
                      (Inr c, w) \<Rightarrow> (False, CIF_OK, Some c, w)
                    | (Inl e, w) \<Rightarrow> if e = dup then use_existing dup get w else (False, e, None, w)))
          else if e = dup then use_existing dup get w
          else (False, e, None, w))"

definition open_frame ::
    "'c parse_env \<Rightarrow> cif_container option \<Rightarrow> bool \<Rightarrow> 'c pstate \<Rightarrow> bool \<times> int \<times> cif_container option \<times> 'c pstate" where
  "open_frame E container is_block w =
     (if container = None \<or> skip_depth (fst w) > 0 then (False, CIF_OK, None, w)
      else
        (case (if max_frame_depth (fst w) = 0 then
                 (case scan (\<lambda>s. report_token s CIF_FRAME_NOT_ALLOWED) w of (result, w) \<Rightarrow> (\<not> is_block, result, w))
               else if max_frame_depth (fst w) = 1 \<and> \<not> is_block then
                 (case scan (\<lambda>s. report_token s CIF_NO_FRAME_TERM) w of (result, w) \<Rightarrow> (True, result, w))
               else (False, CIF_OK, w)) of
           (stop, result, w) \<Rightarrow>
             if stop then (True, result, None, w)
             else
               (let code = Some (token_string (fst w)); I = env_icu E
                in create_container CIF_INVALID_FRAMECODE CIF_DUP_FRAMECODE
                     (cif_container_create_frame I container code)
                     (cif_container_create_frame_internal I container code True)
                     (cif_container_get_frame I container code) w)))"

definition find_item :: "icu \<Rightarrow> cif_container option \<Rightarrow> ustring \<Rightarrow> db \<Rightarrow> int" where
  "find_item I container name d =
     (case container of
        None \<Rightarrow> CIF_NOSUCH_ITEM
      | Some c \<Rightarrow> (case cif_container_get_item_loop I (Some c) (Some name) d of Inl e \<Rightarrow> e | Inr _ \<Rightarrow> CIF_OK))"

text \<open>An item of a container, its name being the current token.\<close>

definition parse_named_item ::
    "nat \<Rightarrow> 'c parse_env \<Rightarrow> cif_container option \<Rightarrow> 'c pstate \<Rightarrow> (int \<times> 'c pstate) option" where
  "parse_named_item n E container w =
     (if skip_depth (fst w) > 0 then parse_item n E container None (upd CONSUME_TOKEN w)
      else
        (let name = token_string (fst w);
             w = upd CONSUME_TOKEN (upd report_dataname w);
             result = find_item (env_icu E) container name (db_of w)
         in if result = CIF_NOSUCH_ITEM then parse_item n E container (Some name) w
            else if result = CIF_OK then
              (case scan (\<lambda>s. report_token s CIF_DUP_ITEMNAME) w of (result, w) \<Rightarrow>
                 if result \<noteq> CIF_OK then Some (result, w) else parse_item n E container None w)
            else Some (result, w)))"

text \<open>A value that no name precedes is reported and dropped.\<close>

definition parse_stray_value ::
    "nat \<Rightarrow> 'c parse_env \<Rightarrow> cif_container option \<Rightarrow> 'c pstate \<Rightarrow> (int \<times> 'c pstate) option" where
  "parse_stray_value n E container w =
     (case scan expect_no_key_here w of (result, w) \<Rightarrow>
        if result \<noteq> CIF_OK then Some (result, w)
        else
          (case scan (\<lambda>s. report_error s CIF_UNEXPECTED_VALUE (1 + column s - tvalue_length s) (tvalue_start s)
                              (nat (tvalue_length s))) w of
             (result, w) \<Rightarrow>
               if result \<noteq> CIF_OK then Some (result, w) else parse_item n E container None w))"

text \<open>The loop over the tokens of a container goes on after CIF_OK.\<close>

definition on_result :: "(int \<times> 'c pstate) option \<Rightarrow> (bool \<times> int \<times> 'c pstate) option" where
  "on_result r = map_option (\<lambda>(result, w). (result \<noteq> CIF_OK, result, w)) r"

fun parse_container ::
      "nat \<Rightarrow> 'c parse_env \<Rightarrow> cif_container option \<Rightarrow> bool \<Rightarrow> 'c pstate \<Rightarrow> (int \<times> 'c pstate) option"
  and container_loop ::
      "nat \<Rightarrow> 'c parse_env \<Rightarrow> cif_container option \<Rightarrow> bool \<Rightarrow> 'c pstate \<Rightarrow> (int \<times> 'c pstate) option" where
  "parse_container 0 E container is_block w = None"
| "parse_container (Suc n) E container is_block w =
     (case container_start E container is_block w of (result, w) \<Rightarrow>
        (case (if result \<noteq> CIF_OK then Some (result, w) else container_loop n E container is_block w) of
           None \<Rightarrow> None
         | Some (result, w) \<Rightarrow> Some (container_end E container is_block result w)))"
| "container_loop 0 E container is_block w = None"
| "container_loop (Suc n) E container is_block w =
     (case scan next_token w of (result, w) \<Rightarrow>
        if result \<noteq> CIF_OK then Some (result, w)
        else if ttype (fst w) = BLOCK_HEAD then
          Some (if is_block then (CIF_OK, w) else scan (\<lambda>s. report_token s CIF_NO_FRAME_TERM) w)
        else if ttype (fst w) = END then
          Some (if is_block then (CIF_OK, w)
                else scan (\<lambda>s. report_error s CIF_EOF_IN_FRAME (column s) (tvalue_start s) 0) w)
        else if ttype (fst w) = FRAME_TERM \<and> \<not> is_block then Some (CIF_OK, upd CONSUME_TOKEN w)
        else
          (case (if ttype (fst w) = FRAME_TERM then
                   on_result (Some (scan (\<lambda>s. report_token s CIF_UNEXPECTED_TERM) (upd CONSUME_TOKEN w)))
                 else if ttype (fst w) = FRAME_HEAD then
                   (case open_frame E container is_block w of
                      (stop, result, frame, w) \<Rightarrow>
                        if stop then Some (True, result, w)
                        else if result \<noteq> CIF_OK then Some (True, result, upd CONSUME_TOKEN w)
                        else on_result (parse_container n E frame False (upd CONSUME_TOKEN w)))
                 else if ttype (fst w) = LOOPKW then
                   on_result (parse_loop n E container
                     (upd CONSUME_TOKEN (if skip_depth (fst w) \<le> 0 then upd report_keyword w else w)))
                 else if ttype (fst w) = NAME then on_result (parse_named_item n E container w)
                 else if starts_value (ttype (fst w)) \<or> ttype (fst w) \<in> {KEY, TKEY} then
                   on_result (parse_stray_value n E container w)
                 else if ttype (fst w) \<in> {CTABLE, CLIST} then
                   (case scan (\<lambda>s. report_token s CIF_UNEXPECTED_DELIM) w of (result, w) \<Rightarrow>
                      Some (if result \<noteq> CIF_OK then (True, result, w) else (False, CIF_OK, upd CONSUME_TOKEN w)))
                 else Some (True, CIF_INTERNAL_ERROR, w)) of
             None \<Rightarrow> None
           | Some (stop, result, w) \<Rightarrow>
               if stop then Some (result, w) else container_loop n E container is_block w))"

section \<open>The whole input\<close>

text \<open>The block for a header, and the anonymous block where the header is missing.\<close>

definition open_block :: "'c parse_env \<Rightarrow> bool \<Rightarrow> 'c pstate \<Rightarrow> bool \<times> int \<times> cif_container option \<times> 'c pstate" where
  "open_block E has_cif w =
     (if \<not> has_cif \<or> skip_depth (fst w) > 0 then (False, CIF_OK, None, w)
      else
        (let code = token_string (fst w); I = env_icu E
         in create_container CIF_INVALID_BLOCKCODE CIF_DUP_BLOCKCODE
              (cif_create_block I (Some code)) (cif_create_block_internal I (Some code) True)
              (cif_get_block I code) w))"

definition open_anonymous ::
    "'c parse_env \<Rightarrow> bool \<Rightarrow> 'c pstate \<Rightarrow> int \<times> cif_container option \<times> 'c pstate" where
  "open_anonymous E has_cif w =
     (if \<not> has_cif \<or> skip_depth (fst w) > 0 then (CIF_OK, None, w)
      else
        (case on_db (cif_create_block_internal (env_icu E) (Some []) True) w of
           (Inr c, w) \<Rightarrow> (CIF_OK, Some c, w)
         | (Inl e, w) \<Rightarrow>
             if e \<noteq> CIF_DUP_BLOCKCODE then (e, None, w)
             else
               (case cif_get_block (env_icu E) [] (db_of w) of
                  None \<Rightarrow> (CIF_ERROR, None, w)
                | Some (Inl e) \<Rightarrow> (e, None, w)
                | Some (Inr c) \<Rightarrow> (CIF_OK, Some c, w))))"

fun cif_loop_blocks :: "nat \<Rightarrow> 'c parse_env \<Rightarrow> bool \<Rightarrow> 'c pstate \<Rightarrow> (int \<times> 'c pstate) option" where
  "cif_loop_blocks 0 E has_cif w = None"
| "cif_loop_blocks (Suc n) E has_cif w =
     (case scan next_token w of (result, w) \<Rightarrow>
        if result \<noteq> CIF_OK then Some (result, w)
        else if ttype (fst w) = END then Some (CIF_OK, w)
        else
          (case (if ttype (fst w) = BLOCK_HEAD then
                   (case open_block E has_cif w of
                      (stop, result, block, w) \<Rightarrow> (result, block, if stop then w else upd CONSUME_TOKEN w))
                 else
                   (case scan (\<lambda>s. report_token s CIF_NO_BLOCK_HEADER) w of (result, w) \<Rightarrow>
                      if result \<noteq> CIF_OK then (result, None, w) else open_anonymous E has_cif w)) of
             (result, block, w) \<Rightarrow>
               if result \<noteq> CIF_OK then Some (result, w)
               else
                 (case parse_container n E block True w of
                    None \<Rightarrow> None
                  | Some (result, w) \<Rightarrow>
                      if result \<noteq> CIF_OK then Some (result, w) else cif_loop_blocks n E has_cif w)))"

definition parse_cif :: "nat \<Rightarrow> 'c parse_env \<Rightarrow> bool \<Rightarrow> 'c pstate \<Rightarrow> (int \<times> 'c pstate) option" where
  "parse_cif n E has_cif w =
     (case call0 (ph_cif_start (env_handler E)) w of (result, w) \<Rightarrow>
        if result = CIF_TRAVERSE_END then Some (CIF_OK, w)
        else
          (let w = (if result \<in> {CIF_TRAVERSE_SKIP_CURRENT, CIF_TRAVERSE_SKIP_SIBLINGS}
                    then upd (skip_depth_update (\<lambda>_. 1)) w else w);
               result = (if result \<in> {CIF_TRAVERSE_SKIP_CURRENT, CIF_TRAVERSE_SKIP_SIBLINGS} then CIF_OK else result)
           in case (if result \<noteq> CIF_OK then Some (result, w) else cif_loop_blocks n E has_cif w) of
                None \<Rightarrow> None
              | Some (result, w) \<Rightarrow>
                  (let w = upd leave w;
                       (result, w) = (if result = CIF_OK then call0 (ph_cif_end (env_handler E)) w else (result, w))
                   in Some (if result > CIF_OK then result else CIF_OK, w))))"

text \<open>
  The whole of a parse. \<open>fuel\<close> is that of the grammar, \<open>n\<close> is BUF_SIZE_INITIAL; the result of
  the grammar is returned as it is.
\<close>

definition cif_parse_internal ::
    "nat \<Rightarrow> nat \<Rightarrow> bool \<Rightarrow> ustring \<Rightarrow> ustring \<Rightarrow> 'c parse_env \<Rightarrow> bool \<Rightarrow> 'c pstate \<Rightarrow> (int \<times> 'c pstate) option" where
  "cif_parse_internal fuel n not_utf8 extra_ws extra_eol E has_cif w =
     (case w of (s, x) \<Rightarrow>
        (case prepare_parse n not_utf8 extra_ws extra_eol s of
           (go_on, result, s) \<Rightarrow>
             if \<not> go_on then Some (result, s, x) else parse_cif fuel E has_cif (s, x)))"

end
