(* ===== verification/ScannerProps.thy ===== *)
theory ScannerProps
  imports Scanner
begin

text \<open>
  Properties of the scanner (theory Scanner): the conversion of line terminators.
\<close>

section \<open>Line terminators\<close>

text \<open>What the conversion means to give, and the number of CRLF pairs it removes a unit for.\<close>

fun to_lf :: "ustring \<Rightarrow> ustring" where
  "to_lf [] = []"
| "to_lf [c] = [if c = UCHAR_CR then UCHAR_NL else c]"
| "to_lf (c # d # cs) =
     (if c = UCHAR_CR then (if d = UCHAR_NL then UCHAR_NL # to_lf cs else UCHAR_NL # to_lf (d # cs))
      else c # to_lf (d # cs))"

fun crlf_pairs :: "ustring \<Rightarrow> nat" where
  "crlf_pairs (c # d # cs) =
     (if c = UCHAR_CR \<and> d = UCHAR_NL then Suc (crlf_pairs cs) else crlf_pairs (d # cs))"
| "crlf_pairs _ = 0"

lemma to_lf_length: "length (to_lf cs) + crlf_pairs cs = length cs"
  by (induction cs rule: to_lf.induct) auto

lemma to_lf_Cons: "c \<noteq> UCHAR_CR \<Longrightarrow> to_lf (c # cs) = c # to_lf cs \<and> crlf_pairs (c # cs) = crlf_pairs cs"
  by (cases cs) auto

lemma to_lf_append: "UCHAR_CR \<notin> set m \<Longrightarrow> to_lf (m @ cs) = m @ to_lf cs \<and> crlf_pairs (m @ cs) = crlf_pairs cs"
proof (induction m)
  case (Cons c m)
  then have "c \<noteq> UCHAR_CR" by auto
  then show ?case using Cons to_lf_Cons [of c "m @ cs"] by simp
qed simp

lemma to_lf_bare:
  "cs = [] \<or> hd cs \<noteq> UCHAR_NL \<Longrightarrow>
   to_lf (UCHAR_CR # cs) = UCHAR_NL # to_lf cs \<and> crlf_pairs (UCHAR_CR # cs) = crlf_pairs cs"
  by (cases cs) auto

lemma find_cr_split:
  "find_cr r i = Some j \<Longrightarrow> \<exists>m. drop i r = m @ UCHAR_CR # drop (Suc j) r \<and> UCHAR_CR \<notin> set m \<and> j = i + length m"
proof (induction r i arbitrary: j rule: find_cr.induct)
  case (2 c cs)
  show ?case
  proof (cases "c = UCHAR_CR")
    case True
    then show ?thesis using 2 by (auto intro: exI [of _ "[]"])
  next
    case False
    then obtain k where k: "find_cr cs 0 = Some k" "j = Suc k" using 2 by auto
    then obtain m where "cs = m @ UCHAR_CR # drop (Suc k) cs" "UCHAR_CR \<notin> set m" "k = length m"
      using 2(1) [OF False k(1)] by auto
    then show ?thesis using False k by (intro exI [of _ "c # m"]) auto
  qed
qed auto

lemma find_cr_none: "find_cr r i = None \<Longrightarrow> UCHAR_CR \<notin> set (drop i r)"
  by (induction r i rule: find_cr.induct) (auto split: if_splits)

lemma find_crlf_spec:
  "find_crlf r lead = (r', nxt) \<Longrightarrow>
   take lead r' = take lead r \<and> length r' = length r \<and>
   (case nxt of
      None \<Rightarrow> drop lead r' = to_lf (drop lead r) \<and> crlf_pairs (drop lead r) = 0
    | Some i \<Rightarrow> \<exists>m. drop lead r' = m @ UCHAR_CR # UCHAR_NL # drop (i + 2) r \<and> i = lead + length m
        \<and> drop (i + 2) r' = drop (i + 2) r
        \<and> to_lf (drop lead r) = m @ UCHAR_NL # to_lf (drop (i + 2) r)
        \<and> crlf_pairs (drop lead r) = Suc (crlf_pairs (drop (i + 2) r)))"
proof (induction r lead rule: find_crlf.induct)
  case (1 r lead)
  show ?case
  proof (cases "find_cr r lead")
    case None
    then have "UCHAR_CR \<notin> set (drop lead r)" by (rule find_cr_none)
    then show ?thesis
      using 1(2) None to_lf_append [of "drop lead r" "[]"] by (auto simp: find_crlf.simps [of r lead])
  next
    case (Some j)
    obtain m where m: "drop lead r = m @ UCHAR_CR # drop (Suc j) r" "UCHAR_CR \<notin> set m" "j = lead + length m"
      using find_cr_split [OF Some] by blast
    have j: "j < length r" using find_cr_bounds [OF Some] by simp
    show ?thesis
    proof (cases "j + 1 < length r \<and> r ! (j + 1) = UCHAR_NL")
      case True
      then have tl: "drop (Suc j) r = UCHAR_NL # drop (j + 2) r"
        by (simp add: Cons_nth_drop_Suc [symmetric])
      have "nxt = Some j" "r' = r" using 1(2) Some True by (simp_all add: find_crlf.simps [of r lead])
      then show ?thesis
        using m tl to_lf_append [OF m(2), of "UCHAR_CR # UCHAR_NL # drop (j + 2) r"] by auto
    next
      case False
      let ?r = "r[j := UCHAR_NL]"
      have fc: "find_crlf ?r (j + 1) = (r', nxt)"
        using 1(2) Some False by (auto simp: find_crlf.simps [of r lead] split: if_splits)
      note IH = 1(1) [OF Some False fc]
      have bare: "drop (Suc j) r = [] \<or> hd (drop (Suc j) r) \<noteq> UCHAR_NL"
        using False by (auto simp: hd_drop_conv_nth not_less)
      have pre: "take (Suc j) ?r = take lead r @ m @ [UCHAR_NL]"
      proof -
        have "take j r = take lead r @ m"
          using arg_cong [OF m(1), of "take (length m)"] m(3) by (simp add: take_add)
        then show ?thesis using j by (simp add: take_Suc_conv_app_nth)
      qed
      have r': "r' = take lead r @ m @ [UCHAR_NL] @ drop (Suc j) r'"
        using IH pre append_take_drop_id [of "Suc j" r'] by (metis Suc_eq_plus1 append.assoc)
      have ll: "lead \<le> length r" using j m(3) by simp
      have d: "take lead r' = take lead r" "drop lead r' = m @ UCHAR_NL # drop (Suc j) r'"
        using arg_cong [OF r', of "take lead"] arg_cong [OF r', of "drop lead"] ll by simp_all
      have conv: "to_lf (drop lead r) = m @ UCHAR_NL # to_lf (drop (Suc j) r)"
        "crlf_pairs (drop lead r) = crlf_pairs (drop (Suc j) r)"
        using to_lf_append [OF m(2), of "UCHAR_CR # drop (Suc j) r"] to_lf_bare [OF bare] m(1) by simp_all
      show ?thesis
      proof (cases nxt)
        case None
        then show ?thesis using IH d conv by simp
      next
        case (Some i)
        then obtain m2 where m2: "drop (j + 1) r' = m2 @ UCHAR_CR # UCHAR_NL # drop (i + 2) ?r" "i = j + 1 + length m2"
          "drop (i + 2) r' = drop (i + 2) ?r"
          "to_lf (drop (j + 1) ?r) = m2 @ UCHAR_NL # to_lf (drop (i + 2) ?r)"
          "crlf_pairs (drop (j + 1) ?r) = Suc (crlf_pairs (drop (i + 2) ?r))"
          using IH by auto
        then show ?thesis
          using Some d conv IH m(3) by (auto intro!: exI [of _ "m @ UCHAR_NL # m2"])
      qed
    qed
  qed
qed

lemma memmove_fields:
  assumes "dest \<le> src" "src + len \<le> length r"
  shows "take dest (u_memmove r dest src len) = take dest r"
    and "take len (drop dest (u_memmove r dest src len)) = take len (drop src r)"
    and "dest + len \<le> n \<Longrightarrow> drop n (u_memmove r dest src len) = drop n r"
proof -
  show "take dest (u_memmove r dest src len) = take dest r"
    by (rule nth_equalityI) (auto simp: u_memmove_def)
  show "take len (drop dest (u_memmove r dest src len)) = take len (drop src r)"
    by (rule nth_equalityI) (use assms in \<open>auto simp: u_memmove_def\<close>)
  show "drop n (u_memmove r dest src len) = drop n r" if "dest + len \<le> n"
    by (rule nth_equalityI) (use that in \<open>auto simp: u_memmove_def\<close>)
qed

lemma move_lines_spec:
  assumes "move_lines r dest lead n = (r', n')" "dest \<le> lead" "lead + 1 < length r"
    and "r ! (lead + 1) = UCHAR_NL"
  shows "length r' = length r \<and> take dest r' = take dest r
    \<and> take (length (to_lf (drop (lead + 1) r))) (drop dest r') = to_lf (drop (lead + 1) r)
    \<and> n' = n - crlf_pairs (drop (lead + 1) r)"
  using assms
proof (induction r dest lead n arbitrary: r' n' rule: move_lines.induct)
  case (1 r dest lead n)
  let ?t = "lead + 1"
  obtain r1 nxt where f: "find_crlf r ?t = (r1, nxt)" by fastforce
  note fs = find_crlf_spec [OF f]
  have len: "length r1 = length r" using fs by simp
  have "take dest (take ?t r1) = take dest (take ?t r)" using fs by simp
  then have td: "take dest r1 = take dest r" using 1(3) by (simp add: min_def)
  show ?case
  proof (cases nxt)
    case None
    then have r': "r' = u_memmove r1 dest ?t (length r1 - ?t)" "n' = n"
      using 1(2) f by (simp_all add: move_lines.simps [of r dest lead n] Let_def)
    have conv: "drop ?t r1 = to_lf (drop ?t r)" "crlf_pairs (drop ?t r) = 0" using fs None by simp_all
    have ll: "length (to_lf (drop ?t r)) = length r1 - ?t" unfolding conv(1) [symmetric] by simp
    have "take (length r1 - ?t) (drop dest r') = drop ?t r1"
      using memmove_fields(2) [of dest ?t "length r1 - ?t" r1] r' 1(3,4) len by simp
    then have "take (length (to_lf (drop ?t r))) (drop dest r') = to_lf (drop ?t r)"
      unfolding ll conv(1) .
    moreover have "take dest r' = take dest r"
      using r'(1) td memmove_fields(1) [of dest ?t "length r1 - ?t" r1] 1(3,4) len by simp
    ultimately show ?thesis using r' conv(2) len by simp
  next
    case (Some i)
    then obtain m where m: "drop ?t r1 = m @ UCHAR_CR # UCHAR_NL # drop (i + 2) r" "i = ?t + length m"
      "drop (i + 2) r1 = drop (i + 2) r" "to_lf (drop ?t r) = m @ UCHAR_NL # to_lf (drop (i + 2) r)"
      "crlf_pairs (drop ?t r) = Suc (crlf_pairs (drop (i + 2) r))"
      using fs by auto
    let ?r2 = "u_memmove r1 dest ?t (i - ?t)" and ?d = "dest + (i - ?t)"
    have mv: "move_lines ?r2 ?d i (n - 1) = (r', n')"
      using 1(2) f Some by (simp add: move_lines.simps [of r dest lead n] Let_def)
    have il: "i + 1 < length r1" using find_crlf_Some [of r ?t r1 i] f Some len by simp
    have d_i: "drop i r1 = UCHAR_CR # UCHAR_NL # drop (i + 2) r1"
      using arg_cong [OF m(1), of "drop (length m)"] m(2,3) by (simp add: add.commute)
    have di2: "drop i ?r2 = drop i r1"
      using memmove_fields(3) [of dest ?t "i - ?t" r1 i] 1(3) m(2) il by simp
    have rest: "drop (i + 1) ?r2 = UCHAR_NL # drop (i + 2) r1"
      using arg_cong [OF di2, of "drop 1"] d_i by simp
    have nl: "?r2 ! (i + 1) = UCHAR_NL"
      using rest il by (metis Cons_nth_drop_Suc length_u_memmove list.inject)
    have "length r' = length ?r2 \<and> take ?d r' = take ?d ?r2
      \<and> take (length (to_lf (drop (i + 1) ?r2))) (drop ?d r') = to_lf (drop (i + 1) ?r2)
      \<and> n' = n - 1 - crlf_pairs (drop (i + 1) ?r2)"
      using 1(1) [OF refl refl f [symmetric] Some mv _ _ nl] il 1(3) m(2) by simp
    then have IH: "length r' = length r" "take ?d r' = take ?d ?r2"
      "take (length (to_lf (drop (i + 1) ?r2))) (drop ?d r') = to_lf (drop (i + 1) ?r2)"
      "n' = n - 1 - crlf_pairs (drop (i + 1) ?r2)" using len by simp_all
    have tail: "to_lf (drop (i + 1) ?r2) = UCHAR_NL # to_lf (drop (i + 2) r)"
      "crlf_pairs (drop (i + 1) ?r2) = crlf_pairs (drop (i + 2) r)"
      unfolding rest m(3) using to_lf_Cons [of UCHAR_NL "drop (i + 2) r"] by simp_all
    have mid: "take (length m) (drop dest ?r2) = m"
      using memmove_fields(2) [of dest ?t "i - ?t" r1] 1(3) m(1,2) il by simp
    have pre: "take dest ?r2 = take dest r" using memmove_fields(1) [of dest ?t "i - ?t" r1] 1(3) m(2) il td by simp
    have keep: "take dest r' = take dest r"
      using arg_cong [OF IH(2), of "take dest"] pre by simp
    have "take (length m) (drop dest r') = m"
      using arg_cong [OF IH(2), of "drop dest"] mid m(2) by (simp add: drop_take)
    moreover have "take (length (to_lf (drop (i + 2) r)) + 1) (drop (length m) (drop dest r')) = UCHAR_NL # to_lf (drop (i + 2) r)"
    proof -
      have "?d = dest + length m" using m(2) by simp
      then show ?thesis using IH(3) [unfolded tail(1)] by (simp add: add.commute)
    qed
    ultimately have "take (length m + (length (to_lf (drop (i + 2) r)) + 1)) (drop dest r') = m @ UCHAR_NL # to_lf (drop (i + 2) r)"
      unfolding take_add by simp
    then have conv: "take (length (to_lf (drop ?t r))) (drop dest r') = to_lf (drop ?t r)"
      unfolding m(4) by simp
    show ?thesis using keep conv IH(1,4) tail m(5) by simp
  qed
qed

text \<open>The number of units counted is one too large when there is a pair.\<close>

lemma convert_terminators_effect:
  assumes "convert_terminators us = (r, nread)"
  shows "length r = length us \<and> nread = length us - (crlf_pairs us - 1)
    \<and> take (length (to_lf us)) r = to_lf us
    \<and> length (take nread r) = length (to_lf us) + (if crlf_pairs us = 0 then 0 else 1)"
proof -
  obtain r1 nxt where f: "find_crlf us 0 = (r1, nxt)" by fastforce
  note fs = find_crlf_spec [OF f]
  have len: "length (to_lf us) + crlf_pairs us = length us" by (rule to_lf_length)
  show ?thesis
  proof (cases nxt)
    case None
    then have "r = r1" "nread = length us"
      using assms f fs by (simp_all add: convert_terminators_def)
    then show ?thesis using fs None len by simp
  next
    case (Some i)
    then obtain m where m: "r1 = m @ UCHAR_CR # UCHAR_NL # drop (i + 2) us" "i = length m"
      "to_lf us = m @ UCHAR_NL # to_lf (drop (i + 2) us)" "crlf_pairs us = Suc (crlf_pairs (drop (i + 2) us))"
      using fs by auto
    have mv: "move_lines r1 i i (length us) = (r, nread)"
      using assms f fs Some by (simp add: convert_terminators_def)
    have il: "i + 1 < length r1" "r1 ! (i + 1) = UCHAR_NL"
      unfolding m(1) using m(2) by (simp_all add: nth_append)
    have d1: "drop (i + 1) r1 = UCHAR_NL # drop (i + 2) us" unfolding m(1) using m(2) by simp
    have conv: "to_lf (drop (i + 1) r1) = UCHAR_NL # to_lf (drop (i + 2) us)"
      "crlf_pairs (drop (i + 1) r1) = crlf_pairs (drop (i + 2) us)"
      unfolding d1 using to_lf_Cons [of UCHAR_NL "drop (i + 2) us"] by simp_all
    have sp: "length r = length us" "take i r = take i r1"
      "take (length (to_lf (drop (i + 1) r1))) (drop i r) = to_lf (drop (i + 1) r1)"
      "nread = length us - crlf_pairs (drop (i + 2) us)"
      using move_lines_spec [OF mv _ il] conv fs by simp_all
    have "take i r = m" unfolding sp(2) m(1) using m(2) by simp
    moreover have "take (length (to_lf (drop (i + 2) us)) + 1) (drop i r) = UCHAR_NL # to_lf (drop (i + 2) us)"
      using sp(3) unfolding conv by simp
    ultimately have "take (length m + (length (to_lf (drop (i + 2) us)) + 1)) r = m @ UCHAR_NL # to_lf (drop (i + 2) us)"
      unfolding take_add using m(2) by simp
    then have "take (length (to_lf us)) r = to_lf us" unfolding m(3) by (simp add: add.commute)
    then show ?thesis using sp len m(4) by auto
  qed
qed

text \<open>
  C31. A fill of the buffer is converted to lines that end in LF, except that the count of its
  units is one too large when it has a CRLF pair: one stray unit follows the converted text.
\<close>

theorem convert_terminators_spec:
  assumes "convert_terminators us = (r, nread)"
  shows "length r = length us \<and> nread = length us - (crlf_pairs us - 1)
    \<and> take (length (to_lf us)) r = to_lf us
    \<and> length (take nread r) = length (to_lf us) + (if crlf_pairs us = 0 then 0 else 1)"
  using convert_terminators_effect [OF assms] by blast

lemma convert_terminators_spec_witness:
  "\<exists>r nread. convert_terminators [0x61, UCHAR_CR, UCHAR_NL, 0x62] = (r, nread)
     \<and> take nread r = [0x61, UCHAR_NL, 0x62, 0x62]"
proof -
  have f: "find_crlf [0x61, UCHAR_CR, UCHAR_NL, 0x62] 0 = ([0x61, UCHAR_CR, UCHAR_NL, 0x62], Some 1)"
    "find_crlf [0x61, UCHAR_CR, UCHAR_NL, 0x62] (Suc (Suc 0)) = ([0x61, UCHAR_CR, UCHAR_NL, 0x62], None)"
    by (subst find_crlf.simps, simp)+
  have "u_memmove [0x61, UCHAR_CR, UCHAR_NL, 0x62] (Suc 0) (Suc (Suc 0)) (Suc (Suc 0)) = [0x61, UCHAR_NL, 0x62, 0x62]"
    by (simp add: u_memmove_def upt_rec)
  then have e: "convert_terminators [0x61, UCHAR_CR, UCHAR_NL, 0x62] = ([0x61, UCHAR_NL, 0x62, 0x62], 4)"
    by (simp add: convert_terminators_def move_lines.simps [of _ "Suc 0" "Suc 0"] f f(2) [folded numeral_2_eq_2] Let_def)
  show ?thesis using convert_terminators_spec [OF e] e by simp
qed

end
