(* ===== verification/TokenProgress.thy ===== *)
theory TokenProgress
  imports ScannerProps
begin

text \<open>
  Tokens use up the input: a token that \<open>next_token\<close> delivers, other than the end of the input,
  is not empty, and consuming it brings the scanner closer to the end of its source. The
  termination of the grammar rests on this.
\<close>

section \<open>Relations between scanners\<close>

text \<open>
  \<open>extends s t\<close>: what is read from the source is gone, the table of classes is the same, and a token
  that has begun is still in the buffer and no shorter. \<open>grows s t\<close>: moreover, there is not
  more left from the start of the token on; units still in the source count before those in the
  buffer. (A delimited string in CIF 1 may be scanned beyond the end of the buffered units, but only
  after more have been read.)
\<close>

definition same_table :: "scanner \<Rightarrow> scanner \<Rightarrow> bool" where
  "same_table s t \<longleftrightarrow> char_class t = char_class s \<and> cif_version t = cif_version s"

definition extends :: "scanner \<Rightarrow> scanner \<Rightarrow> bool" where
  "extends s t \<longleftrightarrow> pending (char_source t) \<le> pending (char_source s) \<and> same_table s t
     \<and> (Inl CIF_OK \<in> set (char_source t) \<longrightarrow> Inl CIF_OK \<in> set (char_source s))
     \<and> (text_start s < buffer_limit s \<and> text_start s < next_char s
        \<longrightarrow> text_start t < buffer_limit t \<and> text_start t + (next_char s - text_start s) \<le> next_char t)"

definition grows :: "scanner \<Rightarrow> scanner \<Rightarrow> bool" where
  "grows s t \<longleftrightarrow> extends s t
     \<and> (next_char s \<le> buffer_limit s \<longrightarrow>
          pending (char_source t) < pending (char_source s)
          \<or> pending (char_source t) = pending (char_source s) \<and> next_char t \<le> buffer_limit t
            \<and> buffer_limit t - text_start t \<le> buffer_limit s - text_start s)"

lemma extends_refl [simp]: "extends s s"
  by (simp add: extends_def same_table_def)

lemma extendsD:
  assumes "extends s t"
  shows "pending (char_source t) \<le> pending (char_source s)" "same_table s t"
    "Inl CIF_OK \<in> set (char_source t) \<Longrightarrow> Inl CIF_OK \<in> set (char_source s)"
    "text_start s < buffer_limit s \<Longrightarrow> text_start s < next_char s \<Longrightarrow>
       text_start t < buffer_limit t \<and> text_start t + (next_char s - text_start s) \<le> next_char t"
  using assms by (simp_all add: extends_def)

lemma extends_trans:
  assumes "extends s t" "extends t u"
  shows "extends s u"
  unfolding extends_def
proof (intro conjI impI)
  show "pending (char_source u) \<le> pending (char_source s)"
    using extendsD(1) [OF assms(1)] extendsD(1) [OF assms(2)] by simp
  show "same_table s u" using extendsD(2) [OF assms(1)] extendsD(2) [OF assms(2)] by (simp add: same_table_def)
  show "Inl CIF_OK \<in> set (char_source s)" if "Inl CIF_OK \<in> set (char_source u)"
    using extendsD(3) [OF assms(1)] extendsD(3) [OF assms(2)] that by simp
  assume "text_start s < buffer_limit s \<and> text_start s < next_char s"
  then have s: "text_start s < buffer_limit s" "text_start s < next_char s" by simp_all
  have t: "text_start t < buffer_limit t" "text_start t + (next_char s - text_start s) \<le> next_char t"
    using extendsD(4) [OF assms(1) s] by simp_all
  have u: "text_start u < buffer_limit u \<and> text_start u + (next_char t - text_start t) \<le> next_char u"
    using extendsD(4) [OF assms(2) t(1)] t(2) s(2) by simp
  then show "text_start u < buffer_limit u" by simp
  show "text_start u + (next_char s - text_start s) \<le> next_char u" using u t(2) by arith
qed

lemma grows_refl [simp]: "grows s s"
  by (simp add: grows_def)

lemma grows_trans: "grows s t \<Longrightarrow> grows t u \<Longrightarrow> grows s u"
  using extends_trans [of s t u] extendsD(1) [of s t] extendsD(1) [of t u] by (auto simp: grows_def)

lemma grows_extends: "grows s t \<Longrightarrow> extends s t"
  by (simp add: grows_def)

lemma read_grows:
  "extends s t \<Longrightarrow> extends t u \<Longrightarrow>
   pending (char_source t) < pending (char_source s) \<or> pending (char_source u) < pending (char_source t) \<Longrightarrow> grows s u"
  using extends_trans [of s t u] extendsD(1) [of s t] extendsD(1) [of t u] by (auto simp: grows_def)

lemma place_grows: "place t = place s \<Longrightarrow> same_table s t \<Longrightarrow> grows s t"
  by (simp add: place_def grows_def extends_def)

section \<open>The macros\<close>

lemma table_report [simp]:
  "same_table s (snd (report_error s' code col pos len)) = same_table s s'"
  "same_table s (report_ws s' pos len) = same_table s s'"
  by (simp_all add: report_error_eq report_ws_def same_table_def)

lemma table_updates [simp]:
  "same_table s (t\<lparr>next_char := n\<rparr>) = same_table s t" "same_table s (t\<lparr>column := k\<rparr>) = same_table s t"
  "same_table s (t\<lparr>line := k\<rparr>) = same_table s t" "same_table s (t\<lparr>buffer := b\<rparr>) = same_table s t"
  "same_table s (t\<lparr>tvalue_start := n\<rparr>) = same_table s t" "same_table s (t\<lparr>tvalue_length := k\<rparr>) = same_table s t"
  "same_table s (t\<lparr>text_start := n\<rparr>) = same_table s t" "same_table s (t\<lparr>buffer_limit := n\<rparr>) = same_table s t"
  "same_table s (t\<lparr>char_source := r\<rparr>) = same_table s t" "same_table s (t\<lparr>at_eof := e\<rparr>) = same_table s t"
  "same_table s (t\<lparr>ttype := y\<rparr>) = same_table s t" "same_table s (t\<lparr>events := z\<rparr>) = same_table s t"
  "same_table (s\<lparr>column := k\<rparr>) t = same_table s t" "same_table s s"
  by (simp_all add: same_table_def)

lemma table_trans: "same_table s t \<Longrightarrow> same_table t u \<Longrightarrow> same_table s u"
  by (simp add: same_table_def)

lemma table_report_if: "report_if b s code pos len = (ev, t) \<Longrightarrow> same_table s t"
  by (auto simp: report_if_def report_error_eq split: if_splits)

lemma table_unpaired: "HANDLE_UNPAIRED_LEAD s lead = (ev, t) \<Longrightarrow> same_table s t"
  by (auto simp: HANDLE_UNPAIRED_LEAD_def report_error_eq Let_def split: if_splits)

lemma table_eol: "HANDLE_EOL s c sol = (ev, t) \<Longrightarrow> same_table s t"
  by (auto simp: HANDLE_EOL_def report_error_eq Let_def split: if_splits)

lemma table_uchar: "SCAN_UCHAR s lead = (ev, c, lead', t) \<Longrightarrow> same_table s t"
  unfolding SCAN_UCHAR_def Let_def
  by (auto split: prod.splits if_splits dest!: table_report_if table_unpaired; metis table_trans)

lemma table_make_room [simp]: "same_table s (make_room s)"
  by (simp add: make_room_def Let_def)

lemma table_more: "get_more_chars s = (r, t) \<Longrightarrow> same_table s t"
  using table_make_room [of s]
  by (auto simp: get_more_chars_def Let_def split: prod.splits sum.splits if_splits)

lemma uchar_extends: "SCAN_UCHAR s lead = (ev, c, lead', t) \<Longrightarrow> extends s t"
  using SCAN_UCHAR_source [of s lead ev c lead' t] SCAN_UCHAR_place(2) [of s lead ev c lead' t] table_uchar [of s lead ev c lead' t]
  by (simp add: extends_def)

lemma uchar_grows: "SCAN_UCHAR s lead = (ev, c, lead', t) \<Longrightarrow> next_char s < buffer_limit s \<Longrightarrow> grows s t"
  using SCAN_UCHAR_source [of s lead ev c lead' t] SCAN_UCHAR_place(3) [of s lead ev c lead' t] uchar_extends [of s lead ev c lead' t]
  by (simp add: grows_def)

lemma uchar_result: "SCAN_UCHAR s False = (ev, c, lead', t) \<Longrightarrow> c = buffer s ! next_char s \<or> c = repl_char s"
  unfolding SCAN_UCHAR_def Let_def repl_char_def
  by (auto split: prod.splits if_splits simp: report_if_def report_error_eq)

lemma eol_grows: "HANDLE_EOL s c sol = (ev, t) \<Longrightarrow> grows s t"
  using HANDLE_EOL_place(1) [of s c sol ev t] table_eol [of s c sol ev t] place_grows by blast

lemma unpaired_grows: "HANDLE_UNPAIRED_LEAD s lead = (ev, t) \<Longrightarrow> grows s t"
  using place_unpaired [of s lead ev t] table_unpaired [of s lead ev t] place_grows by blast

lemma converted_positive:
  assumes "convert_terminators us = (r, n)" "us \<noteq> []"
  shows "0 < n"
proof -
  have "n = length us - (crlf_pairs us - 1)" using convert_terminators_effect [OF assms(1)] by simp
  moreover have "crlf_pairs us \<le> length us" using to_lf_length [of us] by simp
  moreover have "0 < length us" using assms(2) by simp
  ultimately show ?thesis by arith
qed

lemma read_func_errors: "read_func src n = (u, src') \<Longrightarrow> Inl e \<in> set src' \<Longrightarrow> Inl e \<in> set src"
  by (induction src n arbitrary: u src' rule: read_func.induct) (auto split: if_splits)

lemma read_func_result: "read_func src n = (Inl e, src') \<Longrightarrow> Inl e \<in> set src"
  by (induction src n arbitrary: src' rule: read_func.induct) (auto split: if_splits)

lemma more_errors: "get_more_chars s = (r, t) \<Longrightarrow> Inl e \<in> set (char_source t) \<Longrightarrow> Inl e \<in> set (char_source s)"
  using read_func_errors [of "char_source s" "buffer_size (make_room s) - buffer_limit (make_room s)"]
  by (auto simp: get_more_chars_def Let_def split: prod.splits sum.splits if_splits)

lemma more_extends:
  assumes "get_more_chars s = (r, t)" "r = CIF_OK \<or> r = CIF_EOF"
  shows "extends s t"
proof -
  have "text_start s < buffer_limit s \<Longrightarrow> text_start s < next_char s \<Longrightarrow>
      text_start (make_room s) < buffer_limit (make_room s)
      \<and> text_start (make_room s) + (next_char s - text_start s) \<le> next_char (make_room s)"
    by (auto simp: make_room_def Let_def)
  then show ?thesis
    using assms(1) get_more_chars_pending [OF assms(1)] table_more [OF assms(1)] more_errors [OF assms(1)]
    by (auto simp: extends_def get_more_chars_def Let_def dest: converted_positive split: prod.splits sum.splits if_splits)
qed

lemma more_grows:
  assumes "get_more_chars s = (r, t)" "r = CIF_OK \<or> r = CIF_EOF"
  shows "grows s t"
proof (cases "r = CIF_OK")
  case True
  then show ?thesis
    using more_extends [OF assms] get_more_chars_pending [OF assms(1)] by (simp add: grows_def)
next
  case False
  have "next_char s \<le> buffer_limit s \<Longrightarrow>
      next_char (make_room s) \<le> buffer_limit (make_room s)
      \<and> buffer_limit (make_room s) - text_start (make_room s) \<le> buffer_limit s - text_start s"
    by (auto simp: make_room_def Let_def)
  then show ?thesis
    using more_extends [OF assms] False assms get_more_chars_pending [OF assms(1)]
    by (auto simp: grows_def get_more_chars_def Let_def split: prod.splits sum.splits if_splits)
qed

section \<open>The scanning functions\<close>

declare scan_ws_loop.simps [simp del] scan_to_loop.simps [simp del] scan_unquoted_loop.simps [simp del]
  scan_triple_loop.simps [simp del] scan_delim_loop.simps [simp del] scan_text_loop.simps [simp del]

lemma peek_grows: "PEEK_CHAR s = (r, c, t) \<Longrightarrow> r = CIF_OK \<or> r = CIF_EOF \<Longrightarrow> grows s t"
  using more_grows [of s r t]
  by (auto simp: PEEK_CHAR_def ENSURE_CHARS_def split: prod.splits if_splits)

lemma grows_end [simp]: "grows s (end_of_token t m n) = grows s t"
  by (simp add: grows_def extends_def same_table_def end_of_token_def Let_def)

lemma grows_report [simp]:
  "grows s (snd (report_error t code col pos len)) = grows s t" "grows s (report_ws t pos len) = grows s t"
  by (simp_all add: grows_def extends_def same_table_def report_error_eq report_ws_def)

lemma report_grows: "report_error s code col pos len = (ev, t) \<Longrightarrow> grows s t"
  using grows_report(1) [of s s code col pos len] by simp

lemma back_up_grows: "SCAN_UCHAR s lead = (CIF_OK, c, lead', t) \<Longrightarrow> grows s (BACK_UP t)"
  using place_back_up table_uchar by (intro place_grows) (auto simp: BACK_UP_def)

lemma advance_grows:
  "next_char s < buffer_limit s \<Longrightarrow> grows s (s\<lparr>next_char := next_char s + 1\<rparr>)"
  "next_char s < buffer_limit s \<Longrightarrow> grows s (s\<lparr>column := k, next_char := next_char s + 1\<rparr>)"
  by (simp_all add: grows_def extends_def)

text \<open>The steps as rules: after the step, it remains to show the rest.\<close>

lemma step_uchar: "SCAN_UCHAR s lead = (ev, c, lead', t) \<Longrightarrow> next_char s < buffer_limit s \<Longrightarrow> grows t u \<Longrightarrow> grows s u"
  by (rule grows_trans [OF uchar_grows])

lemma step_eol: "HANDLE_EOL s k sol = (r, t) \<Longrightarrow> grows t u \<Longrightarrow> grows s u"
  by (rule grows_trans [OF eol_grows])

lemma step_more: "get_more_chars s = (ev, t) \<Longrightarrow> ev = CIF_OK \<or> ev = CIF_EOF \<Longrightarrow> grows t u \<Longrightarrow> grows s u"
  by (rule grows_trans [OF more_grows])

lemma step_eof: "get_more_chars s = (CIF_EOF, t) \<Longrightarrow> grows t u \<Longrightarrow> grows s u"
  by (rule step_more, assumption, simp, assumption)

lemma step_unpaired: "HANDLE_UNPAIRED_LEAD s lead = (ev, t) \<Longrightarrow> grows t u \<Longrightarrow> grows s u"
  by (rule grows_trans [OF unpaired_grows])

lemma step_report: "report_error s code col pos len = (ev, t) \<Longrightarrow> grows t u \<Longrightarrow> grows s u"
  by (rule grows_trans [OF report_grows])

lemma eof_unpaired:
  "get_more_chars s = (CIF_EOF, t) \<Longrightarrow> HANDLE_UNPAIRED_LEAD t lead = (ev, u) \<Longrightarrow> grows s u"
  using step_eof unpaired_grows by blast

lemma eof_report:
  "get_more_chars s = (CIF_EOF, t) \<Longrightarrow> HANDLE_UNPAIRED_LEAD t lead = (ev, u) \<Longrightarrow>
   report_error u code col pos len = (ev', v) \<Longrightarrow> grows s v"
  by (rule grows_trans [OF eof_unpaired report_grows])

lemmas step_rules = step_eol step_more step_unpaired step_report

lemma scan_ws_grows: "scan_ws_loop sol s = (CIF_OK, t) \<Longrightarrow> grows s t"
proof (induction sol s rule: scan_ws_loop.induct)
  case (1 sol s)
  show ?case
  proof (cases "next_char s < buffer_limit s")
    case True
    show ?thesis
    proof (cases "HANDLE_EOL s (buffer s ! next_char s) sol")
      case (Pair r s1)
      have adv: "grows s1 (s1\<lparr>next_char := next_char s1 + 1\<rparr>)"
        using HANDLE_EOL_place(1) [OF Pair] True by (intro advance_grows) (simp add: place_def)
      show ?thesis
        using 1 True Pair adv advance_grows(2) [OF True, of "column s + 1"]
        by (auto simp: scan_ws_loop.simps [of sol s] split: char_class.splits sum.splits dest: HANDLE_EOL_Inl
            simp: Let_def
            intro: grows_trans step_eol [OF Pair])
    qed
  next
    case False
    obtain r s1 where g: "get_more_chars s = (r, s1)" by fastforce
    then show ?thesis
      using 1(3) [OF False, of r s1] 1(4) False
      by (auto simp: scan_ws_loop.simps [of sol s] split: if_splits intro: step_more [OF g])
  qed
qed

lemma scan_to_grows: "scan_to_loop e lead s = (CIF_OK, t) \<Longrightarrow> grows s t"
proof (induction e lead s rule: scan_to_loop.induct)
  case (1 e lead s)
  show ?case
  proof (cases "next_char s < buffer_limit s")
    case True
    obtain r c l s1 where u: "SCAN_UCHAR s lead = (r, c, l, s1)" using prod_cases4 by metis
    show ?thesis
      using 1(1) [OF True, of r _ c _ l s1] 1(3) True u
      by (auto simp: scan_to_loop.simps [of e lead s] split: if_splits
          intro: back_up_grows step_uchar)
  next
    case False
    obtain r s1 where g: "get_more_chars s = (r, s1)" by fastforce
    show ?thesis
      using 1(2) [OF False, of r s1] 1(3) False g
      by (auto simp: scan_to_loop.simps [of e lead s] split: if_splits prod.splits
          intro: step_more dest: eof_unpaired)
  qed
qed

text \<open>A loop's step: its run is the rest of the loop, from a scanner that has grown.\<close>

lemma scan_unquoted_grows: "scan_unquoted_loop d v lead n s = (CIF_OK, t) \<Longrightarrow> grows s t"
proof (induction d v lead n s rule: scan_unquoted_loop.induct)
  case (1 d v lead n s)
  show ?case
  proof (cases "next_char s < buffer_limit s")
    case True
    obtain r c l s1 where u: "SCAN_UCHAR s lead = (r, c, l, s1)" using prod_cases4 by metis
    have r: "r = CIF_OK" using 1(7) True u by (auto simp: scan_unquoted_loop.simps [of d v lead n s] split: if_splits)
    note run = 1(7) [unfolded scan_unquoted_loop.simps [of d v lead n s]]
    have g: "grows s s1" "grows s (BACK_UP s1)" using uchar_grows [OF u True] back_up_grows u r by simp_all
    have rest: "grows s1 t \<Longrightarrow> grows s t" using g(1) grows_trans by blast
    show ?thesis
    proof (cases "METACLASS_OF c s1")
      case GENERAL_META
      then show ?thesis
        using rest run True u r 1(2,3) [OF True, of r "(c, l, s1)" c "(l, s1)" l s1] by (simp split: if_splits)
    next
      case OPEN_META
      obtain e s2 where e: "report_error s1 CIF_MISSING_SPACE (column s1) (next_char s1 - 1) 0 = (e, s2)" by fastforce
      have "grows s (BACK_UP (report_ws s2 (next_char s2 - 1) 0))"
        using g(2) e by (auto simp: report_error_eq report_ws_def BACK_UP_def grows_def extends_def same_table_def)
      then show ?thesis
        using rest run True u r OPEN_META e 1(4) [OF True, of r "(c, l, s1)" c "(l, s1)" l s1]
        by (auto split: if_splits)
    next
      case CLOSE_META
      then show ?thesis
        using rest run True u r g(2) 1(5) [OF True, of r "(c, l, s1)" c "(l, s1)" l s1] by (auto split: if_splits)
    next
      case WS_META
      then show ?thesis using run True u r g by (auto split: if_splits)
    next
      case NO_META
      then show ?thesis
        using rest run True u r 1(1) [OF True, of r "(c, l, s1)" c "(l, s1)" l s1] by simp
    qed
  next
    case False
    obtain r s1 where g: "get_more_chars s = (r, s1)" by fastforce
    show ?thesis
      using 1(6) [OF False, of r s1] 1(7) False g
      by (auto simp: scan_unquoted_loop.simps [of d v lead n s] split: if_splits prod.splits
          intro: step_more dest: eof_unpaired)
  qed
qed

lemma scan_triple_grows: "scan_triple_loop dlm k lead sol s = (CIF_OK, t) \<Longrightarrow> grows s t"
proof (induction dlm k lead sol s rule: scan_triple_loop.induct)
  case (1 dlm k lead sol s)
  show ?case
  proof (cases "next_char s < buffer_limit s")
    case True
    obtain r c l s1 where u: "SCAN_UCHAR s lead = (r, c, l, s1)" using prod_cases4 by metis
    note IH = 1(1-3) [OF True, of r "(c, l, s1)" c "(l, s1)" l s1]
    show ?thesis
      using IH 1(5) True u uchar_grows [OF u True]
      by (auto simp: scan_triple_loop.simps [of dlm k lead sol s] split: if_splits prod.splits sum.splits
          dest: HANDLE_EOL_Inl intro: step_uchar step_eol)
  next
    case False
    obtain r s1 where g: "get_more_chars s = (r, s1)" by fastforce
    show ?thesis
      using 1(4) [OF False, of r s1] 1(5) False g
      by (auto simp: scan_triple_loop.simps [of dlm k lead sol s] split: if_splits prod.splits
          intro: step_more dest: eof_report)
  qed
qed

lemma scan_text_grows: "scan_text_loop lead sol s = (CIF_OK, t) \<Longrightarrow> grows s t"
proof (induction "scan_measure s" arbitrary: lead sol s rule: wf_induct_rule [OF wf_lex_prod [OF wf_less_than wf_less_than]])
  case 1
  note IH = 1(1) and run = 1(2)
  show ?case
  proof (cases "next_char s < buffer_limit s")
    case True
    obtain r c l s1 where u: "SCAN_UCHAR s lead = (r, c, l, s1)" using prod_cases4 by metis
    have r: "r = CIF_OK" using run True u by (auto simp: scan_text_loop.simps [of lead sol s] split: if_splits)
    have m: "(scan_measure s1, scan_measure s) \<in> scan_order"
      using scan_uchar [OF True, of r _ lead c _ l s1] u r by simp
    have g: "grows s s1" by (rule uchar_grows [OF u True])
    have on: "grows s t" if "scan_text_loop l x s1 = (CIF_OK, t)" for x
      using IH [OF m that] g grows_trans by blast
    have eol: "grows s t" if "HANDLE_EOL s1 c sol = (Inr x, s2)" "scan_text_loop l x s2 = (CIF_OK, t)" for x s2
      using IH [OF scan_eol [OF that(1) [symmetric] m] that(2)] step_eol [OF that(1)] g grows_trans by blast
    show ?thesis
      using run True u r g on
      by (cases "CLASS_OF c s1"; cases "HANDLE_EOL s1 c sol")
         (auto simp: scan_text_loop.simps [of lead sol s] split: if_splits sum.splits dest: HANDLE_EOL_Inl eol)
  next
    case False
    obtain r s1 where g: "get_more_chars s = (r, s1)" by fastforce
    have "r = CIF_OK \<Longrightarrow> (scan_measure s1, scan_measure s) \<in> scan_order" using scan_more [of r s1 s] g by simp
    then show ?thesis
      using IH [of s1 lead sol] run False g
      by (auto simp: scan_text_loop.simps [of lead sol s] split: if_splits prod.splits
          intro: step_more dest: eof_report)
  qed
qed

text \<open>
  In a delimited string of CIF 1 the scan may run on to \<open>upto_pos\<close>, beyond the buffered units; but
  then more units have been read since it started.
\<close>

lemma unterminated_grows: "unterminated_quote s = (CIF_OK, t) \<Longrightarrow> grows s t"
  by (auto simp: unterminated_quote_def split: prod.splits if_splits dest: report_grows)

lemma peek_inside:
  "PEEK_CHAR s = (CIF_OK, c, t) \<Longrightarrow>
   pending (char_source t) < pending (char_source s) \<or> next_char t < buffer_limit t \<and> t = s"
  using get_more_chars_pending [of s CIF_OK t]
  by (auto simp: PEEK_CHAR_def ENSURE_CHARS_def split: prod.splits if_splits)

lemma advance_extends: "extends s (s\<lparr>next_char := next_char s + 1\<rparr>)"
  by (simp add: extends_def)

lemma scan_delim_grows:
  "scan_delim_loop dlm upto_pos lead s = (CIF_OK, t) \<Longrightarrow> extends s t \<and> (upto_pos \<le> buffer_limit s \<longrightarrow> grows s t)"
proof (induction dlm upto_pos lead s rule: scan_delim_loop.induct)
  case (1 dlm upto_pos lead s)
  show ?case
  proof (cases "next_char s < upto_pos")
    case True
    obtain r c l s1 where u: "SCAN_UCHAR s lead = (r, c, l, s1)" using prod_cases4 by metis
    have r: "r = CIF_OK" using 1(4) True u by (auto simp: scan_delim_loop.simps [of dlm upto_pos lead s] split: if_splits)
    note run = 1(4) [unfolded scan_delim_loop.simps [of dlm upto_pos lead s]]
    have x: "extends s s1" by (rule uchar_extends [OF u])
    have g: "grows s s1" if "upto_pos \<le> buffer_limit s" using uchar_grows [OF u] True that by simp
    have limit: "buffer_limit s1 = buffer_limit s" by (rule SCAN_UCHAR_source [OF u])
    have on: "extends s t \<and> (upto_pos \<le> buffer_limit s \<longrightarrow> grows s t)"
      if "extends s1 t" "upto_pos \<le> buffer_limit s1 \<Longrightarrow> grows s1 t"
      using that x g limit extends_trans grows_trans by auto
    show ?thesis
    proof (cases "c = dlm")
      case quote: True
      obtain r2 c2 s2 where p: "PEEK_CHAR s1 = (r2, c2, s2)" using prod_cases3 by metis
      show ?thesis
      proof (cases "r2 = CIF_OK")
        case ok: True
        have s12: "grows s1 s2" using peek_grows [OF p] ok by simp
        consider (stop) "t = end_of_token s2 1 1" | (more) "scan_delim_loop dlm upto_pos l s2 = (CIF_OK, t)" "cif_version s2 < 2" "METACLASS_OF c2 s2 \<noteq> WS_META"
          | (triple) "scan_triple_delim_string (s2\<lparr>next_char := next_char s2 + 1\<rparr>) = (CIF_OK, t)"
          using run True u r quote p ok by (auto split: if_splits)
        then show ?thesis
        proof cases
          case stop
          then show ?thesis using s12 grows_extends by (intro on) auto
        next
          case more
          have IH: "extends s2 t" "upto_pos \<le> buffer_limit s2 \<Longrightarrow> grows s2 t"
            using 1(1) [OF True, of r "(c, l, s1)" c "(l, s1)" l s1 r2 "(c2, s2)" c2 s2] u r quote p ok more by auto
          have same: "pending (char_source s2) < pending (char_source s1) \<or> s2 = s1"
            using PEEK_CHAR_measure [of r2 "(c2, s2)" s1 c2 s2] p ok by auto
          show ?thesis
          proof (rule on)
            show "extends s1 t" using IH(1) s12 grows_extends extends_trans by blast
            show "grows s1 t" if "upto_pos \<le> buffer_limit s1"
              using same read_grows [OF grows_extends [OF s12] IH(1)] IH(2) that by auto
          qed
        next
          case triple
          then have st: "grows (s2\<lparr>next_char := next_char s2 + 1\<rparr>) t"
            using scan_triple_grows by (simp add: scan_triple_delim_string_def)
          show ?thesis
          proof (rule on)
            show "extends s1 t"
              using grows_extends [OF s12] advance_extends [of s2] grows_extends [OF st] extends_trans by blast
            show "grows s1 t" if "upto_pos \<le> buffer_limit s1"
            proof -
              have "pending (char_source s2) < pending (char_source s1) \<or> next_char s2 < buffer_limit s2"
                using peek_inside p ok by auto
              then show ?thesis
                using read_grows [OF grows_extends [OF s12] extends_trans [OF advance_extends [of s2] grows_extends [OF st]]]
                  grows_trans [OF s12 grows_trans [OF advance_grows(1) st]] by blast
            qed
          qed
        qed
      next
        case no: False
        then have "r2 = CIF_EOF" "t = end_of_token s2 1 1" using run True u r quote p by (auto split: if_splits)
        then show ?thesis using peek_grows [OF p] grows_extends by (intro on) auto
      qed
    next
      case False
      consider (eol) "unterminated_quote (BACK_UP s1) = (CIF_OK, t)" | (more) "scan_delim_loop dlm upto_pos l s1 = (CIF_OK, t)" "CLASS_OF c s1 \<noteq> EOL_CLASS"
        using run True u r False by (auto split: if_splits)
      then show ?thesis
      proof cases
        case eol
        have "grows s t" using back_up_grows unterminated_grows [OF eol] u r grows_trans by blast
        then show ?thesis using grows_extends by blast
      next
        case more
        then show ?thesis
          using 1(2) [OF True, of r "(c, l, s1)" c "(l, s1)" l s1] u r False by (intro on) auto
      qed
    qed
  next
    case False
    obtain r s1 where g: "get_more_chars s = (r, s1)" by fastforce
    have "grows s t"
      using 1(3) [OF False, of r s1] 1(4) False g
      by (auto simp: scan_delim_loop.simps [of dlm upto_pos lead s] split: if_splits prod.splits
          intro: step_more dest: eof_unpaired unterminated_grows grows_trans [OF eof_unpaired unterminated_grows])
    then show ?thesis using grows_extends by blast
  qed
qed

section \<open>Tokens\<close>

text \<open>
  Between tokens the scan position is the start of the next one. A token that is ready has begun in
  the buffer; a key has its delimiter and colon. The unit that stands for an invalid one must not
  end a word: the caller's extra whitespace and terminators must not have it.
\<close>

definition begun :: "scanner \<Rightarrow> bool" where
  "begun s \<longleftrightarrow> text_start s < next_char s \<and> text_start s < buffer_limit s"

definition sound :: "scanner \<Rightarrow> bool" where
  "sound s \<longleftrightarrow> METACLASS_OF (repl_char s) s \<in> {GENERAL_META, NO_META} \<and> Inl CIF_OK \<notin> set (char_source s)"

definition left_over :: "scanner \<Rightarrow> nat \<times> nat" where
  "left_over s = (pending (char_source s), buffer_limit s - text_start s)"

definition not_more :: "scanner \<Rightarrow> scanner \<Rightarrow> bool" where
  "not_more s t \<longleftrightarrow> left_over t = left_over s \<or> (left_over t, left_over s) \<in> less_than <*lex*> less_than"

lemma not_more_iff:
  "not_more s t \<longleftrightarrow> pending (char_source t) < pending (char_source s)
     \<or> pending (char_source t) = pending (char_source s) \<and> buffer_limit t - text_start t \<le> buffer_limit s - text_start s"
  by (auto simp: not_more_def left_over_def)

lemma sound_extends: "sound s \<Longrightarrow> extends s t \<Longrightarrow> sound t"
  by (auto simp: sound_def extends_def same_table_def METACLASS_OF_def CLASS_OF_def repl_char_def)

lemma sound_table: "sound s \<Longrightarrow> same_table s t \<Longrightarrow> char_source t = char_source s \<Longrightarrow> sound t"
  by (auto simp: sound_def same_table_def METACLASS_OF_def CLASS_OF_def repl_char_def)

lemma begun_extends: "begun s \<Longrightarrow> extends s t \<Longrightarrow> begun t \<and> text_start t + (next_char s - text_start s) \<le> next_char t"
  by (auto simp: begun_def extends_def)

lemma not_more_grows: "grows s t \<Longrightarrow> next_char s \<le> buffer_limit s \<Longrightarrow> not_more s t"
  by (auto simp: not_more_iff grows_def)

lemma not_more_trans: "not_more s t \<Longrightarrow> not_more t u \<Longrightarrow> not_more s u"
  by (auto simp: not_more_iff)

lemma peek_advance_grows: "PEEK_CHAR s = (CIF_OK, c, t) \<Longrightarrow> grows s (t\<lparr>next_char := next_char t + 1\<rparr>)"
  using peek_inside [of s c t] advance_grows(1) [of s] advance_extends [of t]
    read_grows [of s t "t\<lparr>next_char := next_char t + 1\<rparr>"] grows_extends [OF peek_grows, of s CIF_OK c t]
  by auto

text \<open>What a round starts from: the first unit of the token.\<close>

lemma NEXT_CHAR_begun:
  assumes n: "NEXT_CHAR (s\<lparr>tvalue_start := text_start s, tvalue_length := 0\<rparr>) = (CIF_OK, c, t)"
    and s: "text_start s = next_char s" "sound s"
  shows "begun t \<and> next_char t = text_start t + 1 \<and> next_char t \<le> buffer_limit t \<and> sound t \<and> not_more s t \<and> same_table s t"
proof -
  let ?s = "s\<lparr>tvalue_start := text_start s, tvalue_length := 0\<rparr>"
  obtain u where p: "PEEK_CHAR ?s = (CIF_OK, c, u)" and t: "t = u\<lparr>next_char := next_char u + 1, column := column u + 1\<rparr>"
    using n by (auto simp: NEXT_CHAR_def split: prod.splits if_splits)
  have sound: "sound ?s" using s(2) by (rule sound_table) simp_all
  have u: "extends ?s u" using peek_grows [OF p] grows_extends by blast
  have first: "text_start u = next_char u \<and> next_char u < buffer_limit u
      \<and> (pending (char_source u) < pending (char_source s) \<or> u = ?s)"
  proof (cases "next_char s < buffer_limit s")
    case True
    then show ?thesis using p s(1) by (auto simp: PEEK_CHAR_def ENSURE_CHARS_def)
  next
    case False
    then have m: "get_more_chars ?s = (CIF_OK, u)"
      using p by (auto simp: PEEK_CHAR_def ENSURE_CHARS_def split: prod.splits if_splits)
    have "make_room ?s = ?s\<lparr>text_start := 0, tvalue_start := 0, next_char := 0, buffer_limit := 0\<rparr>"
      using False s(1) by (simp add: make_room_def Let_def)
    moreover have "read_func (char_source s) k = (Inl 0, r) \<Longrightarrow> False" for k r
      using s(2) read_func_result by (auto simp: sound_def)
    ultimately show ?thesis
      using m get_more_chars_pending [OF m]
      by (auto simp: get_more_chars_def Let_def split: prod.splits sum.splits if_splits dest!: converted_positive)
  qed
  have "sound u" using sound_extends [OF sound u] .
  then have "sound t" by (rule sound_table) (simp_all add: t)
  moreover have "same_table s t" using u by (simp add: t extends_def same_table_def)
  moreover have "not_more s t" using first by (auto simp: t not_more_iff)
  ultimately show ?thesis using first by (simp add: t begun_def)
qed

text \<open>The first unit of a word or of a run of whitespace is in it.\<close>

lemma word_first:
  assumes "next_char s < buffer_limit s" "sound s" "METACLASS_OF (buffer s ! next_char s) s \<in> {GENERAL_META, NO_META}"
    and run: "scan_unquoted s = (CIF_OK, t)"
  shows "grows (s\<lparr>next_char := next_char s + 1\<rparr>) t"
proof -
  obtain r c l s1 where u: "SCAN_UCHAR s False = (r, c, l, s1)" using prod_cases4 by metis
  have same: "same_table s s1" by (rule table_uchar [OF u])
  have r: "r = CIF_OK"
    using run u assms(1) by (auto simp: scan_unquoted_def scan_unquoted_loop.simps [of _ _ _ _ s] split: if_splits)
  have "METACLASS_OF c s \<in> {GENERAL_META, NO_META}"
    using uchar_result [OF u] assms(2,3) by (auto simp: sound_def)
  then have "METACLASS_OF c s1 = GENERAL_META \<or> METACLASS_OF c s1 = NO_META"
    using same by (auto simp: same_table_def METACLASS_OF_def CLASS_OF_def)
  then obtain d v where "scan_unquoted_loop d v l 1 s1 = (CIF_OK, t)"
    using run u r assms(1) by (auto simp: scan_unquoted_def scan_unquoted_loop.simps [of _ _ _ _ s])
  moreover have "grows (s\<lparr>next_char := next_char s + 1\<rparr>) s1"
    using SCAN_UCHAR_cases [OF u] SCAN_UCHAR_place(4) [OF u] r same
    by (intro place_grows) (auto simp: place_def same_table_def)
  ultimately show ?thesis using scan_unquoted_grows grows_trans by blast
qed

lemma ws_first:
  assumes "next_char s < buffer_limit s" "CLASS_OF (buffer s ! next_char s) s = EOL_CLASS"
    and run: "scan_ws s = (CIF_OK, t)"
  shows "grows (s\<lparr>next_char := next_char s + 1\<rparr>) t"
proof -
  obtain r s1 where h: "HANDLE_EOL s (buffer s ! next_char s) 0 = (r, s1)" by fastforce
  then obtain sol where r: "r = Inr sol"
    using assms HANDLE_EOL_Inl [of s "buffer s ! next_char s" 0]
    by (cases r) (auto simp: scan_ws_def scan_ws_loop.simps [of 0 s])
  have "scan_ws_loop sol (s1\<lparr>next_char := next_char s1 + 1\<rparr>) = (CIF_OK, t)"
    using assms h r by (simp add: scan_ws_def scan_ws_loop.simps [of 0 s])
  moreover have "grows (s\<lparr>next_char := next_char s + 1\<rparr>) (s1\<lparr>next_char := next_char s1 + 1\<rparr>)"
    using HANDLE_EOL_place(1) [OF h] table_eol [OF h] by (intro place_grows) (auto simp: place_def same_table_def)
  ultimately show ?thesis using scan_ws_grows grows_trans by blast
qed

text \<open>What the ends of a round do with a token that has grown from \<open>s\<close>.\<close>

definition token_from :: "scanner \<Rightarrow> token_type \<Rightarrow> scanner \<Rightarrow> bool" where
  "token_from s ty t \<longleftrightarrow> grows s t \<and> ty \<noteq> END \<and> (ty \<in> {KEY, TKEY} \<longrightarrow> (begun s \<longrightarrow> text_start t + 2 \<le> next_char t))"

lemma reserved_token_type: "reserved_token s = Some (ty, n) \<Longrightarrow> ty \<notin> {END, KEY, TKEY}"
  by (auto simp: reserved_token_def Let_def split: if_splits)

lemma finish_value_from:
  assumes "\<And>u. r = (CIF_OK, u) \<Longrightarrow> grows s u"
  shows "finish_value a r = Stop CIF_OK ty t \<Longrightarrow> token_from s ty t"
    "finish_value a r = Again a' t \<Longrightarrow> \<exists>u. grows s u \<and> t = CONSUME_TOKEN u"
proof -
  assume f: "finish_value a r = Stop CIF_OK ty t"
  obtain u where r: "r = (CIF_OK, u)" using f by (cases r) (auto simp: finish_value_def split: if_splits)
  have "grows u t"
    using f r by (auto simp: finish_value_def grows_def extends_def same_table_def split: if_splits option.splits prod.splits)
  moreover have "ty \<notin> {END, KEY, TKEY}"
    using f r reserved_token_type by (auto simp: finish_value_def split: if_splits option.splits prod.splits)
  ultimately show "token_from s ty t"
    using grows_trans [OF assms [OF r]] by (auto simp: token_from_def)
next
  assume f: "finish_value a r = Again a' t"
  obtain u where r: "r = (CIF_OK, u)" using f by (cases r) (auto simp: finish_value_def split: if_splits)
  let ?e = "report_error u CIF_RESERVED_WORD (column u - tvalue_length u) (tvalue_start u) (nat (tvalue_length u))"
  have "t = CONSUME_TOKEN (snd ?e)"
    using f r by (auto simp: finish_value_def split: if_splits option.splits prod.splits)
  then show "\<exists>u. grows s u \<and> t = CONSUME_TOKEN u"
    using assms [OF r] grows_report(1) by blast
qed

lemma finish_ws_from:
  "finish_ws a b r = Again a' t \<Longrightarrow> (\<And>u. r = (CIF_OK, u) \<Longrightarrow> grows s u) \<Longrightarrow> \<exists>u. grows s u \<and> t = CONSUME_TOKEN u"
  by (cases r) (auto simp: finish_ws_def split: if_splits intro: exI [of _ "report_ws _ _ _"])

lemma finish_quoted_from:
  assumes "finish_quoted r = Stop CIF_OK ty t" "\<And>u. r = (CIF_OK, u) \<Longrightarrow> grows s u"
  shows "token_from s ty t"
proof -
  obtain u where r: "r = (CIF_OK, u)" using assms(1) by (cases r) (auto simp: finish_quoted_def split: if_splits)
  obtain k c v where p: "PEEK_CHAR u = (k, c, v)" using prod_cases3 by metis
  note g = assms(2) [OF r]
  consider (key) "k = CIF_OK" "ty = KEY" "t = v\<lparr>next_char := next_char v + 1\<rparr>"
    | (other) "k = CIF_OK \<or> k = CIF_EOF" "ty = QVALUE" "t = v"
    using assms(1) r p by (auto simp: finish_quoted_def split: if_splits)
  then show ?thesis
  proof cases
    case key
    have "begun s \<Longrightarrow> begun v \<and> text_start v + (next_char s - text_start s) \<le> next_char v"
      using begun_extends [OF _ grows_extends [OF grows_trans [OF g peek_grows [OF p]]]] key(1) by simp
    then show ?thesis
      using key grows_trans [OF g] peek_advance_grows p by (auto simp: token_from_def begun_def)
  next
    case other
    then show ?thesis using grows_trans [OF g peek_grows [OF p]] by (simp add: token_from_def)
  qed
qed

lemma finish_text_from:
  assumes "finish_text r = Stop CIF_OK ty t" "\<And>u. r = (CIF_OK, u) \<Longrightarrow> grows s u"
  shows "token_from s ty t"
proof -
  obtain u where r: "r = (CIF_OK, u)" using assms(1) by (cases r) (auto simp: finish_text_def split: if_splits)
  obtain k c v where p: "PEEK_CHAR u = (k, c, v)" using prod_cases3 by metis
  note g = assms(2) [OF r]
  consider (key) "k = CIF_OK" "ty = TKEY" "t = v\<lparr>next_char := next_char v + 1\<rparr>"
    | (other) "k = CIF_OK \<or> k = CIF_EOF" "ty = TVALUE" "t = v" | (plain) "ty = TVALUE" "t = u"
    using assms(1) r p by (auto simp: finish_text_def split: if_splits)
  then show ?thesis
  proof cases
    case key
    have "begun s \<Longrightarrow> begun v \<and> text_start v + (next_char s - text_start s) \<le> next_char v"
      using begun_extends [OF _ grows_extends [OF grows_trans [OF g peek_grows [OF p]]]] key(1) by simp
    then show ?thesis
      using key grows_trans [OF g] peek_advance_grows p by (auto simp: token_from_def begun_def)
  next
    case other
    then show ?thesis using grows_trans [OF g peek_grows [OF p]] by (simp add: token_from_def)
  next
    case plain
    then show ?thesis using g by (simp add: token_from_def)
  qed
qed

text \<open>A round: the end of the input, an error, or the dispatch on the first unit.\<close>

lemma token_round_cases:
  obtains (eof) c t where "NEXT_CHAR (s\<lparr>tvalue_start := text_start s, tvalue_length := 0\<rparr>) = (CIF_EOF, c, t)"
      "token_round a s = Stop CIF_OK END t"
  | (fail) ev ty t where "ev \<noteq> CIF_OK" "token_round a s = Stop ev ty t"
  | (go) c s1 e where "NEXT_CHAR (s\<lparr>tvalue_start := text_start s, tvalue_length := 0\<rparr>) = (CIF_OK, c, s1)"
      "token_round a s = token_dispatch a (CLASS_OF c s1) (s1\<lparr>events := e\<rparr>)"
proof -
  obtain r c s1 where n: "NEXT_CHAR (s\<lparr>tvalue_start := text_start s, tvalue_length := 0\<rparr>) = (r, c, s1)"
    using prod_cases3 by metis
  define es where "es = (if METACLASS_OF c s1 \<noteq> CLOSE_META \<and> METACLASS_OF c s1 \<noteq> WS_META \<and> \<not> a
      then report_error s1 CIF_MISSING_SPACE (column s1 - 1) (next_char s1 - 1) 0 else (CIF_OK, s1))"
  have es: "\<exists>e. snd es = s1\<lparr>events := e\<rparr>"
    by (auto simp: es_def report_error_eq intro: exI [of _ "events s1"])
  then have ws: "\<exists>e. report_ws (snd es) (next_char (snd es) - 1) 0 = s1\<lparr>events := e\<rparr>"
    by (auto simp: report_ws_def)
  note start = token_round_def [of a s, unfolded n prod.case Let_def, folded es_def, unfolded case_prod_beta]
  show thesis
  proof (cases "r = CIF_OK")
    case True
    show ?thesis
    proof (cases "fst es = CIF_OK")
      case ok: True
      obtain e where "(if METACLASS_OF c s1 = WS_META \<or> CLASS_OF c s1 = HASH_CLASS then snd es
          else report_ws (snd es) (next_char (snd es) - 1) 0) = s1\<lparr>events := e\<rparr>"
        using es ws by (cases "METACLASS_OF c s1 = WS_META \<or> CLASS_OF c s1 = HASH_CLASS") auto
      then show ?thesis using go n True ok start by simp
    next
      case False
      then show ?thesis using fail start True by simp
    qed
  next
    case no: False
    show ?thesis
    proof (cases "r = CIF_EOF")
      case True
      then show ?thesis using eof n start by simp
    next
      case False
      then show ?thesis using fail no start by simp
    qed
  qed
qed

text \<open>The dispatch, with the first unit of the token read.\<close>

lemma dispatch_grows:
  assumes first: "begun s" "next_char s = text_start s + 1" "next_char s \<le> buffer_limit s" "sound s"
    and c: "c = buffer s ! (next_char s - 1)"
  shows "token_dispatch a (CLASS_OF c s) s = Stop CIF_OK ty t \<Longrightarrow> token_from s ty t"
    and "token_dispatch a (CLASS_OF c s) s = Again a' t \<Longrightarrow> \<exists>u. grows s u \<and> t = CONSUME_TOKEN u"
proof -
  let ?b = "BACK_UP s"
  have bk: "next_char ?b < buffer_limit ?b" "buffer ?b ! next_char ?b = c" "sound ?b" "CLASS_OF c ?b = CLASS_OF c s"
    using first c sound_table [OF first(4), of ?b]
    by (simp_all add: BACK_UP_def same_table_def CLASS_OF_def)
  have on: "grows s u" if "grows (?b\<lparr>next_char := next_char ?b + 1\<rparr>) u" for u
  proof -
    have "grows s (?b\<lparr>next_char := next_char ?b + 1\<rparr>)"
      using first(2) by (intro place_grows) (simp_all add: BACK_UP_def place_def same_table_def)
    then show ?thesis using that grows_trans by blast
  qed
  have ws: "grows s u" if "scan_ws s = (CIF_OK, u)" for u using that scan_ws_grows by (simp add: scan_ws_def)
  have eol: "grows s u" if "scan_ws ?b = (CIF_OK, u)" "CLASS_OF c s = EOL_CLASS" for u
    using on ws_first [OF bk(1) _ that(1)] bk(2,4) that(2) by simp
  have word: "grows s u" if "scan_unquoted ?b = (CIF_OK, u)" "METACLASS_OF c s \<in> {GENERAL_META, NO_META}" for u
    using on word_first [OF bk(1,3) _ that(1)] bk(2,4) that(2) by (simp add: METACLASS_OF_def)
  have semi: "grows s u" if "scan_unquoted s = (CIF_OK, u)" for u
    using that scan_unquoted_grows by (simp add: scan_unquoted_def)
  have hash: "grows s u" if "scan_to_eol s = (CIF_OK, u)" for u using that scan_to_grows by (simp add: scan_to_eol_def)
  have name: "grows s u" if "scan_to_ws s = (CIF_OK, u)" for u using that scan_to_grows by (simp add: scan_to_ws_def)
  have quote: "grows s u" if "scan_delim_string s = (CIF_OK, u)" for u
    using that scan_delim_grows by (simp add: scan_delim_string_def)
  have body: "grows s u" if "scan_text s = (CIF_OK, u)" for u using that scan_text_grows by (simp add: scan_text_def)
  have bracket: "token_from s ty t" if "bracket k s = Stop CIF_OK ty t" "k \<in> {OLIST, CLIST, OTABLE, CTABLE}" for k
    using that by (auto simp: bracket_def token_from_def grows_def extends_def same_table_def)
  { assume d: "token_dispatch a (CLASS_OF c s) s = Stop CIF_OK ty t"
    show "token_from s ty t"
    proof (cases "CLASS_OF c s")
      case WS_CLASS
      then show ?thesis using d by (auto simp: token_dispatch_def finish_ws_def Let_def split: prod.splits if_splits)
    next
      case EOL_CLASS
      then show ?thesis using d by (auto simp: token_dispatch_def finish_ws_def Let_def split: prod.splits if_splits)
    next
      case HASH_CLASS
      then show ?thesis using d by (auto simp: token_dispatch_def finish_ws_def Let_def split: prod.splits if_splits)
    next
      case UNDERSC_CLASS
      then show ?thesis using d name by (auto simp: token_dispatch_def token_from_def split: prod.splits)
    next
      case QUOTE_CLASS
      then show ?thesis using d finish_quoted_from [OF _ quote] by (simp add: token_dispatch_def)
    next
      case SEMI_CLASS
      then show ?thesis
        using d finish_text_from [OF _ body] finish_value_from(1) [OF semi] by (simp add: token_dispatch_def split: if_splits)
    qed (use d bracket finish_value_from(1) [OF word] in \<open>simp_all add: token_dispatch_def METACLASS_OF_def\<close>) }
  { assume d: "token_dispatch a (CLASS_OF c s) s = Again a' t"
    show "\<exists>u. grows s u \<and> t = CONSUME_TOKEN u"
    proof (cases "CLASS_OF c s")
      case WS_CLASS
      then show ?thesis using d finish_ws_from [OF _ ws] by (simp add: token_dispatch_def Let_def)
    next
      case EOL_CLASS
      then show ?thesis using d finish_ws_from [OF _ eol] by (simp add: token_dispatch_def Let_def)
    next
      case HASH_CLASS
      then show ?thesis using d finish_ws_from [OF _ hash] by (simp add: token_dispatch_def)
    next
      case UNDERSC_CLASS
      then show ?thesis using d by (simp add: token_dispatch_def split: prod.splits)
    next
      case QUOTE_CLASS
      then show ?thesis using d by (auto simp: token_dispatch_def finish_quoted_def split: prod.splits if_splits)
    next
      case SEMI_CLASS
      then show ?thesis
        using d finish_value_from(2) [OF semi]
        by (auto simp: token_dispatch_def finish_text_def split: prod.splits if_splits)
    qed (use d finish_value_from(2) [OF word] in \<open>simp_all add: token_dispatch_def METACLASS_OF_def bracket_def\<close>) }
qed

section \<open>The next token\<close>

text \<open>What holds of the scanner between the calls of \<open>next_token\<close>.\<close>

definition token_inv :: "scanner \<Rightarrow> bool" where
  "token_inv s \<longleftrightarrow> sound s \<and> text_start s \<le> next_char s
     \<and> (text_start s < next_char s
        \<longrightarrow> begun s \<and> ttype s \<noteq> END \<and> (ttype s \<in> {KEY, TKEY} \<longrightarrow> text_start s + 2 \<le> next_char s))"

lemma NEXT_CHAR_eof:
  assumes n: "NEXT_CHAR (s\<lparr>tvalue_start := text_start s, tvalue_length := 0\<rparr>) = (CIF_EOF, c, t)"
    and s: "text_start s = next_char s" "sound s"
  shows "sound t \<and> text_start t = next_char t \<and> not_more s t"
proof -
  let ?s = "s\<lparr>tvalue_start := text_start s, tvalue_length := 0\<rparr>"
  have p: "PEEK_CHAR ?s = (CIF_EOF, c, t)" using n by (auto simp: NEXT_CHAR_def split: prod.splits if_splits)
  have "sound ?s" using s(2) by (rule sound_table) simp_all
  then have "sound t" using sound_extends grows_extends [OF peek_grows [OF p]] by simp
  moreover have "text_start t = next_char t \<and> not_more s t"
  proof (cases "at_eof s")
    case True
    then show ?thesis using p s(1) by (auto simp: PEEK_CHAR_def ENSURE_CHARS_def not_more_iff split: if_splits)
  next
    case False
    then have m: "get_more_chars ?s = (CIF_EOF, t)" "buffer_limit s \<le> next_char s"
      using p by (auto simp: PEEK_CHAR_def ENSURE_CHARS_def split: prod.splits if_splits)
    then have "make_room ?s = ?s\<lparr>text_start := 0, tvalue_start := 0, next_char := 0, buffer_limit := 0\<rparr>"
      using s(1) by (simp add: make_room_def Let_def)
    then show ?thesis
      using m(1) get_more_chars_pending [OF m(1)]
      by (auto simp: get_more_chars_def Let_def not_more_iff split: prod.splits sum.splits if_splits)
  qed
  ultimately show ?thesis by simp
qed

lemma round_progress:
  assumes "text_start s = next_char s" "sound s"
  shows "token_round a s = Stop CIF_OK ty t \<Longrightarrow>
      sound t \<and> not_more s t \<and> (if ty = END then text_start t = next_char t
        else begun t \<and> (ty \<in> {KEY, TKEY} \<longrightarrow> text_start t + 2 \<le> next_char t))"
    and "token_round a s = Again a' t \<Longrightarrow> sound t \<and> not_more s t \<and> text_start t = next_char t"
proof -
  have started: "begun u \<and> next_char u = text_start u + 1 \<and> next_char u \<le> buffer_limit u \<and> sound u \<and> not_more s u
      \<and> c = buffer u ! (next_char u - 1) \<and> CLASS_OF c u = CLASS_OF c s1"
    if "NEXT_CHAR (s\<lparr>tvalue_start := text_start s, tvalue_length := 0\<rparr>) = (CIF_OK, c, s1)" "u = s1\<lparr>events := e\<rparr>" for c s1 e u
    using NEXT_CHAR_begun [OF that(1) assms] NEXT_CHAR_place [OF that(1)] that(2) sound_table [of s1 u]
    by (auto simp: begun_def not_more_iff CLASS_OF_def)
  { assume round: "token_round a s = Stop CIF_OK ty t"
    show "sound t \<and> not_more s t \<and> (if ty = END then text_start t = next_char t
        else begun t \<and> (ty \<in> {KEY, TKEY} \<longrightarrow> text_start t + 2 \<le> next_char t))"
    proof (cases rule: token_round_cases [of s a])
      case (eof c t')
      then show ?thesis using round NEXT_CHAR_eof [OF eof(1) assms] by simp
    next
      case (fail ev ty' t')
      then show ?thesis using round by simp
    next
      case (go c s1 e)
      let ?u = "s1\<lparr>events := e\<rparr>"
      note u = started [OF go(1) refl, of e]
      have tok: "token_from ?u ty t"
      proof (rule dispatch_grows(1))
        show "token_dispatch a (CLASS_OF c ?u) ?u = Stop CIF_OK ty t" using u go(2) round by metis
      qed (use u in blast)+
      then have "sound t" "begun t" "not_more ?u t"
        using u sound_extends [of ?u t] begun_extends [of ?u t] not_more_grows [of ?u t]
        by (auto simp: token_from_def grows_def)
      moreover have "ty \<noteq> END" "ty \<in> {KEY, TKEY} \<Longrightarrow> text_start t + 2 \<le> next_char t"
        using tok u by (auto simp: token_from_def)
      ultimately show ?thesis using u not_more_trans [of s ?u t] by simp
    qed }
  { assume round: "token_round a s = Again a' t"
    show "sound t \<and> not_more s t \<and> text_start t = next_char t"
    proof (cases rule: token_round_cases [of s a])
      case (eof c t')
      then show ?thesis using round by simp
    next
      case (fail ev ty' t')
      then show ?thesis using round by simp
    next
      case (go c s1 e)
      let ?u = "s1\<lparr>events := e\<rparr>"
      note u = started [OF go(1) refl, of e]
      have "\<exists>v. grows ?u v \<and> t = CONSUME_TOKEN v"
      proof (rule dispatch_grows(2))
        show "token_dispatch a (CLASS_OF c ?u) ?u = Again a' t" using u go(2) round by metis
      qed (use u in blast)+
      then obtain v where v: "grows ?u v" "t = CONSUME_TOKEN v" by blast
      have "sound v" "begun v" "not_more ?u v"
        using u v(1) sound_extends [of ?u v] begun_extends [of ?u v] not_more_grows [of ?u v] by (auto simp: grows_def)
      moreover have "sound t" using \<open>sound v\<close> by (rule sound_table) (simp_all add: v(2) CONSUME_TOKEN_def)
      moreover have "not_more v t" using \<open>begun v\<close> by (auto simp: v(2) CONSUME_TOKEN_def not_more_iff begun_def)
      moreover have "text_start t = next_char t" by (simp add: v(2) CONSUME_TOKEN_def)
      ultimately show ?thesis using u not_more_trans by meson
    qed }
qed

lemma next_token_loop_progress:
  "next_token_loop a s = (CIF_OK, t) \<Longrightarrow> token_inv s \<Longrightarrow>
   token_inv t \<and> not_more s t \<and> (ttype t = END \<longleftrightarrow> text_start t = next_char t)"
proof (induction a s rule: next_token_loop.induct)
  case (1 a s)
  show ?case
  proof (cases "text_start s < next_char s")
    case True
    then show ?thesis using 1(2,3) by (auto simp: next_token_loop.simps [of a s] token_inv_def not_more_iff)
  next
    case False
    then have s: "text_start s = next_char s" "sound s" using 1(3) by (auto simp: token_inv_def)
    show ?thesis
    proof (cases "token_round a s")
      case (Again a' u)
      have "sound u" "not_more s u" "text_start u = next_char u" using round_progress(2) [OF s Again] by simp_all
      then show ?thesis
        using 1(1) [OF _ Again] 1(2) s(1) Again not_more_trans
        by (auto simp: next_token_loop.simps [of a s] token_inv_def)
    next
      case (Stop r ty u)
      then have "r = CIF_OK" "t = u\<lparr>ttype := ty\<rparr>" using 1(2) s(1) by (simp_all add: next_token_loop.simps [of a s])
      then show ?thesis
        using round_progress(1) [OF s, of a ty u] Stop sound_table [of u t]
        by (auto simp: token_inv_def begun_def not_more_iff split: if_splits)
    qed
  qed
qed

lemma next_token_progress:
  "next_token s = (CIF_OK, t) \<Longrightarrow> token_inv s \<Longrightarrow>
   token_inv t \<and> not_more s t \<and> (ttype t = END \<longleftrightarrow> text_start t = next_char t)"
  unfolding next_token_def by (rule next_token_loop_progress)

end
