(* ===== verification/ParseTotal.thy ===== *)
theory ParseTotal
  imports Parser TokenProgress
begin

text \<open>
  Every parse returns: with enough fuel each production has a result, and it is the same for any
  more fuel. The argument is the one of TokenProgress: every round of a production's loop uses up
  a token or ends.
\<close>

section \<open>Computations with enough fuel\<close>

text \<open>
  \<open>returns f P\<close>: from some amount of fuel on, \<open>f\<close> has one and the same result, which satisfies \<open>P\<close>.
\<close>

definition returns :: "(nat \<Rightarrow> 'a option) \<Rightarrow> ('a \<Rightarrow> bool) \<Rightarrow> bool" where
  "returns f P \<longleftrightarrow> (\<exists>x N. P x \<and> (\<forall>n \<ge> N. f n = Some x))"

lemma returns_Some: "P x \<Longrightarrow> returns (\<lambda>n. Some x) P"
  by (auto simp: returns_def)

lemma returns_Suc:
  assumes "returns (\<lambda>n. f (Suc n)) P"
  shows "returns f P"
proof -
  obtain x N where x: "P x" "\<And>n. n \<ge> N \<Longrightarrow> f (Suc n) = Some x" using assms by (auto simp: returns_def)
  have "f n = Some x" if "n \<ge> Suc N" for n using x(2) [of "n - 1"] that by (cases n) auto
  then show ?thesis using x(1) unfolding returns_def by blast
qed

lemma returns_mono: "returns f P \<Longrightarrow> (\<And>x. P x \<Longrightarrow> Q x) \<Longrightarrow> returns f Q"
  unfolding returns_def by blast

lemma returns_bind:
  assumes "returns f P" "\<And>x. P x \<Longrightarrow> returns (\<lambda>n. g n x) Q"
  shows "returns (\<lambda>n. case f n of None \<Rightarrow> None | Some x \<Rightarrow> g n x) Q"
proof -
  obtain x N where x: "P x" "\<And>n. n \<ge> N \<Longrightarrow> f n = Some x" using assms(1) by (auto simp: returns_def)
  obtain y M where y: "Q y" "\<And>n. n \<ge> M \<Longrightarrow> g n x = Some y" using assms(2) [OF x(1)] by (auto simp: returns_def)
  have "(case f n of None \<Rightarrow> None | Some x \<Rightarrow> g n x) = Some y" if "n \<ge> max N M" for n
    using x(2) [of n] y(2) [of n] that by simp
  then show ?thesis using y(1) unfolding returns_def by blast
qed

lemma returns_if:
  "(b \<Longrightarrow> returns f P) \<Longrightarrow> (\<not> b \<Longrightarrow> returns g P) \<Longrightarrow> returns (\<lambda>n. if b then f n else g n) P"
  by (cases b) simp_all

lemma returns_pair: "(\<And>r s. m = (r, s) \<Longrightarrow> returns (\<lambda>n. f n r s) P) \<Longrightarrow> returns (\<lambda>n. case m of (r, s) \<Rightarrow> f n r s) P"
  by (cases m) simp

section \<open>Where the scanner is\<close>

text \<open>What the invariant and the measure of TokenProgress depend on.\<close>

definition pos :: "scanner \<Rightarrow> (int + ustring) list \<times> nat \<times> nat \<times> nat \<times> token_type \<times> (uchar \<Rightarrow> char_class) \<times> int" where
  "pos s = (char_source s, buffer_limit s, text_start s, next_char s, ttype s, char_class s, cif_version s)"

lemma pos_iff:
  "pos s = pos t \<longleftrightarrow> char_source s = char_source t \<and> buffer_limit s = buffer_limit t \<and> text_start s = text_start t
     \<and> next_char s = next_char t \<and> ttype s = ttype t \<and> char_class s = char_class t \<and> cif_version s = cif_version t"
  by (simp add: pos_def)

lemma pos_inv: "pos s = pos t \<Longrightarrow> token_inv s = token_inv t"
  by (simp add: pos_iff token_inv_def begun_def sound_def METACLASS_OF_def CLASS_OF_def repl_char_def)

lemma pos_left: "pos s = pos t \<Longrightarrow> left_over s = left_over t"
  by (simp add: pos_iff left_over_def)

lemma pos_simps [simp]:
  "pos (s\<lparr>events := e\<rparr>) = pos s" "pos (s\<lparr>skip_depth := k\<rparr>) = pos s"
  "pos (s\<lparr>tvalue_start := i\<rparr>) = pos s" "pos (s\<lparr>tvalue_length := j\<rparr>) = pos s"
  "pos (snd (report_error s code col p len)) = pos s" "pos (report_ws s p len) = pos s"
  "pos (enter s) = pos s" "pos (leave s) = pos s" "pos (report_dataname s) = pos s" "pos (report_keyword s) = pos s"
  by (simp_all add: pos_iff report_error_eq report_ws_def enter_def leave_def report_dataname_def report_keyword_def)

lemma pos_report: "report_error s code col p len = (r, t) \<Longrightarrow> pos t = pos s"
  using pos_simps(5) [of s code col p len] by simp

lemma pos_report_token: "report_token s code = (r, t) \<Longrightarrow> pos t = pos s"
  by (simp add: report_token_def pos_report)

lemma pos_report_token0: "report_token0 s code = (r, t) \<Longrightarrow> pos t = pos s"
  by (simp add: report_token0_def pos_report)

text \<open>A token that is ready, and what is left after it.\<close>

definition ready :: "scanner \<Rightarrow> bool" where
  "ready s \<longleftrightarrow> token_inv s \<and> text_start s < next_char s"

definition used_up :: "scanner \<Rightarrow> scanner \<Rightarrow> bool" where
  "used_up s t \<longleftrightarrow> (left_over t, left_over s) \<in> less_than <*lex*> less_than"

lemma pos_ready: "pos s = pos t \<Longrightarrow> ready s = ready t"
  using pos_inv [of s t] by (auto simp: ready_def pos_iff)

lemma pos_used_up: "pos t = pos t' \<Longrightarrow> used_up s t = used_up s t'" "pos s = pos s' \<Longrightarrow> used_up s t = used_up s' t"
  by (auto simp: used_up_def dest: pos_left)

lemma pos_not_more: "pos t = pos t' \<Longrightarrow> not_more s t = not_more s t'" "pos s = pos s' \<Longrightarrow> not_more s t = not_more s' t"
  by (auto simp: not_more_def dest: pos_left)

lemma used_up_not_more: "used_up s t \<Longrightarrow> not_more s t"
  by (simp add: used_up_def not_more_def)

lemma used_up_then: "used_up s t \<Longrightarrow> not_more t u \<Longrightarrow> used_up s u"
  by (cases "left_over s"; cases "left_over t"; cases "left_over u") (auto simp: used_up_def not_more_def)

lemma then_used_up: "not_more s t \<Longrightarrow> used_up t u \<Longrightarrow> used_up s u"
  by (cases "left_over s"; cases "left_over t"; cases "left_over u") (auto simp: used_up_def not_more_def)

lemma not_more_refl [simp]: "not_more s s"
  by (simp add: not_more_def)

lemma consume_ready: "ready s \<Longrightarrow> token_inv (CONSUME_TOKEN s) \<and> used_up s (CONSUME_TOKEN s)"
  by (auto simp: ready_def token_inv_def CONSUME_TOKEN_def used_up_def left_over_def begun_def sound_def
      METACLASS_OF_def CLASS_OF_def repl_char_def)

lemma next_token_ready:
  "next_token s = (CIF_OK, t) \<Longrightarrow> token_inv s \<Longrightarrow> token_inv t \<and> not_more s t \<and> (ttype t = END \<or> ready t)"
  using next_token_progress [of s t] by (auto simp: ready_def token_inv_def)

lemma ready_next: "ready s \<Longrightarrow> next_token s = (CIF_OK, s)"
  by (simp add: ready_def next_token_def next_token_loop.simps [of _ s])

lemma push_back_ready: "ready s \<Longrightarrow> ttype s \<in> {KEY, TKEY} \<Longrightarrow>
   ready (push_back_colon s) \<and> left_over (push_back_colon s) = left_over s"
  by (auto simp: ready_def token_inv_def push_back_colon_def report_ws_def Let_def begun_def sound_def
      METACLASS_OF_def CLASS_OF_def repl_char_def left_over_def)

lemma expect_no_key_ready:
  assumes "expect_no_key s = (CIF_OK, t)" "token_inv s" "ttype s = END \<or> ready s"
  shows "token_inv t \<and> left_over t = left_over s \<and> (ttype t = END \<or> ready t)"
proof (cases "ttype s \<in> {KEY, TKEY}")
  case True
  obtain r u where r: "report_token s CIF_MISSING_SPACE = (r, u)" by fastforce
  note p = pos_report_token [OF r]
  have "ready u" "ttype u \<in> {KEY, TKEY}" using pos_ready [OF p] True assms(3) p by (auto simp: pos_iff)
  moreover have "t = push_back_colon u" using assms(1) r True by (auto simp: expect_no_key_def split: if_splits)
  ultimately show ?thesis using push_back_ready [of u] pos_left [OF p] by (auto simp: ready_def)
next
  case False
  then show ?thesis using assms by (simp add: expect_no_key_def)
qed

lemma expect_no_key_here_ready:
  assumes "expect_no_key_here s = (CIF_OK, t)" "token_inv s" "ttype s = END \<or> ready s"
  shows "token_inv t \<and> left_over t = left_over s \<and> (ttype t = END \<or> ready t)"
proof (cases "ttype s \<in> {KEY, TKEY}")
  case True
  obtain r u where r: "report_error s CIF_MISSING_SPACE (column s - 1) (next_char s - 1) 0 = (r, u)" by fastforce
  note p = pos_report [OF r]
  have "ready u" "ttype u \<in> {KEY, TKEY}" using pos_ready [OF p] True assms(3) p by (auto simp: pos_iff)
  moreover have "t = push_back_colon u" using assms(1) r True by (auto simp: expect_no_key_here_def split: if_splits)
  ultimately show ?thesis using push_back_ready [of u] pos_left [OF p] by (auto simp: ready_def)
next
  case False
  then show ?thesis using assms by (simp add: expect_no_key_here_def)
qed

section \<open>Keys and values\<close>

lemma trim_ready:
  assumes "ready s" "0 < n" "ttype s \<notin> {KEY, TKEY}"
  shows "ready (TRIM_TOKEN s n) \<and> left_over (TRIM_TOKEN s n) = left_over s"
    "2 \<le> n \<Longrightarrow> ready ((TRIM_TOKEN s n)\<lparr>tvalue_length := k, ttype := KEY\<rparr>)"
  using assms
  by (auto simp: ready_def token_inv_def TRIM_TOKEN_def begun_def sound_def METACLASS_OF_def CLASS_OF_def
      repl_char_def left_over_def)

lemma split_key_ready:
  "split_key s i = (CIF_OK, t) \<Longrightarrow> ready s \<Longrightarrow> ttype s \<notin> {KEY, TKEY} \<Longrightarrow> 0 < i \<Longrightarrow>
   ready t \<and> left_over t = left_over s"
proof (induction s i rule: split_key.induct)
  case (1 s i)
  show ?case
  proof (cases "int i < tvalue_length s \<and> buffer s ! (tvalue_start s + i) = UCHAR_COLON")
    case True
    obtain r u where r: "report_token s CIF_UNQUOTED_KEY = (r, u)" by fastforce
    note p = pos_report_token [OF r]
    have u: "ready u" "ttype u \<notin> {KEY, TKEY}" "left_over u = left_over s"
      using pos_ready [OF p] pos_left [OF p] p 1(3,4) by (auto simp: pos_iff)
    have "t = (TRIM_TOKEN u (i + 1))\<lparr>tvalue_length := int i, ttype := KEY\<rparr>"
      using 1(2) True r by (auto simp: split_key.simps [of s i] split: if_splits)
    then show ?thesis
      using trim_ready [OF u(1) _ u(2), of "i + 1"] 1(5) u(3) by (simp add: left_over_def)
  next
    case False
    then show ?thesis
      using 1 by (cases "int i < tvalue_length s") (auto simp: split_key.simps [of s i])
  qed
qed

text \<open>What a key's token leads to, when a token is ready or the input has ended.\<close>

lemma parse_key_progress:
  assumes s: "token_inv s" "ttype s = END \<or> ready s"
  shows "parse_key s = KeyFound k t \<Longrightarrow> token_inv t \<and> used_up s t"
    and "parse_key s = NextEntry t \<Longrightarrow> token_inv t \<and> used_up s t"
    and "parse_key s = DropValue t \<Longrightarrow> ready t \<and> left_over t = left_over s"
    and "parse_key s = TableEnd CIF_OK t \<Longrightarrow> token_inv t \<and> not_more s t"
proof -
  have report: "pos u = pos s \<and> token_inv u \<and> left_over u = left_over s \<and> (ttype s \<noteq> END \<longrightarrow> ready u) \<and> ttype u = ttype s"
    if "report_token s code = (r, u) \<or> report_token0 s code = (r, u)" for code r u
  proof -
    have p: "pos u = pos s" using that pos_report_token pos_report_token0 by blast
    then show ?thesis using s pos_inv [OF p] pos_left [OF p] pos_ready [OF p] by (auto simp: pos_iff)
  qed
  have consume: "token_inv (CONSUME_TOKEN u) \<and> used_up s (CONSUME_TOKEN u)"
    if "ready u" "left_over u = left_over s" for u
    using consume_ready [OF that(1)] that(2) by (simp add: used_up_def)
  have coloned: "ready u \<and> left_over u = left_over s" if "split_key s 1 = (CIF_OK, u)" "ttype s = VALUE" for u
    using split_key_ready [OF that(1)] s(2) that(2) by auto
  have again: "ready v \<and> left_over v = left_over u" if "report_token u code = (r, v)" "ready u" for u code r v
    using pos_ready [OF pos_report_token [OF that(1)]] pos_left [OF pos_report_token [OF that(1)]] that(2) by simp
  { assume k: "parse_key s = KeyFound k t"
    consider (null) u where "ttype s = VALUE" "report_token s CIF_NULL_KEY = (CIF_OK, u)"
        "t = CONSUME_TOKEN (if tvalue_length u > 1 then TRIM_TOKEN u 1 else u)"
      | (split) u where "ttype s = VALUE" "split_key s 1 = (CIF_OK, u)" "t = CONSUME_TOKEN u"
      | (key) "ttype s = KEY" "t = CONSUME_TOKEN s"
      | (field) u where "ttype s = TKEY" "report_token s CIF_MISQUOTED_KEY = (CIF_OK, u)" "t = CONSUME_TOKEN u"
      using k by (auto simp: parse_key_def key_token_def split: if_splits prod.splits option.splits)
    then show "token_inv t \<and> used_up s t"
    proof cases
      case (null u)
      note u = report [of CIF_NULL_KEY CIF_OK u]
      then have "ready u" "left_over u = left_over s" "ttype u = VALUE" using null(1,2) by auto
      then show ?thesis using trim_ready(1) [of u 1] consume null(3) by auto
    next
      case (split u)
      then show ?thesis using coloned [of u] consume by simp
    next
      case key
      then show ?thesis using s(2) consume by simp
    next
      case (field u)
      then show ?thesis using report [of CIF_MISQUOTED_KEY CIF_OK u] consume by auto
    qed }
  { assume k: "parse_key s = NextEntry t"
    then obtain u v where "ttype s = VALUE" "split_key s 1 = (CIF_OK, u)" "report_token u CIF_MISSING_KEY = (CIF_OK, v)"
      "t = CONSUME_TOKEN v"
      by (auto simp: parse_key_def key_token_def split: if_splits prod.splits option.splits)
    then show "token_inv t \<and> used_up s t" using coloned [of u] again [of u CIF_MISSING_KEY CIF_OK v] consume [of v] by simp }
  { assume k: "parse_key s = DropValue t"
    then show "ready t \<and> left_over t = left_over s"
      using report [of CIF_MISSING_KEY CIF_OK t]
      by (auto simp: parse_key_def key_token_def split: if_splits prod.splits option.splits) }
  { assume k: "parse_key s = TableEnd CIF_OK t"
    consider (close) "ttype s = CTABLE" "t = CONSUME_TOKEN s" | (other) "report_token0 s CIF_MISSING_DELIM = (CIF_OK, t)"
      using k by (auto simp: parse_key_def key_token_def split: if_splits prod.splits option.splits)
    then show "token_inv t \<and> not_more s t"
    proof cases
      case close
      then show ?thesis using s(2) consume used_up_not_more by auto
    next
      case other
      then show ?thesis using report [of CIF_MISSING_DELIM CIF_OK t] by (auto simp: not_more_def)
    qed }
qed

text \<open>What a production for values leaves when it ends well.\<close>

definition value_ok :: "scanner \<Rightarrow> int \<times> 'v \<times> scanner \<Rightarrow> bool" where
  "value_ok s x \<longleftrightarrow> fst x = CIF_OK \<longrightarrow> token_inv (snd (snd x)) \<and> used_up s (snd (snd x))"

definition list_ok :: "scanner \<Rightarrow> int \<times> 'v \<times> scanner \<Rightarrow> bool" where
  "list_ok s x \<longleftrightarrow> fst x = CIF_OK \<longrightarrow> token_inv (snd (snd x)) \<and> not_more s (snd (snd x))"

lemma returns_triple:
  assumes "returns f (Q s)" "\<And>r v t. Q s (r, v, t) \<Longrightarrow> returns (\<lambda>n. g n r v t) P"
  shows "returns (\<lambda>n. case f n of None \<Rightarrow> None | Some (r, v, t) \<Rightarrow> g n r v t) P"
  using returns_bind [OF assms(1), of "\<lambda>n x. case x of (r, v, t) \<Rightarrow> g n r v t"] assms(2) by force

lemma simple_values:
  assumes "ready s"
  shows "value_ok s (parse_text_value s)" "value_ok s (parse_quoted s)" "value_ok s (parse_bare s)"
proof -
  have consume: "token_inv (CONSUME_TOKEN u) \<and> used_up s (CONSUME_TOKEN u)" if "pos u = pos s" for u
    using consume_ready [of u] pos_ready [OF that] pos_left [OF that] assms by (simp add: used_up_def)
  show "value_ok s (parse_text_value s)" "value_ok s (parse_quoted s)"
    using consume [of s] by (auto simp: value_ok_def parse_text_value_def parse_quoted_def split: prod.splits)
  show "value_ok s (parse_bare s)"
    using consume by (auto simp: value_ok_def parse_bare_def split: prod.splits if_splits dest!: pos_report)
qed

lemma value_step:
  assumes s: "token_inv s"
    and lists: "\<And>t list i. used_up s t \<Longrightarrow> token_inv t \<Longrightarrow> returns (\<lambda>n. parse_list n I list i t) (list_ok t)"
    and tbls: "\<And>t tbl. used_up s t \<Longrightarrow> token_inv t \<Longrightarrow> returns (\<lambda>n. parse_table n I tbl t) (list_ok t)"
  shows "returns (\<lambda>n. parse_value n I s) (value_ok s)"
proof (rule returns_Suc)
  obtain r t where t: "next_token s = (r, t)" by fastforce
  show "returns (\<lambda>n. parse_value (Suc n) I s) (value_ok s)"
  proof (cases "r = CIF_OK")
    case False
    then show ?thesis by (auto simp: t value_ok_def intro!: returns_Some)
  next
    case True
    have nt: "token_inv t" "not_more s t" "ttype t = END \<or> ready t"
      using next_token_ready [of s t] t True s by auto
    have consume: "token_inv (CONSUME_TOKEN t)" "used_up s (CONSUME_TOKEN t)" if "ttype t \<noteq> END"
      using consume_ready [of t] nt that then_used_up by auto
    have list_value: "list_ok (CONSUME_TOKEN t) x \<Longrightarrow> value_ok s x" if "ttype t \<noteq> END" for x :: "int \<times> cif_value \<times> scanner"
      using consume(2) [OF that] used_up_then by (auto simp: list_ok_def value_ok_def)
    have simple: "value_ok t x \<Longrightarrow> value_ok s x" for x :: "int \<times> cif_value \<times> scanner"
      using nt(2) then_used_up by (auto simp: value_ok_def)
    have "returns (\<lambda>n. parse_list n I (ListValue []) 0 (CONSUME_TOKEN t)) (value_ok s)" if "ttype t = OLIST"
      by (rule returns_mono [OF lists]) (use consume list_value that in auto)
    moreover have "returns (\<lambda>n. parse_table n I (TableValue []) (CONSUME_TOKEN t)) (value_ok s)" if "ttype t = OTABLE"
      by (rule returns_mono [OF tbls]) (use consume list_value that in auto)
    ultimately show ?thesis
      using nt(3) simple_values [of t] simple True
      by (cases "ttype t") (auto simp: t value_ok_def intro!: returns_Some)
  qed
qed

lemma list_step:
  assumes s: "token_inv s"
    and vals: "\<And>t. not_more s t \<Longrightarrow> token_inv t \<Longrightarrow> returns (\<lambda>n. parse_value n I t) (value_ok t)"
    and lists: "\<And>t list i. used_up s t \<Longrightarrow> token_inv t \<Longrightarrow> returns (\<lambda>n. parse_list n I list i t) (list_ok t)"
  shows "returns (\<lambda>n. parse_list n I list i s) (list_ok s)"
proof (rule returns_Suc)
  obtain r t where t: "next_token s = (r, t)" by fastforce
  obtain r' u where u: "expect_no_key t = (r', u)" by fastforce
  show "returns (\<lambda>n. parse_list (Suc n) I list i s) (list_ok s)"
  proof (cases "r = CIF_OK \<and> r' = CIF_OK")
    case False
    then show ?thesis by (cases "r = CIF_OK") (auto simp: t u list_ok_def intro!: returns_Some)
  next
    case True
    then have nt: "token_inv t" "not_more s t" "ttype t = END \<or> ready t"
      using next_token_ready [of s t] t s by auto
    have nu: "token_inv u" "not_more s u" "ttype u = END \<or> ready u"
      using expect_no_key_ready [of t u] u nt True by (auto simp: not_more_def)
    have element: "returns (\<lambda>n. case parse_value n I u of
          None \<Rightarrow> None
        | Some (result, v, s) \<Rightarrow>
            if result \<noteq> CIF_OK then Some (result, l, s)
            else parse_list n I (set_element l i v) (i + 1) s) (list_ok s)" for l
    proof (rule returns_triple [where Q = value_ok, OF vals])
      fix r v x
      assume x: "value_ok u (r, v :: cif_value, x)"
      show "returns (\<lambda>n. if r \<noteq> CIF_OK then Some (r, l, x) else parse_list n I (set_element l i v) (i + 1) x) (list_ok s)"
      proof (cases "r = CIF_OK")
        case ok: True
        then have sx: "used_up s x" "token_inv x" using x nu(2) then_used_up by (auto simp: value_ok_def)
        have "list_ok x y \<Longrightarrow> list_ok s y" for y :: "int \<times> cif_value \<times> scanner"
          using sx(1) used_up_then used_up_not_more by (auto simp: list_ok_def)
        then show ?thesis using returns_mono [OF lists [OF sx]] ok by simp
      next
        case False
        then show ?thesis by (auto simp: list_ok_def intro!: returns_Some)
      qed
    qed (use nu in auto)
    have close: "list_ok s (CIF_OK, list, CONSUME_TOKEN u)" if "ttype u = CLIST"
      using consume_ready [of u] nu that then_used_up used_up_not_more by (auto simp: list_ok_def)
    have ended: "list_ok s (k, list, x)" if "report_token u CIF_MISSING_DELIM = (k, x)" for k x
      using pos_inv [OF pos_report_token [OF that]] pos_left [OF pos_report_token [OF that]] nu
      by (simp add: list_ok_def not_more_def)
    obtain ra l where l: "append_element list i = (ra, l)" by fastforce
    obtain k x where k: "report_token u CIF_MISSING_DELIM = (k, x)" by fastforce
    show ?thesis
    proof (cases "starts_value (ttype u)")
      case val: True
      then show ?thesis
        using True element [of l] by (cases "ra = CIF_OK") (auto simp: t u l list_ok_def intro!: returns_Some)
    next
      case False
      then show ?thesis
        using True close ended [OF k] by (cases "ttype u = CLIST") (simp_all add: t u k returns_Some)
    qed
  qed
qed

lemma table_step:
  assumes s: "token_inv s"
    and vals: "\<And>t. not_more s t \<Longrightarrow> token_inv t \<Longrightarrow> returns (\<lambda>n. parse_value n I t) (value_ok t)"
    and tbls: "\<And>t tbl. used_up s t \<Longrightarrow> token_inv t \<Longrightarrow> returns (\<lambda>n. parse_table n I tbl t) (list_ok t)"
  shows "returns (\<lambda>n. parse_table n I tbl s) (list_ok s)"
proof (rule returns_Suc)
  obtain r t where t: "next_token s = (r, t)" by fastforce
  have rest: "returns (\<lambda>n. parse_table n I l x) (list_ok s)" if "used_up s x" "token_inv x" for l x
  proof -
    have "list_ok x y \<Longrightarrow> list_ok s y" for y :: "int \<times> cif_value \<times> scanner"
      using that(1) used_up_then used_up_not_more by (auto simp: list_ok_def)
    then show ?thesis using returns_mono [OF tbls [OF that]] by simp
  qed
  have after: "returns (\<lambda>n. case parse_value n I u of
          None \<Rightarrow> None
        | Some (result, v, x) \<Rightarrow> if result \<noteq> CIF_OK then Some (result, l, x) else parse_table n I (h v) x) (list_ok s)"
    if "not_more s u" "token_inv u" for u l h
  proof (rule returns_triple [where Q = value_ok, OF vals [OF that]])
    fix k v x
    assume x: "value_ok u (k, v :: cif_value, x)"
    show "returns (\<lambda>n. if k \<noteq> CIF_OK then Some (k, l, x) else parse_table n I (h v) x) (list_ok s)"
    proof (cases "k = CIF_OK")
      case ok: True
      then have "used_up s x" "token_inv x" using x that(1) then_used_up by (auto simp: value_ok_def)
      then show ?thesis using rest ok by simp
    next
      case False
      then show ?thesis by (auto simp: list_ok_def intro!: returns_Some)
    qed
  qed
  show "returns (\<lambda>n. parse_table (Suc n) I tbl s) (list_ok s)"
  proof (cases "r = CIF_OK")
    case False
    then show ?thesis by (auto simp: t list_ok_def intro!: returns_Some)
  next
    case True
    then have nt: "token_inv t" "not_more s t" "ttype t = END \<or> ready t"
      using next_token_ready [of s t] t s by auto
    note key = parse_key_progress [OF nt(1,3)]
    show ?thesis
    proof (cases "parse_key t")
      case (TableEnd k u)
      have "list_ok s (k, tbl, u)"
        using key(4) [of u] TableEnd nt(2) not_more_trans by (auto simp: list_ok_def)
      then show ?thesis using True TableEnd by (simp add: t returns_Some)
    next
      case (NextEntry u)
      then show ?thesis using True key(2) [of u] nt(2) rest then_used_up by (simp add: t)
    next
      case (DropValue u)
      have "not_more s u" "token_inv u"
        using key(3) [OF DropValue] nt(2) by (auto simp: not_more_def ready_def)
      then show ?thesis using after [of u tbl "\<lambda>v. tbl"] True DropValue by (simp add: t)
    next
      case (KeyFound k u)
      have u: "token_inv u" "used_up s u" using key(1) [OF KeyFound] nt(2) then_used_up by auto
      obtain r1 l where l: "add_key I tbl k = (r1, l)" by fastforce
      obtain r2 v where v: "next_token u = (r2, v)" by fastforce
      obtain r3 x where x: "report_token v CIF_MISSING_VALUE = (r3, x)" by fastforce
      show ?thesis
      proof (cases "r1 = CIF_OK \<and> r2 = CIF_OK")
        case False
        then show ?thesis using True KeyFound l v
          by (cases "r1 = CIF_OK") (auto simp: t list_ok_def intro!: returns_Some)
      next
        case ok: True
        then have nv: "token_inv v" "used_up s v"
          using next_token_ready [of u v] v u used_up_then by auto
        have nx: "token_inv x" "used_up s x"
          using nv pos_inv [OF pos_report_token [OF x]] pos_left [OF pos_report_token [OF x]] by (simp_all add: used_up_def)
        show ?thesis
        proof (cases "starts_value (ttype v)")
          case val: True
          then show ?thesis
            using after [of v l "\<lambda>y. case k of None \<Rightarrow> l | Some c \<Rightarrow> set_entry I l c y"] True KeyFound l v ok nv used_up_not_more
            by (simp add: t)
        next
          case no: False
          then show ?thesis
            using rest [OF nx(2,1), of l] True KeyFound l v ok x
            by (cases "r3 = CIF_OK") (auto simp: t list_ok_def intro!: returns_Some)
        qed
      qed
    qed
  qed
qed

text \<open>Values, lists and tables, by induction on what is left to read.\<close>

lemma values_return_aux:
  "(\<forall>s. left_over s = m \<longrightarrow> token_inv s \<longrightarrow> returns (\<lambda>n. parse_value n I s) (value_ok s))
   \<and> (\<forall>s list i. left_over s = m \<longrightarrow> token_inv s \<longrightarrow> returns (\<lambda>n. parse_list n I list i s) (list_ok s))
   \<and> (\<forall>s tbl. left_over s = m \<longrightarrow> token_inv s \<longrightarrow> returns (\<lambda>n. parse_table n I tbl s) (list_ok s))"
proof (induction m rule: wf_induct_rule [OF wf_lex_prod [OF wf_less_than wf_less_than]])
  case (1 m)
  have lists: "returns (\<lambda>n. parse_list n I list i t) (list_ok t)"
    if "left_over s = m" "used_up s t" "token_inv t" for s t list i
    using 1 [of "left_over t"] that unfolding used_up_def by blast
  have tbls: "returns (\<lambda>n. parse_table n I tbl t) (list_ok t)"
    if "left_over s = m" "used_up s t" "token_inv t" for s t tbl
    using 1 [of "left_over t"] that unfolding used_up_def by blast
  have here: "returns (\<lambda>n. parse_value n I s) (value_ok s)" if "left_over s = m" "token_inv s" for s
    by (rule value_step [OF that(2) lists [OF that(1)] tbls [OF that(1)]])
  have vals: "returns (\<lambda>n. parse_value n I t) (value_ok t)"
    if "left_over s = m" "not_more s t" "token_inv t" for s t
    using 1 [of "left_over t"] here [of t] that unfolding not_more_def by blast
  have "returns (\<lambda>n. parse_list n I list i s) (list_ok s)" if "left_over s = m" "token_inv s" for s list i
    by (rule list_step [OF that(2) vals [OF that(1)] lists [OF that(1)]])
  moreover have "returns (\<lambda>n. parse_table n I tbl s) (list_ok s)" if "left_over s = m" "token_inv s" for s tbl
    by (rule table_step [OF that(2) vals [OF that(1)] tbls [OF that(1)]])
  ultimately show ?case using here by blast
qed

lemma value_returns: "token_inv s \<Longrightarrow> returns (\<lambda>n. parse_value n I s) (value_ok s)"
  using values_return_aux by blast

section \<open>Items and loops\<close>

text \<open>
  A production on the state of a parse: if it ends well, the scanner is between tokens; \<open>strict\<close>
  says whether it has used up a token.
\<close>

definition item_ok :: "bool \<Rightarrow> scanner \<Rightarrow> int \<times> 'c pstate \<Rightarrow> bool" where
  "item_ok strict s x \<longleftrightarrow> fst x = CIF_OK \<longrightarrow>
     token_inv (fst (snd x)) \<and> (if strict then used_up s (fst (snd x)) else not_more s (fst (snd x)))"

lemma item_ok_error: "r \<noteq> CIF_OK \<Longrightarrow> item_ok b s (r, w)"
  by (simp add: item_ok_def)

lemma item_ok_pos: "pos t = pos (fst w) \<Longrightarrow> token_inv (fst w) \<Longrightarrow>
    (if b then used_up s (fst w) else not_more s (fst w)) \<Longrightarrow> item_ok b s (r, t, x)"
  using pos_inv [of t "fst w"] pos_used_up(1) [of t "fst w" s] pos_not_more(1) [of t "fst w" s]
  by (auto simp: item_ok_def)

lemma item_ok_after: "item_ok b t x \<Longrightarrow> not_more s t \<Longrightarrow> item_ok b s x"
  by (cases b) (auto simp: item_ok_def intro: not_more_trans then_used_up)

lemma item_ok_strict: "used_up s t \<Longrightarrow> item_ok b t x \<Longrightarrow> item_ok True s x"
  by (cases b) (auto simp: item_ok_def intro: used_up_then used_up_not_more)

lemma item_ok_weak: "item_ok True s x \<Longrightarrow> item_ok b s x"
  by (cases b) (auto simp: item_ok_def intro: used_up_not_more)

lemma call_fst:
  "fst (snd (call0 h w)) = fst w" "fst (snd (call1 h' a w)) = fst w" "fst (snd (call_item H name v w)) = fst w"
  "fst (snd (snd (call_loop_start H l w))) = fst w" "fst (snd (on_db f w)) = fst w"
  by (cases w; auto simp: call0_def call1_def call_item_def call_loop_start_def on_db_def split: prod.splits option.splits)+

lemma call_fstD:
  "call0 h w = (r, w') \<Longrightarrow> fst w' = fst w" "call1 h' a w = (r, w') \<Longrightarrow> fst w' = fst w"
  "call_item H name v w = (r, w') \<Longrightarrow> fst w' = fst w" "call_loop_start H l w = (r, c, w') \<Longrightarrow> fst w' = fst w"
  "on_db f w = (k, w') \<Longrightarrow> fst w' = fst w"
  using call_fst(1) [of h w] call_fst(2) [of h' a w] call_fst(3) [of H name v w] call_fst(4) [of H l w] call_fst(5) [of f w]
  by simp_all

lemma upd_fst [simp]: "fst (upd f w) = f (fst w)"
  by (cases w) (simp add: upd_def)

lemma upd_pair: "upd f w = (s, x) \<Longrightarrow> s = f (fst w)"
  by (cases w) (simp add: upd_def)

lemma scan_fst: "scan f w = (r, w') \<Longrightarrow> f (fst w) = (r, fst w')"
  by (cases w) (auto simp: scan_def split: prod.splits)

lemma pos_skip [simp]: "pos (skip_depth_update g s) = pos s"
  by (simp add: pos_iff)

lemma record_item_pos: "record_item E c name v w = (r, w') \<Longrightarrow> pos (fst w') = pos (fst w)"
  by (auto simp: record_item_def split: prod.splits option.splits if_splits dest!: call_fstD)

lemma packet_pos:
  "packet_start E w = (b, w') \<Longrightarrow> pos (fst w') = pos (fst w)"
  "packet_end E l p w = (r, w') \<Longrightarrow> pos (fst w') = pos (fst w)"
  "packet_value E l cols i v p w = (r, p', w') \<Longrightarrow> pos (fst w') = pos (fst w)"
proof -
  show "packet_start E w = (b, w') \<Longrightarrow> pos (fst w') = pos (fst w)"
    by (auto simp: packet_start_def split: prod.splits if_splits dest!: call_fstD)
  show 1: "packet_end E l p w = (r, w') \<Longrightarrow> pos (fst w') = pos (fst w)" for p w r w'
    by (auto simp: packet_end_def split: prod.splits if_splits option.splits dest!: call_fstD)
  show "packet_value E l cols i v p w = (r, p', w') \<Longrightarrow> pos (fst w') = pos (fst w)"
    by (auto simp: packet_value_def Let_def split: prod.splits if_splits dest!: call_fstD 1)
qed

lemma loop_pos:
  "loop_start E c names w = (b, r, l, w') \<Longrightarrow> pos (fst w') = pos (fst w)"
  "loop_end E l r w = (r', w') \<Longrightarrow> pos (fst w') = pos (fst w)"
  "container_start E c b w = (r', w') \<Longrightarrow> pos (fst w') = pos (fst w)"
  "container_end E c b r w = (r', w') \<Longrightarrow> pos (fst w') = pos (fst w)"
  by (auto simp: loop_start_def loop_end_def container_start_def container_end_def Let_def
      split: prod.splits if_splits option.splits sum.splits dest!: call_fstD upd_pair)

text \<open>The next token on the state of a parse.\<close>

lemma scan_next:
  assumes "scan next_token w = (CIF_OK, w')" "token_inv (fst w)"
  shows "token_inv (fst w') \<and> not_more (fst w) (fst w') \<and> (ttype (fst w') = END \<or> ready (fst w'))"
  using next_token_ready [OF scan_fst [OF assms(1)] assms(2)] .

lemma scan_next_ready: "ready (fst w) \<Longrightarrow> scan next_token w = (CIF_OK, w)"
  by (cases w) (simp add: scan_def ready_next)

definition item_post :: "scanner \<Rightarrow> int \<times> 'c pstate \<Rightarrow> bool" where
  "item_post s x \<longleftrightarrow> item_ok False s x
     \<and> (ready s \<and> (starts_value (ttype s) \<or> ttype s \<in> {KEY, TKEY}) \<longrightarrow> item_ok True s x)"

lemma item_returns:
  assumes inv: "token_inv (fst w)"
  shows "returns (\<lambda>n. parse_item n E c name w) (item_post (fst w))"
proof -
  obtain r w1 where 1: "scan next_token w = (r, w1)" by (cases "scan next_token w")
  obtain r2 s2 x2 where 2: "scan expect_no_key_here (upd enter w1) = (r2, s2, x2)" using prod_cases3 by metis
  have fail: "item_post (fst w) (k, w')" if "k \<noteq> CIF_OK" for k w'
    using that by (simp add: item_post_def item_ok_def)
  show ?thesis
  proof (cases "r = CIF_OK")
    case False
    from returns_Some [where P = "item_post (fst w)", OF fail [OF this]] show ?thesis
      using 1 False by (simp add: parse_item_def)
  next
    case ok1: True
    note n1 = scan_next [OF 1 [unfolded ok1] inv]
    define Q where "Q = (\<lambda>(s :: scanner) (x :: int \<times> cif_value \<times> scanner). fst x = CIF_OK \<longrightarrow>
      token_inv (snd (snd x)) \<and> not_more (fst w) (snd (snd x))
      \<and> (ready (fst w) \<and> (starts_value (ttype (fst w)) \<or> ttype (fst w) \<in> {KEY, TKEY}) \<longrightarrow> used_up (fst w) (snd (snd x))))"
    have core: "returns (\<lambda>n. if r2 \<noteq> CIF_OK then Some (r2, UnkValue, s2)
        else if starts_value (ttype s2) then parse_value n (env_icu E) s2
        else (case report_token s2 CIF_MISSING_VALUE of (r, s) \<Rightarrow> Some (r, cif_value_create CIF_UNK_KIND, s))) (Q s2)"
    proof (cases "r2 = CIF_OK")
      case False
      then show ?thesis by (simp add: returns_Some Q_def)
    next
      case ok2: True
      have p: "pos (enter (fst w1)) = pos (fst w1)" "ttype (enter (fst w1)) = ttype (fst w1)"
        by (simp_all add: enter_def)
      have n2: "token_inv s2" "left_over s2 = left_over (fst w1)"
        using expect_no_key_here_ready [of "enter (fst w1)" s2] scan_fst [OF 2] ok2 n1 pos_inv [OF p(1)]
          pos_ready [OF p(1)] pos_left [OF p(1)] p(2) by auto
      then have le: "not_more (fst w) s2" using n1 by (auto simp: not_more_def)
      show ?thesis
      proof (cases "starts_value (ttype s2)")
        case True
        then show ?thesis
          using returns_mono [OF value_returns [OF n2(1), of "env_icu E"], of "Q s2"] le then_used_up [OF le] used_up_not_more ok2
          by (simp add: Q_def value_ok_def)
      next
        case no: False
        have "\<not> (ready (fst w) \<and> (starts_value (ttype (fst w)) \<or> ttype (fst w) \<in> {KEY, TKEY}))"
        proof
          assume a: "ready (fst w) \<and> (starts_value (ttype (fst w)) \<or> ttype (fst w) \<in> {KEY, TKEY})"
          then have w1: "w1 = w" using 1 scan_next_ready [of w] by simp
          have "starts_value (ttype s2)"
            using scan_fst [OF 2] ok2 a
            by (auto simp: w1 expect_no_key_here_def push_back_colon_def report_ws_def Let_def starts_value_def enter_def
                split: prod.splits if_splits)
          then show False using no by simp
        qed
        moreover obtain k s3 where k: "report_token s2 CIF_MISSING_VALUE = (k, s3)" by fastforce
        ultimately have "Q s2 (k, cif_value_create CIF_UNK_KIND, s3)"
          using n2(1) le pos_inv [OF pos_report_token [OF k]] pos_left [OF pos_report_token [OF k]]
          by (auto simp: Q_def not_more_def)
        then show ?thesis using no ok2 k by (simp add: returns_Some)
      qed
    qed
    show ?thesis
      unfolding parse_item_def 1 2 prod.case
    proof (simp only: ok1 not_True_eq_False simp_thms if_False, rule returns_triple [where Q = Q and s = s2, OF core])
      fix k v s
      assume q: "Q s2 (k, v, s)"
      obtain k2 w2 where k2: "(if k = CIF_OK then record_item E c name v (s, x2) else (k, s, x2)) = (k2, w2)"
        by (cases "if k = CIF_OK then record_item E c name v (s, x2) else (k, s, x2)")
      have "item_post (fst w) (k2, upd leave w2)"
      proof (cases "k2 = CIF_OK")
        case False
        then show ?thesis by (rule fail)
      next
        case True
        have k: "k = CIF_OK" using k2 True by (auto split: if_splits)
        have "pos (fst w2) = pos s" using k2 k record_item_pos [of E c name v "(s, x2)" k2 w2] by simp
        then have p: "pos (leave (fst w2)) = pos s" by simp
        show ?thesis
          using q k pos_inv [OF p] pos_not_more(1) [OF p] pos_used_up(1) [OF p] by (simp add: Q_def item_post_def item_ok_def)
      qed
      then show "returns (\<lambda>n. case (if k = CIF_OK then record_item E c name v (s, x2) else (k, s, x2)) of
          (result, w) \<Rightarrow> Some (result, upd leave w)) (item_post (fst w))"
        using k2 by (simp add: returns_Some)
    qed
  qed
qed

lemmas left_over_induct = wf_induct_rule [OF wf_lex_prod [OF wf_less_than wf_less_than]]

definition header_ok :: "scanner \<Rightarrow> int \<times> ustring option list \<times> 'c pstate \<Rightarrow> bool" where
  "header_ok s x \<longleftrightarrow> (fst x = CIF_OK \<longrightarrow> token_inv (fst (snd (snd x))) \<and> not_more s (fst (snd (snd x))))"

lemma header_returns:
  "token_inv (fst w) \<Longrightarrow> returns (\<lambda>n. parse_loop_header n E c w) (header_ok (fst w))"
proof (induction "left_over (fst w)" arbitrary: w rule: left_over_induct)
  case 1
  note IH = 1(1) and inv = 1(2)
  show ?case
  proof (rule returns_Suc)
    obtain r s x where 1: "scan next_token w = (r, s, x)" using prod_cases3 by metis
    show "returns (\<lambda>n. parse_loop_header (Suc n) E c w) (header_ok (fst w))"
    proof (cases "r = CIF_OK \<and> ttype s = NAME")
      case False
      have "header_ok (fst w) (r, [], s, x)"
        using scan_next [of w "(s, x)"] 1 inv by (auto simp: header_ok_def)
      then show ?thesis using 1 False by (auto simp: returns_Some)
    next
      case True
      have n1: "token_inv s" "not_more (fst w) s" "ready s"
        using scan_next [of w "(s, x)"] 1 inv True by auto
      define s1 where "s1 = (if skip_depth s \<le> 0 then report_dataname s else s)"
      define found where "found = (case c of None \<Rightarrow> CIF_NOSUCH_ITEM
        | Some c \<Rightarrow> (case cif_container_get_item_loop (env_icu E) (Some c) (Some (token_string s1)) (snd x) of
             Inl e \<Rightarrow> e | Inr _ \<Rightarrow> CIF_OK))"
      obtain k s2 where k: "(if found = CIF_OK then report_token s1 CIF_DUP_ITEMNAME
          else if found = CIF_NOSUCH_ITEM then (CIF_OK, s1) else (found, s1)) = (k, s2)" by fastforce
      have "pos s1 = pos s" by (simp add: s1_def)
      then have p: "pos s2 = pos s" using k pos_report_token [of s1 CIF_DUP_ITEMNAME k s2] by (auto split: if_splits)
      have s2: "token_inv (CONSUME_TOKEN s2)" "used_up (fst w) (CONSUME_TOKEN s2)"
        using consume_ready [of s2] n1 pos_ready [OF p] pos_used_up(2) [OF p] then_used_up by auto
      have step: "parse_loop_header (Suc n) E c w =
          (if k \<noteq> CIF_OK then Some (k, [], s2, x)
           else (case parse_loop_header n E c (CONSUME_TOKEN s2, x) of
                   None \<Rightarrow> None
                 | Some (result, names, w) \<Rightarrow> Some (result, (if found = CIF_OK then None else Some (token_string s1)) # names, w)))" for n
        unfolding parse_loop_header.simps 1 prod.case Let_def s1_def [symmetric] found_def [symmetric] k
        by (simp only: True [THEN conjunct1] True [THEN conjunct2] simp_thms if_False not_True_eq_False)
      show ?thesis
      proof (cases "k = CIF_OK")
        case False
        then show ?thesis unfolding step by (simp add: returns_Some header_ok_def)
      next
        case ok: True
        have rec: "returns (\<lambda>n. parse_loop_header n E c (CONSUME_TOKEN s2, x)) (header_ok (CONSUME_TOKEN s2))"
          using IH [of "(CONSUME_TOKEN s2, x)"] s2 by (simp add: used_up_def)
        have "returns (\<lambda>n. case parse_loop_header n E c (CONSUME_TOKEN s2, x) of
            None \<Rightarrow> None
          | Some (result, names, w) \<Rightarrow> Some (result, (if found = CIF_OK then None else Some (token_string s1)) # names, w))
          (header_ok (fst w))"
        proof (rule returns_triple [where Q = header_ok, OF rec])
          fix r v t
          assume "header_ok (CONSUME_TOKEN s2) (r, v, t :: 'c pstate)"
          then have "header_ok (fst w) (r, (if found = CIF_OK then None else Some (token_string s1)) # v, t)"
            using used_up_not_more [OF used_up_then [OF s2(2)]] by (auto simp: header_ok_def)
          then show "returns (\<lambda>n. Some (r, (if found = CIF_OK then None else Some (token_string s1)) # v, t)) (header_ok (fst w))"
            by (rule returns_Some)
        qed
        then show ?thesis unfolding step using ok by simp
      qed
    qed
  qed
qed

lemma packets_return:
  "token_inv (fst w) \<Longrightarrow> returns (\<lambda>n. parse_packets n E l names cols i have_packets p w) (item_ok False (fst w))"
proof (induction "left_over (fst w)" arbitrary: w i have_packets p rule: left_over_induct)
  case 1
  note IH = 1(1) and inv = 1(2)
  have rec: "returns (\<lambda>n. parse_packets n E l names cols i have_packets p w') (item_ok False (fst w))"
    if "token_inv (fst w')" "used_up (fst w) (fst w')" for w' i have_packets p
  proof -
    have "returns (\<lambda>n. parse_packets n E l names cols i have_packets p w') (item_ok False (fst w'))"
      by (rule IH) (use that in \<open>auto simp: used_up_def\<close>)
    then show ?thesis by (rule returns_mono) (rule item_ok_after [OF _ used_up_not_more [OF that(2)]])
  qed
  show ?case
  proof (rule returns_Suc)
    obtain r w1 where 1: "scan next_token w = (r, w1)" by (cases "scan next_token w")
    obtain r2 w2 where 2: "scan expect_no_key w1 = (r2, w2)" by (cases "scan expect_no_key w1")
    show "returns (\<lambda>n. parse_packets (Suc n) E l names cols i have_packets p w) (item_ok False (fst w))"
    proof (cases "r = CIF_OK \<and> r2 = CIF_OK")
      case False
      have "item_ok False (fst w) (r, w1)" if "r \<noteq> CIF_OK" using that by (rule item_ok_error)
      moreover have "item_ok False (fst w) (r2, w2)" if "r2 \<noteq> CIF_OK" using that by (rule item_ok_error)
      ultimately show ?thesis using 1 2 False by (cases "r = CIF_OK") (simp_all add: returns_Some)
    next
      case ok: True
      have n1: "token_inv (fst w1)" "not_more (fst w) (fst w1)" "ttype (fst w1) = END \<or> ready (fst w1)"
        using scan_next [of w w1] 1 ok inv by auto
      have n2: "token_inv (fst w2)" "not_more (fst w) (fst w2)" "ttype (fst w2) = END \<or> ready (fst w2)"
        using expect_no_key_ready [of "fst w1" "fst w2"] scan_fst [OF 2] ok n1 by (auto simp: not_more_def)
      have stay: "item_ok False (fst w) (k, w')" if "pos (fst w') = pos (fst w2)" for k and w' :: "'c pstate"
        using item_ok_pos [of "fst w'" w2 False "fst w" k "snd w'"] that n2 by simp
      have consume: "token_inv (CONSUME_TOKEN t)" "used_up (fst w) (CONSUME_TOKEN t)"
        if "pos t = pos (fst w2)" "ttype (fst w2) \<noteq> END" for t
        using consume_ready [of t] n2 that pos_ready [OF that(1)] pos_used_up(2) [OF that(1)] then_used_up by auto
      show ?thesis
      proof (cases "starts_value (ttype (fst w2))")
        case True
        obtain b s x where b: "(if i = 0 then packet_start E w2 else (True, w2)) = (b, s, x)" using prod_cases3 by metis
        have pb: "pos s = pos (fst w2)" using b packet_pos(1) [of E w2 b "(s, x)"] by (auto split: if_splits)
        have vs: "returns (\<lambda>n. parse_value n (env_icu E) s) (value_ok s)"
          using value_returns [of s] n2(1) pos_inv [OF pb] by simp
        have "returns (\<lambda>n. case parse_value n (env_icu E) s of
              None \<Rightarrow> None
            | Some (result, v, s) \<Rightarrow>
                if result \<noteq> CIF_OK then Some (result, s, x)
                else
                  (case packet_value E l cols i v p (s, x) of
                     (result, p, w) \<Rightarrow>
                       if result \<noteq> CIF_OK then Some (result, w)
                       else
                         parse_packets n E l names cols ((i + 1) mod length cols)
                           (have_packets \<or> (i + 1) mod length cols = 0) p w)) (item_ok False (fst w))"
        proof (rule returns_triple [where Q = value_ok, OF vs])
          fix k v t
          assume q: "value_ok s (k, v :: cif_value, t)"
          obtain k2 p2 w3 where k2: "packet_value E l cols i v p (t, x) = (k2, p2, w3)" using prod_cases3 by metis
          have p3: "pos (fst w3) = pos t" using packet_pos(3) [OF k2] by simp
          show "returns (\<lambda>n. if k \<noteq> CIF_OK then Some (k, t, x)
              else
                (case packet_value E l cols i v p (t, x) of
                   (result, p, w) \<Rightarrow>
                     if result \<noteq> CIF_OK then Some (result, w)
                     else
                       parse_packets n E l names cols ((i + 1) mod length cols)
                         (have_packets \<or> (i + 1) mod length cols = 0) p w)) (item_ok False (fst w))"
          proof (cases "k = CIF_OK")
            case False
            from returns_Some [where P = "item_ok False (fst w)", OF item_ok_error [OF this, of False "fst w" "(t, x)"]]
            show ?thesis using False by simp
          next
            case k: True
            have "token_inv t" "used_up (fst w) t"
              using q k n2(2) pos_used_up(2) [OF pb] then_used_up by (auto simp: value_ok_def)
            then have w3: "token_inv (fst w3)" "used_up (fst w) (fst w3)"
              using pos_inv [OF p3] pos_used_up(1) [OF p3] by simp_all
            show ?thesis
            proof (cases "k2 = CIF_OK")
              case True
              then show ?thesis using rec [OF w3] k k2 by simp
            next
              case False
              from returns_Some [where P = "item_ok False (fst w)", OF item_ok_error [OF this, of False "fst w" w3]]
              show ?thesis using False k k2 by simp
            qed
          qed
        qed
        moreover have "item_ok False (fst w) (CIF_TRAVERSE_END, s, x)" by (rule item_ok_error) simp
        ultimately show ?thesis
          using 1 2 ok True b by (cases b) (simp_all add: returns_Some)
      next
        case no: False
        obtain k3 w3 where 3: "scan (\<lambda>s. report_token s CIF_UNEXPECTED_DELIM) w2 = (k3, w3)"
          by (cases "scan (\<lambda>s. report_token s CIF_UNEXPECTED_DELIM) w2")
        obtain k4 w4 where 4: "scan (\<lambda>s. report_token0 s CIF_PARTIAL_PACKET) w2 = (k4, w4)"
          by (cases "scan (\<lambda>s. report_token0 s CIF_PARTIAL_PACKET) w2")
        obtain k5 w5 where 5: "scan (\<lambda>s. report_token s CIF_EMPTY_LOOP) w2 = (k5, w5)"
          by (cases "scan (\<lambda>s. report_token s CIF_EMPTY_LOOP) w2")
        obtain k6 w6 where 6: "packet_end E l (fill_partial E names (drop i cols) i p) w4 = (k6, w6)"
          by (cases "packet_end E l (fill_partial E names (drop i cols) i p) w4")
        have ps: "pos (fst w3) = pos (fst w2)" "pos (fst w4) = pos (fst w2)" "pos (fst w5) = pos (fst w2)"
          "pos (fst w6) = pos (fst w4)"
          using pos_report_token [OF scan_fst [OF 3]] pos_report_token0 [OF scan_fst [OF 4]]
            pos_report_token [OF scan_fst [OF 5]] packet_pos(2) [OF 6] by simp_all
        have drop: "returns (\<lambda>n. parse_packets n E l names cols i have_packets p (upd CONSUME_TOKEN w3)) (item_ok False (fst w))"
          if "ttype (fst w2) \<in> {CLIST, CTABLE}"
          using rec [of "upd CONSUME_TOKEN w3"] consume [OF ps(1)] that by auto
        have ends: "item_ok False (fst w) (k3, w3)" "item_ok False (fst w) (k4, w4)" "item_ok False (fst w) (k5, w5)"
          "item_ok False (fst w) (k6, w6)" "item_ok False (fst w) (CIF_OK, w2)"
          using stay [OF refl] stay ps by simp_all
        show ?thesis
        proof (cases "ttype (fst w2) \<in> {CLIST, CTABLE}")
          case True
          then show ?thesis using 1 2 ok no 3 drop ends(1) by (cases "k3 = CIF_OK") (auto simp: returns_Some)
        next
          case other: False
          show ?thesis
          proof (cases "i = 0")
            case True
            then show ?thesis using 1 2 ok no other 5 ends(3,5) by (cases have_packets) (auto simp: returns_Some)
          next
            case False
            then show ?thesis using 1 2 ok no other 4 6 ends(2,4) by (cases "k4 = CIF_OK") (auto simp: returns_Some)
          qed
        qed
      qed
    qed
  qed
qed

end
