(* ===== verification/ParserProps.thy ===== *)
theory ParserProps
  imports Parser Integrity WriterProps
begin

text \<open>
  What a parse does to the database: nothing but calls of the API, whatever the input and the
  reports of errors; and nothing at all without a target CIF.
\<close>

section \<open>Handlers within a relation\<close>

definition step_in :: "(db \<Rightarrow> db \<Rightarrow> bool) \<Rightarrow> 'c step option \<Rightarrow> bool" where
  "step_in R h \<longleftrightarrow> (\<forall>f x r x'. h = Some f \<longrightarrow> f x = (r, x') \<longrightarrow> R (snd x) (snd x'))"

definition step1_in :: "(db \<Rightarrow> db \<Rightarrow> bool) \<Rightarrow> ('a \<Rightarrow> 'c step) option \<Rightarrow> bool" where
  "step1_in R h \<longleftrightarrow> (\<forall>f a x r x'. h = Some f \<longrightarrow> f a x = (r, x') \<longrightarrow> R (snd x) (snd x'))"

definition handlers_in :: "(db \<Rightarrow> db \<Rightarrow> bool) \<Rightarrow> 'c parse_handler \<Rightarrow> bool" where
  "handlers_in R h \<longleftrightarrow>
     step_in R (ph_cif_start h) \<and> step_in R (ph_cif_end h)
     \<and> step1_in R (ph_block_start h) \<and> step1_in R (ph_block_end h)
     \<and> step1_in R (ph_frame_start h) \<and> step1_in R (ph_frame_end h)
     \<and> (\<forall>f l x r cat x'. ph_loop_start h = Some f \<longrightarrow> f l x = (r, cat, x') \<longrightarrow> R (snd x) (snd x'))
     \<and> step1_in R (ph_loop_end h) \<and> step1_in R (ph_packet_start h) \<and> step1_in R (ph_packet_end h)
     \<and> (\<forall>f n v x r x'. ph_item h = Some f \<longrightarrow> f n v x = (r, x') \<longrightarrow> R (snd x) (snd x'))"

lemma handlers_inD:
  assumes "handlers_in R h"
  shows "step_in R (ph_cif_start h)" "step_in R (ph_cif_end h)"
    "step1_in R (ph_block_start h)" "step1_in R (ph_block_end h)"
    "step1_in R (ph_frame_start h)" "step1_in R (ph_frame_end h)"
    "step1_in R (ph_loop_end h)" "step1_in R (ph_packet_start h)" "step1_in R (ph_packet_end h)"
  using assms by (simp_all add: handlers_in_def)

section \<open>The relation of a parse\<close>

text \<open>
  A relation on databases that the handlers of a parse stay in; if the parse has a target, the
  relation must contain the calls of the API. Then every production stays in it.
\<close>

locale parse_relation =
  fixes E :: "'c parse_env" and R :: "db \<Rightarrow> db \<Rightarrow> bool" and target :: bool
  assumes refl: "R d d"
    and trans: "R d d1 \<Longrightarrow> R d1 d2 \<Longrightarrow> R d d2"
    and calls: "target \<Longrightarrow> api_step (env_icu E) d d' \<Longrightarrow> R d d'"
    and handlers: "handlers_in R (env_handler E)"
begin

abbreviation within :: "db \<Rightarrow> 'c pstate \<Rightarrow> bool" where
  "within d w \<equiv> R d (snd (snd w))"

lemma after_call: "target \<Longrightarrow> api_step (env_icu E) d1 d2 \<Longrightarrow> R d d1 \<Longrightarrow> R d d2"
  using calls trans by blast

subsection \<open>Rules\<close>

text \<open>
  The rules for a production: its result stays within the relation if every step before it does.
\<close>

definition keep :: "db \<Rightarrow> ('r \<times> 'c pstate) option \<Rightarrow> bool" where
  "keep d m \<longleftrightarrow> (case m of None \<Rightarrow> True | Some (r, w) \<Rightarrow> within d w)"

lemma keepD: "keep d m \<Longrightarrow> m = Some (r, w) \<Longrightarrow> within d w"
  by (simp add: keep_def)

lemma keep_None: "keep d None"
  by (simp add: keep_def)

lemma keep_Some: "within d (snd m) \<Longrightarrow> keep d (Some m)"
  by (cases m) (auto simp: keep_def)

lemma keep_bind:
  "within d (snd m) \<Longrightarrow> (\<And>r w. within d w \<Longrightarrow> keep d (f r w)) \<Longrightarrow> keep d (case m of (r, w) \<Rightarrow> f r w)"
  by (cases m) simp

lemma keep_pair:
  "within d w \<Longrightarrow> (\<And>s x. R d (snd x) \<Longrightarrow> keep d (f s x)) \<Longrightarrow> keep d (case w of (s, x) \<Rightarrow> f s x)"
  by (cases w) simp

lemma keep_bind_option:
  "keep d m \<Longrightarrow> (\<And>r w. within d w \<Longrightarrow> keep d (f r w)) \<Longrightarrow>
     keep d (case m of None \<Rightarrow> None | Some (r, w) \<Rightarrow> f r w)"
  by (cases m) (auto simp: keep_def)

lemma keep_value:
  "(\<And>r v s. keep d (f r v s)) \<Longrightarrow> keep d (case m of None \<Rightarrow> None | Some (r, v, s) \<Rightarrow> f r (v :: cif_value) s)"
  by (cases m) (auto simp: keep_def)

lemma keep_if: "(b \<Longrightarrow> keep d m) \<Longrightarrow> (\<not> b \<Longrightarrow> keep d m') \<Longrightarrow> keep d (if b then m else m')"
  by simp

lemma within_if:
  "(b \<Longrightarrow> within d (snd m)) \<Longrightarrow> (\<not> b \<Longrightarrow> within d (snd m')) \<Longrightarrow> within d (snd (if b then m else m'))"
  by simp

lemma within_bind:
  "within d (snd m) \<Longrightarrow> (\<And>r w. within d w \<Longrightarrow> within d (snd (f r w))) \<Longrightarrow>
     within d (snd (case m of (r, w) \<Rightarrow> f r w))"
  by (cases m) simp

lemma within_pair: "within d w \<Longrightarrow> within d (snd (r, w))"
  by simp

lemma within_option:
  "within d w \<Longrightarrow> (\<And>x. l = Some x \<Longrightarrow> within d (snd (f x))) \<Longrightarrow>
     within d (snd (case l of None \<Rightarrow> (r, w) | Some x \<Rightarrow> f x))"
  by (cases l) simp_all

lemma within_upd_if: "within d w \<Longrightarrow> within d (if b then upd f w else w)"
  by (cases w) (simp add: upd_def)

lemma within_upd: "within d w \<Longrightarrow> within d (upd f w)"
  by (cases w) (simp add: upd_def)

lemma within_scan: "within d w \<Longrightarrow> within d (snd (scan f w))"
  by (cases w) (auto simp: scan_def split: prod.splits)

lemma within_call0: "step_in R h \<Longrightarrow> within d w \<Longrightarrow> within d (snd (call0 h w))"
  by (cases h; cases w)
     (auto simp: call0_def handler_result0_def step_in_def split: prod.splits intro: trans)

lemma within_call1: "step1_in R h \<Longrightarrow> within d w \<Longrightarrow> within d (snd (call1 h a w))"
  by (cases h; cases w)
     (auto simp: call1_def handler_result_def step1_in_def split: prod.splits intro: trans)

lemma within_item: "within d w \<Longrightarrow> within d (snd (call_item (env_handler E) name v w))"
  using handlers by (cases "ph_item (env_handler E)"; cases w)
     (auto simp: call_item_def handlers_in_def split: prod.splits intro: trans)

lemma within_loop_start: "within d w \<Longrightarrow> within d (snd (snd (call_loop_start (env_handler E) l w)))"
  using handlers by (cases "ph_loop_start (env_handler E)"; cases w)
     (auto simp: call_loop_start_def handlers_in_def split: prod.splits intro: trans)

lemma within_db:
  assumes "within d w" target "\<And>d. api_step (env_icu E) d (snd (f d))"
  shows "within d (snd (on_db f w))"
  using assms(1) after_call [OF assms(2,3)] by (cases w) (auto simp: on_db_def split: prod.splits, metis snd_conv)

lemmas within_calls =
  within_call0 [OF handlers_inD(1) [OF handlers]] within_call0 [OF handlers_inD(2) [OF handlers]]
  within_call1 [OF handlers_inD(3) [OF handlers]] within_call1 [OF handlers_inD(4) [OF handlers]]
  within_call1 [OF handlers_inD(5) [OF handlers]] within_call1 [OF handlers_inD(6) [OF handlers]]
  within_call1 [OF handlers_inD(7) [OF handlers]] within_call1 [OF handlers_inD(8) [OF handlers]]
  within_call1 [OF handlers_inD(9) [OF handlers]] within_item

lemmas rules =
  keep_None keep_Some keep_value keep_bind_option keep_bind keep_pair keep_if
  within_if within_option within_bind within_upd_if within_upd within_scan within_calls

subsection \<open>Items and loops\<close>

lemma keep_record_item:
  assumes "container \<noteq> None \<Longrightarrow> target" "within d w"
  shows "within d (snd (record_item E container name v w))"
proof (cases "container = None \<or> name = None")
  case True
  then show ?thesis using assms(2) by (auto simp: record_item_def split: option.splits)
next
  case False
  then obtain c n where "container = Some c" "name = Some n" by auto
  moreover have target using assms(1) False by simp
  ultimately show ?thesis
    using assms(2) unfolding record_item_def
    by (simp only: option.case prod.case) (intro rules within_db step_set_value; simp add: within_upd)
qed

lemma keep_parse_item:
  assumes "container \<noteq> None \<Longrightarrow> target" "within d w"
  shows "keep d (parse_item n E container name w)"
  unfolding parse_item_def
  by (intro rules keep_record_item [OF assms(1)]; simp add: assms(2) within_upd within_scan)

lemma header_snd: "parse_loop_header n E' container w = Some (r, names, w') \<Longrightarrow> snd w' = snd w"
  by (induction n E' container w arbitrary: r names w' rule: parse_loop_header.induct)
     (auto simp: Let_def scan_def split: prod.splits if_splits option.splits)

lemma within_packet_start: "within d w \<Longrightarrow> within d (snd (packet_start E w))"
  unfolding packet_start_def by (intro rules within_pair; simp add: within_upd)

lemma within_packet_end:
  assumes "l \<noteq> None \<Longrightarrow> target" "within d w"
  shows "within d (snd (packet_end E l p w))"
  unfolding packet_end_def
  by (intro within_option rules within_pair within_db step_add_packet; simp add: assms within_upd)

lemma within_packet_value:
  assumes "l \<noteq> None \<Longrightarrow> target" "within d w"
  shows "within d (snd (snd (packet_value E l cols i v p w)))"
proof -
  have *: "within d (snd (snd (case m of (r, w) \<Rightarrow> (r, p, w))))" if "within d (snd m)" for m :: "int \<times> 'c pstate" and p
    using that by (cases m) simp
  have if_: "within d (snd (snd (if b then m else m')))"
    if "within d (snd (snd m))" "within d (snd (snd m'))" for b and m m' :: "int \<times> cif_map \<times> 'c pstate"
    using that by simp
  have bind: "within d (snd (snd (case m of (r, w) \<Rightarrow> f r w)))"
    if "within d (snd m)" "\<And>r w. within d w \<Longrightarrow> within d (snd (snd (f r w)))"
    for m and f :: "int \<Rightarrow> 'c pstate \<Rightarrow> int \<times> cif_map \<times> 'c pstate"
    using that by (cases m) simp
  show ?thesis
    unfolding packet_value_def Let_def
    by (intro bind if_ * within_item within_packet_end [OF assms(1)]; simp add: assms within_upd)
qed

lemma keep_packets:
  assumes "l \<noteq> None \<Longrightarrow> target" "within d w"
  shows "keep d (parse_packets n E l names cols i have_packets p w)"
  using assms(2)
proof (induction n arbitrary: i have_packets p w)
  case 0
  show ?case by (simp add: keep_None)
next
  case (Suc n)
  have value_rule: "keep d (case m of (r, p, w) \<Rightarrow> f r p w)"
    if "within d (snd (snd m))" "\<And>r p w. within d w \<Longrightarrow> keep d (f r p w)"
    for m and f :: "int \<Rightarrow> cif_map \<Rightarrow> 'c pstate \<Rightarrow> (int \<times> 'c pstate) option"
    using that by (cases m) simp
  show ?case
    unfolding parse_packets.simps
    by (intro value_rule rules within_packet_start within_packet_value [OF assms(1)] within_packet_end [OF assms(1)]
          within_pair Suc.IH; simp add: Suc.prems within_upd)
qed

lemma keep_loop_packets:
  assumes "l \<noteq> None \<Longrightarrow> target" "within d w"
  shows "keep d (parse_loop_packets n E l names cols w)"
  unfolding parse_loop_packets_def Let_def
  by (cases "cif_packet_create (env_icu E) (Some names)")
     (auto intro!: rules keep_packets [OF assms(1)] simp: assms(2))

text \<open>What has been opened, with a handle only if there is a target.\<close>

definition opened :: "db \<Rightarrow> bool \<times> int \<times> 'h option \<times> 'c pstate \<Rightarrow> bool" where
  "opened d m \<longleftrightarrow> (case m of (stop, r, h, w) \<Rightarrow> within d w \<and> (h \<noteq> None \<longrightarrow> target))"

lemma opened_none: "within d w \<Longrightarrow> opened d (stop, r, None, w)"
  by (simp add: opened_def)

lemma opened_some: "within d w \<Longrightarrow> target \<Longrightarrow> opened d (stop, r, h, w)"
  unfolding opened_def by simp

lemma opened_if: "(b \<Longrightarrow> opened d m) \<Longrightarrow> (\<not> b \<Longrightarrow> opened d m') \<Longrightarrow> opened d (if b then m else m')"
  by simp

lemma opened_bind:
  "within d (snd m) \<Longrightarrow> (\<And>r w. within d w \<Longrightarrow> opened d (f r w)) \<Longrightarrow> opened d (case m of (r, w) \<Rightarrow> f r w)"
  by (cases m) simp

lemma opened_bind3:
  "within d (snd (snd m)) \<Longrightarrow> (\<And>b r w. within d w \<Longrightarrow> opened d (f b r w)) \<Longrightarrow>
     opened d (case m of (b, r, w) \<Rightarrow> f b r w)"
  for f :: "'a \<Rightarrow> 'b \<Rightarrow> 'c pstate \<Rightarrow> _"
  by (cases m) simp

lemma opened_sum:
  "(\<And>e. r = Inl e \<Longrightarrow> opened d (f e)) \<Longrightarrow> (\<And>x. r = Inr x \<Longrightarrow> opened d (g x)) \<Longrightarrow>
     opened d (case r of Inl e \<Rightarrow> f e | Inr x \<Rightarrow> g x)"
  by (cases r) simp_all

lemma opened_option:
  "(r = None \<Longrightarrow> opened d f) \<Longrightarrow> (\<And>x. r = Some x \<Longrightarrow> opened d (g x)) \<Longrightarrow>
     opened d (case r of None \<Rightarrow> f | Some x \<Rightarrow> g x)"
  by (cases r) simp_all

lemma keep_opened:
  assumes "opened d m" "\<And>b r h w. within d w \<Longrightarrow> (h \<noteq> None \<Longrightarrow> target) \<Longrightarrow> keep d (f b r h w)"
  shows "keep d (case m of (b, r, h, w) \<Rightarrow> f b r h w)"
  using assms by (cases m) (simp add: opened_def)

lemmas opened_rules = opened_sum opened_option opened_if opened_bind opened_none

lemma opened_loop_start:
  assumes "container \<noteq> None \<Longrightarrow> target" "within d w"
  shows "opened d (loop_start E container names w)"
  unfolding loop_start_def
  by (intro opened_rules opened_bind3 opened_some within_loop_start within_db step_create_loop;
      simp add: assms within_upd)

lemma within_loop_end: "within d w \<Longrightarrow> within d (snd (loop_end E l r w))"
  unfolding loop_end_def by (intro rules within_pair; simp add: within_upd)

lemma keep_loop:
  assumes "container \<noteq> None \<Longrightarrow> target" "within d w"
  shows "keep d (parse_loop n E container w)"
proof (cases "parse_loop_header n E container (upd enter w)")
  case None
  then show ?thesis by (simp add: parse_loop_def keep_None)
next
  case (Some m)
  then obtain r cols w1 where m: "parse_loop_header n E container (upd enter w) = Some (r, cols, w1)"
    by (cases m) auto
  have "snd (snd w1) = snd (snd w)"
    using header_snd [OF m] by (cases w) (simp add: upd_def)
  then have "within d w1" using assms(2) by simp
  then show ?thesis
    unfolding parse_loop_def m option.case prod.case
    by (intro keep_opened rules keep_loop_packets within_loop_end opened_loop_start; simp add: assms(1))
qed

subsection \<open>Containers\<close>

lemma within_container_start: "within d w \<Longrightarrow> within d (snd (container_start E container is_block w))"
  unfolding container_start_def by (intro rules within_pair; simp add: within_upd within_calls)

lemma within_container_end:
  assumes "container \<noteq> None \<Longrightarrow> target" "within d w"
  shows "within d (snd (container_end E container is_block r w))"
  unfolding container_end_def Let_def
  by (intro rules within_option within_pair within_db step_prune; simp add: assms within_upd within_calls)

lemma opened_existing:
  assumes target "within d w"
  shows "opened d (use_existing code get w)"
  unfolding use_existing_def
  by (intro opened_rules opened_some within_scan; simp add: assms)

lemma opened_create:
  assumes target "within d w" "\<And>d. api_step (env_icu E) d (snd (strict d))" "\<And>d. api_step (env_icu E) d (snd (lenient d))"
  shows "opened d (create_container invalid dup strict lenient get w)"
  unfolding create_container_def
  by (intro opened_existing opened_rules opened_some within_scan within_db assms; simp add: assms)

lemma opened_frame:
  assumes "container \<noteq> None \<Longrightarrow> target" "within d w"
  shows "opened d (open_frame E container is_block w)"
proof (cases "container = None \<or> skip_depth (fst w) > 0")
  case True
  then show ?thesis using opened_none [OF assms(2)] by (auto simp: open_frame_def)
next
  case False
  then have target: target using assms(1) by simp
  have bind: "within d (snd (snd (case m of (r, w) \<Rightarrow> (f r, r, w))))" if "within d (snd m)"
    for m :: "int \<times> 'c pstate" and f :: "int \<Rightarrow> bool"
    using that by (cases m) simp
  have if_: "within d (snd (snd (if b then m else m')))"
    if "within d (snd (snd m))" "within d (snd (snd m'))" for b and m m' :: "bool \<times> int \<times> 'c pstate"
    using that by simp
  have create: "api_step (env_icu E) d (snd (cif_container_create_frame (env_icu E) container (Some code) d))" for d code
    using False by (auto simp: cif_container_create_frame_def intro: step_create_frame)
  show ?thesis
    using False unfolding open_frame_def Let_def
    by (simp only: if_False)
       (intro opened_create opened_bind3 opened_if opened_none if_ bind within_scan target create step_create_frame;
        simp add: assms)
qed

lemma opened_block:
  assumes "has_cif \<Longrightarrow> target" "within d w"
  shows "opened d (open_block E has_cif w)"
proof -
  have create: "api_step (env_icu E) d (snd (cif_create_block (env_icu E) (Some code) d))" for d code
    by (simp add: cif_create_block_def step_create_block)
  show ?thesis
    unfolding open_block_def Let_def
    by (intro opened_create opened_if opened_none create step_create_block; simp add: assms)
qed

lemma keep_named_item:
  assumes "container \<noteq> None \<Longrightarrow> target" "within d w"
  shows "keep d (parse_named_item n E container w)"
  unfolding parse_named_item_def Let_def
  by (intro rules keep_parse_item [OF assms(1)]; simp add: assms(2) within_upd)

lemma keep_stray_value:
  assumes "container \<noteq> None \<Longrightarrow> target" "within d w"
  shows "keep d (parse_stray_value n E container w)"
  unfolding parse_stray_value_def
  by (intro rules keep_parse_item [OF assms(1)]; simp add: assms(2))

text \<open>The alternatives of the loop over a container's tokens say whether it stops.\<close>

lemma keep_on_result: "keep d (map_option snd (on_result m)) = keep d m"
  by (cases m) (auto simp: on_result_def keep_def)

lemma keep_alternatives:
  assumes "keep d (map_option snd m)" "\<And>b r w. within d w \<Longrightarrow> keep d (f b r w)"
  shows "keep d (case m of None \<Rightarrow> None | Some (b, r, w) \<Rightarrow> f b r w)"
  using assms by (cases m) (auto simp: keep_def)

lemma alternative_if:
  "(b \<Longrightarrow> keep d (map_option snd m)) \<Longrightarrow> (\<not> b \<Longrightarrow> keep d (map_option snd m')) \<Longrightarrow>
     keep d (map_option snd (if b then m else m'))"
  by simp

lemma alternative_bind:
  "within d (snd m) \<Longrightarrow> (\<And>r w. within d w \<Longrightarrow> keep d (map_option snd (f r w))) \<Longrightarrow>
     keep d (map_option snd (case m of (r, w) \<Rightarrow> f r w))"
  by (cases m) simp

lemma alternative_opened:
  assumes "opened d m" "\<And>b r h w. within d w \<Longrightarrow> (h \<noteq> None \<Longrightarrow> target) \<Longrightarrow> keep d (map_option snd (f b r h w))"
  shows "keep d (map_option snd (case m of (b, r, h, w) \<Rightarrow> f b r h w))"
  using assms by (cases m) (simp add: opened_def)

lemma alternative_on_result: "keep d m \<Longrightarrow> keep d (map_option snd (on_result m))"
  by (simp add: keep_on_result)

lemma alternative_Some: "within d w \<Longrightarrow> keep d (map_option snd (Some (b, r, w)))"
  by (simp add: keep_def)

lemma alternative_Some_if:
  "within d w \<Longrightarrow> within d w' \<Longrightarrow> keep d (map_option snd (Some (if c then (b, r, w) else (b', r', w'))))"
  by (simp add: keep_def)

lemmas alternatives =
  alternative_on_result alternative_Some_if alternative_Some alternative_if alternative_bind

lemma keep_containers:
  assumes "container \<noteq> None \<Longrightarrow> target" "within d w"
  shows "keep d (parse_container n E container is_block w)" "keep d (container_loop n E container is_block w)"
  using assms
proof (induction n arbitrary: container is_block w)
  case 0
  { case 1 show ?case by (simp add: keep_None) }
  { case 2 show ?case by (simp add: keep_None) }
next
  case (Suc n)
  { case 1
    show ?case
      unfolding parse_container.simps
      by (intro rules keep_bind_option Suc.IH within_container_start within_container_end; simp add: 1 within_upd) }
  { case 2
    show ?case
      unfolding container_loop.simps
      by (intro keep_alternatives alternatives alternative_opened opened_frame rules Suc.IH keep_loop keep_named_item
            keep_stray_value within_pair; simp add: 2 within_upd) }
qed

subsection \<open>The whole input\<close>

lemma keep_anonymous:
  assumes "has_cif \<Longrightarrow> target" "within d w" "open_anonymous E has_cif w = (r, h, w')"
  shows "within d w' \<and> (h \<noteq> None \<longrightarrow> target)"
proof (cases "\<not> has_cif \<or> skip_depth (fst w) > 0")
  case True
  then show ?thesis using assms(2,3) by (auto simp: open_anonymous_def)
next
  case False
  obtain r1 w1 where 1: "on_db (cif_create_block_internal (env_icu E) (Some []) True) w = (r1, w1)"
    by (cases "on_db (cif_create_block_internal (env_icu E) (Some []) True) w")
  have "within d (snd (on_db (cif_create_block_internal (env_icu E) (Some []) True) w))"
    by (rule within_db) (use assms(1,2) False in \<open>auto intro: step_create_block\<close>)
  then have "within d w1" by (simp add: 1)
  then show ?thesis
    using assms(1,3) False by (auto simp: open_anonymous_def 1 split: sum.splits if_splits option.splits)
qed

lemma keep_heading:
  assumes "opened d m" "within d (snd m')" "has_cif \<Longrightarrow> target"
    and f: "\<And>r h w. within d w \<Longrightarrow> (h \<noteq> None \<Longrightarrow> target) \<Longrightarrow> keep d (f r h w)"
  shows "keep d (case (if b then (case m of (stop, r, h, w) \<Rightarrow> (r, h, if stop then w else upd CONSUME_TOKEN w))
      else (case m' of (r, w) \<Rightarrow> if r \<noteq> CIF_OK then (r, None, w) else open_anonymous E has_cif w))
      of (r, h, w) \<Rightarrow> f r h w)"
proof (cases b)
  case True
  obtain stop r h' w where m: "m = (stop, r, h', w)" by (metis prod_cases4)
  have "within d w" "h' \<noteq> None \<Longrightarrow> target" using assms(1) m by (auto simp: opened_def)
  then have "keep d (f r h' (if stop then w else upd CONSUME_TOKEN w))" by (intro f) (simp_all add: within_upd)
  then show ?thesis using True m by simp
next
  case False
  obtain r1 w1 where 1: "m' = (r1, w1)" by (cases m')
  obtain r2 h w2 where 2: "open_anonymous E has_cif w1 = (r2, h, w2)" by (metis prod_cases3)
  have w1: "within d w1" using assms(2) 1 by simp
  have "within d w2 \<and> (h \<noteq> None \<longrightarrow> target)" by (rule keep_anonymous [OF assms(3) w1 2])
  then have "keep d (f r2 h w2)" by (intro f) simp_all
  moreover have "keep d (f r1 None w1)" using w1 by (intro f) simp_all
  ultimately show ?thesis using False 1 2 by simp
qed

lemma keep_blocks:
  assumes "has_cif \<Longrightarrow> target" "within d w"
  shows "keep d (cif_loop_blocks n E has_cif w)"
  using assms(2)
proof (induction n arbitrary: w)
  case 0
  show ?case by (simp add: keep_None)
next
  case (Suc n)
  show ?case
    unfolding cif_loop_blocks.simps
    by (intro keep_heading rules opened_block keep_containers Suc.IH within_pair;
        simp add: Suc.prems assms(1))
qed

lemma keep_parse_cif:
  assumes "has_cif \<Longrightarrow> target" "within d w"
  shows "keep d (parse_cif n E has_cif w)"
  unfolding parse_cif_def Let_def
  by (intro rules keep_blocks within_pair; simp add: assms within_upd)

lemma keep_parse_internal:
  assumes "has_cif \<Longrightarrow> target" "within d w"
  shows "keep d (cif_parse_internal fuel n not_utf8 extra_ws extra_eol E has_cif w)"
  using assms keep_parse_cif [OF assms(1)]
  by (cases w) (auto simp: cif_parse_internal_def keep_def split: prod.splits)

lemma parse_within:
  assumes "has_cif \<Longrightarrow> target"
    and "cif_parse_internal fuel n not_utf8 extra_ws extra_eol E has_cif (s, c, d) = Some (r, s', c', d')"
  shows "R d d'"
proof -
  have "keep d (cif_parse_internal fuel n not_utf8 extra_ws extra_eol E has_cif (s, c, d))"
    by (rule keep_parse_internal [OF assms(1)]) (simp_all add: refl)
  from keepD [OF this assms(2)] show ?thesis by simp
qed

end

section \<open>The parses of the API\<close>

text \<open>A parse without handlers, which is what the default options ask for.\<close>

definition no_handlers :: "'c parse_handler" where
  "no_handlers =
     \<lparr>ph_cif_start = None, ph_cif_end = None, ph_block_start = None, ph_block_end = None,
      ph_frame_start = None, ph_frame_end = None, ph_loop_start = None, ph_loop_end = None,
      ph_packet_start = None, ph_packet_end = None, ph_item = None\<rparr>"

definition plain_env :: "icu \<Rightarrow> (nat \<Rightarrow> bool) \<Rightarrow> 'c parse_env" where
  "plain_env I u = \<lparr>env_icu = I, env_handler = no_handlers, uninit_names = u\<rparr>"

lemma no_handlers_in: "handlers_in R no_handlers"
  by (simp add: handlers_in_def step_in_def step1_in_def no_handlers_def)

lemma plain_env_simps [simp]: "env_icu (plain_env I u) = I" "env_handler (plain_env I u) = no_handlers"
  by (simp_all add: plain_env_def)

interpretation storing: parse_relation "plain_env I u" "(api_step I)\<^sup>*\<^sup>*" True for I u
  by unfold_locales (auto intro: no_handlers_in)

interpretation syntax_only: parse_relation "plain_env I u" "(=)" False for I u
  by unfold_locales (auto intro: no_handlers_in)

text \<open>
  The same for any handlers: a parse is a sequence of calls of the API if what the handlers do is,
  and does nothing to the database if it has no target and the handlers leave it alone.
\<close>

lemma parse_calls:
  assumes "handlers_in ((api_step (env_icu E))\<^sup>*\<^sup>*) (env_handler E)"
    and "cif_parse_internal fuel n not_utf8 extra_ws extra_eol E has_cif (s, c, d) = Some (r, s', c', d')"
  shows "((api_step (env_icu E))\<^sup>*\<^sup>*) d d'"
proof -
  have "parse_relation E ((api_step (env_icu E))\<^sup>*\<^sup>*) True"
    by unfold_locales (auto intro: assms(1))
  from parse_relation.parse_within [OF this _ assms(2)] show ?thesis by simp
qed

text \<open>A small parse for the witnesses: an unquoted value in a block, from a source of one chunk.\<close>

definition sample_parse :: "bool \<Rightarrow> (int \<times> unit pstate) option" where
  "sample_parse has_cif =
     cif_parse_internal 9 24 False [] [] (plain_env ascii_icu (\<lambda>_. False)) has_cif
       (sample_scanner\<lparr>char_source := [Inr (kw ''data_a _b 1'')]\<rparr>, (), new_db)"

lemma sample_parse_stored:
  "map_option (\<lambda>(r, s, c, d). (r, length (blocks (cur d)), length (vals (cur d)))) (sample_parse True) = Some (CIF_OK, 1, 1)"
  by code_simp

lemma sample_parse_checked: "map_option fst (sample_parse False) = Some CIF_OK"
  by code_simp

text \<open>
  C2. A parse keeps the database intact. For any input, options and answers of the error
  callback, and any handlers that change the database only through the API (in any order,
  with stale handles, in the middle of the parse): whatever the parse returns, the database after
  it is one that calls of the API lead to, and its tables satisfy every key, reference and check
  of the schema.
\<close>

theorem parse_keeps_integrity:
  assumes "handlers_in (\<lambda>d d'. (api_step (env_icu E))\<^sup>*\<^sup>* d d') (env_handler E)"
    and "reachable (env_icu E) d"
    and "cif_parse_internal fuel n not_utf8 extra_ws extra_eol E has_cif (s, c, d) = Some (r, s', c', d')"
  shows "reachable (env_icu E) d' \<and> tables_ok (cur d')"
proof -
  have "((api_step (env_icu E))\<^sup>*\<^sup>*) d d'" by (rule parse_calls [OF _ assms(3)]) (use assms(1) in simp)
  then have "reachable (env_icu E) d'" using assms(2) by (simp add: reachable_def)
  then show ?thesis using reachable_ok by blast
qed

lemma parse_keeps_integrity_witness:
  "\<exists>s c d. sample_parse True = Some (CIF_OK, s, c, d) \<and> length (vals (cur d)) = 1 \<and> tables_ok (cur d)"
proof -
  obtain s c d where 1: "sample_parse True = Some (CIF_OK, s, c, d)" "length (vals (cur d)) = 1"
    using sample_parse_stored by (auto simp: map_option_case split: option.splits)
  have "handlers_in (\<lambda>d d'. (api_step (env_icu (plain_env ascii_icu (\<lambda>_. False) :: unit parse_env)))\<^sup>*\<^sup>* d d')
      (env_handler (plain_env ascii_icu (\<lambda>_. False) :: unit parse_env))"
    by (simp add: no_handlers_in)
  from parse_keeps_integrity [OF this _ 1(1) [unfolded sample_parse_def]] 1 reachable_new
  show ?thesis by simp
qed

text \<open>
  C15. A syntax check stores nothing. A parse without a target CIF, with handlers that leave the
  database alone, ends with the database it started with, whatever the input and whatever errors
  it recovers from.
\<close>

theorem syntax_check_pure:
  assumes "handlers_in (=) (env_handler E)"
    and "cif_parse_internal fuel n not_utf8 extra_ws extra_eol E False (s, c, d) = Some (r, s', c', d')"
  shows "d' = d"
proof -
  have "parse_relation E (=) False"
    by unfold_locales (auto intro: assms(1))
  from parse_relation.parse_within [OF this _ assms(2)] show ?thesis by simp
qed

lemma syntax_check_pure_witness: "\<exists>s c. sample_parse False = Some (CIF_OK, s, c, new_db)"
proof -
  obtain s c d where 1: "sample_parse False = Some (CIF_OK, s, c, d)"
    using sample_parse_checked by (auto simp: map_option_case split: option.splits)
  have "handlers_in (=) (env_handler (plain_env ascii_icu (\<lambda>_. False) :: unit parse_env))"
    by (simp add: no_handlers_in)
  from syntax_check_pure [OF this 1 [unfolded sample_parse_def]] 1 show ?thesis by simp
qed

end
