(* ===== verification/ParseReturns.thy ===== *)
theory ParseReturns
  imports ParseTotal ParserProps
begin

text \<open>
  The productions for loops and containers return, and so does the whole parse: cif_parse_internal
  ends for every input, every handler and every error callback.
\<close>

section \<open>Loops\<close>





section \<open>Opening containers\<close>






section \<open>Containers\<close>



definition round_ok :: "bool \<Rightarrow> scanner \<Rightarrow> bool \<times> int \<times> 'c pstate \<Rightarrow> bool" where
  "round_ok b s x \<longleftrightarrow>
     (if fst x then fst (snd x) = CIF_OK \<longrightarrow> \<not> b \<and> token_inv (fst (snd (snd x))) \<and> not_more s (fst (snd (snd x)))
      else token_inv (fst (snd (snd x))) \<and> used_up s (fst (snd (snd x))))"






lemma round_go_on: "token_inv (fst w) \<Longrightarrow> used_up s (fst w) \<Longrightarrow> round_ok b s (False, r, w)"
  by (auto simp: round_ok_def)









section \<open>The whole input\<close>



section \<open>The start of a parse\<close>

text \<open>
  What the start of a parse needs: reads that fail do so with a code other than CIF_OK, and the asterisk
  that replaces characters in CIF 1.1 is not declared white space.
\<close>

definition startable :: "scanner \<Rightarrow> bool" where
  "startable s \<longleftrightarrow> char_class s 0x2a = GENERAL_CLASS \<and> Inl CIF_OK \<notin> set (char_source s)"

lemma startable_sound: "startable s \<Longrightarrow> sound s"
  by (auto simp: startable_def sound_def METACLASS_OF_def CLASS_OF_def repl_char_def)

lemma startable_updates [simp]:
  "startable (s\<lparr>next_char := i\<rparr>) = startable s" "startable (s\<lparr>column := c\<rparr>) = startable s"
  "startable (s\<lparr>buffer := b\<rparr>) = startable s" "startable (s\<lparr>buffer_limit := l\<rparr>) = startable s"
  "startable (s\<lparr>at_eof := e\<rparr>) = startable s" "startable (s\<lparr>cif_version := v\<rparr>) = startable s"
  "startable (s\<lparr>tvalue_start := t\<rparr>) = startable s" "startable (CONSUME_TOKEN s) = startable s"
  "startable (SET_V1 s) = startable s" "startable (snd (report_error s code col p len)) = startable s"
  by (simp_all add: startable_def CONSUME_TOKEN_def SET_V1_def set_v1_class_def report_error_eq)

lemma startable_report: "report_error s code col p len = (r, t) \<Longrightarrow> startable t = startable s"
  using startable_updates(10) [of s code col p len] by simp

lemma startable_init:
  "Inl CIF_OK \<notin> set (char_source s) \<Longrightarrow> 0x2a \<notin> set ws \<union> set eol \<Longrightarrow> startable (init_scanner n ws eol s)"
  by (auto simp: startable_def init_scanner_def init_v2_class_def fixed_classes_def)

lemma startable_read: "startable s \<Longrightarrow> read_func (char_source s) k = (u, src) \<Longrightarrow> startable (s\<lparr>char_source := src\<rparr>)"
  using read_func_errors by (auto simp: startable_def)

lemma startable_first:
  assumes "get_first_char s = (r, t)" "startable s"
  shows "startable t"
proof -
  obtain u src where 1: "read_func (char_source s) 1 = (u, src)" by fastforce
  obtain v src2 where 2: "read_func src (length (buffer s) - Suc 0) = (v, src2)" by fastforce
  have errors: "Inl CIF_OK \<notin> set src" "Inl CIF_OK \<notin> set src2" "char_class s 0x2a = GENERAL_CLASS"
    using assms(2) read_func_errors [OF 1] read_func_errors [OF 2] by (auto simp: startable_def)
  show ?thesis
  proof (cases u)
    case (Inl e)
    then show ?thesis using assms(1) 1 errors by (auto simp: get_first_char_def startable_def)
  next
    case (Inr us)
    then show ?thesis using assms(1) 1 2 errors
      by (cases us; cases v) (auto simp: get_first_char_def Let_def startable_def report_error_eq buffer_size_def split: if_splits)
  qed
qed

lemma startable_extends: "extends s t \<Longrightarrow> startable s \<Longrightarrow> startable t"
  by (auto simp: extends_def startable_def same_table_def)

lemma startable_next:
  assumes "NEXT_CHAR s = (CIF_OK, c, t)" "startable s"
  shows "startable t"
proof -
  obtain r c' u where 1: "PEEK_CHAR s = (r, c', u)" using prod_cases3 by metis
  then have "r = CIF_OK" "t = u\<lparr>next_char := next_char u + 1, column := column u + 1\<rparr>"
    using assms(1) by (auto simp: NEXT_CHAR_def split: if_splits)
  moreover have "startable u" if "r = CIF_OK"
    using startable_extends [OF grows_extends [OF peek_grows [OF 1]]] that assms(2) by simp
  ultimately show ?thesis by simp
qed

lemma startable_version:
  assumes "choose_version c s = (CIF_OK, t)" "startable s"
  shows "startable t"
proof -
  define s1 where "s1 = s\<lparr>cif_version := if cif_version s < 0 then - cif_version s else 1\<rparr>"
  obtain r u where 1: "scan_to_ws s1 = (r, u)" by fastforce
  have "startable s1" using assms(2) by (simp add: s1_def)
  then have "startable u" if "r = CIF_OK"
    using startable_extends [OF grows_extends [OF scan_to_grows]] 1 that by (auto simp: scan_to_ws_def)
  then show ?thesis
    using assms \<open>startable s1\<close> unfolding choose_version_def Let_def s1_def [symmetric] 1 prod.case
    by (auto split: if_splits)
qed

lemma prepare_startable:
  assumes p: "prepare_parse n not_utf8 ws eol s = (True, r, t)" and s: "Inl CIF_OK \<notin> set (char_source s)"
    "0x2a \<notin> set ws \<union> set eol"
  shows "token_inv t"
proof -
  obtain r1 s1 where 1: "get_first_char (init_scanner n ws eol s) = (r1, s1)" by fastforce
  have s1: "startable s1" using startable_first [OF 1 startable_init [OF s]] .
  let ?c = "buffer s1 ! next_char s1" and ?s = "s1\<lparr>next_char := next_char s1 + 1\<rparr>"
  obtain r2 c s2 where 2: "(if ?c = UCHAR_BOM then NEXT_CHAR (CONSUME_TOKEN ?s) else (CIF_OK, ?c, ?s)) = (r2, c, s2)"
    using prod_cases3 by metis
  obtain r3 s3 where 3: "choose_version c s2 = (r3, s3)" by fastforce
  have ok: "r1 = CIF_OK" "r2 = CIF_OK" "r3 = CIF_OK"
    using p [unfolded prepare_parse_def Let_def 1 prod.case 2 3] by (auto split: if_splits)
  have s2: "startable s2"
    using 2 s1 ok startable_next [of "CONSUME_TOKEN ?s" c s2] by (auto split: if_splits)
  have s3: "startable s3" using startable_version [of c s2 s3] 3 ok s2 by simp
  have "startable t \<and> next_char t = text_start t"
    using p [unfolded prepare_parse_def Let_def 1 prod.case 2 3] s3 ok
    by (auto simp: report_error_eq SET_V1_def startable_def set_v1_class_def split: if_splits)
  then show ?thesis using startable_sound by (simp add: token_inv_def)
qed




text \<open>
  C14. The scanner always moves on: from a state between two tokens, a call of next_token that returns
  CIF_OK has either reached the end of the input or read a token whose consumption leaves strictly
  less of the input (of what the source still holds or else of the buffer), in a state that
  the next call can start from.
\<close>

theorem next_token_moves_on:
  assumes "token_inv s" "next_token s = (CIF_OK, t)" "ttype t \<noteq> END"
  shows "token_inv (CONSUME_TOKEN t) \<and> (left_over (CONSUME_TOKEN t), left_over s) \<in> less_than <*lex*> less_than"
proof -
  have "ready t" "not_more s t" using next_token_ready [OF assms(2,1)] assms(3) by simp_all
  then show ?thesis using consume_ready [of t] then_used_up [of s t] by (simp add: used_up_def)
qed

definition sample_start :: "bool \<times> int \<times> scanner" where
  "sample_start = prepare_parse 24 False [] [] (sample_scanner\<lparr>char_source := [Inr (kw ''data_a'')]\<rparr>)"

lemma next_token_moves_on_witness:
  "\<exists>t. next_token (snd (snd sample_start)) = (CIF_OK, t) \<and> ttype t = BLOCK_HEAD
     \<and> (left_over (CONSUME_TOKEN t), left_over (snd (snd sample_start))) \<in> less_than <*lex*> less_than"
proof -
  have go: "fst sample_start" by code_simp
  have ty: "(case next_token (snd (snd sample_start)) of (r, t) \<Rightarrow> (r, ttype t)) = (CIF_OK, BLOCK_HEAD)" by code_simp
  obtain b r s where "sample_start = (b, r, s)" using prod_cases3 by metis
  with go have s: "sample_start = (True, r, s)" by (cases b) (metis, metis fst_conv)
  have inv: "token_inv s" by (rule prepare_startable [OF s [unfolded sample_start_def]]) simp_all
  obtain t where t: "next_token s = (CIF_OK, t)" "ttype t = BLOCK_HEAD" using ty unfolding s snd_conv by (auto split: prod.splits)
  have "ttype t \<noteq> END" using t(2) by simp
  from next_token_moves_on [OF inv t(1) this] show ?thesis using t unfolding s snd_conv by blast
qed

end
