(* ===== verification/Digits.thy ===== *)
theory Digits
  imports Values
begin

text \<open>
  Doubles as decimal digits: to_digits of src/value.c, which rounds a double to a number of decimal
  places with multiple-precision arithmetic, and cif_value_init_numb, which makes a number of it.

  A finite double is its sign, the fraction that ldexp and frexp give (an integer of 53 bits, or 0), and
  the exponent of two that goes with it; the constants of float.h are those of IEEE 754 binary64.
  Arrays of bignum digits are lists; pointers into them are indices. \<open>None\<close> is an access outside the
  array or an assertion that fails. The loops that look for a digit that is not zero stop at the ends of
  the array; the array never has zeroes only.
\<close>

section \<open>Constants\<close>

abbreviation (input) BBASE :: nat where "BBASE \<equiv> 1000000000"
abbreviation (input) DDIG_PER_DIG :: nat where "DDIG_PER_DIG \<equiv> 9"
abbreviation (input) BDIG_PER_DIG :: nat where "BDIG_PER_DIG \<equiv> 28"
abbreviation (input) DBL_MANT_DIG :: int where "DBL_MANT_DIG \<equiv> 53"
abbreviation (input) DBL_MAX_10_EXP :: int where "DBL_MAX_10_EXP \<equiv> 308"
abbreviation (input) LEAST_DBL_10_DIGIT :: int where "LEAST_DBL_10_DIGIT \<equiv> - 321"

text \<open>The number of bignum digits of a double, and the index of the units.\<close>

definition INT_DIGITS :: nat where "INT_DIGITS = (308 + DDIG_PER_DIG - 1) div DDIG_PER_DIG"
definition FRAC_DIGITS :: nat where "FRAC_DIGITS = (53 + 1021 + DDIG_PER_DIG - 1) div DDIG_PER_DIG"
definition DIG_PER_DBL :: nat where "DIG_PER_DBL = INT_DIGITS + FRAC_DIGITS"
definition UNITS_DIGIT :: nat where "UNITS_DIGIT = INT_DIGITS - 1"

lemma constants [simp]: "INT_DIGITS = 35" "FRAC_DIGITS = 120" "DIG_PER_DBL = 155" "UNITS_DIGIT = 34"
  by (simp_all add: INT_DIGITS_def FRAC_DIGITS_def DIG_PER_DBL_def UNITS_DIGIT_def)

text \<open>The conversions to uint32_t and uint64_t.\<close>

definition u32 :: "nat \<Rightarrow> nat" where "u32 x = x mod 2 ^ 32"
definition u64 :: "nat \<Rightarrow> nat" where "u64 x = x mod 2 ^ 64"

datatype rounding = FE_TONEAREST | FE_TOWARDZERO | FE_DOWNWARD | FE_UPWARD

record dbl =
  dbl_negative :: bool
  dbl_fraction :: nat
  dbl_exponent :: int

section \<open>Rounding\<close>

text \<open>Are the digits after \<open>work_dig\<close>, up to \<open>lsd\<close>, all zero?\<close>

definition is_zero :: "nat \<Rightarrow> nat \<Rightarrow> nat \<Rightarrow> nat list \<Rightarrow> bool" where
  "is_zero check_value work_dig lsd ds \<longleftrightarrow> check_value = 0 \<and> (\<forall>i \<in> {work_dig<..lsd}. ds ! i = 0)"

definition compare_half :: "nat \<Rightarrow> nat \<Rightarrow> nat \<Rightarrow> nat list \<Rightarrow> int" where
  "compare_half check_value work_dig lsd ds =
     (if check_value < BBASE div 2 then -1
      else if check_value = BBASE div 2
              \<and> (work_dig = lsd \<or> is_zero (ds ! (work_dig + 1)) (work_dig + 1) lsd ds) then 0
      else 1)"

definition round_it :: "rounding \<Rightarrow> bool \<Rightarrow> nat \<Rightarrow> nat \<Rightarrow> nat \<Rightarrow> nat \<Rightarrow> nat list \<Rightarrow> nat" where
  "round_it mode negative round_value check_value check_digit lsd ds =
     (case mode of
        FE_TOWARDZERO \<Rightarrow> round_value
      | FE_DOWNWARD \<Rightarrow> u32 (round_value + (if negative \<and> \<not> is_zero check_value check_digit lsd ds then 1 else 0))
      | FE_UPWARD \<Rightarrow> u32 (round_value + (if \<not> negative \<and> \<not> is_zero check_value check_digit lsd ds then 1 else 0))
      | FE_TONEAREST \<Rightarrow>
          (let compare = compare_half check_value check_digit lsd ds in
           if compare > 0 then u32 (round_value + 1)
           else if compare = 0 then u32 (round_value + 1) div 2 * 2
           else round_value))"

section \<open>The bignum of a double\<close>

text \<open>The digits of the fraction, from the least significant: the index after the last and the array.\<close>

function load_fraction :: "nat \<Rightarrow> nat \<Rightarrow> nat list \<Rightarrow> nat \<times> nat list" where
  "load_fraction fraction msd ds =
     (if fraction = 0 then (msd, ds)
      else load_fraction (fraction div BBASE) (msd - 1) (ds[msd := u32 (fraction mod BBASE)]))"
  by pat_completeness auto
termination by (relation "measure fst") auto

declare load_fraction.simps [simp del]

text \<open>The last digit that is not zero, at or before an index; the first at or after one.\<close>

fun last_nonzero :: "nat list \<Rightarrow> nat \<Rightarrow> nat" where
  "last_nonzero ds i = (if i = 0 \<or> ds ! i \<noteq> 0 then i else last_nonzero ds (i - 1))"

function first_nonzero :: "nat list \<Rightarrow> nat \<Rightarrow> nat" where
  "first_nonzero ds i = (if i \<ge> length ds \<or> ds ! i \<noteq> 0 then i else first_nonzero ds (i + 1))"
  by pat_completeness auto
termination by (relation "measure (\<lambda>(ds, i). length ds - i)") auto

declare last_nonzero.simps [simp del] first_nonzero.simps [simp del]

text \<open>One pass of division by a power of two: the last digit that was looked at and the digits.\<close>

function shift_right :: "nat \<Rightarrow> nat \<Rightarrow> nat \<Rightarrow> nat \<Rightarrow> nat list \<Rightarrow> (nat \<times> nat list) option" where
  "shift_right shift lsd work_dig remainder ds =
     (if work_dig \<ge> length ds then None
      else
        (let dividend = u64 (remainder + ds ! work_dig);
             ds = ds[work_dig := u32 (dividend div 2 ^ shift)];
             remainder = u64 (dividend mod 2 ^ shift * BBASE)
         in if work_dig \<le> lsd \<or> remainder \<noteq> 0 then shift_right shift lsd (work_dig + 1) remainder ds
            else Some (work_dig, ds)))"
  by pat_completeness auto
termination by (relation "measure (\<lambda>(shift, lsd, work_dig, remainder, ds). length ds - work_dig)") auto

declare shift_right.simps [simp del]

text \<open>
  One pass of multiplication: \<open>Suc work_dig\<close> is the count of digits that are left, the result has the
  most significant digit.
\<close>

fun shift_left :: "nat \<Rightarrow> nat \<Rightarrow> nat \<Rightarrow> nat \<Rightarrow> nat list \<Rightarrow> (nat \<times> nat list) option" where
  "shift_left shift msd 0 carry ds = None"
| "shift_left shift msd (Suc work_dig) carry ds =
     (let product = u64 (u64 (ds ! work_dig * 2 ^ shift) + carry);
          ds = ds[work_dig := u32 (product mod BBASE)];
          carry = product div BBASE
      in if work_dig > msd \<or> carry \<noteq> 0 then shift_left shift msd work_dig carry ds
         else Some (work_dig, ds))"

text \<open>The passes for an exponent: the state is the indices of the two ends and the digits.\<close>

function apply_right :: "nat \<Rightarrow> nat \<Rightarrow> nat \<Rightarrow> nat list \<Rightarrow> (nat \<times> nat \<times> nat list) option" where
  "apply_right exponent msd lsd ds =
     (if exponent = 0 then Some (msd, lsd, ds)
      else
        (let shift = min BDIG_PER_DIG exponent in
         case shift_right shift lsd msd 0 ds of
           None \<Rightarrow> None
         | Some (lsd, ds) \<Rightarrow> apply_right (exponent - shift) (first_nonzero ds msd) lsd ds))"
  by pat_completeness auto
termination by (relation "measure fst") auto

function apply_left :: "nat \<Rightarrow> nat \<Rightarrow> nat \<Rightarrow> nat list \<Rightarrow> (nat \<times> nat \<times> nat list) option" where
  "apply_left exponent msd lsd ds =
     (if exponent = 0 then Some (msd, lsd, ds)
      else
        (let shift = min BDIG_PER_DIG exponent in
         case shift_left shift msd (Suc lsd) 0 ds of
           None \<Rightarrow> None
         | Some (msd, ds) \<Rightarrow> apply_left (exponent - shift) msd (last_nonzero ds lsd) ds))"
  by pat_completeness auto
termination by (relation "measure fst") auto

declare apply_right.simps [simp del] apply_left.simps [simp del]

text \<open>The whole bignum of a double that is not zero.\<close>

definition bignum :: "nat \<Rightarrow> int \<Rightarrow> (nat \<times> nat \<times> nat list) option" where
  "bignum fraction exponent =
     (case load_fraction fraction UNITS_DIGIT (replicate (DIG_PER_DBL + 1) 0) of
        (msd, ds) \<Rightarrow>
          (let msd = msd + 1; lsd = last_nonzero ds UNITS_DIGIT in
           if exponent < 0 then apply_right (nat (- exponent)) msd lsd ds
           else apply_left (nat exponent) msd lsd ds))"

section \<open>The digit string\<close>

text \<open>The carries of the last digit, and the index of the last digit they reached.\<close>

fun carry_over :: "nat \<Rightarrow> nat list \<Rightarrow> (nat \<times> nat list) option" where
  "carry_over work_dig ds =
     (if ds ! work_dig < BBASE then Some (work_dig, ds)
      else if work_dig = 0 then None
      else carry_over (work_dig - 1)
        (ds[work_dig - 1 := u32 (ds ! (work_dig - 1) + ds ! work_dig div BBASE)]))"

declare carry_over.simps [simp del]

text \<open>The most significant digit without leading zeroes (one digit at least), then nine digits of each.\<close>

definition digit_string :: "nat \<Rightarrow> nat \<Rightarrow> nat list \<Rightarrow> ustring" where
  "digit_string msd lsd ds =
     decimal_digits (digit_count (ds ! msd)) (ds ! msd)
     @ concat (map (\<lambda>i. decimal_digits DDIG_PER_DIG (ds ! i)) [Suc msd..<Suc lsd])"

text \<open>The digits that the rounding made insignificant are dropped, as many as there are.\<close>

fun drop_digits :: "nat \<Rightarrow> ustring \<Rightarrow> ustring" where
  "drop_digits p10 s = (if p10 > 1 \<and> s \<noteq> [] then drop_digits (p10 div 10) (butlast s) else s)"

declare drop_digits.simps [simp del]

text \<open>The bignum digit to round to, and how many of its decimal digits are insignificant.\<close>

definition round_digit :: "int \<Rightarrow> int" where
  "round_digit scale = int UNITS_DIGIT
     + (if scale \<le> 0 then - ((- scale) div int DDIG_PER_DIG)
        else (scale + int DDIG_PER_DIG - 1) div int DDIG_PER_DIG)"

definition round_pos :: "int \<Rightarrow> nat" where
  "round_pos scale = nat ((- scale) mod int DDIG_PER_DIG)"

definition round_digits :: "rounding \<Rightarrow> bool \<Rightarrow> nat \<Rightarrow> nat \<Rightarrow> nat \<Rightarrow> nat \<Rightarrow> nat list \<Rightarrow> ustring option" where
  "round_digits mode negative rd pos msd lsd ds =
     (let p10 = 10 ^ pos;
          work_dig = (if pos = 0 then rd + 1 else rd);
          check_value = (if pos = 0 then ds ! work_dig else ds ! work_dig mod p10);
          ds = (if pos = 0 then ds else ds[work_dig := ds ! work_dig - check_value]);
          check_value = (if pos = 0 then check_value else u32 (check_value * (BBASE div p10)));
          ds = ds[rd := u32 (p10 * round_it mode negative (ds ! rd div p10) check_value work_dig lsd ds)]
      in if rd < msd then (if ds ! rd > 1 then None else Some (drop_digits 1 (digit_string rd rd ds)))
         else
           (case carry_over rd ds of
              None \<Rightarrow> None
            | Some (work_dig, ds) \<Rightarrow> Some (drop_digits p10 (digit_string (min work_dig msd) rd ds))))"

text \<open>
  More precision than a double has: zeroes are added. The last bignum digit of the result is that
  before the end of the array.
\<close>

definition all_digits :: "int \<Rightarrow> nat \<Rightarrow> nat list \<Rightarrow> ustring" where
  "all_digits scale msd ds =
     (let extra = scale - int ((DIG_PER_DBL - (UNITS_DIGIT + 1)) * DDIG_PER_DIG)
      in digit_string msd (DIG_PER_DBL - 1) ds @ replicate (nat extra) UCHAR_0)"

definition to_digits :: "rounding \<Rightarrow> dbl \<Rightarrow> int \<Rightarrow> ustring option" where
  "to_digits mode d scale =
     (if dbl_fraction d = 0 then Some [UCHAR_0]
      else
        (case bignum (dbl_fraction d) (dbl_exponent d) of
           None \<Rightarrow> None
         | Some (msd, lsd, ds) \<Rightarrow>
             if round_digit scale < int DIG_PER_DBL then
               (if round_digit scale < 0 then None
                else round_digits mode (dbl_negative d) (nat (round_digit scale)) (round_pos scale) msd lsd ds)
             else Some (all_digits scale msd ds)))"

end
