(* ===== verification/DigitsProps.thy ===== *)
theory DigitsProps
  imports Digits
begin

text \<open>
  to_digits is exact: the bignum of a double is its value, and the digits are those of the value rounded
  to the decimal place asked for.
\<close>

section \<open>The number that bignum digits stand for\<close>

definition big :: "nat list \<Rightarrow> nat" where
  "big ds = foldl (\<lambda>a d. a * BBASE + d) 0 ds"

lemma big_Nil [simp]: "big [] = 0"
  by (simp add: big_def)

lemma big_snoc [simp]: "big (ds @ [d]) = big ds * BBASE + d"
  by (simp add: big_def)

lemma big_append: "big (xs @ ys) = big xs * BBASE ^ length ys + big ys"
  by (induction ys rule: rev_induct) (simp_all flip: append_assoc add: algebra_simps)

lemma big_Cons: "big (d # ds) = d * BBASE ^ length ds + big ds"
  using big_append [of "[d]" ds] big_snoc [of "[]" d] by simp

lemma big_zeroes: "\<forall>d \<in> set ds. d = 0 \<Longrightarrow> big ds = 0"
  by (induction ds rule: rev_induct) auto

definition small :: "nat list \<Rightarrow> bool" where
  "small ds \<longleftrightarrow> (\<forall>d \<in> set ds. d < BBASE)"

lemma small_nth: "small ds \<Longrightarrow> i < length ds \<Longrightarrow> ds ! i < BBASE"
  by (simp add: small_def)

lemma small_update: "small ds \<Longrightarrow> d < BBASE \<Longrightarrow> small (ds[i := d])"
  unfolding small_def using set_update_subset_insert [of ds i d] by auto

lemma big_less: "small ds \<Longrightarrow> big ds < BBASE ^ length ds"
proof (induction ds rule: rev_induct)
  case (snoc d ds)
  then have "big ds + 1 \<le> BBASE ^ length ds" "d < BBASE" by (auto simp: small_def)
  then have "(big ds + 1) * BBASE \<le> BBASE ^ length ds * BBASE" by (intro mult_right_mono) simp_all
  then show ?case using \<open>d < BBASE\<close> by simp
qed simp

lemma big_take_Suc: "w < length ds \<Longrightarrow> big (take (Suc w) ds) = big (take w ds) * BBASE + ds ! w"
  by (simp add: take_Suc_conv_app_nth)

lemma big_drop: "w < length ds \<Longrightarrow> big (drop w ds) = ds ! w * BBASE ^ (length ds - Suc w) + big (drop (Suc w) ds)"
  by (simp add: Cons_nth_drop_Suc [symmetric] big_Cons)

lemma big_take_drop: "w \<le> length ds \<Longrightarrow> big ds = big (take w ds) * BBASE ^ (length ds - w) + big (drop w ds)"
  using big_append [of "take w ds" "drop w ds"] by simp

lemma big_drop_zero: "\<forall>i. w \<le> i \<and> i < length ds \<longrightarrow> ds ! i = 0 \<Longrightarrow> big (drop w ds) = 0"
  by (rule big_zeroes) (auto simp: in_set_conv_nth)

lemma big_take_zero: "\<forall>i < w. ds ! i = 0 \<Longrightarrow> w \<le> length ds \<Longrightarrow> big (take w ds) = 0"
  by (rule big_zeroes) (auto simp: in_set_conv_nth)

section \<open>Division by a power of two\<close>

lemma mask_less: "s \<le> 28 \<Longrightarrow> r < 2 ^ s \<Longrightarrow> d < BBASE \<Longrightarrow>
  r * BBASE + d < 2 ^ 64 \<and> (r * BBASE + d) div 2 ^ s < BBASE \<and> (r * BBASE + d) mod 2 ^ s * BBASE < 2 ^ 64"
proof (intro conjI)
  assume s: "s \<le> 28" and r: "r < 2 ^ s" and d: "d < BBASE"
  have p: "(2::nat) ^ s \<le> 2 ^ 28" by (rule power_increasing) (use s in simp_all)
  have "(r + 1) * BBASE \<le> 2 ^ s * BBASE" using r by (intro mult_right_mono) simp_all
  then have 1: "r * BBASE + d < 2 ^ s * BBASE" using d by simp
  also have "\<dots> \<le> 2 ^ 28 * BBASE" using p by (rule mult_right_mono) simp
  finally show "r * BBASE + d < 2 ^ 64" by simp
  show "(r * BBASE + d) div 2 ^ s < BBASE"
    using 1 by (simp add: less_mult_imp_div_less mult.commute)
  have "(r * BBASE + d) mod 2 ^ s < 2 ^ 28" using p by (rule less_le_trans [rotated]) simp
  then have "(r * BBASE + d) mod 2 ^ s * BBASE < 2 ^ 28 * BBASE" by simp
  then show "(r * BBASE + d) mod 2 ^ s * BBASE < 2 ^ 64" by simp
qed

lemma u64_id: "x < 2 ^ 64 \<Longrightarrow> u64 x = x"
  by (simp add: u64_def)

lemma u32_id: "x < BBASE \<Longrightarrow> u32 x = x"
  by (simp add: u32_def)

lemma division_step: "k * b = r * p + c \<Longrightarrow> k * (a * p + b) = (k * a + r) * p + (c :: nat)"
  by (simp add: algebra_simps)

text \<open>One step of the pass, with the remainder as it is kept: times the base.\<close>

lemma shift_right_step:
  assumes "s \<le> 28" "r < 2 ^ s" "small ds" "w < length ds"
  defines "x \<equiv> r * BBASE + ds ! w"
  shows "shift_right s lsd w (r * BBASE) ds =
    (if w \<le> lsd \<or> x mod 2 ^ s \<noteq> 0
     then shift_right s lsd (w + 1) (x mod 2 ^ s * BBASE) (ds[w := x div 2 ^ s])
     else Some (w, ds[w := x div 2 ^ s]))"
proof -
  note m = mask_less [OF assms(1,2) small_nth [OF assms(3,4)], folded x_def]
  show ?thesis
    using m assms(4) by (simp add: shift_right.simps [of s lsd w] Let_def u64_id u32_id flip: x_def)
qed

lemma shift_right_sound:
  assumes "shift_right s lsd w (r * BBASE) ds = Some (e, ds')" "s \<le> 28" "r < 2 ^ s" "small ds"
    "\<And>i. Suc lsd < i \<Longrightarrow> w \<le> i \<Longrightarrow> i < length ds \<Longrightarrow> ds ! i = 0"
  shows "small ds' \<and> length ds' = length ds \<and> take w ds' = take w ds
    \<and> 2 ^ s * big (drop w ds') = r * BBASE ^ (length ds - w) + big (drop w ds)
    \<and> w \<le> e \<and> e < length ds \<and> lsd < e \<and> (\<forall>i. e < i \<and> i < length ds \<longrightarrow> ds' ! i = 0)"
  using assms
proof (induction "length ds - w" arbitrary: w r ds rule: less_induct)
  case less
  have w: "w < length ds" using less.prems(1) by (simp add: shift_right.simps [of s lsd w] split: if_splits)
  define x where "x = r * BBASE + ds ! w"
  define ds1 where "ds1 = ds[w := x div 2 ^ s]"
  note m = mask_less [OF less.prems(2,3) small_nth [OF less.prems(4) w], folded x_def]
  have small1: "small ds1" unfolding ds1_def using less.prems(4) m by (intro small_update) auto
  have len1: "length ds1 = length ds" and nth1: "ds1 ! w = x div 2 ^ s" "\<And>i. i \<noteq> w \<Longrightarrow> ds1 ! i = ds ! i"
    using w by (simp_all add: ds1_def)
  have later: "drop (Suc w) ds1 = drop (Suc w) ds" by (simp add: ds1_def)
  have x: "2 ^ s * (x div 2 ^ s) + x mod 2 ^ s = x" by simp
  note step = shift_right_step [OF less.prems(2-4) w, of lsd, folded x_def, folded ds1_def]
  have pow: "BBASE ^ (length ds - w) = BBASE * BBASE ^ (length ds - Suc w)"
    using w by (simp flip: power_Suc add: Suc_diff_Suc)
  show ?case
  proof (cases "w \<le> lsd \<or> x mod 2 ^ s \<noteq> 0")
    case True
    have "shift_right s lsd (w + 1) (x mod 2 ^ s * BBASE) ds1 = Some (e, ds')"
      using less.prems(1) step True by simp
    then have ih: "small ds'" "length ds' = length ds" "take (w + 1) ds' = take (w + 1) ds1"
      "2 ^ s * big (drop (w + 1) ds') = x mod 2 ^ s * BBASE ^ (length ds - (w + 1)) + big (drop (w + 1) ds1)"
      "w + 1 \<le> e" "e < length ds" "lsd < e" "\<forall>i. e < i \<and> i < length ds \<longrightarrow> ds' ! i = 0"
      using less.hyps [of ds1 "w + 1" "x mod 2 ^ s"] less.prems small1 len1 nth1 w by auto
    have d: "ds' ! w = x div 2 ^ s"
      using ih(3) w len1 nth1(1) by (metis less_add_one nth_take)
    have t: "take w ds' = take w ds"
      using ih(3) by (metis ds1_def le_add1 min.absorb1 take_take take_update_cancel order_refl)
    have "2 ^ s * big (drop w ds') = (2 ^ s * (x div 2 ^ s) + x mod 2 ^ s) * BBASE ^ (length ds - Suc w) + big (drop (Suc w) ds)"
      using big_drop [of w ds'] w ih(2) d later division_step [of "2 ^ s" _ _ _ _ "x div 2 ^ s", OF ih(4)] by simp
    also have "\<dots> = r * BBASE ^ (length ds - w) + big (drop w ds)"
      unfolding x using big_drop [OF w] by (simp add: x_def pow algebra_simps)
    finally show ?thesis using ih t by auto
  next
    case False
    then have e: "e = w" "ds' = ds1" using less.prems(1) step by auto
    have z: "big (drop (Suc w) ds) = 0" using False less.prems(5) by (intro big_drop_zero) auto
    have "2 ^ s * big (drop w ds1) = (2 ^ s * (x div 2 ^ s) + x mod 2 ^ s) * BBASE ^ (length ds - Suc w)"
      using big_drop [of w ds1] w len1 nth1(1) later z False by simp
    also have "\<dots> = r * BBASE ^ (length ds - w) + big (drop w ds)"
      unfolding x using big_drop [OF w] z by (simp add: x_def pow algebra_simps)
    finally show ?thesis using e small1 len1 w False less.prems(5) nth1 by (auto simp: ds1_def)
  qed
qed

lemma shift_right_returns:
  assumes "s \<le> 28" "r < 2 ^ s" "small ds" "w \<le> l" "lsd < l" "l < length ds"
    "2 ^ s dvd r * BBASE ^ Suc (l - w) + big (take (Suc (l - w)) (drop w ds))"
  shows "\<exists>e ds'. shift_right s lsd w (r * BBASE) ds = Some (e, ds') \<and> e \<le> l"
  using assms
proof (induction "l - w" arbitrary: w r ds rule: less_induct)
  case less
  have w: "w < length ds" using less.prems by simp
  define x where "x = r * BBASE + ds ! w"
  define ds1 where "ds1 = ds[w := x div 2 ^ s]"
  note m = mask_less [OF less.prems(1,2) small_nth [OF less.prems(3) w], folded x_def]
  note step = shift_right_step [OF less.prems(1-3) w, of lsd, folded x_def, folded ds1_def]
  have small1: "small ds1" unfolding ds1_def using less.prems(3) m by (intro small_update) auto
  have "take (Suc (l - w)) (drop w ds) = ds ! w # take (l - w) (drop (Suc w) ds)"
    using w by (simp add: Cons_nth_drop_Suc [symmetric])
  then have "r * BBASE ^ Suc (l - w) + big (take (Suc (l - w)) (drop w ds))
      = x * BBASE ^ (l - w) + big (take (l - w) (drop (Suc w) ds))"
    using less.prems(4-6) by (simp add: big_Cons x_def algebra_simps)
  also have "\<dots> = 2 ^ s * (x div 2 ^ s * BBASE ^ (l - w))
      + (x mod 2 ^ s * BBASE ^ (l - w) + big (take (l - w) (drop (Suc w) ds)))"
    by (simp flip: add.assoc distrib_right mult.assoc)
  finally have dvd: "2 ^ s dvd x mod 2 ^ s * BBASE ^ (l - w) + big (take (l - w) (drop (Suc w) ds))"
    using less.prems(7) by (metis dvd_add_right_iff dvd_triv_left)
  show ?case
  proof (cases "w \<le> lsd \<or> x mod 2 ^ s \<noteq> 0")
    case True
    have "w < l"
    proof (rule ccontr)
      assume "\<not> w < l"
      then have "w = l" using less.prems(4) by simp
      then have "2 ^ s dvd x mod 2 ^ s" using dvd by simp
      then have "x mod 2 ^ s = 0" by (simp add: mod_eq_0_iff_dvd dvd_mod_iff)
      then show False using True \<open>w = l\<close> less.prems(5) by simp
    qed
    moreover have "Suc (l - (w + 1)) = l - w" using calculation by simp
    ultimately have "\<exists>e ds'. shift_right s lsd (w + 1) (x mod 2 ^ s * BBASE) ds1 = Some (e, ds') \<and> e \<le> l"
      using less.hyps [of "w + 1" "x mod 2 ^ s" ds1] less.prems small1 dvd by (simp add: ds1_def)
    then show ?thesis using step True by simp
  next
    case False
    then show ?thesis using step less.prems(4) by simp
  qed
qed

section \<open>The state of the passes\<close>

text \<open>
  The digits between the two ends, of a bignum of the array's length; and the number they stand for, in
  units of the last place.
\<close>

definition bignum_ok :: "nat \<Rightarrow> nat \<Rightarrow> nat list \<Rightarrow> bool" where
  "bignum_ok msd lsd ds \<longleftrightarrow> small ds \<and> length ds = 156 \<and> msd < 156 \<and> ds ! msd \<noteq> 0
     \<and> (\<forall>i < msd. ds ! i = 0) \<and> (\<forall>i. lsd < i \<and> i < 156 \<longrightarrow> ds ! i = 0)"

definition units :: nat where
  "units = BBASE ^ 121"

lemma units_split: "34 \<le> l \<Longrightarrow> l \<le> 155 \<Longrightarrow> units = BBASE ^ (l - 34) * BBASE ^ (155 - l)"
  unfolding units_def power_add [symmetric] by (rule arg_cong [where f = "power BBASE"]) simp

lemma units_pos: "0 < units"
  unfolding units_def by (rule zero_less_power) simp

lemma first_nonzero_spec:
  "big ds \<noteq> 0 \<Longrightarrow> \<forall>j < i. ds ! j = 0 \<Longrightarrow> i \<le> length ds \<Longrightarrow>
   first_nonzero ds i < length ds \<and> ds ! first_nonzero ds i \<noteq> 0 \<and> (\<forall>j < first_nonzero ds i. ds ! j = 0)"
proof (induction ds i rule: first_nonzero.induct)
  case (1 ds i)
  have "i \<noteq> length ds" using 1(2,3) big_take_zero [of i ds] by auto
  then show ?case
    using 1 by (cases "ds ! i = 0") (auto simp: first_nonzero.simps [of ds i] less_Suc_eq)
qed

lemma last_nonzero_zeroes:
  "\<forall>j. i < j \<and> j < n \<longrightarrow> ds ! j = 0 \<Longrightarrow> \<forall>j. last_nonzero ds i < j \<and> j < n \<longrightarrow> ds ! j = 0"
proof (induction ds i rule: last_nonzero.induct)
  case (1 ds i)
  show ?case
  proof (cases "i = 0 \<or> ds ! i \<noteq> 0")
    case True
    then show ?thesis using 1(2) by (simp add: last_nonzero.simps [of ds i])
  next
    case False
    have "\<forall>j. i - 1 < j \<and> j < n \<longrightarrow> ds ! j = 0"
    proof (intro allI impI)
      fix j assume "i - 1 < j \<and> j < n"
      then show "ds ! j = 0" using 1(2) False by (cases "j = i") auto
    qed
    then show ?thesis using 1(1) False by (simp add: last_nonzero.simps [of ds i])
  qed
qed

lemma last_nonzero_le: "last_nonzero ds i \<le> i"
proof (induction ds i rule: last_nonzero.induct)
  case (1 ds i)
  then show ?case by (cases "i = 0 \<or> ds ! i \<noteq> 0") (auto simp: last_nonzero.simps [of ds i])
qed

text \<open>
  The passes of a division by \<open>2 ^ t\<close> in all, after passes by \<open>2 ^ (t - rest)\<close>. \<open>v\<close>: how often two divides
  the fraction. The last digit does not leave the array.
\<close>

lemma pass_bound:
  assumes "lsd \<le> 34 + max ((t + 27) div 28) ((t - v + 8) div 9)"
    "e \<le> max (34 + (t + 28 - v + 8) div 9) (lsd + 1)"
  shows "e \<le> 34 + max ((t + 28 + 27) div 28) ((t + 28 - v + 8) div (9 :: nat))"
proof -
  have 1: "(t + 28 + 27) div 28 = (t + 27) div 28 + 1" by simp
  have 2: "(t - v + 8) div 9 = 0 \<or> (t - v + 8) div 9 + 1 \<le> (t + 28 - v + 8) div 9"
  proof (cases "v \<le> t")
    case True
    then obtain y where "t = v + y" using le_Suc_ex by blast
    have "(y + 8) div 9 + 1 = (y + 8 + 9) div 9" by simp
    also have "\<dots> \<le> (v + y + 28 - v + 8) div 9" by (rule div_le_mono) simp
    finally show ?thesis using \<open>t = v + y\<close> by simp
  qed simp
  have "e \<le> 34 + (t + 28 - v + 8) div 9 \<or> e \<le> lsd + 1" using assms(2) by (simp only: le_max_iff_disj)
  moreover have "lsd \<le> 34 + (t + 27) div 28 \<or> lsd \<le> 34 + (t - v + 8) div 9"
    using assms(1) by (simp only: nat_add_max_right le_max_iff_disj)
  ultimately show ?thesis using 2 unfolding 1 nat_add_max_right le_max_iff_disj by linarith
qed

lemma passes_stay_inside:
  assumes "lsd \<le> 34 + max ((t + 27) div 28) ((t - v + 8) div 9)" "t + rest \<le> 1126" "t + rest - v \<le> (1074 :: nat)" "s \<le> rest"
  shows "lsd < 155" "34 + (t + s - v + 8) div 9 < 155"
proof -
  have "(t + 27) div 28 \<le> 1153 div 28" "(t - v + 8) div 9 \<le> 1082 div 9" "(t + s - v + 8) div 9 \<le> 1082 div 9"
    by (rule div_le_mono, use assms(2-4) in linarith)+
  then have m: "(t + 27) div 28 \<le> 41" "(t - v + 8) div 9 \<le> 120" "(t + s - v + 8) div 9 \<le> 120" by simp_all
  have "lsd \<le> 34 + (t + 27) div 28 \<or> lsd \<le> 34 + (t - v + 8) div 9"
    using assms(1) by (simp only: nat_add_max_right le_max_iff_disj)
  then show "lsd < 155" using m by linarith
  show "34 + (t + s - v + 8) div 9 < 155" using m by linarith
qed

lemma shift_covered: "34 + (u + 8) div 9 \<le> l \<Longrightarrow> u \<le> 9 * (l - (34 :: nat))"
  by simp

lemma apply_right_spec:
  assumes "bignum_ok msd lsd ds" "big ds * 2 ^ t = f * units" "2 ^ v dvd f" "0 < f"
    "lsd \<le> 34 + max ((t + 27) div 28) ((t - v + 8) div 9)" "msd \<le> lsd"
    "t + rest \<le> 1126" "t + rest - v \<le> 1074" "t mod 28 = 0"
  shows "\<exists>msd' lsd' ds'. apply_right rest msd lsd ds = Some (msd', lsd', ds') \<and> bignum_ok msd' lsd' ds'
    \<and> big ds' * 2 ^ (t + rest) = f * units \<and> lsd' < 156"
  using assms
proof (induction rest arbitrary: msd lsd ds t rule: less_induct)
  case (less rest)
  note ok = less.prems(1) [unfolded bignum_ok_def]
  show ?case
  proof (cases "rest = 0")
    case True
    have "lsd < 156" using passes_stay_inside(1) [OF less.prems(5,7,8), of 0] by simp
    then show ?thesis using less.prems(1,2) True by (simp add: apply_right.simps [of 0])
  next
    case False
    define s where "s = min 28 rest"
    have s: "s \<le> 28" "0 < s" "s \<le> rest" using False by (auto simp: s_def)
    define l where "l = max (34 + (t + s - v + 8) div 9) (lsd + 1)"
    have l: "lsd < l" "34 + (t + s - v + 8) div 9 \<le> l" by (simp_all only: l_def le_max_iff_disj less_max_iff_disj less_add_one order_refl simp_thms)
    have l156: "34 \<le> l" "l < 156"
      using passes_stay_inside [OF less.prems(5,7,8) s(3)] l(2) unfolding l_def max_less_iff_conj by linarith+
    have zero_after: "\<forall>i. l < i \<and> i < 156 \<longrightarrow> ds ! i = 0" using ok l(1) by auto
    have pre: "big ds = big (take (Suc l) ds) * BBASE ^ (155 - l)"
      using big_take_drop [of "Suc l" ds] big_drop_zero [of "Suc l" ds] ok l156 zero_after by simp
    have "big (take (Suc l) ds) * 2 ^ t * BBASE ^ (155 - l) = f * BBASE ^ (l - 34) * BBASE ^ (155 - l)"
      using less.prems(2) pre units_split [of l] l156 by (simp add: algebra_simps)
    then have scaled: "big (take (Suc l) ds) * 2 ^ t = f * BBASE ^ (l - 34)" by simp
    have "(2::nat) ^ (9 * (l - 34)) dvd BBASE ^ (l - 34)"
    proof -
      have "(2::nat) ^ 9 dvd BBASE" by simp
      then show ?thesis unfolding power_mult by (rule dvd_power_same)
    qed
    then have "2 ^ v * 2 ^ (9 * (l - 34)) dvd big (take (Suc l) ds) * 2 ^ t"
      unfolding scaled using less.prems(3) by (rule mult_dvd_mono [rotated])
    moreover have "s + t \<le> v + 9 * (l - 34)" using shift_covered [OF l(2)] by linarith
    ultimately have "2 ^ (s + t) dvd big (take (Suc l) ds) * 2 ^ t"
      using dvd_trans [OF le_imp_power_dvd] unfolding power_add [symmetric] by blast
    then have dvd: "2 ^ s dvd big (take (Suc l) ds)" by (simp add: power_add)
    have "msd \<le> l" using less.prems(6) l(1) by simp
    have "take (Suc l) ds = take msd ds @ take (Suc (l - msd)) (drop msd ds)"
      using \<open>msd \<le> l\<close> by (metis Suc_diff_le le_SucI le_add_diff_inverse take_add)
    then have "big (take (Suc l) ds) = big (take (Suc (l - msd)) (drop msd ds))"
      using big_take_zero [of msd ds] ok by (simp add: big_append)
    then obtain e ds1 where e: "shift_right s lsd msd 0 ds = Some (e, ds1)" "e \<le> l"
      using shift_right_returns [of s 0 ds msd l lsd] s ok l(1) l156 dvd \<open>msd \<le> l\<close> by auto
    note sound = shift_right_sound [of s lsd msd 0 ds e ds1]
    have ds1: "small ds1" "length ds1 = 156" "take msd ds1 = take msd ds" "msd \<le> e" "lsd < e"
      "2 ^ s * big (drop msd ds1) = big (drop msd ds)" "\<forall>i. e < i \<and> i < 156 \<longrightarrow> ds1 ! i = 0"
      using sound e s ok by auto
    have big1: "big ds1 * 2 ^ (t + s) = f * units"
    proof -
      have "2 ^ s * big ds1 = big ds"
        using big_take_drop [of msd ds1] big_take_drop [of msd ds] big_take_zero [of msd ds] ds1 ok by simp
      then have "big ds1 * 2 ^ (t + s) = big ds * 2 ^ t" unfolding power_add by (metis mult.assoc mult.commute)
      then show ?thesis using less.prems(2) by simp
    qed
    have zero1: "\<forall>j < msd. ds1 ! j = 0" using ds1(3) ok by (metis nth_take)
    have "0 < f * units" using less.prems(4) units_pos by simp
    then have nonzero: "big ds1 \<noteq> 0" unfolding big1 [symmetric] by (intro notI) (simp only: mult_0 less_irrefl)
    define msd1 where "msd1 = first_nonzero ds1 msd"
    have msd1: "msd1 < 156" "ds1 ! msd1 \<noteq> 0" "\<forall>j < msd1. ds1 ! j = 0"
      using first_nonzero_spec [OF nonzero zero1] ok ds1(2) by (auto simp: msd1_def)
    have ok1: "bignum_ok msd1 e ds1" using ds1 msd1 by (simp add: bignum_ok_def)
    have step: "apply_right rest msd lsd ds = apply_right (rest - s) msd1 e ds1"
      using False e by (simp add: apply_right.simps [of rest] Let_def s_def msd1_def)
    show ?thesis
    proof (cases "rest - s = 0")
      case True
      then show ?thesis using step ok1 big1 e l156 s by (simp add: apply_right.simps [of 0])
    next
      case more: False
      then have s28: "s = 28" by (simp add: s_def)
      have "msd1 \<le> e" using msd1 ds1(7) by (metis not_le)
      moreover have "e \<le> 34 + max ((t + s + 27) div 28) ((t + s - v + 8) div 9)"
        using pass_bound [OF less.prems(5), of e] e(2) s28 by (simp only: l_def)
      moreover have "(t + s) mod 28 = 0" using less.prems(9) s28 by simp
      ultimately have "\<exists>msd' lsd' ds'. apply_right (rest - s) msd1 e ds1 = Some (msd', lsd', ds') \<and> bignum_ok msd' lsd' ds'
          \<and> big ds' * 2 ^ (t + s + (rest - s)) = f * units \<and> lsd' < 156"
        using s False less.prems(3,4,7,8) ok1 big1 by (intro less.IH) simp_all
      then show ?thesis using step s by simp
    qed
  qed
qed

section \<open>Multiplication by a power of two\<close>

lemma product_bounds:
  assumes "s \<le> 28" "c < 2 ^ s" "d < BBASE"
  shows "d * 2 ^ s < 2 ^ 64" "d * 2 ^ s + c < 2 ^ 64" "(d * 2 ^ s + c) div BBASE < 2 ^ s"
proof -
  have p: "(2::nat) ^ s \<le> 2 ^ 28" by (rule power_increasing) (use assms(1) in simp_all)
  have "(d + 1) * 2 ^ s \<le> BBASE * 2 ^ s" by (rule mult_right_mono) (use assms(3) in simp_all)
  then have 1: "d * 2 ^ s + c < BBASE * 2 ^ s" using assms(2) unfolding distrib_right by linarith
  also have "\<dots> \<le> BBASE * 2 ^ 28" using p by (intro mult_left_mono) simp_all
  finally show "d * 2 ^ s + c < 2 ^ 64" "d * 2 ^ s < 2 ^ 64" by simp_all
  show "(d * 2 ^ s + c) div BBASE < 2 ^ s" using 1 by (simp add: less_mult_imp_div_less mult.commute)
qed

lemma multiplication_step: "(p * k + x div b) * b + x mod b = p * b * k + (x :: nat)"
  by (simp add: algebra_simps)

lemma shift_left_spec:
  assumes "s \<le> 28" "c < 2 ^ s" "small ds" "k \<le> length ds" "\<forall>i < msd. i < k \<longrightarrow> ds ! i = 0"
    "msd < length ds" "ds ! msd \<noteq> 0 \<or> k \<le> msd" "k \<le> msd \<longrightarrow> c \<noteq> 0" "big (take k ds) * 2 ^ s + c < BBASE ^ k"
  shows "\<exists>m ds'. shift_left s msd k c ds = Some (m, ds') \<and> small ds' \<and> length ds' = length ds
    \<and> drop k ds' = drop k ds \<and> big (take k ds') = big (take k ds) * 2 ^ s + c
    \<and> m < k \<and> ds' ! m \<noteq> 0 \<and> (\<forall>i < m. ds' ! i = 0)"
  using assms
proof (induction k arbitrary: c ds)
  case 0
  then show ?case by simp
next
  case (Suc w)
  have w: "w < length ds" using Suc.prems(4) by simp
  define x where "x = ds ! w * 2 ^ s + c"
  define ds1 where "ds1 = ds[w := x mod BBASE]"
  note b = product_bounds [OF Suc.prems(1,2) small_nth [OF Suc.prems(3) w], folded x_def]
  have small1: "small ds1" unfolding ds1_def using Suc.prems(3) by (intro small_update) simp_all
  have nth1: "ds1 ! w = x mod BBASE" "\<And>i. i \<noteq> w \<Longrightarrow> ds1 ! i = ds ! i" and len1: "length ds1 = length ds"
    using w by (simp_all add: ds1_def)
  have take1: "take w ds1 = take w ds" by (simp add: ds1_def)
  have step: "shift_left s msd (Suc w) c ds =
      (if w > msd \<or> x div BBASE \<noteq> 0 then shift_left s msd w (x div BBASE) ds1 else Some (w, ds1))"
    using b by (simp add: Let_def u64_id u32_id x_def [symmetric] ds1_def)
  have total: "(big (take w ds) * 2 ^ s + x div BBASE) * BBASE + x mod BBASE = big (take (Suc w) ds) * 2 ^ s + c"
    unfolding big_take_Suc [OF w] multiplication_step by (simp add: x_def algebra_simps)
  show ?case
  proof (cases "w > msd \<or> x div BBASE \<noteq> 0")
    case True
    have "(big (take w ds) * 2 ^ s + x div BBASE) * BBASE < BBASE ^ w * BBASE"
      using total Suc.prems(9) by simp
    then have "big (take w ds1) * 2 ^ s + x div BBASE < BBASE ^ w" unfolding take1 by simp
    moreover have "\<forall>i < msd. i < w \<longrightarrow> ds1 ! i = 0" using Suc.prems(5) nth1(2) by auto
    moreover have "ds1 ! msd \<noteq> 0 \<or> w \<le> msd" using Suc.prems(7) nth1(2) [of msd] by linarith
    moreover have "w \<le> msd \<longrightarrow> x div BBASE \<noteq> 0" using True by linarith
    ultimately obtain m ds' where ih: "shift_left s msd w (x div BBASE) ds1 = Some (m, ds')" "small ds'"
      "length ds' = length ds" "drop w ds' = drop w ds1" "big (take w ds') = big (take w ds) * 2 ^ s + x div BBASE"
      "m < w" "ds' ! m \<noteq> 0" "\<forall>i < m. ds' ! i = 0"
      using Suc.IH [of "x div BBASE" ds1] Suc.prems(1,4,6) b(3) small1 len1 take1 by auto
    have "ds' ! w = x mod BBASE" using ih(3,4) w nth1(1) len1 by (metis hd_drop_conv_nth)
    then have "big (take (Suc w) ds') = big (take (Suc w) ds) * 2 ^ s + c"
      using big_take_Suc [of w ds'] w ih(3,5) total by simp
    moreover have "drop (Suc w) ds' = drop (Suc w) ds"
      using ih(4) by (metis drop_Suc drop_update_cancel ds1_def lessI tl_drop)
    ultimately show ?thesis using step True ih by auto
  next
    case False
    have zero: "big (take w ds) = 0" using Suc.prems(5) False w by (intro big_take_zero) auto
    have x: "x mod BBASE = x" using False by (simp add: div_eq_0_iff)
    have "x \<noteq> 0"
    proof (cases "w = msd")
      case True
      then show ?thesis using Suc.prems(7) by (simp add: x_def)
    next
      case other: False
      then show ?thesis using Suc.prems(8) False by (simp add: x_def)
    qed
    moreover have "big (take (Suc w) ds1) = big (take (Suc w) ds) * 2 ^ s + c"
    proof -
      have "big (take (Suc w) ds1) = x mod BBASE" using big_take_Suc [of w ds1] w len1 nth1(1) take1 zero by simp
      moreover have "x div BBASE = 0" using False by simp
      ultimately show ?thesis using total unfolding zero by (simp only: mult_0 add_0)
    qed
    moreover have "\<forall>i < w. ds1 ! i = 0" using Suc.prems(5) False nth1(2) by auto
    ultimately show ?thesis using step False small1 len1 nth1(1) x by (auto simp: ds1_def)
  qed
qed

lemma apply_left_spec:
  assumes "bignum_ok msd lsd ds" "big ds = f * 2 ^ t * units" "lsd < 156" "0 < f"
    "f * 2 ^ (t + rest) < BBASE ^ 35"
  shows "\<exists>msd' lsd' ds'. apply_left rest msd lsd ds = Some (msd', lsd', ds') \<and> bignum_ok msd' lsd' ds'
    \<and> big ds' = f * 2 ^ (t + rest) * units \<and> lsd' < 156"
  using assms
proof (induction rest arbitrary: msd lsd ds t rule: less_induct)
  case (less rest)
  note ok = less.prems(1) [unfolded bignum_ok_def]
  show ?case
  proof (cases "rest = 0")
    case True
    then show ?thesis using less.prems(1-3) by (simp add: apply_left.simps [of 0])
  next
    case False
    define s where "s = min 28 rest"
    have s: "s \<le> 28" "0 < s" "s \<le> rest" using False by (auto simp: s_def)
    have msd: "msd \<le> lsd" using ok by (metis not_le)
    have split: "big ds = big (take (Suc lsd) ds) * BBASE ^ (155 - lsd)"
      using big_take_drop [of "Suc lsd" ds] big_drop_zero [of "Suc lsd" ds] ok less.prems(3) by simp
    have fits: "big (take (Suc lsd) ds) * 2 ^ s + 0 < BBASE ^ Suc lsd"
    proof -
      have "f * 2 ^ (t + s) \<le> f * 2 ^ (t + rest)" using s(3) by simp
      then have "f * 2 ^ (t + s) < BBASE ^ 35" using less.prems(5) by (rule le_less_trans)
      then have "f * 2 ^ (t + s) * units < BBASE ^ 35 * units" using units_pos by (rule mult_strict_right_mono)
      also have "\<dots> = BBASE ^ Suc lsd * BBASE ^ (155 - lsd)"
        unfolding units_def power_add [symmetric]
        by (rule arg_cong [where f = "power BBASE"]) (use less.prems(3) in simp)
      finally have less: "f * 2 ^ (t + s) * units < BBASE ^ Suc lsd * BBASE ^ (155 - lsd)" .
      have "big (take (Suc lsd) ds) * 2 ^ s * BBASE ^ (155 - lsd) = big ds * 2 ^ s"
        unfolding split by (simp only: mult_ac)
      also have "\<dots> = f * 2 ^ (t + s) * units" unfolding less.prems(2) power_add by (simp only: mult_ac)
      finally have "big (take (Suc lsd) ds) * 2 ^ s * BBASE ^ (155 - lsd) < BBASE ^ Suc lsd * BBASE ^ (155 - lsd)"
        using less by simp
      then show ?thesis by simp
    qed
    obtain m ds1 where m: "shift_left s msd (Suc lsd) 0 ds = Some (m, ds1)" "small ds1" "length ds1 = 156"
      "drop (Suc lsd) ds1 = drop (Suc lsd) ds" "big (take (Suc lsd) ds1) = big (take (Suc lsd) ds) * 2 ^ s"
      "m < Suc lsd" "ds1 ! m \<noteq> 0" "\<forall>i < m. ds1 ! i = 0"
      using shift_left_spec [OF s(1) _ _ _ _ _ _ _ fits, of msd] ok less.prems(3) msd by auto
    have zero1: "\<forall>i. lsd < i \<and> i < 156 \<longrightarrow> ds1 ! i = 0"
    proof (intro allI impI)
      fix i assume i: "lsd < i \<and> i < 156"
      then have "ds1 ! i = drop (Suc lsd) ds1 ! (i - Suc lsd)" using m(3) by simp
      also have "\<dots> = ds ! i" unfolding m(4) using i ok by simp
      finally show "ds1 ! i = 0" using i ok by simp
    qed
    have "big ds1 = big (take (Suc lsd) ds1) * BBASE ^ (155 - lsd)"
      using big_take_drop [of "Suc lsd" ds1] big_drop_zero [of "Suc lsd" ds1] m(3) zero1 less.prems(3) by simp
    then have big1: "big ds1 = f * 2 ^ (t + s) * units"
      using split less.prems(2) m(5) by (simp add: power_add mult_ac)
    define lsd1 where "lsd1 = last_nonzero ds1 lsd"
    have ok1: "bignum_ok m lsd1 ds1"
      using m less.prems(3) last_nonzero_zeroes [OF zero1] by (auto simp: bignum_ok_def lsd1_def)
    have "lsd1 < 156" using last_nonzero_le [of ds1 lsd] less.prems(3) by (simp add: lsd1_def)
    have total: "t + s + (rest - s) = t + rest" using s by simp
    have "\<exists>msd' lsd' ds'. apply_left (rest - s) m lsd1 ds1 = Some (msd', lsd', ds') \<and> bignum_ok msd' lsd' ds'
        \<and> big ds' = f * 2 ^ (t + s + (rest - s)) * units \<and> lsd' < 156"
      by (rule less.IH [OF _ ok1 big1 \<open>lsd1 < 156\<close> less.prems(4)])
        (use s in linarith, simp only: total less.prems(5))
    moreover have "apply_left rest msd lsd ds = apply_left (rest - s) m lsd1 ds1"
      using False m(1) by (simp add: apply_left.simps [of rest] Let_def s_def lsd1_def)
    ultimately show ?thesis using s by simp
  qed
qed

section \<open>The bignum of a double\<close>

text \<open>The doubles that are finite numbers: those below the normal range have fewer bits.\<close>

definition finite_dbl :: "dbl \<Rightarrow> bool" where
  "finite_dbl d \<longleftrightarrow> dbl_fraction d = 0 \<or>
     (2 ^ 52 \<le> dbl_fraction d \<and> dbl_fraction d < 2 ^ 53 \<and> -1126 \<le> dbl_exponent d \<and> dbl_exponent d \<le> 971
      \<and> (dbl_exponent d < -1074 \<longrightarrow> 2 ^ nat (-1074 - dbl_exponent d) dvd dbl_fraction d))"

lemma load_fraction_spec:
  assumes "2 ^ 52 \<le> f" "f < 2 ^ 53"
  shows "load_fraction f 34 (replicate 156 0) = (32, replicate 33 0 @ [f div BBASE, f mod BBASE] @ replicate 121 0)"
proof -
  have d: "f div BBASE < BBASE" "f div BBASE \<noteq> 0" "f \<noteq> 0" "f div BBASE div BBASE = 0" using assms by auto
  have "((replicate 156 0)[34 := f mod BBASE])[33 := f div BBASE]
      = replicate 33 0 @ [f div BBASE, f mod BBASE] @ replicate 121 0"
    by (rule nth_equalityI) (auto simp: nth_append nth_list_update nth_Cons' split: if_splits)
  then show ?thesis
    using d by (simp add: load_fraction.simps [of f] load_fraction.simps [of "f div BBASE"] load_fraction.simps [of 0] u32_id
       )
qed

lemma nat_add_156: "155 + 1 = (156 :: nat)" by simp

lemma bignum_spec:
  assumes "2 ^ 52 \<le> f" "f < 2 ^ 53" "-1126 \<le> x" "x \<le> 971" "x < -1074 \<longrightarrow> 2 ^ nat (-1074 - x) dvd f"
  shows "\<exists>msd lsd ds. bignum f x = Some (msd, lsd, ds) \<and> bignum_ok msd lsd ds \<and> lsd < 156
    \<and> big ds * 2 ^ nat (- x) = f * 2 ^ nat x * units"
proof -
  define ds where "ds = replicate 33 0 @ [f div BBASE, f mod BBASE] @ replicate 121 0"
  have len: "length ds = 156" by (simp add: ds_def)
  have f: "f div BBASE < BBASE" "f div BBASE \<noteq> 0" "0 < f" using assms by auto
  have nth: "ds ! i = (if i = 33 then f div BBASE else if i = 34 then f mod BBASE else 0)" if "i < 156" for i
    using that by (auto simp: ds_def nth_append nth_Cons')
  have zero: "\<forall>i. 34 < i \<and> i < 156 \<longrightarrow> ds ! i = 0" using nth by auto
  define lsd where "lsd = last_nonzero ds 34"
  have lsd: "lsd \<le> 34" "\<forall>i. lsd < i \<and> i < 156 \<longrightarrow> ds ! i = 0"
    using last_nonzero_le last_nonzero_zeroes [OF zero] by (simp_all add: lsd_def)
  have "small ds" using f by (auto simp: small_def ds_def)
  then have ok: "bignum_ok 33 lsd ds" using len nth f lsd by (auto simp: bignum_ok_def)
  have msd: "33 \<le> lsd" using lsd(2) nth [of 33] f(2) by (metis not_le numeral_less_iff rel_simps)
  have big: "big ds = f * units"
  proof -
    have z: "big (replicate n 0) = 0" for n by (rule big_zeroes) simp
    have "big ds = big ((replicate 33 0 @ [f div BBASE]) @ [f mod BBASE]) * BBASE ^ length (replicate 121 (0 :: nat)) + 0"
      using big_append [of "(replicate 33 0 @ [f div BBASE]) @ [f mod BBASE]" "replicate 121 0"] z [of 121]
      by (simp only: ds_def append_assoc append_Cons append_Nil)
    also have "\<dots> = f * units"
      unfolding big_snoc z length_replicate units_def
      by (simp only: mult_0 add_0 add_0_right div_mult_mod_eq)
    finally show ?thesis .
  qed
  have b: "bignum f x = (if x < 0 then apply_right (nat (- x)) 33 lsd ds else apply_left (nat x) 33 lsd ds)"
    unfolding bignum_def constants nat_add_156 load_fraction_spec [OF assms(1,2), folded ds_def] by (simp add: lsd_def)
  show ?thesis
  proof (cases "x < 0")
    case True
    define v where "v = nat (-1074 - x)"
    have "2 ^ v dvd f" using assms(5) by (cases "x < -1074") (simp_all add: v_def)
    moreover have "0 + nat (- x) \<le> 1126" "0 + nat (- x) - v \<le> 1074" using assms(3) by (simp_all add: v_def)
    ultimately obtain msd' lsd' ds' where "apply_right (nat (- x)) 33 lsd ds = Some (msd', lsd', ds')"
      "bignum_ok msd' lsd' ds'" "big ds' * 2 ^ (0 + nat (- x)) = f * units" "lsd' < 156"
      using apply_right_spec [of 33 lsd ds 0 f v "nat (- x)"] ok big f(3) lsd(1) msd by auto
    then show ?thesis using b True by simp
  next
    case False
    have pow: "(2 :: nat) ^ nat x \<le> 2 ^ 971" by (rule power_increasing) (use assms(4) in simp_all)
    have "f * 2 ^ nat x < 2 ^ 53 * 2 ^ 971"
      by (rule mult_less_le_imp_less [OF assms(2) pow]) simp_all
    also have "\<dots> < BBASE ^ 35" by simp
    finally have "f * 2 ^ (0 + nat x) < BBASE ^ 35" by simp
    then obtain msd' lsd' ds' where "apply_left (nat x) 33 lsd ds = Some (msd', lsd', ds')"
      "bignum_ok msd' lsd' ds'" "big ds' = f * 2 ^ (0 + nat x) * units" "lsd' < 156"
      using apply_left_spec [of 33 lsd ds f 0 "nat x"] ok big f(3) lsd(1) by auto
    then show ?thesis using b False by simp
  qed
qed

end
