(* ===== verification/Rounding.thy ===== *)
theory Rounding
  imports DigitsProps
begin

text \<open>
  The digits that to_digits gives are those of the number rounded to the nearest multiple of a power of
  ten, ties to even: a reference definition on natural numbers, the rounding of a bignum, the carries and
  the decimal digits.
\<close>

section \<open>The reference: rounding a quotient\<close>

definition nearest_even :: "nat \<Rightarrow> nat \<Rightarrow> nat" where
  "nearest_even p q =
     (let n = p div q; t = p mod q in if 2 * t > q \<or> (2 * t = q \<and> odd n) then n + 1 else n)"

lemma nearest_even_scale: "0 < c \<Longrightarrow> nearest_even (p * c) (q * c) = nearest_even p q"
  by (simp add: nearest_even_def Let_def mult_mod_left mult.assoc [symmetric] del: mult_mod_left [symmetric])

lemma nearest_even_cross:
  assumes "p * k = v * q" "0 < q" "0 < k"
  shows "nearest_even p q = nearest_even v k"
proof -
  have "nearest_even p q = nearest_even (p * k) (q * k)" by (rule nearest_even_scale [OF assms(3), symmetric])
  also have "\<dots> = nearest_even (v * q) (k * q)" by (simp only: assms(1) mult.commute [of q k])
  also have "\<dots> = nearest_even v k" by (rule nearest_even_scale [OF assms(2)])
  finally show ?thesis .
qed

lemma nearest_even_le: "nearest_even p q \<le> p div q + 1"
  by (simp add: nearest_even_def Let_def)

section \<open>Comparison with one half\<close>

lemma big_eq_0: "big ds = 0 \<longleftrightarrow> (\<forall>d \<in> set ds. d = 0)"
  by (induction ds rule: rev_induct) auto

lemma small_drop: "small ds \<Longrightarrow> small (drop n ds)"
  by (auto simp: small_def dest: in_set_dropD)

lemma is_zero_spec:
  assumes "length ds = 156" "\<forall>i. lsd < i \<and> i < 156 \<longrightarrow> ds ! i = 0" "lsd < 156"
  shows "is_zero c w lsd ds \<longleftrightarrow> c = 0 \<and> big (drop (Suc w) ds) = 0"
proof -
  have "(\<forall>i \<in> {w<..lsd}. ds ! i = 0) \<longleftrightarrow> (\<forall>d \<in> set (drop (Suc w) ds). d = 0)" (is "?l \<longleftrightarrow> ?r")
  proof
    assume l: ?l
    have "ds ! (Suc w + j) = 0" if "j < 156 - Suc w" for j
      using l assms(2) that by (cases "Suc w + j \<le> lsd") auto
    then show ?r using assms(1) by (auto simp: in_set_conv_nth)
  next
    assume r: ?r
    show ?l
    proof
      fix i assume i: "i \<in> {w<..lsd}"
      then have "drop (Suc w) ds ! (i - Suc w) = ds ! i" "i - Suc w < length (drop (Suc w) ds)"
        using assms(1,3) by auto
      then show "ds ! i = 0" using r by (metis nth_mem)
    qed
  qed
  then show ?thesis by (simp add: is_zero_def big_eq_0)
qed

lemma compare_half_spec:
  assumes "small ds" "length ds = 156" "\<forall>i. lsd < i \<and> i < 156 \<longrightarrow> ds ! i = 0" "w < 156" "lsd < 156"
    and "m * k = BBASE" "even m" "c < m" "c = 0 \<or> w \<le> lsd"
    and tail: "tail = c * BBASE ^ (155 - w) + big (drop (Suc w) ds)" and unit: "unit = m * BBASE ^ (155 - w)"
  shows "compare_half (c * k) w lsd ds = (if 2 * tail < unit then -1 else if 2 * tail = unit then 0 else 1)"
proof -
  define W where "W = BBASE ^ (155 - w)"
  define rest where "rest = big (drop (Suc w) ds)"
  obtain h where h: "m = 2 * h" using assms(7) by blast
  have half: "BBASE div 2 = h * k" using assms(6) h by simp
  have k: "0 < k" using assms(6) by (cases k) auto
  have h0: "0 < h" using assms(6) h by (cases h) auto
  have "rest < W" using big_less [OF small_drop [OF assms(1), of "Suc w"]] assms(2,4) by (simp add: rest_def W_def)
  have sum: "2 * tail = c * (2 * W) + 2 * rest" "unit = h * (2 * W)"
    by (simp_all add: tail unit rest_def W_def h)
  consider "c < h" | "c = h" | "h < c" by linarith
  then show ?thesis
  proof cases
    case 1
    then have "(c + 1) * (2 * W) \<le> unit" unfolding sum by (intro mult_le_mono1) simp
    then have "2 * tail < unit" using \<open>rest < W\<close> sum by (simp add: algebra_simps)
    moreover have "c * k < BBASE div 2" unfolding half using 1 k by simp
    ultimately show ?thesis by (simp add: compare_half_def)
  next
    case 2
    have w: "w \<le> lsd" using assms(9) 2 h0 by simp
    have zero: "(w = lsd \<or> is_zero (ds ! (w + 1)) (w + 1) lsd ds) \<longleftrightarrow> rest = 0"
    proof (cases "w = lsd")
      case True
      then have "rest = 0" unfolding rest_def using assms(2,3) by (intro big_drop_zero) auto
      then show ?thesis using True by simp
    next
      case False
      then have "w + 1 < 156" using w assms(5) by simp
      then have "rest = ds ! (w + 1) * BBASE ^ (156 - Suc (w + 1)) + big (drop (Suc (w + 1)) ds)"
        using big_drop [of "w + 1" ds] assms(2) by (simp add: rest_def)
      then show ?thesis using False is_zero_spec [OF assms(2,3,5), of "ds ! (w + 1)" "w + 1"] by simp
    qed
    have "c * k = BBASE div 2" unfolding half using 2 by simp
    moreover have "2 * tail = unit + 2 * rest" using sum 2 by simp
    ultimately show ?thesis using zero by (auto simp: compare_half_def)
  next
    case 3
    then have "h * (2 * W) < c * (2 * W)" using \<open>rest < W\<close> by simp
    then have "unit < 2 * tail" using sum by linarith
    moreover have "BBASE div 2 < c * k" unfolding half using 3 k by simp
    ultimately show ?thesis by (simp add: compare_half_def)
  qed
qed

section \<open>The rounded digit\<close>

text \<open>The value of the digits up to \<open>rd\<close>, in units of \<open>10 ^ pos\<close> of that digit.\<close>

lemma round_it_spec:
  assumes "small ds" "length ds = 156" "\<forall>i. lsd < i \<and> i < 156 \<longrightarrow> ds ! i = 0" "w < 156" "lsd < 156"
    and "m * k = BBASE" "even m" "c < m" "c = 0 \<or> w \<le> lsd"
    and "tail = c * BBASE ^ (155 - w) + big (drop (Suc w) ds)" "unit = m * BBASE ^ (155 - w)"
    and "n < BBASE"
  shows "round_it FE_TONEAREST neg n (c * k) w lsd ds
    = (if 2 * tail > unit \<or> (2 * tail = unit \<and> odd n) then n + 1 else n)"
proof -
  have "u32 (n + 1) = n + 1" using assms(12) by (simp add: u32_def)
  moreover have "(n + 1) div 2 * 2 = (if odd n then n + 1 else n)" by (auto elim: oddE evenE)
  ultimately show ?thesis
    using compare_half_spec [OF assms(1-11)] by (auto simp: round_it_def Let_def)
qed

section \<open>Decimal digits\<close>

definition decimal :: "nat \<Rightarrow> ustring" where
  "decimal m = decimal_digits (digit_count m) m"

lemma decimal_digits_append:
  "b < 10 ^ m \<Longrightarrow> decimal_digits (n + m) (a * 10 ^ m + b) = decimal_digits n a @ decimal_digits m b"
proof (induction m arbitrary: b)
  case (Suc m)
  have "b div 10 < 10 ^ m" using Suc.prems by (simp add: less_mult_imp_div_less mult.commute)
  moreover have "(a * 10 ^ Suc m + b) div 10 = a * 10 ^ m + b div 10"
    using div_mult_self3 [of 10 "a * 10 ^ m" b] by (simp add: mult.commute mult.left_commute)
  moreover have "(a * 10 ^ Suc m + b) mod 10 = b mod 10"
    using mod_mult_self4 [of 10 "a * 10 ^ m" b] by (simp add: mult.left_commute)
  ultimately show ?case using Suc.IH by simp
qed simp

lemma decimal_digits_mod: "decimal_digits n (m mod 10 ^ n) = decimal_digits n m"
  using decimal_digits_append [of "m mod 10 ^ n" n 0 "m div 10 ^ n"]
  by (simp only: mod_less_divisor zero_less_power zero_less_numeral decimal_digits.simps append_Nil add_0
      div_mult_mod_eq HOL.simp_thms)

lemma digit_count_shift: "0 < a \<Longrightarrow> b < 10 ^ m \<Longrightarrow> digit_count (a * 10 ^ m + b) = digit_count a + m"
proof (induction m arbitrary: b)
  case (Suc m)
  have "b div 10 < 10 ^ m" using Suc.prems by (simp add: less_mult_imp_div_less mult.commute)
  moreover have "(a * 10 ^ Suc m + b) div 10 = a * 10 ^ m + b div 10"
    using div_mult_self3 [of 10 "a * 10 ^ m" b] by (simp add: mult.commute mult.left_commute)
  moreover have "10 \<le> a * 10 ^ Suc m + b"
    using Suc.prems(1) mult_le_mono [of 1 a 1 "10 ^ m"] by (simp add: trans_le_add1)
  ultimately show ?case
    using Suc.IH [of "b div 10"] Suc.prems(1) by (subst digit_count.simps) simp
qed simp

text \<open>The digits of an array as they are printed: nine decimal digits of each.\<close>

definition low :: "nat list \<Rightarrow> nat list" where
  "low ds = map (\<lambda>d. d mod BBASE) ds"

lemma low_simps [simp]: "low [] = []" "low (d # ds) = d mod BBASE # low ds" "low (xs @ ys) = low xs @ low ys"
  "length (low ds) = length ds"
  by (simp_all add: low_def)

lemma small_low: "small ds \<Longrightarrow> low ds = ds"
  by (auto simp: small_def low_def intro: map_idI)

lemma small_of_low: "small (low ds)"
  by (auto simp: small_def low_def)

lemma printed_digits: "concat (map (decimal_digits DDIG_PER_DIG) ds) = decimal_digits (9 * length ds) (big (low ds))"
proof (induction ds rule: rev_induct)
  case (snoc d ds)
  have "decimal_digits (9 * length ds + 9) (big (low ds) * 10 ^ 9 + d mod BBASE)
      = decimal_digits (9 * length ds) (big (low ds)) @ decimal_digits 9 (d mod BBASE)"
    by (rule decimal_digits_append) simp
  then show ?case using snoc decimal_digits_mod [of 9 d] by (simp add: add.commute)
qed simp

lemma digit_string_spec:
  assumes "m \<le> rd" "rd < length ds" "\<forall>i < m. ds ! i = 0" "ds ! m < BBASE" "ds ! m \<noteq> 0 \<or> m = rd"
  shows "digit_string m rd ds = decimal (big (low (take (Suc rd) ds)))"
proof -
  define mid where "mid = drop (Suc m) (take (Suc rd) ds)"
  have mid: "map (\<lambda>i. decimal_digits DDIG_PER_DIG (ds ! i)) [Suc m..<Suc rd] = map (decimal_digits DDIG_PER_DIG) mid"
    "length mid = rd - m"
    using assms(1,2) by (auto simp: mid_def intro!: nth_equalityI simp del: upt_Suc)
  have split: "take (Suc rd) ds = take m ds @ ds ! m # mid"
    using assms(1,2) id_take_nth_drop [of m "take (Suc rd) ds"] by (simp add: mid_def min_def)
  have "big (low (take m ds)) = 0"
    using assms(1-3) by (intro big_zeroes) (auto simp: low_def in_set_conv_nth)
  then have v: "big (low (take (Suc rd) ds)) = ds ! m * BBASE ^ (rd - m) + big (low mid)"
    using big_append [of "low (take m ds)" "low (ds ! m # mid)"] assms(4) mid(2) by (simp add: split big_Cons)
  have less: "big (low mid) < 10 ^ (9 * (rd - m))"
    using big_less [OF small_of_low [of mid]] mid(2) by (simp add: power_mult)
  have pow: "BBASE ^ (rd - m) = 10 ^ (9 * (rd - m))" by (simp add: power_mult)
  show ?thesis
  proof (cases "m = rd")
    case True
    then show ?thesis using v mid(2) by (simp add: digit_string_def decimal_def)
  next
    case False
    then have "0 < ds ! m" using assms(5) by simp
    then show ?thesis
      unfolding digit_string_def mid(1) printed_digits decimal_def v pow mid(2)
      by (simp only: decimal_digits_append [OF less] digit_count_shift [OF _ less])
  qed
qed

lemma drop_digits_spec: "drop_digits (10 ^ p) s = take (length s - p) s"
proof (induction p arbitrary: s)
  case (Suc p)
  show ?case
  proof (cases "s = []")
    case False
    have "(1 :: nat) < 10 ^ Suc p" by (rule one_less_power) simp_all
    then show ?thesis
      using Suc [of "butlast s"] False by (simp add: drop_digits.simps [of "10 * 10 ^ p"] butlast_conv_take min_def)
  qed (simp add: drop_digits.simps)
qed (simp add: drop_digits.simps)

lemma drop_decimal:
  "drop_digits (10 ^ p) (decimal (10 ^ p * n)) = (if n = 0 \<and> p > 0 then [] else decimal n)"
proof (cases "n = 0")
  case True
  have "digit_count 0 = 1" by (simp add: digit_count.simps)
  then show ?thesis using True by (simp add: drop_digits_spec decimal_def)
next
  case False
  then show ?thesis
    using digit_count_shift [of n 0 p] decimal_digits_append [of 0 p "digit_count n" n]
    by (simp add: drop_digits_spec decimal_def mult.commute)
qed

section \<open>Carries\<close>

lemma carry_over_spec:
  assumes "w < length ds" "\<forall>i < w. ds ! i < BBASE" "ds ! w \<le> BBASE" "if w = 0 then ds ! 0 < BBASE else ds ! 0 + 1 < BBASE"
  shows "\<exists>w' ds'. carry_over w ds = Some (w', ds') \<and> w' \<le> w \<and> length ds' = length ds
    \<and> (\<forall>i. i < w' \<or> w < i \<longrightarrow> ds' ! i = ds ! i) \<and> ds' ! w' < BBASE \<and> (w' < w \<longrightarrow> 0 < ds' ! w')
    \<and> (w' = w \<longrightarrow> ds' = ds) \<and> big (low (take (Suc w) ds')) = big (take (Suc w) ds)"
  using assms
proof (induction w arbitrary: ds)
  case 0
  have "big (low (take (Suc 0) ds)) = big (take (Suc 0) ds)"
    using 0 by (cases ds) simp_all
  then show ?case using 0 by (simp add: carry_over.simps)
next
  case (Suc v)
  show ?case
  proof (cases "ds ! Suc v < BBASE")
    case True
    have "small (take (Suc (Suc v)) ds)"
      using Suc.prems(1,2) True by (auto simp: small_def in_set_conv_nth less_Suc_eq)
    then show ?thesis using True by (simp add: carry_over.simps small_low)
  next
    case False
    define ds1 where "ds1 = ds[v := ds ! v + 1]"
    have full: "ds ! Suc v = BBASE" using False Suc.prems(3) by simp
    have v: "ds ! v + 1 \<le> BBASE" using Suc.prems(2) by (simp add: Suc_le_eq)
    then have u: "u32 (ds ! v + ds ! Suc v div BBASE) = ds ! v + 1" by (simp add: full u32_def)
    have "ds \<noteq> []" using Suc.prems(1) by auto
    have ds1: "v < length ds1" "\<forall>i < v. ds1 ! i < BBASE" "ds1 ! v \<le> BBASE"
      "if v = 0 then ds1 ! 0 < BBASE else ds1 ! 0 + 1 < BBASE"
      using Suc.prems v \<open>ds \<noteq> []\<close> by (auto simp: ds1_def nth_list_update)
    have step: "carry_over (Suc v) ds = carry_over v ds1"
      using False u by (simp add: carry_over.simps [of "Suc v"] ds1_def)
    obtain w' ds' where w': "carry_over v ds1 = Some (w', ds')" "w' \<le> v" "length ds' = length ds1"
      "\<forall>i. i < w' \<or> v < i \<longrightarrow> ds' ! i = ds1 ! i" "ds' ! w' < BBASE" "w' < v \<longrightarrow> 0 < ds' ! w'"
      "w' = v \<longrightarrow> ds' = ds1" "big (low (take (Suc v) ds')) = big (take (Suc v) ds1)"
      using Suc.IH [OF ds1(1-3)] ds1(4) by blast
    have "ds' ! Suc v = BBASE" using w'(4) full by (simp add: ds1_def)
    then have "big (low (take (Suc (Suc v)) ds')) = big (take (Suc v) ds1) * BBASE"
      using w'(3,8) Suc.prems(1) take_Suc_conv_app_nth [of "Suc v" ds'] by (simp add: ds1_def)
    also have "\<dots> = big (take (Suc (Suc v)) ds)"
      using Suc.prems(1) full by (simp add: big_take_Suc ds1_def take_update_cancel algebra_simps)
    finally have "big (low (take (Suc (Suc v)) ds')) = big (take (Suc (Suc v)) ds)" .
    moreover have "0 < ds' ! w'" using w'(2,6,7) Suc.prems(1) by (cases "w' = v") (auto simp: ds1_def)
    ultimately show ?thesis using w' step by (auto simp: ds1_def)
  qed
qed

section \<open>Rounding a bignum\<close>

text \<open>
  A bignum cut at a decimal place: the whole multiples of the place and the tail. The place is \<open>10 ^ pos\<close>
  of the digit \<open>rd\<close>; \<open>c\<close> is the part of the tail that is in the digit \<open>w\<close>.
\<close>

lemma bignum_cut:
  assumes "small ds" "length ds = 156" "rd < 155" "pos < 9"
    and "w = (if pos = 0 then rd + 1 else rd)" "c = (if pos = 0 then ds ! w else ds ! w mod 10 ^ pos)"
    and tail: "tail = c * BBASE ^ (155 - w) + big (drop (Suc w) ds)"
    and unit: "unit = 10 ^ pos * BBASE ^ (155 - rd)"
  shows "big ds = (big (take rd ds) * 10 ^ (9 - pos) + ds ! rd div 10 ^ pos) * unit + tail" "tail < unit"
proof -
  have rd: "big ds = big (take rd ds) * BBASE ^ (156 - rd) + (ds ! rd * BBASE ^ (155 - rd) + big (drop (Suc rd) ds))"
    using big_take_drop [of rd ds] big_drop [of rd ds] assms(2,3) by simp
  have pow: "BBASE ^ (156 - rd) = 10 ^ (9 - pos) * unit"
  proof -
    have "156 - rd = Suc (155 - rd)" using assms(3) by simp
    moreover have "BBASE = 10 ^ (9 - pos) * 10 ^ pos" unfolding power_add [symmetric] using assms(4) by simp
    ultimately show ?thesis by (simp only: unit power_Suc mult.assoc)
  qed
  have rest: "big (drop (Suc w) ds) < BBASE ^ (155 - w)"
    using big_less [OF small_drop [OF assms(1), of "Suc w"]] assms(2) by simp
  show "big ds = (big (take rd ds) * 10 ^ (9 - pos) + ds ! rd div 10 ^ pos) * unit + tail"
  proof (cases "pos = 0")
    case True
    have "big (drop (Suc rd) ds) = tail" using big_drop [of "Suc rd" ds] assms True by simp
    moreover have "unit = BBASE ^ (155 - rd)" using unit True by simp
    ultimately show ?thesis unfolding rd pow using True by (simp add: add_mult_distrib mult.assoc)
  next
    case False
    have cut: "ds ! rd = ds ! rd div 10 ^ pos * 10 ^ pos + c"
      unfolding assms(5,6) using False by (simp only: if_False div_mult_mod_eq)
    have "ds ! rd * BBASE ^ (155 - rd) = ds ! rd div 10 ^ pos * unit + c * BBASE ^ (155 - rd)"
      unfolding unit mult.assoc [symmetric] add_mult_distrib [symmetric] by (rule arg_cong [OF cut])
    then show ?thesis unfolding rd pow using False assms(5) tail
      by (simp only: add_mult_distrib mult.assoc add.assoc if_False)
  qed
  show "tail < unit"
  proof (cases "pos = 0")
    case True
    then have "big (drop (Suc rd) ds) = tail" using big_drop [of "Suc rd" ds] assms by simp
    moreover have "big (drop (Suc rd) ds) < BBASE ^ (155 - rd)"
      using big_less [OF small_drop [OF assms(1), of "Suc rd"]] assms(2) by simp
    ultimately show ?thesis using unit True by simp
  next
    case False
    then have "c + 1 \<le> 10 ^ pos" using assms(6) by (simp add: Suc_le_eq)
    then have "(c + 1) * BBASE ^ (155 - rd) \<le> unit" unfolding unit by (rule mult_le_mono1)
    then show ?thesis using tail rest False assms(5) by simp
  qed
qed

lemma round_digits_unfolded:
  assumes "pos < 9" "work_dig = (if pos = 0 then rd + 1 else rd)"
    and "c = (if pos = 0 then ds ! work_dig else ds ! work_dig mod 10 ^ pos)"
    and "c < 10 ^ pos * (if pos = 0 then BBASE else 1)" "k * 10 ^ pos = (if pos = 0 then 1 else BBASE)"
    and "ds1 = (if pos = 0 then ds else ds[work_dig := ds ! work_dig - c])"
    and "ds2 = ds1[rd := u32 (10 ^ pos * round_it mode neg (ds1 ! rd div 10 ^ pos) (c * k) work_dig lsd ds1)]"
  shows "round_digits mode neg rd pos msd lsd ds =
    (if rd < msd then (if ds2 ! rd > 1 then None else Some (digit_string rd rd ds2))
     else (case carry_over rd ds2 of
       None \<Rightarrow> None
     | Some (w, ds') \<Rightarrow> Some (drop_digits (10 ^ pos) (digit_string (min w msd) rd ds'))))"
proof -
  have one: "drop_digits 1 s = s" for s by (simp add: drop_digits.simps)
  show ?thesis
  proof (cases "pos = 0")
    case True
    then show ?thesis using assms(2-) one unfolding True by (simp add: round_digits_def split: option.split)
  next
    case False
    have k: "BBASE div 10 ^ pos = k" using assms(5) False by (metis nonzero_mult_div_cancel_right power_not_zero zero_neq_numeral)
    have "c * k \<le> 10 ^ pos * k" using assms(4) False by (intro mult_le_mono1) simp
    then have "u32 (c * k) = c * k" using assms(5) False by (simp add: u32_def mult.commute)
    then show ?thesis using assms(2-) False k one by (simp add: round_digits_def Let_def)
  qed
qed

lemma rounded_digit:
  assumes ok: "bignum_ok msd lsd ds" and "lsd < 156" "rd < 155" "pos < 9"
    and w: "w = (if pos = 0 then rd + 1 else rd)"
    and c: "c = (if pos = 0 then ds ! w else ds ! w mod 10 ^ pos)"
    and k: "k * 10 ^ pos = (if pos = 0 then 1 else BBASE)"
    and ds1: "ds1 = (if pos = 0 then ds else ds[w := ds ! w - c])"
    and r: "r = round_it FE_TONEAREST neg (ds1 ! rd div 10 ^ pos) (c * k) w lsd ds1"
  shows "nearest_even (big ds) (10 ^ pos * BBASE ^ (155 - rd)) = big (take rd ds) * 10 ^ (9 - pos) + r"
    and "r \<le> ds ! rd div 10 ^ pos + 1" "ds ! rd div 10 ^ pos \<le> r" "rd < msd \<Longrightarrow> pos > 0 \<Longrightarrow> r = 0"
proof -
  note okd = ok [unfolded bignum_ok_def]
  have sm: "small ds" and len: "length ds = 156" using okd by simp_all
  define nr where "nr = ds ! rd div 10 ^ pos"
  define tail where "tail = c * BBASE ^ (155 - w) + big (drop (Suc w) ds)"
  define unit where "unit = 10 ^ pos * BBASE ^ (155 - rd)"
  define m where "m = (if pos = 0 then BBASE else 10 ^ pos)"
  note cut = bignum_cut [OF sm len assms(3,4) w c tail_def unit_def]
  have wl: "w < 156" "rd \<le> w" using w assms(3) by auto
  have sm1: "small ds1" using sm ds1 wl len small_nth [OF sm, of w] by (auto intro!: small_update simp: less_imp_diff_less)
  have len1: "length ds1 = 156" using ds1 len by simp
  have zero1: "\<forall>i. lsd < i \<and> i < 156 \<longrightarrow> ds1 ! i = 0" using okd ds1 wl by (auto simp: nth_list_update)
  have mk: "m * k = BBASE" using k by (auto simp: m_def mult.commute split: if_splits)
  have even: "even m" by (simp add: m_def)
  have cm: "c < m" using c small_nth [OF sm, of w] wl len by (simp add: m_def)
  have cw: "c = 0 \<or> w \<le> lsd"
  proof (cases "w \<le> lsd")
    case False
    then have "ds ! w = 0" using okd wl(1) by simp
    then show ?thesis using c by simp
  qed simp
  have tail1: "tail = c * BBASE ^ (155 - w) + big (drop (Suc w) ds1)" using ds1 by (simp add: tail_def)
  have unit1: "unit = m * BBASE ^ (155 - w)"
  proof (cases "pos = 0")
    case True
    then have "155 - rd = Suc (155 - w)" using w assms(3) by simp
    then show ?thesis using True by (simp add: unit_def m_def)
  qed (use w in \<open>simp add: unit_def m_def\<close>)
  have nr1: "ds1 ! rd div 10 ^ pos = nr"
  proof (cases "pos = 0")
    case False
    then have "ds1 ! rd = ds ! rd - ds ! rd mod 10 ^ pos" using ds1 w c wl len by simp
    also have "\<dots> = nr * 10 ^ pos" unfolding nr_def by (rule minus_mod_eq_div_mult)
    finally show ?thesis by simp
  qed (use ds1 in \<open>simp add: nr_def\<close>)
  have nr: "nr < BBASE"
    unfolding nr_def by (rule le_less_trans [OF div_le_dividend small_nth [OF sm]]) (use wl len in simp)
  have rr: "r = (if 2 * tail > unit \<or> (2 * tail = unit \<and> odd nr) then nr + 1 else nr)"
    unfolding r nr1
    by (rule round_it_spec [OF sm1 len1 zero1 wl(1) assms(2) mk even cm cw tail1 unit1 nr])
  then show "r \<le> ds ! rd div 10 ^ pos + 1" "ds ! rd div 10 ^ pos \<le> r" by (simp_all add: nr_def)
  have "0 < unit" using cut(2) by simp
  have divmod: "big ds div unit = big (take rd ds) * 10 ^ (9 - pos) + nr" "big ds mod unit = tail"
    using cut \<open>0 < unit\<close> by (simp_all only: nr_def div_mult_self3 mod_mult_self3 div_less mod_less add_0_right neq0_conv)
  have "odd (big (take rd ds) * 10 ^ (9 - pos) + nr) = odd nr" using assms(4) by simp
  then show "nearest_even (big ds) (10 ^ pos * BBASE ^ (155 - rd)) = big (take rd ds) * 10 ^ (9 - pos) + r"
    unfolding nearest_even_def unit_def [symmetric] divmod Let_def rr by simp
  show "r = 0" if "rd < msd" "pos > 0"
  proof -
    have z: "ds ! rd = 0" using okd that(1) by simp
    have "big (drop (Suc w) ds) < BBASE ^ (155 - w)"
      using big_less [OF small_drop [OF sm, of "Suc w"]] len wl by simp
    moreover have "c = 0" "nr = 0" using c w that(2) z by (simp_all add: nr_def)
    moreover have "2 * BBASE ^ (155 - w) \<le> unit"
      unfolding unit1 by (rule mult_le_mono1) (use dvd_imp_le [OF even] cm in simp)
    ultimately show ?thesis using rr by (simp add: tail_def)
  qed
qed

lemma round_digits_spec:
  assumes ok: "bignum_ok msd lsd ds" and "lsd < 156" "rd < 155" "pos < 9" "ds ! 0 < 1000"
    and n: "n = nearest_even (big ds) (10 ^ pos * BBASE ^ (155 - rd))"
  shows "round_digits FE_TONEAREST neg rd pos msd lsd ds
    = Some (if n = 0 \<and> msd \<le> rd then [] else decimal n)"
proof -
  note okd = ok [unfolded bignum_ok_def]
  have sm: "small ds" and len: "length ds = 156" using okd by simp_all
  define w where "w = (if pos = 0 then rd + 1 else rd)"
  define c where "c = (if pos = 0 then ds ! w else ds ! w mod 10 ^ pos)"
  define k :: nat where "k = (if pos = 0 then 1 else 10 ^ (9 - pos))"
  define ds1 where "ds1 = (if pos = 0 then ds else ds[w := ds ! w - c])"
  define r where "r = round_it FE_TONEAREST neg (ds1 ! rd div 10 ^ pos) (c * k) w lsd ds1"
  define ds2 where "ds2 = ds1[rd := u32 (10 ^ pos * r)]"
  have bb: "10 ^ pos * 10 ^ (9 - pos) = BBASE" unfolding power_add [symmetric] using assms(4) by simp
  have k: "k * 10 ^ pos = (if pos = 0 then 1 else BBASE)" using bb by (simp add: k_def mult.commute)
  note rounded = rounded_digit [OF ok assms(2-4) w_def c_def k ds1_def r_def]
  have nr: "n = big (take rd ds) * 10 ^ (9 - pos) + r" using rounded(1) n by simp
  have c: "c < 10 ^ pos * (if pos = 0 then BBASE else 1)"
    using small_nth [OF sm, of w] assms(3) len by (cases "pos = 0") (simp_all add: c_def w_def)
  have unfolded: "round_digits FE_TONEAREST neg rd pos msd lsd ds =
    (if rd < msd then (if ds2 ! rd > 1 then None else Some (digit_string rd rd ds2))
     else (case carry_over rd ds2 of
       None \<Rightarrow> None
     | Some (w, ds') \<Rightarrow> Some (drop_digits (10 ^ pos) (digit_string (min w msd) rd ds'))))"
    by (rule round_digits_unfolded [OF assms(4) w_def c_def c k ds1_def]) (simp add: ds2_def r_def)
  have top: "10 ^ pos * r \<le> ds ! rd + 10 ^ pos"
  proof -
    have "10 ^ pos * r \<le> 10 ^ pos * (ds ! rd div 10 ^ pos + 1)" using rounded(2) by (rule mult_le_mono2)
    also have "\<dots> \<le> ds ! rd + 10 ^ pos" by simp
    finally show ?thesis .
  qed
  have full: "10 ^ pos * r \<le> BBASE"
  proof -
    have "ds ! rd < 10 ^ (9 - pos) * 10 ^ pos" using small_nth [OF sm, of rd] assms(3) len bb by (simp add: mult.commute)
    then have "ds ! rd div 10 ^ pos < 10 ^ (9 - pos)" by (rule less_mult_imp_div_less)
    then have "r \<le> 10 ^ (9 - pos)" using rounded(2) by linarith
    then have "10 ^ pos * r \<le> 10 ^ pos * 10 ^ (9 - pos)" by (rule mult_le_mono2)
    then show ?thesis unfolding bb .
  qed
  have u: "u32 (10 ^ pos * r) = 10 ^ pos * r" using full by (simp add: u32_def)
  have ds2: "length ds2 = 156" "ds2 ! rd = 10 ^ pos * r" "\<forall>i < rd. ds2 ! i = ds ! i" "take rd ds2 = take rd ds"
    using assms(3) len u by (auto simp: ds2_def ds1_def w_def intro!: nth_equalityI)
  have val: "big (take (Suc rd) ds2) = 10 ^ pos * n"
  proof -
    have "big (take (Suc rd) ds2) = big (take rd ds) * BBASE + 10 ^ pos * r"
      using big_take_Suc [of rd ds2] ds2 assms(3) by simp
    then show ?thesis unfolding nr bb [symmetric] by (simp add: algebra_simps)
  qed
  show ?thesis
  proof (cases "rd < msd")
    case True
    have zero: "big (take rd ds) = 0" "ds ! rd = 0" using okd True by (auto intro!: big_take_zero)
    have "ds2 ! rd = r" using rounded(4) True ds2(2) by (cases "pos = 0") simp_all
    moreover have "r \<le> 1" using rounded(2) zero(2) by simp
    ultimately show ?thesis using unfolded True nr zero by (simp add: digit_string_def decimal_def)
  next
    case False
    have carry: "rd < length ds2" "\<forall>i < rd. ds2 ! i < BBASE" "ds2 ! rd \<le> BBASE"
      "if rd = 0 then ds2 ! 0 < BBASE else ds2 ! 0 + 1 < BBASE"
    proof -
      have "10 ^ pos \<le> (10 :: nat) ^ 8" by (rule power_increasing) (use assms(4) in simp_all)
      then show "if rd = 0 then ds2 ! 0 < BBASE else ds2 ! 0 + 1 < BBASE"
        using ds2(2,3) assms(5) top by auto
    qed (use ds2 assms(3) full len small_nth [OF sm] in auto)
    obtain w' ds' where w': "carry_over rd ds2 = Some (w', ds')" "w' \<le> rd" "length ds' = length ds2"
      "\<forall>i. i < w' \<or> rd < i \<longrightarrow> ds' ! i = ds2 ! i" "ds' ! w' < BBASE" "w' < rd \<longrightarrow> 0 < ds' ! w'"
      "big (low (take (Suc rd) ds')) = big (take (Suc rd) ds2)"
      using carry_over_spec [OF carry] by blast
    define l where "l = min w' msd"
    have "digit_string l rd ds' = decimal (10 ^ pos * n)"
    proof -
      have "ds' ! l < BBASE \<and> (ds' ! l \<noteq> 0 \<or> l = rd)"
      proof (cases "msd < w'")
        case True
        then have "ds' ! l = ds ! msd" using w'(2,4) ds2(3) by (simp add: l_def)
        then show ?thesis using okd small_nth [OF sm, of msd] by simp
      next
        case False
        then show ?thesis using w'(2,5,6) by (auto simp: l_def)
      qed
      moreover have "\<forall>i < l. ds' ! i = 0" using w'(2,4) ds2(3) okd by (auto simp: l_def)
      moreover have "l \<le> rd" "rd < length ds'" using w'(2,3) ds2(1) assms(3) by (auto simp: l_def)
      ultimately show ?thesis using digit_string_spec [of l rd ds'] w'(7) val by simp
    qed
    moreover have "n \<noteq> 0" if "pos = 0"
    proof
      assume "n = 0"
      then have "big (take rd ds) = 0" "ds ! rd = 0" using nr rounded(3) that by simp_all
      then have "big (take (Suc rd) ds) = 0" using big_take_Suc [of rd ds] len assms(3) by simp
      then have "\<forall>d \<in> set (take (Suc rd) ds). d = 0" by (simp only: big_eq_0)
      moreover have "ds ! msd \<in> set (take (Suc rd) ds)"
        using False okd assms(3) by (auto simp: in_set_conv_nth intro!: exI [of _ msd])
      ultimately show False using okd by auto
    qed
    ultimately show ?thesis
      using unfolded False w'(1) drop_decimal [of pos n] by (auto simp: l_def)
  qed
qed

section \<open>The digits of a double\<close>

text \<open>The absolute value of a double, times a power of ten, as a quotient.\<close>

definition scaled_num :: "dbl \<Rightarrow> int \<Rightarrow> nat" where
  "scaled_num d scale = dbl_fraction d * 2 ^ nat (dbl_exponent d) * 10 ^ nat scale"

definition scaled_den :: "dbl \<Rightarrow> int \<Rightarrow> nat" where
  "scaled_den d scale = 2 ^ nat (- dbl_exponent d) * 10 ^ nat (- scale)"

lemma scaled_den_pos: "0 < scaled_den d scale"
  by (simp add: scaled_den_def)

text \<open>The bignum digit that is rounded to, in decimal places after the point.\<close>

definition digit_place :: "int \<Rightarrow> int" where
  "digit_place scale = (scale + 8) div 9"

lemma round_digit_place: "round_digit scale = 34 + digit_place scale"
  by (auto simp: round_digit_def digit_place_def)

lemma round_pos_place: "int (round_pos scale) = 9 * digit_place scale - scale"
proof -
  define q t where "q = (scale + 8) div 9" and "t = (scale + 8) mod 9"
  have t: "0 \<le> t" "t < 9" "scale + 8 = 9 * q + t" by (simp_all add: q_def t_def)
  then have "(- scale) mod 9 = 8 - t" by (intro int_mod_pos_eq [of _ _ "- q"]) simp_all
  then show ?thesis using t by (simp add: round_pos_def digit_place_def q_def [symmetric])
qed

lemma round_pos_less: "round_pos scale < 9"
  by (simp add: round_pos_def nat_less_iff)

lemma first_digit:
  assumes "length ds = 156" "big ds \<le> v * units" "v < 2 ^ 1024"
  shows "ds ! 0 < 1000"
proof -
  have l: "0 < length ds" "length ds - Suc 0 = 155" using assms(1) by simp_all
  have "ds ! 0 * BBASE ^ 155 \<le> big ds" unfolding big_drop [OF l(1), unfolded drop_0 l(2)] by (rule le_add1)
  moreover have "v * units < 1000 * BBASE ^ 155"
  proof -
    have "v < 1000 * BBASE ^ 34" using assms(3) by simp
    then have "v * units < 1000 * BBASE ^ 34 * units" using units_pos by (rule mult_less_mono1)
    moreover have "BBASE ^ 155 = BBASE ^ 34 * units" unfolding units_def power_add [symmetric] by (rule arg_cong [where f = "power BBASE"]) simp
    ultimately show ?thesis by (simp only: mult.assoc)
  qed
  ultimately have "ds ! 0 * BBASE ^ 155 < 1000 * BBASE ^ 155" using assms(2) by linarith
  then show ?thesis by (simp only: mult_less_cancel2)
qed

lemma leading_digit:
  assumes "bignum_ok msd lsd ds" "rd < 156"
  shows "msd \<le> rd \<longleftrightarrow> BBASE ^ (155 - rd) \<le> big ds"
proof -
  note ok = assms(1) [unfolded bignum_ok_def]
  show ?thesis
  proof
    assume "msd \<le> rd"
    then have "BBASE ^ (155 - rd) \<le> BBASE ^ (155 - msd)" by (intro power_increasing) simp_all
    also have "\<dots> \<le> ds ! msd * BBASE ^ (155 - msd)" using ok by simp
    also have "\<dots> \<le> big (drop msd ds)" using big_drop [of msd ds] ok by simp
    also have "\<dots> \<le> big ds" using big_take_drop [of msd ds] ok by simp
    finally show "BBASE ^ (155 - rd) \<le> big ds" .
  next
    assume le: "BBASE ^ (155 - rd) \<le> big ds"
    show "msd \<le> rd"
    proof (rule ccontr)
      assume "\<not> msd \<le> rd"
      then have "big (take (Suc rd) ds) = 0" using ok by (intro big_take_zero) auto
      then have "big ds = big (drop (Suc rd) ds)" using big_take_drop [of "Suc rd" ds] ok assms(2) by simp
      also have "\<dots> < BBASE ^ (155 - rd)" using big_less [OF small_drop, of ds "Suc rd"] ok by simp
      finally show False using le by simp
    qed
  qed
qed

text \<open>The cut of the bignum and that of the quotient are at the same place.\<close>

lemma same_cut:
  assumes "V * 2 ^ nat (- x) = f * 2 ^ nat x * units" "0 \<le> 34 + digit_place scale" "digit_place scale < 121"
    and "rd = nat (34 + digit_place scale)" "pos = round_pos scale"
  shows "f * 2 ^ nat x * 10 ^ nat scale * (10 ^ pos * BBASE ^ (155 - rd))
    = V * (2 ^ nat (- x) * 10 ^ nat (- scale))"
proof -
  have pow: "(10 :: nat) ^ nat scale * (10 ^ pos * BBASE ^ (155 - rd)) = units * 10 ^ nat (- scale)"
  proof -
    have "nat scale + (pos + 9 * (155 - rd)) = 9 * 121 + nat (- scale)"
      using round_pos_place [of scale] assms(2-5) by linarith
    moreover have "BBASE ^ j = (10 :: nat) ^ (9 * j)" for j by (simp add: power_mult)
    ultimately show ?thesis unfolding units_def by (metis power_add)
  qed
  have "f * 2 ^ nat x * 10 ^ nat scale * (10 ^ pos * BBASE ^ (155 - rd))
      = f * 2 ^ nat x * units * 10 ^ nat (- scale)"
    using pow by (simp only: mult.assoc)
  also have "\<dots> = V * (2 ^ nat (- x) * 10 ^ nat (- scale))"
    unfolding assms(1) [symmetric] by (simp only: mult.assoc)
  finally show ?thesis .
qed

lemma quotients_le:
  assumes "p * k = v * (q :: nat)" "0 < q" "0 < k"
  shows "q \<le> p \<longleftrightarrow> k \<le> v"
proof -
  have "q \<le> p \<longleftrightarrow> q * k \<le> p * k" using assms(3) by simp
  also have "\<dots> \<longleftrightarrow> k * q \<le> v * q" unfolding assms(1) by (simp only: mult.commute)
  finally show ?thesis using assms(2) by simp
qed

lemma to_digits_rounds:
  assumes "finite_dbl d" "0 < dbl_fraction d" "0 \<le> 34 + digit_place scale" "digit_place scale < 121"
    and n: "n = nearest_even (scaled_num d scale) (scaled_den d scale)"
  shows "to_digits FE_TONEAREST d scale
    = Some (if n = 0 \<and> scaled_den d (9 * digit_place scale) \<le> scaled_num d (9 * digit_place scale)
            then [] else decimal n)"
proof -
  define f x where "f = dbl_fraction d" and "x = dbl_exponent d"
  define rd pos where "rd = nat (34 + digit_place scale)" and "pos = round_pos scale"
  have f: "2 ^ 52 \<le> f" "f < 2 ^ 53" "-1126 \<le> x" "x \<le> 971" "x < -1074 \<longrightarrow> 2 ^ nat (-1074 - x) dvd f"
    using assms(1,2) by (auto simp: finite_dbl_def f_def x_def)
  obtain msd lsd ds where b: "bignum f x = Some (msd, lsd, ds)" and ok: "bignum_ok msd lsd ds" and lsd: "lsd < 156"
    and V: "big ds * 2 ^ nat (- x) = f * 2 ^ nat x * units"
    using bignum_spec [OF f] by blast
  have len: "length ds = 156" using ok by (simp add: bignum_ok_def)
  have rd: "rd < 155" using assms(3,4) by (simp add: rd_def)
  have "big ds \<le> f * 2 ^ nat x * units" unfolding V [symmetric] by simp
  moreover have "f * 2 ^ nat x < 2 ^ 1024"
  proof -
    have "(2 :: nat) ^ nat x \<le> 2 ^ 971" by (rule power_increasing) (use f(4) in simp_all)
    then have "f * 2 ^ nat x < 2 ^ 53 * 2 ^ 971" by (rule mult_less_le_imp_less [OF f(2)]) simp_all
    then show ?thesis unfolding power_add [symmetric] by simp
  qed
  ultimately have first: "ds ! 0 < 1000" by (rule first_digit [OF len])
  have "n = nearest_even (big ds) (10 ^ pos * BBASE ^ (155 - rd))"
    unfolding n scaled_num_def scaled_den_def f_def [symmetric] x_def [symmetric]
    by (rule nearest_even_cross [OF same_cut [OF V assms(3,4) rd_def pos_def]]) simp_all
  note rounded = round_digits_spec [OF ok lsd rd round_pos_less first this [unfolded pos_def]]
  have "msd \<le> rd \<longleftrightarrow> scaled_den d (9 * digit_place scale) \<le> scaled_num d (9 * digit_place scale)"
  proof -
    define s9 where "s9 = 9 * digit_place scale"
    have s9: "digit_place s9 = digit_place scale" "round_pos s9 = 0" by (simp_all add: s9_def digit_place_def round_pos_def)
    have "scaled_num d s9 * BBASE ^ (155 - rd) = big ds * scaled_den d s9"
      using same_cut [OF V, of s9 rd 0] assms(3,4) s9
      by (simp only: scaled_num_def scaled_den_def f_def [symmetric] x_def [symmetric] rd_def power_0 mult_1)
    then have "scaled_den d s9 \<le> scaled_num d s9 \<longleftrightarrow> BBASE ^ (155 - rd) \<le> big ds"
      by (rule quotients_le) (simp_all add: scaled_den_pos)
    then show ?thesis using leading_digit [OF ok] rd unfolding s9_def by simp
  qed
  then show ?thesis
    using rounded [of "dbl_negative d"] assms(2-4) b
    by (simp add: to_digits_def f_def [symmetric] x_def [symmetric] round_digit_place rd_def [symmetric])
qed

text \<open>More places than a double has: the digits are exact.\<close>

lemma cancel_factor: "a * k = b * (k :: nat) \<Longrightarrow> 0 < k \<Longrightarrow> a = b"
  by simp

lemma bignum_whole:
  assumes V: "V * 2 ^ nat (- x) = f * 2 ^ nat x * units" and "-1126 \<le> x" "x < -1074 \<longrightarrow> 2 ^ nat (-1074 - x) dvd f"
  shows "\<exists>u. V = u * BBASE"
proof -
  define v where "v = nat (-1074 - x)"
  obtain g where g: "f = g * 2 ^ v"
    using assms(3) by (cases "x < -1074") (auto simp: v_def mult.commute elim: dvdE)
  have pow: "(2 :: nat) ^ nat (- x) * 2 ^ (1080 - (nat (- x) - v)) = 2 ^ v * 2 ^ 1080"
    unfolding power_add [symmetric] by (rule arg_cong [where f = "power 2"]) (use assms(2) in \<open>simp add: v_def\<close>)
  have units: "units = 2 ^ 1080 * 5 ^ 1080 * BBASE"
  proof -
    have ten: "BBASE = 2 ^ 9 * 5 ^ 9" by simp
    have "BBASE ^ 120 = 2 ^ (9 * 120) * 5 ^ (9 * 120)" unfolding ten power_mult_distrib power_mult ..
    moreover have "units = BBASE ^ 120 * BBASE" unfolding units_def power_Suc2 [symmetric] by (rule arg_cong [where f = "power BBASE"]) simp
    moreover have "9 * 120 = (1080 :: nat)" by simp
    ultimately show ?thesis by (simp only:)
  qed
  define c where "c = (2 :: nat) ^ (1080 - (nat (- x) - v))"
  have "V * (2 ^ v * 2 ^ 1080) = V * 2 ^ nat (- x) * c" unfolding pow [folded c_def, symmetric] mult.assoc ..
  also have "\<dots> = g * 2 ^ nat x * c * 5 ^ 1080 * BBASE * (2 ^ v * 2 ^ 1080)"
    unfolding V g units by (simp only: mult_ac)
  finally have "V = g * 2 ^ nat x * c * 5 ^ 1080 * BBASE"
    by (rule cancel_factor) (simp only: mult_pos_pos zero_less_power zero_less_numeral)
  then show ?thesis by blast
qed

lemma decimal_zeroes: "0 < m \<Longrightarrow> decimal (m * 10 ^ e) = decimal m @ replicate e UCHAR_0"
proof -
  assume "0 < m"
  have "decimal_digits e 0 = replicate e UCHAR_0"
    by (induction e) (simp_all add: replicate_append_same)
  then show ?thesis
    using decimal_digits_append [of 0 e "digit_count m" m] digit_count_shift [OF \<open>0 < m\<close>, of 0 e]
    by (simp add: decimal_def)
qed

lemma to_digits_exact:
  assumes "finite_dbl d" "0 < dbl_fraction d" "121 \<le> digit_place scale"
  shows "\<exists>n. to_digits FE_TONEAREST d scale = Some (decimal n) \<and> scaled_num d scale = n * scaled_den d scale"
proof -
  define f x where "f = dbl_fraction d" and "x = dbl_exponent d"
  have f: "2 ^ 52 \<le> f" "f < 2 ^ 53" "-1126 \<le> x" "x \<le> 971" "x < -1074 \<longrightarrow> 2 ^ nat (-1074 - x) dvd f"
    using assms(1,2) by (auto simp: finite_dbl_def f_def x_def)
  obtain msd lsd ds where b: "bignum f x = Some (msd, lsd, ds)" and ok: "bignum_ok msd lsd ds"
    and V: "big ds * 2 ^ nat (- x) = f * 2 ^ nat x * units"
    using bignum_spec [OF f] by blast
  note okd = ok [unfolded bignum_ok_def]
  obtain u where u: "big ds = u * BBASE" using bignum_whole [OF V f(3,5)] by blast
  have scale: "1081 \<le> scale" using assms(3) by (simp add: digit_place_def)
  define e where "e = nat (scale - 1080)"
  have low: "big ds = big (take 155 ds) * BBASE + ds ! 155"
    using big_take_drop [of 155 ds] big_drop [of 155 ds] okd by simp
  have d155: "ds ! 155 < BBASE" using small_nth [of ds 155] okd by simp
  have "ds ! 155 = 0"
  proof -
    have "big ds mod BBASE = ds ! 155" unfolding low using d155 by simp
    then show ?thesis unfolding u by simp
  qed
  then have u': "big (take 155 ds) = u" using low u by simp
  have msd: "msd \<le> 154"
  proof (rule ccontr)
    assume "\<not> msd \<le> 154"
    then have "msd = 155" using okd by linarith
    then show False using okd \<open>ds ! 155 = 0\<close> by simp
  qed
  have "small (take 155 ds)" using okd by (auto simp: small_def dest: in_set_takeD)
  then have digits: "digit_string msd 154 ds = decimal u"
    using digit_string_spec [of msd 154 ds] msd okd small_nth [of ds msd] u' by (simp add: small_low)
  have "0 < u"
  proof (rule ccontr)
    assume "\<not> 0 < u"
    then have "big ds = 0" using u by simp
    then show False using okd nth_mem [of msd ds] by (simp only: big_eq_0) auto
  qed
  have "all_digits scale msd ds = decimal u @ replicate e UCHAR_0"
    using digits by (simp add: all_digits_def e_def)
  then have "to_digits FE_TONEAREST d scale = Some (decimal (u * 10 ^ e))"
    using assms(2,3) b decimal_zeroes [OF \<open>0 < u\<close>, of e]
    by (simp add: to_digits_def f_def x_def round_digit_place)
  moreover have "scaled_num d scale = u * 10 ^ e * scaled_den d scale"
  proof -
    have e: "10 ^ nat scale = 10 ^ e * BBASE ^ 120" 
    proof -
      have "nat scale = e + 9 * 120" using scale by (simp add: e_def)
      moreover have "(10 :: nat) ^ 9 = BBASE" by simp
      ultimately show ?thesis by (simp only: power_add power_mult)
    qed
    have units: "units = BBASE ^ 120 * BBASE" unfolding units_def power_Suc2 [symmetric] by (rule arg_cong [where f = "power BBASE"]) simp
    have "f * 2 ^ nat x * BBASE ^ 120 * BBASE = u * 2 ^ nat (- x) * BBASE"
      using V unfolding u units by (simp only: mult_ac)
    then have cut: "f * 2 ^ nat x * BBASE ^ 120 = u * 2 ^ nat (- x)"
      by (rule cancel_factor) simp
    have "scaled_num d scale = f * 2 ^ nat x * BBASE ^ 120 * 10 ^ e"
      unfolding scaled_num_def f_def [symmetric] x_def [symmetric] e by (simp only: mult_ac)
    also have "\<dots> = u * 10 ^ e * 2 ^ nat (- x)" unfolding cut by (simp only: mult_ac)
    finally show ?thesis using scale by (simp add: scaled_den_def x_def)
  qed
  ultimately show ?thesis by blast
qed

lemma to_digits_value:
  assumes "finite_dbl d" "-314 \<le> scale"
  shows "to_digits FE_TONEAREST d scale =
    Some (let n = nearest_even (scaled_num d scale) (scaled_den d scale);
              place = 9 * digit_place scale
          in if n = 0 \<and> scaled_den d place \<le> scaled_num d place then [] else decimal n)"
proof (cases "dbl_fraction d = 0")
  case True
  then have "scaled_num d s = 0" for s by (simp add: scaled_num_def)
  moreover have "0 < scaled_den d s" for s by (rule scaled_den_pos)
  ultimately show ?thesis using True
    by (simp add: to_digits_def nearest_even_def decimal_def digit_count.simps Let_def neq0_conv)
next
  case False
  have low: "0 \<le> 34 + digit_place scale" using assms(2) by (simp add: digit_place_def)
  show ?thesis
  proof (cases "digit_place scale < 121")
    case True
    then show ?thesis using to_digits_rounds [OF assms(1) _ low True refl] False by (simp add: Let_def)
  next
    case more: False
    then obtain n where n: "to_digits FE_TONEAREST d scale = Some (decimal n)"
      "scaled_num d scale = n * scaled_den d scale"
      using to_digits_exact [of d scale] assms(1) False by auto
    have "0 < scaled_num d scale" using False by (simp add: scaled_num_def)
    then have "n \<noteq> 0" using n(2) by (cases n) auto
    moreover have "nearest_even (scaled_num d scale) (scaled_den d scale) = n"
      using scaled_den_pos [of d scale] by (simp add: n(2) nearest_even_def)
    ultimately show ?thesis using n(1) by (simp add: Let_def)
  qed
qed

text \<open>
  C8. The digits of a double are correctly rounded. For every finite double, every scale down to -314
  and the default rounding mode, to_digits stays inside its array of bignum digits and gives the decimal
  digits of the absolute value times ten to the scale, rounded to the nearest integer with ties to even;
  only when the integer is zero although the bignum digit that was rounded to has been reached by the
  value, it gives no digit at all.
\<close>

theorem to_digits_correct:
  assumes "finite_dbl d" "-314 \<le> scale"
  shows "to_digits FE_TONEAREST d scale =
    Some (let n = nearest_even (scaled_num d scale) (scaled_den d scale);
              place = 9 * digit_place scale
          in if n = 0 \<and> scaled_den d place \<le> scaled_num d place then [] else decimal n)"
  by (rule to_digits_value [OF assms])

lemma to_digits_correct_witness:
  "to_digits FE_TONEAREST \<lparr>dbl_negative = False, dbl_fraction = 5 * 2 ^ 50, dbl_exponent = -53\<rparr> 1
   = Some [0x36]"
proof -
  have "finite_dbl \<lparr>dbl_negative = False, dbl_fraction = 5 * 2 ^ 50, dbl_exponent = -53\<rparr>"
    by (simp add: finite_dbl_def)
  moreover have "nearest_even (5 * 2 ^ 50 * 10) (2 ^ 53) = 6" by (simp add: nearest_even_def)
  ultimately show ?thesis
    using to_digits_correct [of "\<lparr>dbl_negative = False, dbl_fraction = 5 * 2 ^ 50, dbl_exponent = -53\<rparr>" 1]
    by (simp add: scaled_num_def scaled_den_def decimal_def digit_count.simps)
qed

end
