(* ===== verification/Numbers.thy ===== *)
theory Numbers
  imports Rounding
begin

text \<open>
  Numbers from doubles and back: cif_value_init_numb and cif_value_autoinit_numb of src/value.c with the
  helpers frac_bits and to_digits, and cif_value_get_number and cif_value_get_su with to_double.

  What the model takes as parameters: the rounding mode (fegetround), the macro MSP (the floor of the
  library's log10) and, for to_double, the floor of the estimate of a binary logarithm that is computed
  with log10. The locale calls succeed. Doubles are finite.
\<close>

section \<open>Numbers of given scale\<close>

definition is_negative :: "dbl \<Rightarrow> bool" where
  "is_negative d \<longleftrightarrow> dbl_negative d \<and> dbl_fraction d \<noteq> 0"

definition is_positive :: "dbl \<Rightarrow> bool" where
  "is_positive d \<longleftrightarrow> \<not> dbl_negative d \<and> dbl_fraction d \<noteq> 0"

text \<open>The digits of the uncertainty: no string when there is none or when it has no digit.\<close>

definition su_string :: "rounding \<Rightarrow> dbl \<Rightarrow> int \<Rightarrow> ustring option option" where
  "su_string mode su scale =
     (if is_positive su then
        (case to_digits mode su scale of
           None \<Rightarrow> None
         | Some [] \<Rightarrow> Some None
         | Some s \<Rightarrow> Some (Some s))
      else Some None)"

text \<open>
  The text of a number; scientific notation asserts that there is a digit.
\<close>

definition numb_text :: "bool \<Rightarrow> bool \<Rightarrow> ustring \<Rightarrow> ustring option \<Rightarrow> int \<Rightarrow> ustring res option" where
  "numb_text plain negative digits su scale =
     (if plain then Some (format_text_decimal negative digits su scale)
      else if digits = [] then None
      else Some (format_text_sci negative digits su scale))"

definition cif_value_init_numb ::
  "rounding \<Rightarrow> (dbl \<Rightarrow> int) \<Rightarrow> cif_value \<Rightarrow> dbl \<Rightarrow> dbl \<Rightarrow> int \<Rightarrow> int \<Rightarrow> (int \<times> cif_value) option" where
  "cif_value_init_numb mode msp n val su scale max_leading_zeroes =
     (if is_negative su \<or> - scale < LEAST_DBL_10_DIGIT \<or> - scale > DBL_MAX_10_EXP \<or> max_leading_zeroes < 0
      then Some (CIF_ARGUMENT_ERROR, n)
      else
        (case (to_digits mode val scale, su_string mode su scale) of
           (Some digit_buf, Some su_buf) \<Rightarrow>
             (case numb_text (scale \<ge> 0 \<and> - (msp val + 1) \<le> max_leading_zeroes)
                     (is_negative val) digit_buf su_buf scale of
                None \<Rightarrow> None
              | Some (Inl e) \<Rightarrow> Some (e, n)
              | Some (Inr txt) \<Rightarrow>
                  Some (CIF_OK, NumbValue CIF_NOT_QUOTED txt (if is_negative val then -1 else 1)
                                  digit_buf su_buf scale))
         | _ \<Rightarrow> None))"

section \<open>Numbers whose scale is chosen\<close>

text \<open>The zero bits at the end of a number that is not zero, four at a time and then singly.\<close>

function drop_zeroes :: "nat \<Rightarrow> nat \<Rightarrow> nat \<Rightarrow> nat \<times> nat" where
  "drop_zeroes base zeroes bits =
     (if bits = 0 \<or> base \<notin> {2, 16} \<or> bits mod base \<noteq> 0 then (zeroes, bits)
      else drop_zeroes base (zeroes + (if base = 16 then 4 else 1)) (bits div base))"
  by pat_completeness auto
termination by (relation "measure (\<lambda>(base, zeroes, bits). bits)") auto

declare drop_zeroes.simps [simp del]

text \<open>The count of significant bits and the exponent of frexp.\<close>

definition frac_bits :: "dbl \<Rightarrow> int \<times> int" where
  "frac_bits d =
     (if dbl_fraction d = 0 then (0, 0)
      else
        (case drop_zeroes 16 0 (dbl_fraction d) of
           (zeroes, bits) \<Rightarrow>
             (case drop_zeroes 2 zeroes bits of
                (zeroes, bits) \<Rightarrow> (DBL_MANT_DIG - int zeroes, dbl_exponent d + DBL_MANT_DIG))))"

definition exact_scale :: "(dbl \<Rightarrow> int) \<Rightarrow> dbl \<Rightarrow> int" where
  "exact_scale msp val =
     (case frac_bits val of
        (bit_count, exponent) \<Rightarrow>
          if bit_count \<ge> exponent then bit_count - exponent
          else if msp val < 15 then 0 else (15 - 1) - msp val)"

text \<open>
  What sprintf makes of a positive double with \<open>%.*e\<close>: the digits, as an integer, and the exponent of ten.
\<close>

definition round_quotient :: "rounding \<Rightarrow> nat \<Rightarrow> nat \<Rightarrow> nat" where
  "round_quotient mode p q =
     (case mode of
        FE_TONEAREST \<Rightarrow> nearest_even p q
      | FE_UPWARD \<Rightarrow> (p + q - 1) div q
      | _ \<Rightarrow> p div q)"

function shifts_up :: "nat \<Rightarrow> nat \<Rightarrow> nat" where
  "shifts_up p q = (if p = 0 \<or> q \<le> p then 0 else Suc (shifts_up (10 * p) q))"
  by pat_completeness auto
termination by (relation "measure (\<lambda>(p, q). q - p)") auto

declare shifts_up.simps [simp del]

definition decimal_exponent :: "dbl \<Rightarrow> int" where
  "decimal_exponent d =
     (let p = scaled_num d 0; q = scaled_den d 0
      in if q \<le> p then int (digit_count (p div q)) - 1 else - int (shifts_up p q))"

definition sprintf_e :: "rounding \<Rightarrow> nat \<Rightarrow> dbl \<Rightarrow> nat \<times> int" where
  "sprintf_e mode precision d =
     (let e = decimal_exponent d;
          scale = int precision - e;
          m = round_quotient mode (scaled_num d scale) (scaled_den d scale)
      in if m = 10 ^ Suc precision then (10 ^ precision, e + 1) else (m, e))"

definition rule_scale :: "rounding \<Rightarrow> dbl \<Rightarrow> nat \<Rightarrow> int" where
  "rule_scale mode su su_rule =
     (let rule_digits = digit_count su_rule in
      case sprintf_e mode (rule_digits - 1) su of
        (su_digits, exponent) \<Rightarrow>
          (let scale = - exponent + int rule_digits - 1
           in if su_digits > su_rule then scale - 1 else scale))"

definition DEFAULT_MAX_LEAD_ZEROES :: int where "DEFAULT_MAX_LEAD_ZEROES = 5"

definition cif_value_autoinit_numb ::
  "rounding \<Rightarrow> (dbl \<Rightarrow> int) \<Rightarrow> cif_value \<Rightarrow> dbl \<Rightarrow> dbl \<Rightarrow> nat \<Rightarrow> (int \<times> cif_value) option" where
  "cif_value_autoinit_numb mode msp numb val su su_rule =
     (if \<not> is_negative su \<and> su_rule \<ge> 2 then
        cif_value_init_numb mode msp (cif_value_clean numb) val su
          (if dbl_fraction su = 0 then exact_scale msp val else rule_scale mode su su_rule)
          DEFAULT_MAX_LEAD_ZEROES
      else Some (CIF_ARGUMENT_ERROR, numb))"

section \<open>From digits to a double\<close>

text \<open>
  The size of the array of bignum digits: the macros with the constants of binary64, where the first of
  the two alternatives of ULT_LSP is the lesser.
\<close>

definition ULT_LSP_ALT1 :: int where
  "ULT_LSP_ALT1 = (3 * (DBL_MANT_DIG div 10) + DBL_MANT_DIG - CIF_LINE_LENGTH) - (DBL_MAX_10_EXP + 1) * 2322 div 1000"

definition ULT_LSP_ALT2 :: int where
  "ULT_LSP_ALT2 = (2 + (- 307) - 15) - CIF_LINE_LENGTH"

definition BIGNUM_DIGITS :: nat where
  "BIGNUM_DIGITS = nat ((DBL_MAX_10_EXP + int DDIG_PER_DIG - 1) div int DDIG_PER_DIG
     + (int DDIG_PER_DIG - ((if ULT_LSP_ALT1 < ULT_LSP_ALT2 then ULT_LSP_ALT1 else ULT_LSP_ALT2) + 1)) div int DDIG_PER_DIG)"

definition MAX_MANTISSA :: nat where "MAX_MANTISSA = 2 ^ 53 - 1"
definition MIN_MANTISSA :: nat where "MIN_MANTISSA = 2 ^ 52"

text \<open>What is returned: a product of two infinite doubles, a quotient that is too small, or ldexp of a mantissa.\<close>

datatype double_result = Zero | Overflow | Underflow | Ldexp nat int

text \<open>The digits read into the array: the count of decimal digits the current one lacks, its index, the array.\<close>

fun read_digits :: "ustring \<Rightarrow> nat \<Rightarrow> nat \<Rightarrow> nat list \<Rightarrow> (nat \<times> nat \<times> nat list) option" where
  "read_digits [] ddigits_left next_dig ds = Some (ddigits_left, next_dig, ds)"
| "read_digits (c # cs) ddigits_left next_dig ds =
     (if next_dig \<ge> length ds then None
      else
        (let ds = ds[next_dig := u32 (ds ! next_dig * 10 + nat (digit_value c))]
         in if ddigits_left = 1 then read_digits cs DDIG_PER_DIG (next_dig + 1) ds
            else read_digits cs (ddigits_left - 1) next_dig ds))"

definition fill_digit :: "nat \<Rightarrow> nat \<Rightarrow> nat list \<Rightarrow> nat list option" where
  "fill_digit ddigits_left next_dig ds =
     (if ddigits_left < DDIG_PER_DIG then
        (if next_dig \<ge> length ds then None
         else Some (ds[next_dig := u32 (ds ! next_dig * 10 ^ ddigits_left)]))
      else Some ds)"

text \<open>One pass of each loop; the result is the index at which it stops (plus one, going up) and the array.\<close>

function pass_right :: "nat \<Rightarrow> nat \<Rightarrow> nat \<Rightarrow> nat \<Rightarrow> nat list \<Rightarrow> (nat \<times> nat list) option" where
  "pass_right shift lsd next_dig remainder ds =
     (if next_dig \<le> lsd \<or> remainder \<noteq> 0 then
        (if next_dig \<ge> length ds then None
         else
           (let dividend = u64 (remainder + ds ! next_dig)
            in pass_right shift lsd (next_dig + 1) (u64 (dividend mod 2 ^ shift * BBASE))
                 (ds[next_dig := u32 (dividend div 2 ^ shift)])))
      else Some (next_dig, ds))"
  by pat_completeness auto
termination by (relation "measure (\<lambda>(shift, lsd, next_dig, remainder, ds). length ds - next_dig)") auto

declare pass_right.simps [simp del]

fun pass_left :: "nat \<Rightarrow> nat \<Rightarrow> nat \<Rightarrow> nat \<Rightarrow> nat list \<Rightarrow> (nat \<times> nat list) option" where
  "pass_left shift msd 0 carry ds = (if carry \<noteq> 0 then None else Some (0, ds))"
| "pass_left shift msd (Suc next_dig) carry ds =
     (if next_dig \<ge> msd \<or> carry \<noteq> 0 then
        (let product = u64 (u64 (ds ! next_dig * 2 ^ shift) + carry)
         in pass_left shift msd next_dig (product div BBASE) (ds[next_dig := u32 (product mod BBASE)]))
      else Some (Suc next_dig, ds))"

text \<open>The loops over the shifts that are left to do: the indices of both ends, the array, what is left.\<close>

function scale_right :: "nat \<Rightarrow> nat \<Rightarrow> nat \<Rightarrow> nat list \<Rightarrow> (nat \<times> nat \<times> nat list) option" where
  "scale_right shifts msd lsd ds =
     (if shifts = 0 then Some (msd, lsd, ds)
      else
        (let shift = min BDIG_PER_DIG shifts in
         case pass_right shift lsd msd 0 ds of
           None \<Rightarrow> None
         | Some (next_dig, ds) \<Rightarrow>
             (let msd = first_nonzero ds msd in
              if msd \<ge> length ds then None
              else scale_right (shifts - shift) msd (next_dig - 1) ds)))"
  by pat_completeness auto
termination by (relation "measure fst") auto

function scale_left :: "nat \<Rightarrow> nat \<Rightarrow> nat \<Rightarrow> nat \<Rightarrow> nat list \<Rightarrow> (nat \<times> nat \<times> nat \<times> nat list) option" where
  "scale_left units_digit shifts msd lsd ds =
     (if shifts = 0 \<or> lsd \<le> units_digit then Some (shifts, msd, lsd, ds)
      else if lsd \<ge> length ds then None
      else
        (let shift = min BDIG_PER_DIG shifts in
         case pass_left shift msd (Suc lsd) 0 ds of
           None \<Rightarrow> None
         | Some (msd, ds) \<Rightarrow> scale_left units_digit (shifts - shift) msd (last_nonzero ds lsd) ds))"
  by pat_completeness auto
termination by (relation "measure (\<lambda>(units_digit, shifts, msd, lsd, ds). shifts)") auto

declare scale_right.simps [simp del] scale_left.simps [simp del]

text \<open>The integer part, and one more bit while it has too few; the loop has no bound of its own.\<close>

definition integer_part :: "nat \<Rightarrow> nat \<Rightarrow> nat list \<Rightarrow> nat" where
  "integer_part msd units_digit ds =
     foldl (\<lambda>bits i. u64 (bits * BBASE + ds ! i)) 0 [msd..<Suc units_digit]"

partial_function (option) normalize_mantissa ::
  "nat \<Rightarrow> nat \<Rightarrow> nat \<Rightarrow> nat list \<Rightarrow> int \<Rightarrow> (nat \<times> nat \<times> nat list \<times> int) option" where
  "normalize_mantissa units_digit msd lsd ds exponent =
     (let mantissa_bits = integer_part msd units_digit ds in
      if mantissa_bits > MAX_MANTISSA then None
      else if mantissa_bits \<ge> MIN_MANTISSA \<or> lsd \<le> units_digit then Some (mantissa_bits, lsd, ds, exponent)
      else if lsd \<ge> length ds then None
      else
        (case pass_left 1 msd (Suc lsd) 0 ds of
           None \<Rightarrow> None
         | Some (msd, ds) \<Rightarrow> normalize_mantissa units_digit msd (last_nonzero ds lsd) ds (exponent - 1)))"

definition round_to_int :: "rounding \<Rightarrow> nat \<Rightarrow> nat list \<Rightarrow> nat \<Rightarrow> nat \<Rightarrow> nat" where
  "round_to_int mode round_value ds units_digit lsd =
     round_value
     + (if lsd < units_digit + 1 then 0
        else round_it mode False 0 (ds ! (units_digit + 1)) (units_digit + 1) lsd ds)"

text \<open>
  The case of a finite result: \<open>estimate\<close> is the floor of the estimate of the binary logarithm of a
  digit at a decimal place, computed with log10.
\<close>

definition finite_double :: "rounding \<Rightarrow> (int \<Rightarrow> int \<Rightarrow> int) \<Rightarrow> ustring \<Rightarrow> int \<Rightarrow> double_result option" where
  "finite_double mode estimate ddigits msp =
     (let lead = digit_value (hd ddigits);
          right_shift_min = 1 + estimate lead msp - DBL_MANT_DIG;
          right_shift_max = 1 + estimate (lead + 1) msp - DBL_MANT_DIG;
          msp_max = (if right_shift_max > 0 then msp
                     else if right_shift_min < 0 then msp + (2 - right_shift_min) div 3
                     else msp);
          units_digit = nat (msp_max div int DDIG_PER_DIG);
          first = int units_digit + (if msp \<ge> 0 then - (msp div int DDIG_PER_DIG)
                                     else (int DDIG_PER_DIG - 1 - msp) div int DDIG_PER_DIG);
          ddigits_left = nat (if msp \<ge> 0 then msp mod int DDIG_PER_DIG + 1
                              else int DDIG_PER_DIG - (- msp - 1) mod int DDIG_PER_DIG)
      in if right_shift_max - right_shift_min \<ge> 2 \<or> msp_max < 0 \<or> first < 0 then None
         else
           (case read_digits ddigits ddigits_left (nat first) (replicate BIGNUM_DIGITS 0) of
              None \<Rightarrow> None
            | Some (ddigits_left, next_dig, ds) \<Rightarrow>
                (case fill_digit ddigits_left next_dig ds of
                   None \<Rightarrow> None
                 | Some ds \<Rightarrow>
                     (case (if right_shift_max > 0 then
                              map_option (\<lambda>(msd, lsd, ds). (right_shift_max, msd, lsd, ds))
                                (scale_right (nat right_shift_max) (nat first) next_dig ds)
                            else
                              map_option (\<lambda>(shifts, msd, lsd, ds). (right_shift_max + int shifts, msd, lsd, ds))
                                (scale_left units_digit (nat (- right_shift_max)) (nat first) next_dig ds)) of
                        None \<Rightarrow> None
                      | Some (exponent, msd, lsd, ds) \<Rightarrow>
                          (case normalize_mantissa units_digit msd lsd ds exponent of
                             None \<Rightarrow> None
                           | Some (mantissa_bits, lsd, ds, exponent) \<Rightarrow>
                               (let mantissa_bits = round_to_int mode mantissa_bits ds units_digit lsd in
                                if mantissa_bits > MAX_MANTISSA then Some (Ldexp 1 (exponent + DBL_MANT_DIG))
                                else Some (Ldexp mantissa_bits exponent)))))))"

text \<open>The digits without trailing zeroes, at most a line of them, and the place of the first.\<close>

definition to_double :: "rounding \<Rightarrow> (int \<Rightarrow> int \<Rightarrow> int) \<Rightarrow> ustring \<Rightarrow> int \<Rightarrow> double_result option" where
  "to_double mode estimate ddigits scale =
     (let ddigits = dropWhile (\<lambda>c. c = UCHAR_0) ddigits in
      if ddigits = [] then Some Zero
      else
        (let msp = - scale + int (length ddigits) - 1;
             significant = rev (dropWhile (\<lambda>c. c = UCHAR_0) (rev ddigits))
         in if msp > DBL_MAX_10_EXP then Some Overflow
            else if msp \<le> - 307 - 15 then Some Underflow
            else finite_double mode estimate (take (nat CIF_LINE_LENGTH) significant) msp))"

text \<open>The value is converted to a number in place; the result is the code with the double, and the value.\<close>

definition as_numb :: "cif_value \<Rightarrow> int \<times> cif_value" where
  "as_numb n =
     (case n of
        CharValue _ _ \<Rightarrow> cif_value_convert_to_numb n
      | NumbValue _ _ _ _ _ _ \<Rightarrow> (CIF_OK, n)
      | _ \<Rightarrow> (CIF_ARGUMENT_ERROR, n))"

definition cif_value_get_number ::
  "rounding \<Rightarrow> (int \<Rightarrow> int \<Rightarrow> int) \<Rightarrow> cif_value \<Rightarrow> ((bool \<times> double_result) res \<times> cif_value) option" where
  "cif_value_get_number mode estimate n =
     (case as_numb n of
        (result, n) \<Rightarrow>
          if result \<noteq> CIF_OK then Some (Inl result, n)
          else (case n of
                  NumbValue _ _ sign digits _ scale \<Rightarrow>
                    map_option (\<lambda>d. (Inr (sign < 0, d), n)) (to_double mode estimate digits scale)
                | _ \<Rightarrow> None))"

definition cif_value_get_su ::
  "rounding \<Rightarrow> (int \<Rightarrow> int \<Rightarrow> int) \<Rightarrow> cif_value \<Rightarrow> (double_result res \<times> cif_value) option" where
  "cif_value_get_su mode estimate n =
     (case as_numb n of
        (result, n) \<Rightarrow>
          if result \<noteq> CIF_OK then Some (Inl result, n)
          else (case n of
                  NumbValue _ _ _ _ None _ \<Rightarrow> Some (Inr Zero, n)
                | NumbValue _ _ _ _ (Some su) scale \<Rightarrow>
                    map_option (\<lambda>d. (Inr d, n)) (to_double mode estimate su scale)
                | _ \<Rightarrow> None))"

end
