(* ===== verification/NumbersProps.thy ===== *)
theory NumbersProps
  imports Complex_Main Numbers
begin

text \<open>
  What the functions on numbers promise: the text of a new number reads back as the number, the scale that
  the rule for uncertainties chooses, and a number whose digits overrun the array of to_double.
\<close>

section \<open>The chosen scale\<close>

definition ratio :: "dbl \<Rightarrow> int \<Rightarrow> real" where
  "ratio d s = real (scaled_num d s) / real (scaled_den d s)"

lemma ratio_step: "ratio d (s + 1) = 10 * ratio d s"
proof (cases "0 \<le> s")
  case True
  then have "nat (s + 1) = Suc (nat s)" "nat (- (s + 1)) = 0" "nat (- s) = 0" by simp_all
  then show ?thesis by (simp add: ratio_def scaled_num_def scaled_den_def)
next
  case False
  then have "nat (- s) = Suc (nat (- (s + 1)))" "nat (s + 1) = 0" "nat s = 0" by simp_all
  then show ?thesis by (simp add: ratio_def scaled_num_def scaled_den_def)
qed

lemma ratio_steps: "ratio d (s + int k) = 10 ^ k * ratio d s"
proof (induction k)
  case (Suc k)
  have "ratio d (s + int (Suc k)) = ratio d (s + int k + 1)" by (simp add: algebra_simps)
  then show ?case using Suc by (simp add: ratio_step)
qed simp

definition rounded :: "dbl \<Rightarrow> int \<Rightarrow> nat" where
  "rounded d s = nearest_even (scaled_num d s) (scaled_den d s)"

lemma nearest_even_error:
  assumes "0 < q"
  shows "\<bar>real (nearest_even p q) - real p / real q\<bar> \<le> 1 / 2"
proof -
  define n t where "n = p div q" and "t = p mod q"
  have p: "real p = real n * real q + real t"
    unfolding n_def t_def of_nat_mult [symmetric] of_nat_add [symmetric] by (simp only: div_mult_mod_eq)
  then have x: "real p / real q = real n + real t / real q" using assms by (simp add: field_simps)
  have t: "0 \<le> real t / real q" "real t / real q \<le> 1" using assms by (simp_all add: t_def less_imp_le)
  consider "2 * t < q" | "2 * t = q" | "2 * t > q" by linarith
  then show ?thesis
  proof cases
    case 1
    then have "real t / real q \<le> 1 / 2" using assms by (simp add: field_simps)
    moreover have "nearest_even p q = n" using 1 by (simp add: nearest_even_def n_def t_def Let_def)
    ultimately show ?thesis using t x by simp
  next
    case 2
    then have "real q = 2 * real t" by linarith
    then have "real t / real q = 1 / 2" using assms by (simp add: field_simps)
    moreover have "nearest_even p q = n \<or> nearest_even p q = n + 1"
      by (simp add: nearest_even_def n_def Let_def)
    ultimately show ?thesis using x by auto
  next
    case 3
    then have "1 / 2 \<le> real t / real q" using assms by (simp add: field_simps)
    moreover have "nearest_even p q = n + 1" using 3 by (simp add: nearest_even_def n_def t_def Let_def)
    ultimately show ?thesis using t x by simp
  qed
qed

lemma rounded_error: "\<bar>real (rounded d s) - ratio d s\<bar> \<le> 1 / 2"
  unfolding rounded_def ratio_def by (rule nearest_even_error [OF scaled_den_pos])

lemma rounded_ge: "real k \<le> ratio d s \<Longrightarrow> k \<le> rounded d s"
  using rounded_error [of d s] by linarith

lemma rounded_le: "ratio d s \<le> real k \<Longrightarrow> rounded d s \<le> k"
  using rounded_error [of d s] by linarith

lemma digit_count_low: "0 < m \<Longrightarrow> 10 ^ (digit_count m - 1) \<le> m"
proof (induction m rule: digit_count.induct)
  case (1 m)
  show ?case
  proof (cases "m < 10")
    case False
    then have ih: "10 ^ (digit_count (m div 10) - 1) \<le> m div 10" using 1 by simp
    have "digit_count (m div 10) \<noteq> 0" by (simp add: digit_count.simps [of "m div 10"])
    then have "(10 :: nat) ^ digit_count (m div 10) = 10 * 10 ^ (digit_count (m div 10) - 1)"
      by (simp add: power_eq_if)
    also have "\<dots> \<le> m" using ih by linarith
    finally show ?thesis using False by (simp add: digit_count.simps [of m])
  qed (use 1 in \<open>simp add: digit_count.simps [of m]\<close>)
qed

lemma shifts_up_spec:
  "0 < p \<Longrightarrow> q \<le> 10 ^ shifts_up p q * p \<and> (shifts_up p q \<noteq> 0 \<longrightarrow> 10 ^ (shifts_up p q - 1) * p < q)"
proof (induction p q rule: shifts_up.induct)
  case (1 p q)
  show ?case
  proof (cases "q \<le> p")
    case True
    then show ?thesis by (simp add: shifts_up.simps [of p q])
  next
    case False
    then have ih: "q \<le> 10 ^ shifts_up (10 * p) q * (10 * p)"
      "shifts_up (10 * p) q \<noteq> 0 \<longrightarrow> 10 ^ (shifts_up (10 * p) q - 1) * (10 * p) < q" using 1 by simp_all
    have s: "shifts_up p q = Suc (shifts_up (10 * p) q)" using False 1(2) by (simp add: shifts_up.simps [of p q])
    have "10 ^ shifts_up (10 * p) q * p < q"
    proof (cases "shifts_up (10 * p) q")
      case 0
      then show ?thesis using False by simp
    next
      case (Suc k)
      then show ?thesis using ih(2) by (simp add: mult.assoc mult.left_commute)
    qed
    then show ?thesis using ih(1) s by (simp add: mult.left_commute)
  qed
qed

lemma real_le: "m \<le> n \<Longrightarrow> real m \<le> real n"
  by simp

lemma real_less: "m < n \<Longrightarrow> real m < real n"
  by simp

text \<open>The exponent of ten of a positive double.\<close>

lemma decimal_exponent_spec:
  assumes "0 < dbl_fraction d"
  shows "1 \<le> ratio d (- decimal_exponent d)" "ratio d (- decimal_exponent d) < 10"
proof -
  define p q where "p = scaled_num d 0" and "q = scaled_den d 0"
  have p: "0 < p" and q: "0 < q" using assms scaled_den_pos by (simp_all add: p_def q_def scaled_num_def)
  have r0: "ratio d 0 = real p / real q" by (simp add: ratio_def p_def q_def)
  show "1 \<le> ratio d (- decimal_exponent d)" "ratio d (- decimal_exponent d) < 10"
  proof (atomize (full), cases "q \<le> p")
    case True
    define k where "k = digit_count (p div q) - 1"
    have "0 < p div q" using True q by (simp add: div_greater_zero_iff)
    then have low: "10 ^ k \<le> p div q" using digit_count_low by (simp add: k_def)
    have "digit_count (p div q) \<noteq> 0" by (simp add: digit_count.simps [of "p div q"])
    then have dc: "digit_count (p div q) = Suc k" by (simp add: k_def)
    have high: "p div q < 10 ^ Suc k" using digit_count_bound [of "p div q"] dc by simp
    have e: "decimal_exponent d = int k" using True dc by (simp add: decimal_exponent_def p_def q_def)
    have "10 ^ k * q \<le> p" using low q by (simp add: less_eq_div_iff_mult_less_eq)
    from real_le [OF this] have 1: "10 ^ k * real q \<le> real p" by simp
    have "p < 10 ^ Suc k * q" using high q by (simp add: div_less_iff_less_mult)
    from real_less [OF this] have 2: "real p < 10 ^ Suc k * real q" by simp
    have "ratio d 0 = 10 ^ k * ratio d (- int k)" using ratio_steps [of d "- int k" k] by simp
    then have "ratio d (- int k) = ratio d 0 / 10 ^ k" by simp
    then have x: "ratio d (- int k) = real p / (10 ^ k * real q)" by (simp add: r0 mult.commute)
    show "1 \<le> ratio d (- decimal_exponent d) \<and> ratio d (- decimal_exponent d) < 10"
      using 1 2 q unfolding e x by (simp add: pos_le_divide_eq pos_divide_less_eq mult_ac)
  next
    case False
    define k where "k = shifts_up p q"
    have e: "decimal_exponent d = - int k" using False by (simp add: decimal_exponent_def p_def q_def k_def)
    have "k \<noteq> 0" using False p by (simp add: k_def shifts_up.simps [of p q])
    then obtain j where j: "k = Suc j" by (cases k) auto
    have a: "q \<le> 10 ^ k * p" "10 ^ j * p < q" using shifts_up_spec [OF p, of q] j by (simp_all add: k_def)
    have 1: "real q \<le> 10 ^ k * real p" using real_le [OF a(1)] by simp
    have 2: "10 ^ j * real p < real q" using real_less [OF a(2)] by simp
    have x: "ratio d (int k) = (10 ^ k * real p) / real q" using ratio_steps [of d 0 k] r0 by simp
    have "10 ^ k * real p = 10 * (10 ^ j * real p)" by (simp add: j)
    then have "10 ^ k * real p < 10 * real q" using 2 by linarith
    then show "1 \<le> ratio d (- decimal_exponent d) \<and> ratio d (- decimal_exponent d) < 10"
      using 1 q unfolding e minus_minus x by (simp add: pos_le_divide_eq pos_divide_less_eq)
  qed
qed

lemma rule_scale_spec:
  assumes "0 < dbl_fraction su" "2 \<le> su_rule"
  shows "rounded su (rule_scale FE_TONEAREST su su_rule) \<le> su_rule"
    and "su_rule < rounded su (rule_scale FE_TONEAREST su su_rule + 1)"
proof -
  define p where "p = digit_count su_rule - 1"
  have dc: "digit_count su_rule = Suc p" by (simp add: p_def digit_count.simps [of su_rule])
  have rule: "10 ^ p \<le> su_rule" "su_rule < 10 ^ Suc p"
    using digit_count_low [of su_rule] digit_count_bound [of su_rule] assms(2) dc by simp_all
  define e where "e = decimal_exponent su"
  define s where "s = int p - e"
  have "ratio su s = 10 ^ p * ratio su (- e)" using ratio_steps [of su "- e" p] by (simp add: s_def)
  then have r: "10 ^ p \<le> ratio su s" "ratio su s < 10 ^ Suc p"
    using decimal_exponent_spec [OF assms(1), folded e_def] by simp_all
  have up: "ratio su (s + 1) = 10 * ratio su s" "ratio su s = 10 * ratio su (s - 1)"
    using ratio_step [of su s] ratio_step [of su "s - 1"] by simp_all
  have below: "rounded su (s - 1) \<le> 10 ^ p" using r up by (intro rounded_le) simp
  have above: "10 ^ Suc p \<le> rounded su (s + 1)" using r up by (intro rounded_ge) simp
  define m where "m = rounded su s"
  have pe: "sprintf_e FE_TONEAREST p su = (if m = 10 ^ Suc p then (10 ^ p, e + 1) else (m, e))"
    by (simp add: sprintf_e_def Let_def round_quotient_def m_def rounded_def s_def e_def)
  have "rounded su (rule_scale FE_TONEAREST su su_rule) \<le> su_rule
      \<and> su_rule < rounded su (rule_scale FE_TONEAREST su su_rule + 1)"
  proof (cases "su_rule < m")
    case True
    then have "rule_scale FE_TONEAREST su su_rule = s - 1"
      using rule by (auto simp: rule_scale_def dc pe Let_def s_def)
    then show ?thesis using below rule True by (simp add: m_def)
  next
    case False
    then have "m \<noteq> 10 ^ Suc p" using rule by simp
    then have "rule_scale FE_TONEAREST su su_rule = s"
      using False by (simp add: rule_scale_def dc pe Let_def s_def)
    then show ?thesis using above rule False by (simp add: m_def)
  qed
  then show "rounded su (rule_scale FE_TONEAREST su su_rule) \<le> su_rule"
    "su_rule < rounded su (rule_scale FE_TONEAREST su su_rule + 1)" by simp_all
qed

text \<open>
  C34. The rule for uncertainties. For a positive finite uncertainty and a rule of at least 2,
  cif_value_autoinit_numb makes the number with the largest scale at which the uncertainty, rounded, is an
  integer not greater than the rule: at the next scale it would be greater.
\<close>

theorem autoinit_rule:
  assumes "is_positive su" "2 \<le> su_rule"
  shows "\<exists>scale. cif_value_autoinit_numb FE_TONEAREST msp v val su su_rule
      = cif_value_init_numb FE_TONEAREST msp (cif_value_clean v) val su scale DEFAULT_MAX_LEAD_ZEROES
    \<and> nearest_even (scaled_num su scale) (scaled_den su scale) \<le> su_rule
    \<and> su_rule < nearest_even (scaled_num su (scale + 1)) (scaled_den su (scale + 1))"
proof -
  have "0 < dbl_fraction su" "\<not> is_negative su" using assms(1) by (auto simp: is_positive_def is_negative_def)
  then show ?thesis
    using rule_scale_spec [OF _ assms(2), of su] assms(2)
    by (intro exI [of _ "rule_scale FE_TONEAREST su su_rule"])
      (simp add: cif_value_autoinit_numb_def rounded_def)
qed

definition quarter :: dbl where
  "quarter = \<lparr>dbl_negative = False, dbl_fraction = 2 ^ 52, dbl_exponent = -54\<rparr>"

lemma autoinit_rule_witness:
  "\<exists>scale. cif_value_autoinit_numb FE_TONEAREST (\<lambda>_. 0) UnkValue quarter quarter 19
      = cif_value_init_numb FE_TONEAREST (\<lambda>_. 0) (cif_value_clean UnkValue) quarter quarter scale DEFAULT_MAX_LEAD_ZEROES
    \<and> nearest_even (scaled_num quarter scale) (scaled_den quarter scale) \<le> 19
    \<and> 19 < nearest_even (scaled_num quarter (scale + 1)) (scaled_den quarter (scale + 1))"
  using autoinit_rule [of quarter 19 "\<lambda>_. 0" UnkValue quarter] by (simp add: quarter_def is_positive_def)

section \<open>Reading back the text\<close>

lemma decimal_canonical: "canonical_digits (decimal n)"
proof -
  have len: "length (decimal n) = digit_count n" by (simp add: decimal_def)
  have "digit_count n \<noteq> 0" by (simp add: digit_count.simps [of n])
  moreover have "hd (decimal n) \<noteq> UCHAR_0" if "digit_count n \<noteq> 1"
  proof -
    define k where "k = digit_count n - 1"
    have k: "digit_count n = 1 + k" using \<open>digit_count n \<noteq> 0\<close> by (simp add: k_def)
    have n: "0 < n" using that by (cases n) (simp_all add: digit_count.simps [of 0])
    have low: "10 ^ k \<le> n" using digit_count_low [OF n] by (simp add: k_def)
    have high: "n < 10 ^ Suc k" using digit_count_bound [of n] k by simp
    define a where "a = n div 10 ^ k"
    have a: "0 < a" "a < 10" using low high by (simp_all add: a_def div_greater_zero_iff less_mult_imp_div_less)
    have "n = a * 10 ^ k + n mod 10 ^ k" unfolding a_def by (simp only: div_mult_mod_eq)
    then have "decimal n = decimal_digits 1 a @ decimal_digits k (n mod 10 ^ k)"
      unfolding decimal_def k by (metis decimal_digits_append mod_less_divisor zero_less_numeral zero_less_power)
    moreover have "UCHAR_0 + of_nat a \<noteq> UCHAR_0"
    proof -
      have "a \<in> {1, 2, 3, 4, 5, 6, 7, 8, 9}" using a by auto
      then show ?thesis by auto
    qed
    ultimately show ?thesis using a by simp
  qed
  moreover have "decimal n \<noteq> []" using len \<open>digit_count n \<noteq> 0\<close> by auto
  ultimately show ?thesis
    using len decimal_digits_all [of "digit_count n" n] by (auto simp: canonical_digits_def decimal_def)
qed

text \<open>The digits of a double at a scale that init_numb accepts.\<close>

definition digits_at :: "dbl \<Rightarrow> int \<Rightarrow> ustring" where
  "digits_at d scale =
     (let place = 9 * digit_place scale
      in if rounded d scale = 0 \<and> scaled_den d place \<le> scaled_num d place then [] else decimal (rounded d scale))"

lemma to_digits_at: "finite_dbl d \<Longrightarrow> -314 \<le> scale \<Longrightarrow> to_digits FE_TONEAREST d scale = Some (digits_at d scale)"
  using to_digits_value [of d scale] by (simp add: digits_at_def rounded_def Let_def)

lemma digits_at_canonical: "digits_at d scale \<noteq> [] \<Longrightarrow> canonical_digits (digits_at d scale)"
  using decimal_canonical [of "rounded d scale"] by (auto simp: digits_at_def Let_def)

lemma numb_text_error: "numb_text plain negative digits su scale = Some (Inl e) \<Longrightarrow> e = CIF_ARGUMENT_ERROR"
  by (auto simp: numb_text_def format_text_decimal_def format_text_sci_def Let_def split: if_splits)

lemma init_numb_result:
  assumes "finite_dbl val" "finite_dbl su"
    and "cif_value_init_numb FE_TONEAREST msp n val su scale zeroes = Some (CIF_OK, v)"
  shows "\<exists>txt. v = NumbValue CIF_NOT_QUOTED txt (if is_negative val then -1 else 1) (digits_at val scale)
      (if is_positive su \<and> digits_at su scale \<noteq> [] then Some (digits_at su scale) else None) scale
    \<and> (digits_at val scale \<noteq> [] \<longrightarrow> (\<forall>w. cif_value_parse_numb w txt = (CIF_OK, v)))"
proof -
  have ok: "\<not> is_negative su" "- scale \<ge> LEAST_DBL_10_DIGIT" "- scale \<le> DBL_MAX_10_EXP"
    using assms(3) by (auto simp: cif_value_init_numb_def split: if_splits)
  then have digits: "to_digits FE_TONEAREST val scale = Some (digits_at val scale)"
    "to_digits FE_TONEAREST su scale = Some (digits_at su scale)"
    using to_digits_at [OF assms(1)] to_digits_at [OF assms(2)] by simp_all
  define su' where "su' = (if is_positive su \<and> digits_at su scale \<noteq> [] then Some (digits_at su scale) else None)"
  have su: "su_string FE_TONEAREST su scale = Some su'"
    using digits by (simp add: su_string_def su'_def split: list.split)
  have can: "canonical_su su'"
    using digits_at_canonical [of su scale] by (simp add: canonical_su_def su'_def)
  define plain where "plain \<longleftrightarrow> scale \<ge> 0 \<and> - (msp val + 1) \<le> zeroes"
  obtain t where written: "numb_text plain (is_negative val) (digits_at val scale) su' scale = Some (Inr t)"
    and v: "v = NumbValue CIF_NOT_QUOTED t (if is_negative val then -1 else 1) (digits_at val scale) su' scale"
    using assms(3) digits su
    by (auto simp: cif_value_init_numb_def plain_def dest: numb_text_error
        split: if_splits option.splits sum.splits)
  have "cif_value_parse_numb w t = (CIF_OK, v)" if "digits_at val scale \<noteq> []" for w
  proof (cases plain)
    case True
    then show ?thesis
      using written v decimal_text_parses [OF digits_at_canonical [OF that] can] plain_def by (simp add: numb_text_def)
  next
    case False
    then show ?thesis
      using written v sci_text_parses [OF digits_at_canonical [OF that] can] that by (simp add: numb_text_def)
  qed
  then show ?thesis using v su'_def by blast
qed

text \<open>
  C9. The text of a number made of doubles reads back as the number, under the default rounding mode. When
  cif_value_init_numb succeeds for finite doubles and the value is zero or does not round to zero, the digits are those of the value rounded
  to the scale, and parsing the number's text, into any value, gives the same sign, digits, uncertainty and
  scale.
\<close>

theorem init_numb_reads_back:
  assumes "finite_dbl val" "finite_dbl su"
    and "cif_value_init_numb FE_TONEAREST msp n val su scale zeroes = Some (CIF_OK, v)"
    and "dbl_fraction val = 0 \<or> nearest_even (scaled_num val scale) (scaled_den val scale) > 0"
  shows "\<exists>txt su'. v = NumbValue CIF_NOT_QUOTED txt (if is_negative val then -1 else 1)
      (decimal (nearest_even (scaled_num val scale) (scaled_den val scale))) su' scale
    \<and> (\<forall>w. cif_value_parse_numb w txt = (CIF_OK, v))"
proof -
  have "digits_at val scale = decimal (rounded val scale)"
  proof (cases "dbl_fraction val = 0")
    case True
    have "\<not> scaled_den val (9 * digit_place scale) \<le> scaled_num val (9 * digit_place scale)"
      using True scaled_den_pos [of val] by (simp add: scaled_num_def)
    then show ?thesis by (simp add: digits_at_def Let_def)
  qed (use assms(4) in \<open>simp add: digits_at_def Let_def rounded_def\<close>)
  moreover from this have "digits_at val scale \<noteq> []"
    using decimal_canonical [of "rounded val scale"] by (simp add: canonical_digits_def)
  ultimately show ?thesis using init_numb_result [OF assms(1-3)] by (auto simp: rounded_def)
qed

lemma init_numb_reads_back_witness:
  "cif_value_init_numb FE_TONEAREST (\<lambda>_. -1) UnkValue quarter (quarter\<lparr>dbl_fraction := 0\<rparr>) 2 5
     = Some (CIF_OK, NumbValue CIF_NOT_QUOTED [0x30, 0x2e, 0x32, 0x35] 1 [0x32, 0x35] None 2)
   \<and> (\<exists>txt su'. NumbValue CIF_NOT_QUOTED [0x30, 0x2e, 0x32, 0x35] 1 [0x32, 0x35] None 2
         = NumbValue CIF_NOT_QUOTED txt (if is_negative quarter then -1 else 1)
             (decimal (nearest_even (scaled_num quarter 2) (scaled_den quarter 2))) su' 2
       \<and> (\<forall>w. cif_value_parse_numb w txt
             = (CIF_OK, NumbValue CIF_NOT_QUOTED [0x30, 0x2e, 0x32, 0x35] 1 [0x32, 0x35] None 2)))"
proof -
  define zero where "zero = quarter\<lparr>dbl_fraction := 0\<rparr>"
  have fin: "finite_dbl quarter" "finite_dbl zero" by (simp_all add: finite_dbl_def quarter_def zero_def)
  have n: "nearest_even (scaled_num quarter 2) (scaled_den quarter 2) = 25"
    by (simp add: scaled_num_def scaled_den_def quarter_def nearest_even_def)
  then have "digits_at quarter 2 = [0x32, 0x35]"
    by (simp add: digits_at_def rounded_def decimal_def digit_count.simps)
  then have "to_digits FE_TONEAREST quarter 2 = Some [0x32, 0x35]" using to_digits_at [OF fin(1), of 2] by simp
  moreover have "su_string FE_TONEAREST zero 2 = Some None"
    by (simp add: su_string_def is_positive_def zero_def)
  moreover have "\<not> is_negative quarter" "\<not> is_negative zero" by (simp_all add: is_negative_def quarter_def zero_def)
  ultimately have i: "cif_value_init_numb FE_TONEAREST (\<lambda>_. -1) UnkValue quarter zero 2 5
     = Some (CIF_OK, NumbValue CIF_NOT_QUOTED [0x30, 0x2e, 0x32, 0x35] 1 [0x32, 0x35] None 2)"
    by (simp add: cif_value_init_numb_def numb_text_def format_text_decimal_def write_su_def su_chars_def)
  have pos: "dbl_fraction quarter = 0 \<or> nearest_even (scaled_num quarter 2) (scaled_den quarter 2) > 0"
    using n by simp
  show ?thesis using i init_numb_reads_back [OF fin i pos] unfolding zero_def by (rule conjI)
qed

text \<open>
  C36. A value with no digit left ends the program. When a value rounds to zero although the bignum digit
  that is rounded to is not zero, to_digits gives no digit, and a number that is to be written in scientific
  notation is refused by the assertion of format_text_sci: cif_value_init_numb does not return.
\<close>

theorem no_digit_aborts:
  assumes "finite_dbl val" "finite_dbl su" "\<not> is_negative su" "-308 \<le> scale" "scale \<le> 321" "0 \<le> zeroes"
    and "scale < 0 \<or> - (msp val + 1) > zeroes"
    and "nearest_even (scaled_num val scale) (scaled_den val scale) = 0"
    and "scaled_den val (9 * digit_place scale) \<le> scaled_num val (9 * digit_place scale)"
  shows "to_digits FE_TONEAREST val scale = Some []
    \<and> cif_value_init_numb FE_TONEAREST msp n val su scale zeroes = None"
proof -
  have digits: "to_digits FE_TONEAREST val scale = Some []"
    using to_digits_at [OF assms(1), of scale] assms(4,8,9) by (simp add: digits_at_def rounded_def Let_def)
  have "su_string FE_TONEAREST su scale \<noteq> None"
    using to_digits_at [OF assms(2), of scale] assms(4) by (simp add: su_string_def split: list.split)
  then show ?thesis
    using digits assms(3-7) by (auto simp: cif_value_init_numb_def numb_text_def split: option.split)
qed

lemma no_digit_aborts_witness:
  "cif_value_init_numb FE_TONEAREST (\<lambda>_. -9) UnkValue (quarter\<lparr>dbl_exponent := -81\<rparr>) (quarter\<lparr>dbl_fraction := 0\<rparr>) 8 5
   = None"
proof -
  have "finite_dbl (quarter\<lparr>dbl_exponent := -81\<rparr>)" "finite_dbl (quarter\<lparr>dbl_fraction := 0\<rparr>)"
    "\<not> is_negative (quarter\<lparr>dbl_fraction := 0\<rparr>)"
    by (simp_all add: finite_dbl_def quarter_def is_negative_def)
  moreover have "nearest_even (scaled_num (quarter\<lparr>dbl_exponent := -81\<rparr>) 8) (scaled_den (quarter\<lparr>dbl_exponent := -81\<rparr>) 8) = 0"
    by (simp add: scaled_num_def scaled_den_def quarter_def nearest_even_def)
  moreover have "scaled_den (quarter\<lparr>dbl_exponent := -81\<rparr>) (9 * digit_place 8)
      \<le> scaled_num (quarter\<lparr>dbl_exponent := -81\<rparr>) (9 * digit_place 8)"
    by (simp add: scaled_num_def scaled_den_def quarter_def digit_place_def)
  ultimately show ?thesis
    using no_digit_aborts [of "quarter\<lparr>dbl_exponent := -81\<rparr>" "quarter\<lparr>dbl_fraction := 0\<rparr>" 8 5 "\<lambda>_. -9" UnkValue]
    by simp
qed

section \<open>Digits that overrun the array\<close>

lemma bignum_digits: "BIGNUM_DIGITS = 335"
  by (simp add: BIGNUM_DIGITS_def ULT_LSP_ALT1_def ULT_LSP_ALT2_def)

definition number_of :: "ustring \<Rightarrow> nat" where
  "number_of ds = foldl (\<lambda>n c. n * 10 + nat (digit_value c)) 0 ds"

lemma number_of_snoc: "number_of (ds @ [c]) = number_of ds * 10 + nat (digit_value c)"
  by (simp add: number_of_def)

lemma digit_value_bound: "is_digit c \<Longrightarrow> nat (digit_value c) < 10"
  by (auto simp: is_digit_def digit_value_def word_le_def)

text \<open>Some digits have been read: their number, and room for more.\<close>

definition loaded :: "nat \<Rightarrow> nat \<Rightarrow> nat \<Rightarrow> nat list \<Rightarrow> bool" where
  "loaded n left i ds \<longleftrightarrow> small ds \<and> i < length ds \<and> 0 < left \<and> left \<le> 9 \<and> ds ! i < 10 ^ (9 - left)
     \<and> (\<forall>j. i < j \<and> j < length ds \<longrightarrow> ds ! j = 0) \<and> big (take i ds) * 10 ^ (9 - left) + ds ! i = n"

lemma loaded_step:
  assumes "loaded n left i ds" "c < 10" "Suc i < length ds"
  defines "ds' \<equiv> ds[i := u32 (ds ! i * 10 + c)]"
  shows "if left = 1 then loaded (n * 10 + c) 9 (Suc i) ds' else loaded (n * 10 + c) (left - 1) i ds'"
proof -
  note l = assms(1) [unfolded loaded_def]
  have pow: "10 ^ (9 - left) * 10 = (10 :: nat) ^ (10 - left)"
  proof -
    have "10 - left = Suc (9 - left)" using l by linarith
    then show ?thesis by simp
  qed
  have less: "ds ! i * 10 + c < 10 ^ (10 - left)" using l assms(2) pow by linarith
  also have "\<dots> \<le> 10 ^ 9" by (rule power_increasing) (use l in \<open>arith, simp\<close>)
  finally have bound: "ds ! i * 10 + c < BBASE" by simp
  have ds': "ds' = ds[i := ds ! i * 10 + c]" unfolding ds'_def u32_id [OF bound] ..
  have sm: "small ds'" using l bound unfolding ds' by (intro small_update) simp_all
  have nth: "ds' ! i = ds ! i * 10 + c" "length ds' = length ds" "take i ds' = take i ds"
    using l unfolding ds' by simp_all
  have sum: "big (take i ds) * 10 ^ (10 - left) + (ds ! i * 10 + c) = n * 10 + c"
    using l pow by (simp add: algebra_simps flip: pow)
  show ?thesis
  proof (cases "left = 1")
    case True
    have "big (take (Suc i) ds') = n * 10 + c"
      using big_take_Suc [of i ds'] nth sum True l by simp
    then show ?thesis using True sm nth l assms(3) by (auto simp: loaded_def ds')
  next
    case False
    then have "9 - (left - 1) = 10 - left" using l by simp
    then show ?thesis using False sm nth l less sum by (auto simp: loaded_def ds')
  qed
qed

text \<open>Where the digits end: the place of the last one, counted from the end of the array.\<close>

definition digits_room :: "nat \<Rightarrow> nat \<Rightarrow> nat list \<Rightarrow> nat" where
  "digits_room left i ds = left + 9 * (length ds - 1 - i)"

lemma read_digits_spec:
  assumes "loaded n left i ds" "list_all is_digit cs" "length cs + 9 \<le> digits_room left i ds"
  shows "\<exists>left' i' ds'. read_digits cs left i ds = Some (left', i', ds') \<and> loaded (foldl (\<lambda>n c. n * 10 + nat (digit_value c)) n cs) left' i' ds'
    \<and> digits_room left' i' ds' + length cs = digits_room left i ds \<and> length ds' = length ds \<and> i \<le> i'"
  using assms
proof (induction cs arbitrary: n left i ds)
  case (Cons c cs)
  note l = Cons.prems(1) [unfolded loaded_def]
  define ds1 where "ds1 = ds[i := u32 (ds ! i * 10 + nat (digit_value c))]"
  have len: "length ds1 = length ds" by (simp add: ds1_def)
  have "length ds - Suc i \<noteq> 0" using Cons.prems(3) l by (auto simp: digits_room_def)
  then have room: "Suc i < length ds" by simp
  have "nat (digit_value c) < 10" using Cons.prems(2) by (simp add: digit_value_bound)
  note step = loaded_step [OF Cons.prems(1) this room, folded ds1_def]
  have rd: "read_digits (c # cs) left i ds
      = (if left = 1 then read_digits cs 9 (i + 1) ds1 else read_digits cs (left - 1) i ds1)"
    using l by (simp add: ds1_def)
  show ?case
  proof (cases "left = 1")
    case True
    have p: "digits_room 9 (Suc i) ds1 + 1 = digits_room left i ds" using True room len by (simp add: digits_room_def)
    then show ?thesis
      using Cons.IH [of "n * 10 + nat (digit_value c)" 9 "Suc i" ds1] step True rd Cons.prems(2,3) len by auto
  next
    case False
    have p: "digits_room (left - 1) i ds1 + 1 = digits_room left i ds" using False l len by (simp add: digits_room_def)
    then show ?thesis
      using Cons.IH [of "n * 10 + nat (digit_value c)" "left - 1" i ds1] step False rd Cons.prems(2,3) len by auto
  qed
qed simp

lemma fill_digit_spec:
  assumes "loaded n left i ds"
  shows "\<exists>ds'. fill_digit left i ds = Some ds' \<and> small ds' \<and> length ds' = length ds
    \<and> big ds' = n * 10 ^ digits_room left i ds \<and> (\<forall>j. i < j \<and> j < length ds \<longrightarrow> ds' ! j = 0)"
proof -
  note l = assms [unfolded loaded_def]
  define ds' where "ds' = ds[i := ds ! i * 10 ^ left]"
  have pow: "10 ^ (9 - left) * 10 ^ left = BBASE" unfolding power_add [symmetric] using l by simp
  have bound: "ds ! i * 10 ^ left < BBASE" using l pow mult_less_mono1 [of "ds ! i" "10 ^ (9 - left)" "10 ^ left"] by simp
  have same: "ds' = ds" if "left = 9" using that l by (simp add: ds'_def list_update_same_conv)
  have fill: "fill_digit left i ds = Some ds'"
    using l u32_id [OF bound] same by (cases "left = 9") (simp_all add: fill_digit_def ds'_def)
  have sm: "small ds'" unfolding ds'_def using l bound by (intro small_update) simp_all
  have "big ds' = big (take (Suc i) ds') * BBASE ^ (length ds - Suc i)"
    using big_take_drop [of "Suc i" ds'] big_drop_zero [of "Suc i" ds'] l by (simp add: ds'_def)
  also have "big (take (Suc i) ds') = n * 10 ^ left"
  proof -
    have "big (take (Suc i) ds') = big (take i ds) * BBASE + ds ! i * 10 ^ left"
      using big_take_Suc [of i ds'] l by (simp add: ds'_def)
    also have "\<dots> = (big (take i ds) * 10 ^ (9 - left) + ds ! i) * 10 ^ left"
      unfolding pow [symmetric] by (simp add: algebra_simps)
    finally show ?thesis using l by simp
  qed
  also have "n * 10 ^ left * BBASE ^ (length ds - Suc i) = n * 10 ^ digits_room left i ds"
  proof -
    have "BBASE ^ k = (10 :: nat) ^ (9 * k)" for k by (simp add: power_mult)
    then show ?thesis by (simp add: digits_room_def power_add mult.assoc)
  qed
  finally show ?thesis using fill sm l by (auto simp: ds'_def)
qed

lemma pass_right_shift:
  "w \<le> Suc l \<or> r \<noteq> 0 \<Longrightarrow>
   pass_right s (Suc l) w r ds = map_option (\<lambda>(e, ds). (e + 1, ds)) (shift_right s l w r ds)"
proof (induction s l w r ds rule: shift_right.induct)
  case (1 shift l w r ds)
  show ?case
  proof (cases "w < length ds")
    case True
    define x where "x = u64 (r + ds ! w)"
    define r1 where "r1 = u64 (x mod 2 ^ shift * BBASE)"
    define ds1 where "ds1 = ds[w := u32 (x div 2 ^ shift)]"
    have a: "pass_right shift (Suc l) w r ds = pass_right shift (Suc l) (w + 1) r1 ds1"
      using 1(2) True by (simp add: pass_right.simps [of shift "Suc l" w] x_def r1_def ds1_def Let_def)
    have b: "shift_right shift l w r ds
        = (if w \<le> l \<or> r1 \<noteq> 0 then shift_right shift l (w + 1) r1 ds1 else Some (w, ds1))"
      using True by (simp add: shift_right.simps [of shift l w] x_def r1_def ds1_def Let_def)
    show ?thesis
    proof (cases "w \<le> l \<or> r1 \<noteq> 0")
      case c: True
      then have "pass_right shift (Suc l) (w + 1) r1 ds1
          = map_option (\<lambda>(e, ds). (e + 1, ds)) (shift_right shift l (w + 1) r1 ds1)"
        using 1(1) [OF _ x_def ds1_def r1_def _] True by auto
      then show ?thesis using a b c by simp
    next
      case False
      then have "\<not> (w + 1 \<le> Suc l \<or> r1 \<noteq> 0)" by auto
      then show ?thesis using a b False by (simp add: pass_right.simps [of shift "Suc l" "Suc w"])
    qed
  next
    case False
    then show ?thesis using 1(2)
      by (simp add: pass_right.simps [of shift "Suc l" w] shift_right.simps [of shift l w])
  qed
qed

lemma scale_right_sound:
  "scale_right n msd lsd ds = Some (m', l', ds') \<Longrightarrow> small ds \<Longrightarrow> \<forall>i < msd. ds ! i = 0 \<Longrightarrow>
   \<forall>i. lsd < i \<and> i < length ds \<longrightarrow> ds ! i = 0 \<Longrightarrow> msd \<le> lsd \<Longrightarrow> 0 < lsd \<Longrightarrow> 0 < big ds \<Longrightarrow>
   big ds' * 2 ^ n = big ds"
proof (induction n msd lsd ds rule: scale_right.induct)
  case (1 n msd lsd ds)
  show ?case
  proof (cases "n = 0")
    case True
    then show ?thesis using 1(2) by (simp add: scale_right.simps [of 0])
  next
    case False
    define s where "s = min 28 n"
    have s: "s \<le> 28" "s \<le> n" by (simp_all add: s_def)
    obtain l where l: "lsd = Suc l" using 1(7) by (cases lsd) auto
    obtain i ds1 where pass: "pass_right s lsd msd 0 ds = Some (i, ds1)"
      using 1(2) False by (auto simp: scale_right.simps [of n] s_def [symmetric] split: option.splits)
    then obtain e where e: "shift_right s l msd 0 ds = Some (e, ds1)" "i = e + 1"
      using pass_right_shift [of msd l 0 s ds] 1(6) l by auto
    have sound: "small ds1" "length ds1 = length ds" "take msd ds1 = take msd ds" "e < length ds" "l < e"
      "2 ^ s * big (drop msd ds1) = big (drop msd ds)" "msd \<le> e" "\<forall>i. e < i \<and> i < length ds \<longrightarrow> ds1 ! i = 0"
      using shift_right_sound [of s l msd 0 ds e ds1] e(1) s(1) 1(3,5) l by auto
    have zero: "\<forall>j < msd. ds1 ! j = 0" using sound(3) 1(4) by (metis nth_take)
    have big1: "2 ^ s * big ds1 = big ds"
      using big_take_drop [of msd ds1] big_take_drop [of msd ds] big_take_zero [of msd ds] sound 1(4) by simp
    then have pos: "0 < big ds1" using 1(8) by (cases "big ds1") auto
    define msd1 where "msd1 = first_nonzero ds1 msd"
    have msd1: "msd1 < length ds1" "ds1 ! msd1 \<noteq> 0" "\<forall>j < msd1. ds1 ! j = 0"
      using first_nonzero_spec [OF _ zero] pos sound(2,4,7) by (auto simp: msd1_def)
    have "msd1 \<le> e" using msd1(1,2) sound(2,8) by (metis not_le)
    have rest: "scale_right (n - s) msd1 e ds1 = Some (m', l', ds')"
      using 1(2) False pass e(2) msd1(1)
      by (simp add: scale_right.simps [of n] s_def [symmetric] msd1_def [symmetric] Let_def)
    have "big ds' * 2 ^ (n - s) = big ds1"
      using 1(1) [OF False s_def pass [unfolded e(2)] refl msd1_def] msd1 rest sound \<open>msd1 \<le> e\<close> pos by auto
    then have "big ds' * (2 ^ (n - s) * 2 ^ s) = big ds" using big1 by (metis mult.assoc mult.commute)
    then show ?thesis using s(2) by (simp flip: power_add)
  qed
qed

lemma odd_number: "ds \<noteq> [] \<Longrightarrow> list_all is_digit ds \<Longrightarrow> odd (digit_value (last ds)) \<Longrightarrow> odd (number_of ds)"
proof (cases ds rule: rev_cases)
  case (snoc xs c)
  assume a: "list_all is_digit ds" "odd (digit_value (last ds))"
  have "0 \<le> digit_value c" using a(1) snoc by (simp add: is_digit_def digit_value_def word_le_def)
  then have "odd (nat (digit_value c))" using a(2) snoc by (simp add: even_nat_iff)
  then show ?thesis using snoc by (simp add: number_of_snoc)
qed simp

lemma too_many_halvings:
  assumes "V * 2 ^ e = N * 10 ^ k" "k < e" "odd (N :: nat)"
  shows False
proof -
  have "(10 :: nat) ^ k = 2 ^ k * 5 ^ k" unfolding power_mult_distrib [symmetric] by simp
  moreover have "(2 :: nat) ^ e = 2 ^ k * 2 ^ (e - k)" using assms(2) by (simp flip: power_add)
  ultimately have "V * 2 ^ (e - k) * 2 ^ k = N * 5 ^ k * 2 ^ k" using assms(1) by (simp only: mult_ac)
  then have "V * 2 ^ (e - k) = N * 5 ^ k" by simp
  moreover have "even (V * 2 ^ (e - k))" using assms(2) by simp
  ultimately show False using assms(3) by simp
qed

text \<open>
  C35. A long number overruns the array of to_double. For 2038 to 2048 digits, the first not zero and the last
  odd, with 309 of them before the decimal point, the array takes the digits, and then the passes that
  divide by the power of two that the binary logarithm asks for leave the array: the call has no
  defined result. Such a number fits on a line.
\<close>

theorem to_double_overruns:
  assumes "list_all is_digit ds" "hd ds \<noteq> UCHAR_0" "odd (digit_value (last ds))"
    and "2038 \<le> length ds" "length ds \<le> 2048" "1024 \<le> estimate (digit_value (hd ds) + 1) 308"
  shows "(\<exists>left i arr arr'. read_digits ds 3 0 (replicate BIGNUM_DIGITS 0) = Some (left, i, arr)
      \<and> fill_digit left i arr = Some arr'
      \<and> scale_right (nat (1 + estimate (digit_value (hd ds) + 1) 308 - DBL_MANT_DIG)) 0 i arr' = None)
    \<and> to_double mode estimate ds (int (length ds) - 309) = None"
proof -
  have "ds \<noteq> []" using assms(4) by auto
  define e where "e = nat (1 + estimate (digit_value (hd ds) + 1) 308 - DBL_MANT_DIG)"
  have e: "972 \<le> e" "0 < 1 + estimate (digit_value (hd ds) + 1) 308 - DBL_MANT_DIG"
    using assms(6) by (simp_all add: e_def)
  have start: "loaded 0 3 0 (replicate BIGNUM_DIGITS 0)"
    by (simp add: loaded_def bignum_digits small_def del: replicate_Suc)
  have room: "digits_room 3 0 (replicate BIGNUM_DIGITS 0) = 3009" by (simp add: digits_room_def bignum_digits)
  obtain left i arr where rd: "read_digits ds 3 0 (replicate BIGNUM_DIGITS 0) = Some (left, i, arr)"
    and ld: "loaded (number_of ds) left i arr" and pl: "digits_room left i arr + length ds = 3009"
    and len: "length arr = BIGNUM_DIGITS"
    using read_digits_spec [OF start assms(1)] assms(5) room by (auto simp: number_of_def)
  obtain arr' where fill: "fill_digit left i arr = Some arr'" and sm: "small arr'" "length arr' = length arr"
    and val: "big arr' = number_of ds * 10 ^ digits_room left i arr" and zero: "\<forall>j. i < j \<and> j < length arr \<longrightarrow> arr' ! j = 0"
    using fill_digit_spec [OF ld] by blast
  have odd: "odd (number_of ds)" by (rule odd_number) (use \<open>ds \<noteq> []\<close> assms(1,3) in simp_all)
  have "0 < i"
  proof (rule ccontr)
    assume "\<not> 0 < i"
    then have "3006 \<le> digits_room left i arr" using len ld by (simp add: digits_room_def bignum_digits loaded_def)
    then show False using pl assms(4) by linarith
  qed
  have "0 < big arr'" using odd by (cases "number_of ds") (simp_all add: val)
  have none: "scale_right e 0 i arr' = None"
  proof (rule ccontr)
    assume "scale_right e 0 i arr' \<noteq> None"
    then obtain m' l' ds' where "scale_right e 0 i arr' = Some (m', l', ds')" by auto
    then have "big ds' * 2 ^ e = number_of ds * 10 ^ digits_room left i arr"
      using scale_right_sound [of e 0 i arr' m' l' ds'] sm zero \<open>0 < i\<close> \<open>0 < big arr'\<close> val by simp
    moreover have "digits_room left i arr < e" using pl assms(4) e by linarith
    ultimately show False using odd by (rule too_many_halvings)
  qed
  have "last ds \<noteq> UCHAR_0" using assms(3) by (auto simp: digit_value_def)
  then have lead: "dropWhile (\<lambda>c. c = UCHAR_0) ds = ds" "rev (dropWhile (\<lambda>c. c = UCHAR_0) (rev ds)) = ds"
    using \<open>ds \<noteq> []\<close> assms(2) by (simp_all add: dropWhile_eq_self_iff [THEN iffD2] hd_rev)
  have "to_double mode estimate ds (int (length ds) - 309) = finite_double mode estimate ds 308"
    using lead \<open>ds \<noteq> []\<close> assms(5) by (simp add: to_double_def Let_def)
  also have "\<dots> = None"
    using e(2) rd fill none by (simp add: finite_double_def Let_def e_def)
  finally show ?thesis using rd fill none e_def by blast
qed

lemma to_double_overruns_witness:
  "to_double FE_TONEAREST (\<lambda>d msp. if d \<ge> 2 then 1024 else 1023) (replicate 2038 0x31) (int 2038 - 309) = None"
  using to_double_overruns [of "replicate 2038 0x31" "\<lambda>d msp. if d \<ge> 2 then 1024 else 1023" FE_TONEAREST]
  by (simp add: list_all_iff is_digit_def digit_value_def)

section \<open>Ties\<close>

text \<open>
  A tie is rounded to an odd mantissa. The integer 9007199254740995 lies half way between two doubles;
  rounding to the nearest with ties to even gives the mantissa 4503599627370498, but to_double gives
  4503599627370497: round_to_int has the tail rounded with 0 in place of the integer part, so that it
  always takes that part for even.
\<close>

theorem tie_rounds_down:
  "to_double FE_TONEAREST (\<lambda>d msp. if d = 10 then 53 else 52)
     [0x39, 0x30, 0x30, 0x37, 0x31, 0x39, 0x39, 0x32, 0x35, 0x34, 0x37, 0x34, 0x30, 0x39, 0x39, 0x35] 0
   = Some (Ldexp 4503599627370497 1) \<and> nearest_even 9007199254740995 2 = 4503599627370498"
proof -
  have zeroes: "replicate BIGNUM_DIGITS 0 = 0 # 0 # 0 # replicate 332 (0 :: nat)"
    by (simp add: bignum_digits numeral_eq_Suc)
  have read: "read_digits [0x39, 0x30, 0x30, 0x37, 0x31, 0x39, 0x39, 0x32, 0x35, 0x34, 0x37, 0x34, 0x30, 0x39, 0x39, 0x35]
      7 0 (0 # 0 # 0 # replicate 332 0) = Some (9, 2, 9007199 # 254740995 # 0 # replicate 332 0)"
    by (simp add: u32_def digit_value_def)
  have pass: "pass_right 1 2 0 0 (9007199 # 254740995 # 0 # replicate 332 0)
      = Some (3, 4503599 # 627370497 # 500000000 # replicate 332 0)"
    by (simp add: pass_right.simps u32_def u64_def)
  have scaled: "scale_right 1 0 2 (9007199 # 254740995 # 0 # replicate 332 0)
      = Some (0, 2, 4503599 # 627370497 # 500000000 # replicate 332 0)"
    using pass by (simp add: scale_right.simps first_nonzero.simps)
  have scaled2: "scale_right 1 0 (Suc (Suc 0)) (9007199 # 254740995 # 0 # replicate 332 0)
      = Some (0, 2, 4503599 # 627370497 # 500000000 # replicate 332 0)"
    unfolding numeral_2_eq_2 [symmetric] by (rule scaled)
  have norm: "normalize_mantissa 1 0 2 (4503599 # 627370497 # 500000000 # replicate 332 0) 1
      = Some (4503599627370497, 2, 4503599 # 627370497 # 500000000 # replicate 332 0, 1)"
    by (simp add: normalize_mantissa.simps [of "Suc 0"] integer_part_def u64_def MAX_MANTISSA_def MIN_MANTISSA_def upt_rec)
  have "round_to_int FE_TONEAREST 4503599627370497 (4503599 # 627370497 # 500000000 # replicate 332 0) 1 2
      = 4503599627370497"
    by (simp add: round_to_int_def round_it_def compare_half_def u32_def)
  then show ?thesis
    using zeroes read scaled2 norm
    by (simp add: to_double_def finite_double_def fill_digit_def digit_value_def nearest_even_def Let_def MAX_MANTISSA_def)
qed

end
