(* ===== verification/ParseFile.thy ===== *)
theory ParseFile
  imports Parser
begin

text \<open>
  The entry of a parse, src/ciffile.c: cif_parse_options_create, cif_parse with the choice of the encoding
  and of the version of CIF from the options and the first bytes of the stream, and ustream_read_chars, the
  character source that a parse of a file reads from.

  ICU's detection of a signature and its converters are parameters. The platform's own encoding is an
  extension of ASCII, so that the magic code in it is the same as in UTF-8.
\<close>

section \<open>Options\<close>

type_synonym byte = "8 word"

record parse_opts =
  prefer_cif2 :: int
  default_encoding_name :: "string option"
  force_default_encoding :: bool
  line_folding_modifier :: int
  text_prefixing_modifier :: int
  opt_max_frame_depth :: int
  extra_ws_chars :: ustring
  extra_eol_chars :: ustring
  opt_error_callback :: "(event list \<Rightarrow> int) option"

definition cif_parse_options_create :: parse_opts where
  "cif_parse_options_create =
     \<lparr>prefer_cif2 = 0, default_encoding_name = None, force_default_encoding = False,
      line_folding_modifier = 0, text_prefixing_modifier = 0, opt_max_frame_depth = 1,
      extra_ws_chars = [], extra_eol_chars = [], opt_error_callback = None\<rparr>"

text \<open>The two error callbacks of the API; a callback is shown the reports so far, the last one first.\<close>

definition cif_parse_error_ignore :: "event list \<Rightarrow> int" where
  "cif_parse_error_ignore es = CIF_OK"

fun error_code :: "event \<Rightarrow> int" where
  "error_code (ErrorEvent code _ _ _) = code"
| "error_code _ = CIF_OK"

definition cif_parse_error_die :: "event list \<Rightarrow> int" where
  "cif_parse_error_die es = (case es of [] \<Rightarrow> CIF_OK | e # _ \<Rightarrow> error_code e)"

definition DEFAULT_OPTIONS :: parse_opts where
  "DEFAULT_OPTIONS = cif_parse_options_create\<lparr>opt_error_callback := Some cif_parse_error_die\<rparr>"

section \<open>The encoding and the version\<close>

definition MAGIC_LENGTH :: nat where "MAGIC_LENGTH = 7"
definition MAGIC_EXTRA :: nat where "MAGIC_EXTRA = 3"

definition CIF2_UTF8_MAGIC :: "byte list" where
  "CIF2_UTF8_MAGIC = [0x23, 0x5c, 0x23, 0x43, 0x49, 0x46, 0x5f, 0x32, 0x2e, 0x30]"

definition UTF8 :: string where "UTF8 = ''UTF-8''"

text \<open>The version that the options ask for; 0 if they leave it open.\<close>

definition version_of_options :: "parse_opts \<Rightarrow> int" where
  "version_of_options opts =
     (if prefer_cif2 opts > 19 then 2 else if prefer_cif2 opts < 0 then 1 else 0)"

text \<open>
  The name of the encoding and the version for the first bytes of a stream, when ICU's detection of a
  signature gives \<open>signature\<close>. A negative version is a default for input without a magic code.
\<close>

definition choose_encoding :: "parse_opts \<Rightarrow> string option \<Rightarrow> byte list \<Rightarrow> string option \<times> int" where
  "choose_encoding opts signature bytes =
     (case signature of
        Some name \<Rightarrow> (Some name, version_of_options opts)
      | None \<Rightarrow>
          if prefer_cif2 opts > 19 then (Some UTF8, version_of_options opts)
          else if prefer_cif2 opts \<ge> 0 \<and> length bytes \<ge> MAGIC_LENGTH + MAGIC_EXTRA
                  \<and> take (MAGIC_LENGTH + MAGIC_EXTRA) bytes = CIF2_UTF8_MAGIC
          then (Some UTF8, 2)
          else if prefer_cif2 opts > 0
                  \<and> (length bytes < MAGIC_LENGTH + MAGIC_EXTRA
                     \<or> take MAGIC_LENGTH bytes \<noteq> take MAGIC_LENGTH CIF2_UTF8_MAGIC)
          then (Some UTF8, 2)
          else (None, 1))"

definition forced_encoding :: "parse_opts \<Rightarrow> string option \<times> int" where
  "forced_encoding opts =
     (default_encoding_name opts,
      if prefer_cif2 opts < 20 \<and> prefer_cif2 opts > 0 then -2 else version_of_options opts)"

section \<open>The character source\<close>

text \<open>
  A stream of bytes with what fread still delivers and whether it then fails, the bytes that have been
  read but not converted, and the state of the converter.
\<close>

record 'k ustream =
  byte_stream :: "byte list"
  stream_fails :: bool
  byte_buffer :: "byte list"
  byte_buffer_size :: nat
  eof_status :: int
  last_error :: int
  converter :: 'k

datatype conversion = CONVERTED | NO_ROOM | FAILED int

text \<open>
  What ucnv_toUnicode does with the bytes at hand, room for some units and the flag for the end of input:
  the units, the bytes that are left, the state of the converter, and how it ended; a failure comes with
  the code of the user's callback, 0 if it was not called.
\<close>

type_synonym 'k to_unicode =
  "'k \<Rightarrow> byte list \<Rightarrow> nat \<Rightarrow> bool \<Rightarrow> ustring \<times> byte list \<times> 'k \<times> conversion"

text \<open>The byte buffer is filled when it is empty; \<open>None\<close> is an error of the stream.\<close>

definition fill_buffer :: "'k ustream \<Rightarrow> 'k ustream option" where
  "fill_buffer u =
     (if byte_buffer u = [] \<and> eof_status u = 0 then
        (let n = min (byte_buffer_size u) (length (byte_stream u)) in
         if n < byte_buffer_size u \<and> stream_fails u then None
         else Some (u\<lparr>byte_stream := drop n (byte_stream u), byte_buffer := take n (byte_stream u),
                       eof_status := if n < byte_buffer_size u then -1 else 0\<rparr>))
      else Some u)"

text \<open>
  The units that are read: at an error no units, with the code or, where the code is not set,
  without one.
\<close>

partial_function (option) ustream_loop ::
  "'k to_unicode \<Rightarrow> nat \<Rightarrow> 'k ustream \<Rightarrow> ((int option + ustring) \<times> 'k ustream) option" where
  "ustream_loop conv count u =
     (case fill_buffer u of
        None \<Rightarrow> Some (Inl None, u)
      | Some u \<Rightarrow>
          (case conv (converter u) (byte_buffer u) count (eof_status u \<noteq> 0) of
             (units, left_over, k, ending) \<Rightarrow>
               (let u = u\<lparr>byte_buffer := left_over, converter := k\<rparr> in
                case ending of
                  NO_ROOM \<Rightarrow> Some (Inr units, u)
                | FAILED e \<Rightarrow> Some (Inl (Some (if e = 0 then CIF_ERROR else e)), u\<lparr>last_error := e\<rparr>)
                | CONVERTED \<Rightarrow>
                    if eof_status u \<noteq> 0 then Some (Inr units, u\<lparr>eof_status := 1\<rparr>)
                    else if units = [] then ustream_loop conv count u
                    else Some (Inr units, u))))"

definition ustream_read_chars ::
  "'k to_unicode \<Rightarrow> nat \<Rightarrow> 'k ustream \<Rightarrow> ((int option + ustring) \<times> 'k ustream) option" where
  "ustream_read_chars conv count u =
     (if count = 0 \<or> eof_status u > 0 then Some (Inr [], u) else ustream_loop conv count u)"

text \<open>
  The callback of the converter for bytes that have no character: the code that the user's callback gives, and the
  unit that replaces the bytes if the parse is to go on. The signals of a converter's life are ignored.
\<close>

datatype callback_reason = UCNV_UNASSIGNED | UCNV_ILLEGAL | UCNV_IRREGULAR | UCNV_RESET | UCNV_CLOSE | UCNV_CLONE

definition ustream_to_unicode_callback :: "(int \<Rightarrow> int) \<Rightarrow> int \<Rightarrow> callback_reason \<Rightarrow> (int \<times> uchar option) option" where
  "ustream_to_unicode_callback report version reason =
     (if reason \<in> {UCNV_UNASSIGNED, UCNV_ILLEGAL, UCNV_IRREGULAR} then
        (let last_err = report (if reason = UCNV_UNASSIGNED then 103 else CIF_INVALID_CHAR)
         in Some (last_err, if last_err = 0 then Some (if version \<ge> 2 then REPL_CHAR else REPL1_CHAR) else None))
      else None)"

section \<open>Parsing a stream\<close>

text \<open>
  What ICU gives: a detected signature (\<open>None\<close> is a failure), a converter for a name (no name: the
  default), its canonical name, whether the callback can be set, and the characters that the source
  delivers for all bytes of the stream.
\<close>

record 'k converters =
  detect_signature :: "byte list \<Rightarrow> string option option"
  conv_open :: "string option \<Rightarrow> 'k option"
  conv_name :: "'k \<Rightarrow> string"
  conv_callback_set :: "'k \<Rightarrow> bool"
  conv_chars :: "'k \<Rightarrow> byte list \<Rightarrow> (int + ustring) list"

definition BUFFER_SIZE :: nat where "BUFFER_SIZE = 4096"

text \<open>The part of the scanner that comes from the options; the rest is not initialised yet.\<close>

definition scanner_of_options :: "parse_opts \<Rightarrow> int \<Rightarrow> (int + ustring) list \<Rightarrow> scanner \<Rightarrow> scanner" where
  "scanner_of_options opts version chars s =
     s\<lparr>char_source := chars, at_eof := False, cif_version := version,
       line_unfolding := min (line_folding_modifier opts) 1,
       prefix_removing := min (text_prefixing_modifier opts) 1,
       max_frame_depth := min (opt_max_frame_depth opts) 1,
       events := [],
       error_callback := (case opt_error_callback opts of None \<Rightarrow> cif_parse_error_die | Some f \<Rightarrow> f)\<rparr>"

datatype target = NoTarget | NewTarget sqlite_setup | ExistingTarget db

text \<open>The database that a parse starts with; without a target there is none that it touches.\<close>

fun open_target :: "target \<Rightarrow> db res" where
  "open_target NoTarget = Inr new_db"
| "open_target (NewTarget setup) = cif_create setup"
| "open_target (ExistingTarget d) = Inr d"

text \<open>
  The parse of a stream of bytes, which may fail when the first of them are read. The result has the context
  of the handlers and the database, if there is one. \<open>None\<close> is out of fuel.
\<close>

definition cif_parse ::
  "nat \<Rightarrow> nat \<Rightarrow> 'k converters \<Rightarrow> 'c parse_env \<Rightarrow> scanner \<Rightarrow> byte list \<Rightarrow> bool \<Rightarrow> parse_opts option \<Rightarrow> target \<Rightarrow> 'c
   \<Rightarrow> (int \<times> ('c \<times> db) option) option" where
  "cif_parse fuel n K E s0 bytes fails options target x =
     (let opts = (case options of None \<Rightarrow> DEFAULT_OPTIONS | Some opts \<Rightarrow> opts) in
      case open_target target of
        Inl e \<Rightarrow> Some (e, None)
      | Inr d \<Rightarrow>
          (let start = take BUFFER_SIZE bytes;
               chosen =
                 (if force_default_encoding opts then Inr (forced_encoding opts)
                  else if length start < BUFFER_SIZE \<and> fails then Inl CIF_ERROR
                  else if start = [] then Inl CIF_OK
                  else (case detect_signature K start of
                          None \<Rightarrow> Inl CIF_ERROR
                        | Some signature \<Rightarrow> Inr (choose_encoding opts signature start)))
           in case chosen of
                Inl result \<Rightarrow> Some (result, Some (x, d))
              | Inr (encoding_name, version) \<Rightarrow>
                  (case conv_open K encoding_name of
                     None \<Rightarrow> Some (CIF_ERROR, Some (x, d))
                   | Some k \<Rightarrow>
                       if \<not> conv_callback_set K k then Some (CIF_ERROR, Some (x, d))
                       else
                         map_option (\<lambda>(result, s, x, d). (result, Some (x, d)))
                           (cif_parse_internal fuel n (conv_name K k \<noteq> UTF8)
                              (extra_ws_chars opts) (extra_eol_chars opts) E (target \<noteq> NoTarget)
                              (scanner_of_options opts version (conv_chars K k bytes) s0, x, d)))))"

section \<open>The choice of the encoding\<close>

text \<open>The named default encoding has no effect unless it is forced.\<close>

lemma default_encoding_ignored:
  "choose_encoding (opts\<lparr>default_encoding_name := e\<rparr>) signature bytes = choose_encoding opts signature bytes"
  by (cases signature) (auto simp: choose_encoding_def version_of_options_def)

text \<open>Input with the magic code of CIF 2 in UTF-8 is read so, unless the options ask for CIF 1.\<close>

lemma utf8_magic_chosen:
  "take 10 bytes = CIF2_UTF8_MAGIC \<Longrightarrow> prefer_cif2 opts \<ge> 0 \<Longrightarrow> choose_encoding opts None bytes = (Some UTF8, 2)"
  by (cases "length bytes < 10")
    (auto simp: choose_encoding_def version_of_options_def MAGIC_LENGTH_def MAGIC_EXTRA_def CIF2_UTF8_MAGIC_def)

text \<open>After a signature the options do not make CIF 2 the default, as they do without one.\<close>

lemma signature_drops_preference:
  assumes "0 < prefer_cif2 opts" "prefer_cif2 opts \<le> 19" "take 7 bytes \<noteq> take 7 CIF2_UTF8_MAGIC"
    and "CLASS_OF c s \<noteq> HASH_CLASS"
  shows "choose_encoding opts None bytes = (Some UTF8, 2)"
    and "choose_version c (s\<lparr>cif_version := snd (choose_encoding opts (Some name) bytes)\<rparr>)
         = (CIF_OK, s\<lparr>cif_version := 1\<rparr>)"
proof -
  have "CLASS_OF c (s\<lparr>cif_version := 1\<rparr>) \<noteq> HASH_CLASS" using assms(4) by (simp add: CLASS_OF_def split: if_splits)
  then show "choose_version c (s\<lparr>cif_version := snd (choose_encoding opts (Some name) bytes)\<rparr>)
      = (CIF_OK, s\<lparr>cif_version := 1\<rparr>)"
    using assms(1,2) by (simp add: choose_encoding_def version_of_options_def choose_version_def)
  have "take 10 bytes \<noteq> CIF2_UTF8_MAGIC"
  proof
    assume "take 10 bytes = CIF2_UTF8_MAGIC"
    then have "take 7 (take 10 bytes) = take 7 CIF2_UTF8_MAGIC" by simp
    then show False using assms(3) by simp
  qed
  then show "choose_encoding opts None bytes = (Some UTF8, 2)"
    using assms(1-3) by (simp add: choose_encoding_def MAGIC_LENGTH_def MAGIC_EXTRA_def)
qed

end
