(* ===== verification/Linguist.thy ===== *)
theory Linguist
  imports ParseFile Writer
begin

text \<open>
  The program cif_linguist, src/tools/linguist.c: its context, its options, and the whitespace that it
  keeps of the input for its output.

  The output is the list of the units written, as for the writer. The queue of whitespace is a list of runs,
  a run the list of its pieces. Where an assertion fails, the code reads outside an array or it uses memory that
  it has freed, the model sets \<open>lg_aborted\<close>.
\<close>

section \<open>The context\<close>

datatype lg_format = CIF11 | CIF20 | STAR20 | NONE

type_synonym ws_run = "ustring list"

text \<open>The queue, or a pointer to one that has been freed.\<close>

datatype ws_queue = Runs "ws_run list" | Freed

text \<open>A line of diagnostic output: code, line, column, and whether there is a message for the code.\<close>

type_synonym diagnostic = "int \<times> int \<times> int \<times> bool"

record lg_context =
  lg_out :: ustring
  lg_diagnostics :: "diagnostic list"
  out_encoding :: "string option"
  element_separator :: "string option"
  extra_ws :: ustring
  extra_eol :: ustring
  no_fold11_output :: int
  prefix11_output :: int
  quiet :: bool
  halt_on_error :: bool
  output_format :: lg_format
  error_count :: "32 word"
  at_start :: bool
  in_container :: int
  in_loop :: bool
  in_ws_run :: bool
  out_column :: int
  synthesize_packet :: bool
  ws_queue :: ws_queue
  lg_aborted :: bool

text \<open>The context of main, all of whose members are zero.\<close>

definition lg_context_init :: lg_context where
  "lg_context_init =
     \<lparr>lg_out = [], lg_diagnostics = [], out_encoding = None, element_separator = None, extra_ws = [], extra_eol = [],
      no_fold11_output = 0, prefix11_output = 0, quiet = False, halt_on_error = False, output_format = CIF11,
      error_count = 0, at_start = False, in_container = 0, in_loop = False, in_ws_run = False, out_column = 0,
      synthesize_packet = False, ws_queue = Runs [], lg_aborted = False\<rparr>"

definition lg_emit :: "lg_context \<Rightarrow> ustring \<Rightarrow> lg_context" where
  "lg_emit c us = c\<lparr>lg_out := lg_out c @ us\<rparr>"

definition lg_abort :: "lg_context \<Rightarrow> int \<times> lg_context" where
  "lg_abort c = (CIF_ERROR, c\<lparr>lg_aborted := True\<rparr>)"

abbreviation (input) MAX_LINE_LENGTH :: int where "MAX_LINE_LENGTH \<equiv> 2048"

section \<open>Options\<close>

text \<open>The program ends with its usage message: the exit code.\<close>

type_synonym 'a or_exit = "nat + 'a"

definition usage :: "'a or_exit" where
  "usage = Inl 2"

definition tolower :: "char \<Rightarrow> char" where
  "tolower c = (if c \<in> set ''ABCDEFGHIJKLMNOPQRSTUVWXYZ'' then char_of (of_char c + 32 :: nat) else c)"

definition to_boolean :: "string \<Rightarrow> int" where
  "to_boolean val =
     (let dup = map tolower val in
      if length val > 5 then -1
      else if dup = ''1'' \<or> dup = ''yes'' \<or> dup = ''true'' then 1
      else if dup = ''0'' \<or> dup = ''no'' \<or> dup = ''false'' then 0
      else -1)"

text \<open>What the options are set in: those of the parser and the context.\<close>

type_synonym settings = "parse_opts \<times> lg_context"

fun process_args_input_encoding :: "string option \<Rightarrow> settings \<Rightarrow> settings or_exit" where
  "process_args_input_encoding None st = usage"
| "process_args_input_encoding (Some encoding) (opts, c) =
     Inr (if encoding \<noteq> ''auto'' then opts\<lparr>default_encoding_name := None, force_default_encoding := False\<rparr>
          else opts\<lparr>default_encoding_name := Some encoding, force_default_encoding := True\<rparr>, c)"

fun process_args_input_format :: "string option \<Rightarrow> settings \<Rightarrow> settings or_exit" where
  "process_args_input_format None st = usage"
| "process_args_input_format (Some fmt) (opts, c) =
     (if fmt = ''auto'' then Inr (opts\<lparr>prefer_cif2 := 0\<rparr>, c)
      else if fmt = ''cif20'' then Inr (opts\<lparr>prefer_cif2 := 20\<rparr>, c)
      else if fmt = ''cif11'' then Inr (opts\<lparr>prefer_cif2 := -1\<rparr>, c)
      else if fmt = ''cif10'' then
        Inr (opts\<lparr>prefer_cif2 := -1, extra_ws_chars := [0x0b], extra_eol_chars := [0x0c]\<rparr>, c)
      else usage)"

definition argval :: "string option \<Rightarrow> int" where
  "argval arg = (case arg of None \<Rightarrow> 1 | Some val \<Rightarrow> to_boolean val)"

fun process_args_input_folding :: "string option \<Rightarrow> settings \<Rightarrow> settings or_exit" where
  "process_args_input_folding arg (opts, c) =
     (if argval arg < 0 then usage else Inr (opts\<lparr>line_folding_modifier := 2 * argval arg - 1\<rparr>, c))"

fun process_args_input_prefixing :: "string option \<Rightarrow> settings \<Rightarrow> settings or_exit" where
  "process_args_input_prefixing arg (opts, c) =
     (if argval arg < 0 then usage else Inr (opts\<lparr>text_prefixing_modifier := 2 * argval arg - 1\<rparr>, c))"

fun process_args_output_encoding :: "string option \<Rightarrow> settings \<Rightarrow> settings or_exit" where
  "process_args_output_encoding None st = usage"
| "process_args_output_encoding (Some encoding) (opts, c) = Inr (opts, c\<lparr>out_encoding := Some encoding\<rparr>)"

fun process_args_output_format :: "string option \<Rightarrow> settings \<Rightarrow> settings or_exit" where
  "process_args_output_format None st = usage"
| "process_args_output_format (Some fmt) (opts, c) =
     (if fmt = ''cif11'' \<or> fmt = ''cif1.1'' then Inr (opts, c\<lparr>output_format := CIF11, element_separator := None\<rparr>)
      else if fmt = ''cif20'' \<or> fmt = ''cif2.0'' then
        Inr (opts, c\<lparr>output_format := CIF20, element_separator := Some []\<rparr>)
      else usage)"

fun process_args_output_folding :: "string option \<Rightarrow> settings \<Rightarrow> settings or_exit" where
  "process_args_output_folding arg (opts, c) =
     (if argval arg < 0 then usage else Inr (opts, c\<lparr>no_fold11_output := 1 - argval arg\<rparr>))"

fun process_args_output_prefixing :: "string option \<Rightarrow> settings \<Rightarrow> settings or_exit" where
  "process_args_output_prefixing arg (opts, c) =
     (if argval arg < 0 then usage else Inr (opts, c\<lparr>no_fold11_output := argval arg\<rparr>))"

fun process_args_quiet :: "settings \<Rightarrow> settings" where
  "process_args_quiet (opts, c) = (opts, c\<lparr>quiet := True\<rparr>)"

fun process_args_strict :: "settings \<Rightarrow> settings" where
  "process_args_strict (opts, c) = (opts, c\<lparr>halt_on_error := True\<rparr>)"

text \<open>A long option: what follows the two hyphens. A name may be cut short.\<close>

definition abbreviates :: "string \<Rightarrow> string \<Rightarrow> bool" where
  "abbreviates name full \<longleftrightarrow> take (length name) full = name"

definition long_option :: "string \<Rightarrow> settings \<Rightarrow> settings or_exit" where
  "long_option opt st =
     (let name = takeWhile (\<lambda>ch. ch \<noteq> CHR ''='') opt;
          arg = (case dropWhile (\<lambda>ch. ch \<noteq> CHR ''='') opt of [] \<Rightarrow> None | eq # val \<Rightarrow> Some val)
      in if abbreviates name ''input-format'' then process_args_input_format arg st
         else if abbreviates name ''input-encoding'' then process_args_input_encoding arg st
         else if abbreviates name ''input-line-folding'' then process_args_input_folding arg st
         else if abbreviates name ''input-text-prefixing'' then process_args_input_prefixing arg st
         else if abbreviates name ''output-format'' then process_args_output_format arg st
         else if abbreviates name ''output-encoding'' then process_args_output_encoding arg st
         else if abbreviates name ''output-line-folding'' then process_args_output_folding arg st
         else if abbreviates name ''output-text-prefixing'' then process_args_output_prefixing arg st
         else if opt = ''quiet'' then Inr (process_args_quiet st)
         else if opt = ''strict'' then Inr (process_args_strict st)
         else usage)"

text \<open>The operation that a short option with an argument stands for.\<close>

definition short_with_arg :: "char \<Rightarrow> (string option \<Rightarrow> settings \<Rightarrow> settings or_exit) option" where
  "short_with_arg ch =
     (if ch = CHR ''f'' then Some process_args_input_format
      else if ch = CHR ''e'' then Some process_args_input_encoding
      else if ch = CHR ''l'' then Some process_args_input_folding
      else if ch = CHR ''p'' then Some process_args_input_prefixing
      else if ch = CHR ''F'' then Some process_args_output_format
      else if ch = CHR ''E'' then Some process_args_output_encoding
      else if ch = CHR ''L'' then Some process_args_output_folding
      else if ch = CHR ''P'' then Some process_args_output_prefixing
      else None)"

text \<open>
  The letters after one hyphen, with the arguments that follow; the result has those that are left. The
  argument of an option is the rest of its word, or the next word if that does not start with a hyphen.
\<close>

fun short_options :: "string \<Rightarrow> string list \<Rightarrow> settings \<Rightarrow> (settings \<times> string list) or_exit" where
  "short_options [] args st = Inr (st, args)"
| "short_options (ch # letters) args st =
     (case short_with_arg ch of
        Some process \<Rightarrow>
          (let (arg, args) =
             (if letters \<noteq> [] then (Some letters, args)
              else case args of
                     next_arg # others \<Rightarrow> if take 1 next_arg \<noteq> ''-'' then (Some next_arg, others) else (None, args)
                   | [] \<Rightarrow> (None, args))
           in map_sum id (\<lambda>st. (st, args)) (process arg st))
      | None \<Rightarrow>
          if ch = CHR ''q'' then short_options letters args (process_args_quiet st)
          else if ch = CHR ''s'' then short_options letters args (process_args_strict st)
          else usage)"

lemma short_options_args: "short_options letters args st = Inr (st', args') \<Longrightarrow> length args' \<le> length args"
  by (induction letters args st rule: short_options.induct)
    (fastforce simp: usage_def map_sum_def split: option.splits if_splits list.splits sum.splits)+

text \<open>All arguments after the program's name: the settings, and the arguments that are no options.\<close>

function options_loop :: "string list \<Rightarrow> settings \<Rightarrow> (settings \<times> string list) or_exit" where
  "options_loop [] st = Inr (st, [])"
| "options_loop (arg # args) st =
     (if take 1 arg \<noteq> ''-'' \<or> length arg = 1 then Inr (st, arg # args)
      else if arg = ''--'' then Inr (st, args)
      else if take 2 arg = ''--'' then
        (case long_option (drop 2 arg) st of Inl e \<Rightarrow> Inl e | Inr st \<Rightarrow> options_loop args st)
      else
        (case short_options (drop 1 arg) args st of
           Inl e \<Rightarrow> Inl e
         | Inr (st, args) \<Rightarrow> options_loop args st))"
  by pat_completeness auto
termination
  by (relation "measure (\<lambda>(args, st). length args)") (auto dest: short_options_args simp: le_imp_less_Suc)

text \<open>
  The settings, and the names of the input and the output file; \<open>opts\<close> are the parser's options as main has
  made them. The callbacks are set in main. Connecting the files to the standard streams is left out.
\<close>

definition process_args :: "string list \<Rightarrow> parse_opts \<Rightarrow> lg_context \<Rightarrow> (settings \<times> string option \<times> string option) or_exit" where
  "process_args args opts c =
     (case process_args_output_format (Some ''cif20'') (opts, c) of
        Inl e \<Rightarrow> Inl e
      | Inr st \<Rightarrow>
          (case options_loop args st of
             Inl e \<Rightarrow> Inl e
           | Inr ((opts, c), files) \<Rightarrow>
               if length files > 2 then usage
               else
                 (let file = (\<lambda>i. if i < length files \<and> files ! i \<noteq> ''-'' then Some (files ! i) else None)
                  in Inr ((opts, c\<lparr>at_start := True, extra_ws := extra_ws_chars opts, extra_eol := extra_eol_chars opts\<rparr>),
                          file 0, file 1))))"

end
