(* ===== verification/LinguistPrint.thy ===== *)
theory LinguistPrint
  imports Linguist
begin

text \<open>
  The output of cif_linguist, src/tools/linguist.c: the whitespace that it keeps, folding and prefixing of text
  fields, values, and the handlers that it gives to the parser.

  \<open>u_fprintf\<close> answers with the number of units that it has written; output does not fail.
\<close>

section \<open>Whitespace\<close>

text \<open>
  The extra characters are replaced up to the length of the buffer; \<open>u_strcspn\<close> also stops at a NUL.
\<close>

lemma span_shorter: "length (takeWhile P us) \<noteq> length us \<Longrightarrow> length us - Suc (length (takeWhile P us)) < length us"
  by (cases us) auto

function replace_extra :: "uchar list \<Rightarrow> uchar \<Rightarrow> ustring \<Rightarrow> ustring" where
  "replace_extra extra repl us =
     (let span = takeWhile (\<lambda>c. c \<notin> set extra \<and> c \<noteq> 0) us in
      if length span = length us then us
      else span @ repl # replace_extra extra repl (drop (length span + 1) us))"
  by pat_completeness auto
termination
  by (relation "measure (\<lambda>(extra, repl, us). length us)")
    (auto simp: span_shorter)

declare replace_extra.simps [simp del]

definition translate_whitespace :: "ustring \<Rightarrow> ustring \<Rightarrow> ustring \<Rightarrow> ustring" where
  "translate_whitespace us eol ws =
     (let us = (if eol \<noteq> [] then replace_extra eol UCHAR_NL us else us)
      in if ws \<noteq> [] then replace_extra ws UCHAR_SP us else us)"

text \<open>
  The whitespace callback: a new piece of the last run, or a new run. The empty piece ends a run. \<open>None\<close> is a null
  pointer, at which there is only a warning. Readers of a piece see it up to a NUL.
\<close>

definition preserve_whitespace :: "ustring option \<Rightarrow> lg_context \<Rightarrow> lg_context" where
  "preserve_whitespace ws c =
     (case ws of
        None \<Rightarrow> c
      | Some us \<Rightarrow>
          (let piece = cstr (if us \<noteq> [] then translate_whitespace us (extra_eol c) (extra_ws c) else us)
           in case ws_queue c of
                Freed \<Rightarrow> snd (lg_abort c)
              | Runs runs \<Rightarrow>
                  c\<lparr>ws_queue := Runs (if runs = [] then [[piece]]
                                     else if in_ws_run c then butlast runs @ [last runs @ [piece]]
                                     else runs @ [[piece]]),
                    in_ws_run := us \<noteq> []\<rparr>))"

text \<open>The number of line terminators in a piece, and the position after the last of them.\<close>

fun count_lines :: "ustring \<Rightarrow> int \<Rightarrow> int \<times> int \<Rightarrow> int \<times> int" where
  "count_lines [] pos found = found"
| "count_lines (ch # us) pos (nlines, uncounted) =
     (if ch = UCHAR_CR \<and> us \<noteq> [] \<and> hd us = UCHAR_NL then count_lines (tl us) (pos + 2) (nlines + 1, pos + 2)
      else if ch = UCHAR_CR \<or> ch = UCHAR_NL then count_lines us (pos + 1) (nlines + 1, pos + 1)
      else count_lines us (pos + 1) (nlines, uncounted))"

fun print_pieces :: "ustring list \<Rightarrow> int \<Rightarrow> lg_context \<Rightarrow> int \<times> lg_context" where
  "print_pieces [] rval c = (rval, c)"
| "print_pieces (us # pieces) rval c =
     (let (nlines, uncounted) = count_lines us 0 (0, 0);
          nprinted = int (length us);
          c = lg_emit c us
      in if nprinted < uncounted then (-1, c)
         else print_pieces pieces (rval + nprinted)
                (c\<lparr>out_column := if nlines \<noteq> 0 then nprinted - uncounted else out_column c + nprinted\<rparr>))"

definition print_ws_run :: "lg_context \<Rightarrow> int \<times> lg_context" where
  "print_ws_run c =
     (case ws_queue c of
        Freed \<Rightarrow> (-1, snd (lg_abort c))
      | Runs [] \<Rightarrow> (0, c)
      | Runs (run # runs) \<Rightarrow> print_pieces run 0 (c\<lparr>ws_queue := Runs runs\<rparr>))"

primrec print_runs :: "ws_run list \<Rightarrow> int \<Rightarrow> lg_context \<Rightarrow> int \<times> lg_context" where
  "print_runs [] rval c = (rval, c)"
| "print_runs (run # runs) rval c =
     (case print_ws_run c of
        (run_length, c) \<Rightarrow> if run_length \<ge> 0 then print_runs runs (rval + run_length) c else (-1, c))"

text \<open>Printing a run takes it from the queue, so that the loop runs once for each of them.\<close>

definition print_all_ws_runs :: "lg_context \<Rightarrow> int \<times> lg_context" where
  "print_all_ws_runs c =
     (case ws_queue c of
        Freed \<Rightarrow> (-1, snd (lg_abort c))
      | Runs runs \<Rightarrow> print_runs runs 0 c)"

text \<open>\<open>flush_ws\<close> on the whole queue: the pointer to it stays.\<close>

definition flush_queue :: "lg_context \<Rightarrow> lg_context" where
  "flush_queue c =
     (case ws_queue c of
        Freed \<Rightarrow> snd (lg_abort c)
      | Runs runs \<Rightarrow> c\<lparr>ws_queue := if runs = [] then Runs [] else Freed\<rparr>)"

section \<open>The version comment\<close>

definition cif_header_start :: ustring where
  "cif_header_start = [UCHAR_HASH, UCHAR_BSL, UCHAR_HASH, 0x43, 0x49, 0x46, UCHAR_UNDER]"

text \<open>The comparison with one piece: it differs, it ends first, or the header ends in it.\<close>

datatype header_match = Differs | Checked nat | Matched ustring

fun match_piece :: "ustring \<Rightarrow> nat \<Rightarrow> header_match" where
  "match_piece [] checked = Checked checked"
| "match_piece (ch # us) checked =
     (if ch \<noteq> cif_header_start ! checked then Differs
      else if checked + 1 \<ge> length cif_header_start then Matched us
      else match_piece us (checked + 1))"

fun match_run :: "ws_run \<Rightarrow> nat \<Rightarrow> (ustring \<times> ws_run) option" where
  "match_run [] checked = None"
| "match_run (us # pieces) checked =
     (case match_piece us checked of
        Differs \<Rightarrow> None
      | Checked n \<Rightarrow> match_run pieces n
      | Matched rest \<Rightarrow> Some (rest, pieces))"

definition is_eol :: "uchar \<Rightarrow> bool" where
  "is_eol ch \<longleftrightarrow> ch = UCHAR_NL \<or> ch = UCHAR_CR"

text \<open>What follows the next line terminator, in this piece or the next ones.\<close>

fun after_line :: "ustring \<Rightarrow> ws_run \<Rightarrow> (ustring \<times> ws_run) option" where
  "after_line us pieces =
     (case dropWhile (\<lambda>ch. \<not> is_eol ch) us of
        ch # others \<Rightarrow> Some (if ch = UCHAR_CR \<and> others \<noteq> [] \<and> hd others = UCHAR_NL then tl others else others, pieces)
      | [] \<Rightarrow> (case pieces of [] \<Rightarrow> None | next_piece # pieces \<Rightarrow> after_line next_piece pieces))"

declare after_line.simps [simp del]

definition consume_version_comment :: "lg_context \<Rightarrow> lg_context" where
  "consume_version_comment c =
     (case ws_queue c of
        Freed \<Rightarrow> snd (lg_abort c)
      | Runs [] \<Rightarrow> c
      | Runs (run # runs) \<Rightarrow>
          (case match_run run 0 of
             None \<Rightarrow> c
           | Some (rest, pieces) \<Rightarrow>
               (case after_line rest pieces of
                  None \<Rightarrow> c\<lparr>ws_queue := Runs runs\<rparr>
                | Some (us, pieces) \<Rightarrow> c\<lparr>ws_queue := Runs ((us # pieces) # runs)\<rparr>)))"

section \<open>Literals\<close>

definition ensure_space :: "int \<Rightarrow> int \<Rightarrow> lg_context \<Rightarrow> int \<times> lg_context" where
  "ensure_space minimum_space data_length c =
     (CIF_OK,
      if out_column c > 0 then
        (if minimum_space + data_length + out_column c > MAX_LINE_LENGTH then (lg_emit c [UCHAR_NL])\<lparr>out_column := 0\<rparr>
         else if minimum_space \<noteq> 0 then (lg_emit c [UCHAR_SP])\<lparr>out_column := out_column c + 1\<rparr>
         else c)
      else c)"

abbreviation (input) SPACE_FORBIDDEN :: int where "SPACE_FORBIDDEN \<equiv> -1"
abbreviation (input) SPACE_ALLOWED :: int where "SPACE_ALLOWED \<equiv> 0"
abbreviation (input) SPACE_REQUIRED :: int where "SPACE_REQUIRED \<equiv> 1"

definition print_u_literal :: "int \<Rightarrow> ustring \<Rightarrow> int \<Rightarrow> lg_context \<Rightarrow> int \<times> lg_context" where
  "print_u_literal preceding_space str line1_length c =
     (if out_column c \<noteq> 0 then
        (let nspace = max preceding_space 0;
             need_newline = line1_length + out_column c + nspace > MAX_LINE_LENGTH
         in if need_newline then
              (if preceding_space < 0 then (CIF_OVERLENGTH_LINE, c)
               else (CIF_OK, (lg_emit c (UCHAR_NL # str))\<lparr>out_column := int (length str)\<rparr>))
            else (CIF_OK, (lg_emit c (replicate (nat nspace) UCHAR_SP @ str))
                            \<lparr>out_column := out_column c + nspace + int (length str)\<rparr>))
      else (CIF_OK, (lg_emit c str)\<lparr>out_column := int (length str)\<rparr>))"

definition print_delimited :: "ustring \<Rightarrow> ustring \<Rightarrow> lg_context \<Rightarrow> lg_context" where
  "print_delimited str d c = lg_emit c (d @ str @ d)"

section \<open>Folding\<close>

definition is_space :: "uchar \<Rightarrow> bool" where
  "is_space ch \<longleftrightarrow> ch = UCHAR_SP \<or> ch = UCHAR_TAB"

text \<open>How good it is to fold before a unit.\<close>

definition fold_category :: "bool \<Rightarrow> bool \<Rightarrow> uchar \<Rightarrow> int" where
  "fold_category before_semi was_space ch =
     (if before_semi \<or> ch \<noteq> UCHAR_SEMI
      then (if was_space then 2 else 0) + (if is_space ch then 0 else 1) else 0)"

text \<open>
  The lower half of the window: the last of the best locations. \<open>best\<close> is a category with its distance to the
  target; the units have \<open>target\<close> at distance 0.
\<close>

fun fold_lower :: "bool \<Rightarrow> ustring \<Rightarrow> int \<Rightarrow> int list \<Rightarrow> bool \<Rightarrow> int \<times> int \<Rightarrow> int \<times> int" where
  "fold_lower before_semi us target [] was_space best = best"
| "fold_lower before_semi us target (diff # diffs) was_space (best_category, best_diff) =
     (let ch = unit_at us (nat (target + diff));
          category = fold_category before_semi was_space ch
      in fold_lower before_semi us target diffs (is_space ch)
           (if category \<ge> best_category then (category, diff) else (best_category, best_diff)))"

text \<open>The upper half: the first that is best, or as good and not farther than the best so far.\<close>

fun fold_upper :: "bool \<Rightarrow> ustring \<Rightarrow> int \<Rightarrow> int list \<Rightarrow> bool \<Rightarrow> int \<times> int \<Rightarrow> int \<times> int" where
  "fold_upper before_semi us target [] was_space best = best"
| "fold_upper before_semi us target (diff # diffs) was_space (best_category, best_diff) =
     (let ch = unit_at us (nat (target + diff));
          category = fold_category before_semi was_space ch
      in if category = 3 then (best_category, diff)
         else fold_upper before_semi us target diffs (is_space ch)
                (if category > best_category \<or> (category = best_category \<and> diff \<le> - best_diff)
                 then (category, diff) else (best_category, best_diff)))"

text \<open>All units of the window are semicolons: the last other unit before it.\<close>

primrec fold_before :: "ustring \<Rightarrow> nat \<Rightarrow> nat" where
  "fold_before us 0 = 0"
| "fold_before us (Suc n) = (if unit_at us (Suc n) \<noteq> UCHAR_SEMI then Suc n else fold_before us n)"

text \<open>\<open>us\<close> is the text from the start of the segment, \<open>None\<close> a failed assertion.\<close>

definition compute_fold_length :: "ustring \<Rightarrow> int \<Rightarrow> int \<Rightarrow> int \<Rightarrow> bool \<Rightarrow> int option" where
  "compute_fold_length us line_length target window before_semi =
     (if \<not> target > window then None
      else if line_length \<le> target + window then Some line_length
      else
        (let start_space = is_space (unit_at us (nat (target - (window + 1))));
             (low_category, low_diff) =
               fold_lower before_semi us target [- window..-1] start_space (0, - (window + 1));
             mid_space = (if window > 0 then is_space (unit_at us (nat (target - 1))) else start_space);
             (best_category, best_diff) =
               fold_upper before_semi us target [0..window] mid_space (low_category, low_diff)
         in if best_category \<noteq> 0 then Some (target + best_diff)
            else Some (int (fold_before us (nat (target - (window + 1)))))))"

section \<open>Text fields\<close>

abbreviation (input) FOLD_WINDOW :: int where "FOLD_WINDOW \<equiv> 8"
abbreviation (input) MAX_FOLD_LENGTH :: int where "MAX_FOLD_LENGTH \<equiv> 2047"

definition line_prefix :: "bool \<Rightarrow> ustring" where
  "line_prefix do_prefix = (if do_prefix then text_prefix else [])"

text \<open>Whether a space or a backslash at the end of a line is to be protected.\<close>

definition protect_end :: "ustring \<Rightarrow> bool" where
  "protect_end us \<longleftrightarrow> us \<noteq> [] \<and> (is_space (last us) \<or> last us = UCHAR_BSL)"

text \<open>The segments of one logical line, of which there is at least one.\<close>

function print_segments :: "bool \<Rightarrow> ustring \<Rightarrow> lg_context \<Rightarrow> int \<times> lg_context" where
  "print_segments do_prefix us c =
     (let limit = int (length us) in
      case compute_fold_length us limit (MAX_FOLD_LENGTH - FOLD_WINDOW - int (length (line_prefix do_prefix)))
             FOLD_WINDOW do_prefix of
        None \<Rightarrow> lg_abort c
      | Some fold_len \<Rightarrow>
          if \<not> (0 < fold_len \<and> fold_len \<le> limit) then lg_abort c
          else if fold_len = limit then
            (CIF_OK, lg_emit c (line_prefix do_prefix @ us @ (if protect_end us then [UCHAR_BSL, UCHAR_NL] else [])
                                @ [UCHAR_NL]))
          else
            print_segments do_prefix (drop (nat fold_len) us)
              (lg_emit c (line_prefix do_prefix @ take (nat fold_len) us @ [UCHAR_BSL, UCHAR_NL])))"
  by pat_completeness auto
termination by (relation "measure (\<lambda>(p, us, c). length us)") auto

declare print_segments.simps [simp del]

lemma rest_shorter: "dropWhile P us = ch # others \<Longrightarrow> length others < length us"
  using length_dropWhile_le [of P us] by simp

text \<open>The logical lines: a text ends with the last unit that is printed, not with an empty line.\<close>

function print_lines :: "bool \<Rightarrow> bool \<Rightarrow> ustring \<Rightarrow> lg_context \<Rightarrow> int \<times> lg_context" where
  "print_lines do_fold do_prefix us c =
     (if us = [] then (CIF_OK, c)
      else
        (let line = takeWhile (\<lambda>ch. \<not> is_eol ch) us; rest = dropWhile (\<lambda>ch. \<not> is_eol ch) us
         in case (if do_fold then print_segments do_prefix line c
                  else (CIF_OK, lg_emit c (text_prefix @ line @ [UCHAR_NL]))) of
              (result, c) \<Rightarrow>
                if result \<noteq> CIF_OK then (result, c)
                else (case rest of
                        [] \<Rightarrow> (CIF_OK, c)
                      | ch # others \<Rightarrow>
                          print_lines do_fold do_prefix
                            (if ch = UCHAR_CR \<and> others \<noteq> [] \<and> hd others = UCHAR_NL then tl others else others) c)))"
  by pat_completeness auto
termination
  by (relation "measure (\<lambda>(f, p, us, c). length us)") (auto dest!: rest_shorter [OF sym])

declare print_lines.simps [simp del]

definition print_text_field :: "ustring \<Rightarrow> bool \<Rightarrow> bool \<Rightarrow> lg_context \<Rightarrow> int \<times> lg_context" where
  "print_text_field str do_fold do_prefix c =
     (case (if \<not> (do_prefix \<or> do_fold) then (CIF_OK, lg_emit c ([UCHAR_NL, UCHAR_SEMI] @ str @ [UCHAR_NL, UCHAR_SEMI]))
            else
              (case print_lines do_fold do_prefix str
                      (lg_emit c ([UCHAR_NL, UCHAR_SEMI] @ (if do_prefix then text_prefix @ [UCHAR_BSL] else [])
                                  @ (if do_fold then [UCHAR_BSL] else []) @ [UCHAR_NL])) of
                 (result, c) \<Rightarrow> if result \<noteq> CIF_OK then (result, c) else (CIF_OK, lg_emit c [UCHAR_SEMI])))
      of (result, c) \<Rightarrow> (result, if result = CIF_OK then c\<lparr>out_column := 1\<rparr> else c))"

end
