(* ===== verification/LinguistValue.thy ===== *)
theory LinguistValue
  imports LinguistPrint
begin

text \<open>
  The values and the handlers of cif_linguist, src/tools/linguist.c: \<open>print_value\<close> and what it calls, the handler
  of each event of a parse, its error callback, and the end of main.
\<close>

section \<open>Values\<close>

definition print_value_text :: "cif_value \<Rightarrow> nat \<Rightarrow> lg_context \<Rightarrow> int \<times> lg_context" where
  "print_value_text v ws_needed c =
     (case (if ws_needed > 1 then print_all_ws_runs c else print_ws_run c) of
        (n_ws, c) \<Rightarrow>
          if n_ws < 0 then (CIF_ERROR, c)
          else
            (case cif_value_get_text v of
               None \<Rightarrow> lg_abort c
             | Some text \<Rightarrow>
                 (let a = cif_analyze_string text (cif_value_is_quoted v = CIF_NOT_QUOTED) (output_format c \<noteq> CIF11)
                            MAX_LINE_LENGTH;
                      minimum_ws = (if n_ws \<noteq> 0 \<or> ws_needed = 0 then 0 else 1)
                  in if delim_length a = 3 \<and> num_lines a > 1 then
                       (case ensure_space minimum_ws (length_first a + 3) c of
                          (result, c) \<Rightarrow>
                            if result \<noteq> CIF_OK then (result, c)
                            else (CIF_OK, (print_delimited text (delim a) c)\<lparr>out_column := length_last a + 3\<rparr>))
                     else if delim_length a \<in> {0, 1, 3} then
                       (let len = length_first a + 2 * int (delim_length a)
                        in case ensure_space minimum_ws len c of
                             (result, c) \<Rightarrow>
                               if result \<noteq> CIF_OK then (result, c)
                               else (CIF_OK, (print_delimited text (delim a) c)\<lparr>out_column := len\<rparr>))
                     else if delim_length a = 2 then
                       print_text_field text
                         (length_max a > MAX_LINE_LENGTH \<or> length_first a \<ge> MAX_LINE_LENGTH \<or> has_reserved_start a
                          \<or> has_trailing_ws a \<or> max_semi_run a \<ge> MAX_FOLD_LENGTH - 1)
                         (contains_text_delim a \<or> max_semi_run a \<ge> MAX_FOLD_LENGTH - 1) c
                     else (CIF_INTERNAL_ERROR, c))))"

text \<open>The loop over the elements of a list, with the function that prints one.\<close>

type_synonym value_printer = "cif_value \<Rightarrow> nat \<Rightarrow> lg_context \<Rightarrow> int \<times> lg_context"

fun print_elements :: "value_printer \<Rightarrow> cif_value \<Rightarrow> nat list \<Rightarrow> lg_context \<Rightarrow> int \<times> lg_context" where
  "print_elements item v [] c = (CIF_OK, c)"
| "print_elements item v (i # is) c =
     (case cif_value_get_element_at v i of
        Inl e \<Rightarrow> (CIF_INTERNAL_ERROR, c)
      | Inr element \<Rightarrow>
          (case item element (if i \<noteq> 0 then 1 else 0) c of
             (result, c) \<Rightarrow> if result \<noteq> CIF_TRAVERSE_CONTINUE then (result, c) else print_elements item v is c))"

definition close_composite :: "uchar \<Rightarrow> lg_context \<Rightarrow> int \<times> lg_context" where
  "close_composite closer c =
     (case print_ws_run c of
        (n, c) \<Rightarrow> if n < 0 then (CIF_ERROR, c) else print_u_literal SPACE_ALLOWED [closer] 1 c)"

definition print_list :: "value_printer \<Rightarrow> cif_value \<Rightarrow> lg_context \<Rightarrow> int \<times> lg_context" where
  "print_list item v c =
     (if output_format c = CIF11 then (CIF_DISALLOWED_VALUE, flush_queue c)
      else
        (case cif_value_get_element_count v of
           Inl e \<Rightarrow> (e, c)
         | Inr count \<Rightarrow>
             (case print_u_literal SPACE_ALLOWED [UCHAR_OBRK] 1 c of
                (result, c) \<Rightarrow>
                  if result \<noteq> CIF_OK then (result, c)
                  else
                    (case print_elements item v [0..<count] c of
                       (result, c) \<Rightarrow>
                         if result \<noteq> CIF_TRAVERSE_CONTINUE then (result, c) else close_composite UCHAR_CBRK c))))"

definition print_entry :: "value_printer \<Rightarrow> ustring \<Rightarrow> cif_value \<Rightarrow> bool \<Rightarrow> lg_context \<Rightarrow> int \<times> lg_context" where
  "print_entry item key ev first c =
     (case cif_value_copy_char (cif_value_create CIF_UNK_KIND) (Some key) of
        (result, kv) \<Rightarrow>
          if result \<noteq> CIF_OK then (result, c)
          else
            (case print_value_text kv (if first then 0 else 1) c of
               (result, c) \<Rightarrow>
                 if result \<noteq> CIF_OK then (result, c)
                 else
                   (case print_u_literal SPACE_FORBIDDEN [UCHAR_COLON] 1 c of
                      (result, c) \<Rightarrow> if result \<noteq> CIF_OK then (result, c) else item ev 0 c)))"

fun print_entries :: "icu \<Rightarrow> value_printer \<Rightarrow> cif_value \<Rightarrow> ustring list \<Rightarrow> bool \<Rightarrow> lg_context \<Rightarrow> int \<times> lg_context" where
  "print_entries I item v [] first c = (CIF_OK, c)"
| "print_entries I item v (key # keys) first c =
     (case cif_value_get_item_by_key I v key of
        Inl e \<Rightarrow> (e, c)
      | Inr ev \<Rightarrow>
          (case print_entry item key ev first c of
             (result, c) \<Rightarrow>
               if result \<noteq> CIF_TRAVERSE_CONTINUE then (result, c) else print_entries I item v keys False c))"

definition print_table :: "icu \<Rightarrow> value_printer \<Rightarrow> cif_value \<Rightarrow> lg_context \<Rightarrow> int \<times> lg_context" where
  "print_table I item v c =
     (if output_format c = CIF11 then (CIF_DISALLOWED_VALUE, flush_queue c)
      else
        (case cif_value_get_keys I v of
           Inl e \<Rightarrow> (e, c)
         | Inr keys \<Rightarrow>
             (case print_u_literal SPACE_ALLOWED [UCHAR_OBRC] 1 c of
                (result, c) \<Rightarrow>
                  if result \<noteq> CIF_OK then (result, c)
                  else
                    (case print_entries I item v keys True c of
                       (result, c) \<Rightarrow>
                         if result \<noteq> CIF_TRAVERSE_CONTINUE then (result, c) else close_composite UCHAR_CBRC c))))"

text \<open>What \<open>print_list\<close> and \<open>print_table\<close> print are elements and entries of the value.\<close>

lemma print_elements_cong:
  "(\<And>e i n c. cif_value_get_element_at v i = Inr e \<Longrightarrow> f e n c = g e n c) \<Longrightarrow>
   print_elements f v is c = print_elements g v is c"
  by (induction "is" arbitrary: c) (auto split: sum.splits prod.splits)

lemma print_list_cong [fundef_cong]:
  assumes "v = v'" "c = c'" "\<And>e i n c. cif_value_get_element_at v' i = Inr e \<Longrightarrow> f e n c = g e n c"
  shows "print_list f v c = print_list g v' c'"
proof -
  have "print_elements f v' = print_elements g v'" by (intro ext print_elements_cong assms(3))
  then show ?thesis by (simp only: print_list_def assms(1,2))
qed

lemma print_entries_cong:
  assumes "\<And>e key n c. cif_value_get_item_by_key I v key = Inr e \<Longrightarrow> f e n c = g e n c"
  shows "print_entries I f v keys first c = print_entries I g v keys first c"
  using assms
proof (induction keys arbitrary: first c)
  case (Cons key keys)
  have "print_entry f key e first c = print_entry g key e first c"
    if "cif_value_get_item_by_key I v key = Inr e" for e
  proof -
    have "f e = g e" using Cons.prems [OF that] by blast
    then show ?thesis by (simp only: print_entry_def)
  qed
  then show ?case using Cons by (simp split: sum.split prod.split)
qed simp

lemma print_table_cong [fundef_cong]:
  assumes "I = I'" "v = v'" "c = c'" "\<And>e key n c. cif_value_get_item_by_key I' v' key = Inr e \<Longrightarrow> f e n c = g e n c"
  shows "print_table I f v c = print_table I' g v' c'"
proof -
  have "print_entries I' f v' = print_entries I' g v'" by (intro ext print_entries_cong assms(4))
  then show ?thesis by (simp only: print_table_def assms(1-3))
qed

function print_value :: "icu \<Rightarrow> cif_value \<Rightarrow> nat \<Rightarrow> lg_context \<Rightarrow> int \<times> lg_context" where
  "print_value I v ws_needed_max c =
     (case cif_value_kind v of
        CIF_CHAR_KIND \<Rightarrow> print_value_text v ws_needed_max c
      | CIF_NUMB_KIND \<Rightarrow> print_value_text v ws_needed_max c
      | CIF_NA_KIND \<Rightarrow>
          (case (if ws_needed_max > 1 then print_all_ws_runs c else print_ws_run c) of
             (nprinted, c) \<Rightarrow>
               if nprinted < 0 then (CIF_ERROR, c)
               else print_u_literal (if ws_needed_max \<noteq> 0 \<and> nprinted = 0 then 1 else 0) [UCHAR_DECIMAL] 1 c)
      | CIF_UNK_KIND \<Rightarrow>
          (case (if ws_needed_max > 1 then print_all_ws_runs c else print_ws_run c) of
             (nprinted, c) \<Rightarrow>
               if nprinted < 0 then (CIF_ERROR, c)
               else print_u_literal (if ws_needed_max \<noteq> 0 \<and> nprinted = 0 then 1 else 0) [UCHAR_QUERY] 1 c)
      | CIF_LIST_KIND \<Rightarrow>
          (case print_ws_run c of
             (nprinted, c) \<Rightarrow>
               print_list (\<lambda>e n c. print_value I e n c) v
                 (if ws_needed_max \<noteq> 0 \<and> nprinted = 0 then snd (ensure_space 1 1 c) else c))
      | CIF_TABLE_KIND \<Rightarrow>
          (case print_ws_run c of
             (nprinted, c) \<Rightarrow>
               print_table I (\<lambda>e n c. print_value I e n c) v
                 (if ws_needed_max \<noteq> 0 \<and> nprinted = 0 then snd (ensure_space 1 1 c) else c)))"
  by pat_completeness auto
termination
  by (relation "measure (\<lambda>(I, v, n, c). size v)") (auto dest: size_element size_entry)

declare print_value.simps [simp del]

section \<open>Containers\<close>

abbreviation (input) CONTEXT_IN_CONTAINER :: "lg_context \<Rightarrow> bool" where
  "CONTEXT_IN_CONTAINER c \<equiv> in_container c \<noteq> 0"

definition print_header :: "lg_context step" where
  "print_header w =
     (case w of (c, d) \<Rightarrow>
        (let header = (case output_format c of
                         CIF11 \<Rightarrow> Some ([UCHAR_HASH, UCHAR_BSL] @ kw ''#CIF_1.1'' @ [UCHAR_NL])
                       | CIF20 \<Rightarrow> Some ([UCHAR_HASH, UCHAR_BSL] @ kw ''#CIF_2.0'' @ [UCHAR_NL])
                       | STAR20 \<Rightarrow> Some []
                       | NONE \<Rightarrow> None)
         in case header of
              None \<Rightarrow> (fst (lg_abort c), snd (lg_abort c), d)
            | Some us \<Rightarrow> (CIF_OK, (lg_emit c us)\<lparr>out_column := 0\<rparr>, d)))"

text \<open>The whitespace that is left at the end; then the streams are closed.\<close>

definition handle_cif_end_event :: "lg_context step" where
  "handle_cif_end_event w =
     (case w of (c, d) \<Rightarrow>
        (let c = (if at_start c then (consume_version_comment c)\<lparr>at_start := False\<rparr> else c)
         in case print_all_ws_runs c of
              (n, c) \<Rightarrow> (CIF_OK, if n \<le> 0 then lg_emit c [UCHAR_NL] else c, d)))"

definition print_code :: "cif_container \<Rightarrow> ustring \<Rightarrow> lg_context \<Rightarrow> int \<times> lg_context" where
  "print_code container header_type c =
     (let code = cif_container_get_code container in
      case print_all_ws_runs c of
        (n, c) \<Rightarrow>
          if n \<noteq> 0 then
            (case ensure_space 0 (int (length header_type) + int (length code)) c of
               (result, c) \<Rightarrow>
                 if result \<noteq> CIF_OK then (result, c)
                 else
                   (let us = header_type @ code; c' = lg_emit c us
                    in if length us \<le> length code then (CIF_ERROR, c')
                       else (CIF_OK, c'\<lparr>out_column := out_column c + int (length us)\<rparr>)))
          else
            (let us = UCHAR_NL # header_type @ code; c = lg_emit c us
             in if length us < 7 then (CIF_ERROR, c) else (CIF_OK, c\<lparr>out_column := int (length us) - 1\<rparr>)))"

primrec destroy_loops :: "cif_loop list \<Rightarrow> db \<Rightarrow> int \<times> db" where
  "destroy_loops [] d = (CIF_OK, d)"
| "destroy_loops (l # ls) d =
     (case cif_loop_destroy l d of (result, d) \<Rightarrow> if result \<noteq> CIF_OK then (result, d) else destroy_loops ls d)"

definition flush_loops :: "cif_container \<Rightarrow> db \<Rightarrow> int \<times> db" where
  "flush_loops container d =
     (case cif_container_get_all_loops (Some container) d of
        (Inl e, d) \<Rightarrow> (e, d)
      | (Inr ls, d) \<Rightarrow> destroy_loops ls d)"

definition lg_open_block :: "cif_container \<Rightarrow> lg_context step" where
  "lg_open_block block w =
     (case w of (c, d) \<Rightarrow>
        (let c = (if at_start c then (consume_version_comment c)\<lparr>at_start := False\<rparr> else c)
         in case print_code block (kw ''data_'') (c\<lparr>in_ws_run := False, in_container := in_container c + 1\<rparr>) of
              (result, c) \<Rightarrow> (result, c, d)))"

primrec destroy_frames :: "cif_container list \<Rightarrow> db \<Rightarrow> int \<times> db" where
  "destroy_frames [] d = (CIF_OK, d)"
| "destroy_frames (f # fs) d =
     (case cif_container_destroy (Some f) d of
        (result, d) \<Rightarrow> if result \<noteq> CIF_OK then (result, d) else destroy_frames fs d)"

definition flush_container :: "cif_container \<Rightarrow> lg_context step" where
  "flush_container container w =
     (case w of (c, d) \<Rightarrow>
        (case (case cif_container_get_all_frames (Some container) d of
                 Inl e \<Rightarrow> (e, d)
               | Inr fs \<Rightarrow>
                   (case destroy_frames fs d of
                      (result, d) \<Rightarrow> if result \<noteq> CIF_OK then (result, d) else flush_loops container d))
         of (result, d) \<Rightarrow> (result, c\<lparr>in_container := in_container c - 1\<rparr>, d)))"

definition lg_open_frame :: "cif_container \<Rightarrow> lg_context step" where
  "lg_open_frame frame w =
     (case w of (c, d) \<Rightarrow>
        (let c = c\<lparr>in_ws_run := False\<rparr>
         in if CONTEXT_IN_CONTAINER c then
              (case print_code frame (kw ''save_'') (c\<lparr>in_container := in_container c + 1\<rparr>) of
                 (result, c) \<Rightarrow> (result, c, d))
            else (CIF_OK, c, d)))"

definition finish_frame :: "cif_container \<Rightarrow> lg_context step" where
  "finish_frame container w =
     (case w of (c, d) \<Rightarrow>
        (case print_all_ws_runs c of
           (printed_ws, c) \<Rightarrow>
             (let c = c\<lparr>in_ws_run := False\<rparr>
              in case (if \<not> CONTEXT_IN_CONTAINER c then (CIF_OK, c)
                       else if printed_ws > 0 then print_u_literal SPACE_ALLOWED (kw ''save_'') 5 c
                       else if printed_ws = 0 then
                         (CIF_OK, (lg_emit c ([UCHAR_NL] @ kw ''save_'' @ [UCHAR_NL]))\<lparr>out_column := 0\<rparr>)
                       else (CIF_ERROR, c))
                 of (result, c) \<Rightarrow> if result \<noteq> CIF_OK then (result, c, d) else flush_container container (c, d))))"

section \<open>Loops, packets and items\<close>

fun print_names :: "ustring list \<Rightarrow> lg_context \<Rightarrow> int \<times> lg_context" where
  "print_names [] c = (CIF_OK, c)"
| "print_names (name # names) c =
     (case print_ws_run c of
        (nprinted, c) \<Rightarrow>
          if nprinted < 0 then (CIF_ERROR, c)
          else
            (case print_u_literal SPACE_ALLOWED name (int (length name))
                    (if nprinted = 0 then (lg_emit c [UCHAR_NL])\<lparr>out_column := 0\<rparr> else c) of
               (result, c) \<Rightarrow> if result \<noteq> CIF_OK then (result, c) else print_names names c))"

text \<open>A packet of unknown values.\<close>

fun print_placeholders :: "ustring list \<Rightarrow> lg_context \<Rightarrow> int \<times> lg_context" where
  "print_placeholders [] c = (CIF_OK, c)"
| "print_placeholders (name # names) c =
     (case print_u_literal SPACE_REQUIRED [UCHAR_QUERY] 1 c of
        (result, c) \<Rightarrow> if result \<noteq> CIF_OK then (result, c) else print_placeholders names c)"

definition handle_loop_start_event :: "icu \<Rightarrow> cif_loop \<Rightarrow> lg_context step" where
  "handle_loop_start_event I l w =
     (case w of (c, d) \<Rightarrow>
        (let c = c\<lparr>in_ws_run := False\<rparr>
         in if \<not> CONTEXT_IN_CONTAINER c then
              (case print_all_ws_runs c of (n, c) \<Rightarrow> (if n < 0 then CIF_ERROR else CIF_OK, c, d))
            else
              (case print_ws_run (c\<lparr>in_loop := True\<rparr>) of
                 (nprinted, c) \<Rightarrow>
                   (case (if nprinted > 0 then print_u_literal SPACE_ALLOWED (kw ''loop_'') 5 c
                          else if nprinted = 0 then (CIF_OK, (lg_emit c (UCHAR_NL # kw ''loop_''))\<lparr>out_column := 5\<rparr>)
                          else (CIF_ERROR, c))
                    of (result, c) \<Rightarrow>
                      if result \<noteq> CIF_OK then (result, c, d)
                      else
                        (case cif_loop_get_names I l d of
                           (Inl e, d) \<Rightarrow> (e, c, d)
                         | (Inr None, d) \<Rightarrow> (fst (lg_abort c), snd (lg_abort c), d)
                         | (Inr (Some names), d) \<Rightarrow>
                             (case print_names names c of
                                (result, c) \<Rightarrow>
                                  if result \<noteq> CIF_OK \<or> \<not> synthesize_packet c then (result, c, d)
                                  else
                                    (case print_placeholders names
                                            ((lg_emit (c\<lparr>synthesize_packet := False\<rparr>) [UCHAR_NL])\<lparr>out_column := 0\<rparr>) of
                                       (result, c) \<Rightarrow>
                                         (result, if result = CIF_OK then lg_emit c [UCHAR_NL] else c, d))))))))"

text \<open>A line break to come where there is no whitespace of the input.\<close>

definition inject_newline :: "lg_context \<Rightarrow> lg_context" where
  "inject_newline c = (if out_column c \<noteq> 0 \<and> ws_queue c = Runs [] then preserve_whitespace (Some [UCHAR_NL]) c else c)"

definition handle_loop_end_event :: "cif_loop \<Rightarrow> lg_context step" where
  "handle_loop_end_event l w =
     (case w of (c, d) \<Rightarrow>
        (CIF_TRAVERSE_CONTINUE, if CONTEXT_IN_CONTAINER c then inject_newline (c\<lparr>in_loop := False\<rparr>) else c, d))"

definition handle_packet_start_event :: "cif_map \<Rightarrow> lg_context step" where
  "handle_packet_start_event packet w =
     (case w of (c, d) \<Rightarrow> (CIF_TRAVERSE_CONTINUE, if CONTEXT_IN_CONTAINER c then inject_newline c else c, d))"

definition discard_packet :: "cif_map \<Rightarrow> lg_context step" where
  "discard_packet packet w = (CIF_TRAVERSE_SKIP_CURRENT, w)"

text \<open>
  The whitespace around an item that is not printed: of the runs in the queue the first stays, and outside a loop the
  second, joined to it.
\<close>

definition merge_ws :: "lg_context \<Rightarrow> lg_context" where
  "merge_ws c =
     (case ws_queue c of
        Freed \<Rightarrow> snd (lg_abort c)
      | Runs [] \<Rightarrow> c
      | Runs (run # runs) \<Rightarrow>
          c\<lparr>ws_queue := Runs [if in_loop c then run else case runs of [] \<Rightarrow> run | second # _ \<Rightarrow> run @ second],
            in_ws_run := True\<rparr>)"

definition print_item :: "icu \<Rightarrow> ustring option \<Rightarrow> cif_value \<Rightarrow> lg_context \<Rightarrow> int \<times> lg_context" where
  "print_item I name v c =
     (case (if CONTEXT_IN_CONTAINER c then name else None) of
        None \<Rightarrow> (CIF_TRAVERSE_CONTINUE, merge_ws c)
      | Some name \<Rightarrow>
          (let c = c\<lparr>in_ws_run := False\<rparr>
           in if in_loop c then print_value I v 2 c
              else
                (case print_ws_run c of
                   (nprinted, c) \<Rightarrow>
                     if nprinted > 0 then
                       (case print_u_literal SPACE_ALLOWED name (int (length name)) c of
                          (result, c) \<Rightarrow> if result \<noteq> CIF_OK then (result, c) else print_value I v 2 c)
                     else if nprinted = 0 then
                       (let us = UCHAR_NL # name; c = lg_emit c us
                        in if length us < 3 then (CIF_ERROR, c)
                           else print_value I v 2 (c\<lparr>out_column := int (length us) - 1\<rparr>))
                     else (CIF_ERROR, c))))"

definition lg_handler :: "icu \<Rightarrow> lg_context cif_handler" where
  "lg_handler I =
     \<lparr>handle_cif_start = Some print_header, handle_cif_end = Some handle_cif_end_event,
      handle_block_start = Some lg_open_block, handle_block_end = Some flush_container,
      handle_frame_start = Some lg_open_frame, handle_frame_end = Some finish_frame,
      handle_loop_start = Some (handle_loop_start_event I), handle_loop_end = Some handle_loop_end_event,
      handle_packet_start = Some handle_packet_start_event, handle_packet_end = Some discard_packet,
      handle_item = Some (\<lambda>name v w. case w of (c, d) \<Rightarrow>
                       (case print_item I (Some name) v c of (result, c) \<Rightarrow> (result, c, d)))\<rparr>"

section \<open>Errors and the end\<close>

text \<open>The message is looked up in \<open>cif_errlist\<close>, which has \<open>cif_nerr\<close> entries.\<close>

definition lg_error_callback :: "int \<Rightarrow> int \<Rightarrow> int \<Rightarrow> lg_context \<Rightarrow> int \<times> lg_context" where
  "lg_error_callback code lineno colno c =
     (let c = c\<lparr>error_count := error_count c + 1\<rparr>;
          known = (0 \<le> code \<and> code \<le> cif_nerr);
          c = (if quiet c then c
               else if known \<and> code \<ge> int (length cif_errlist) then snd (lg_abort c)
               else c\<lparr>lg_diagnostics := lg_diagnostics c @ [(code, lineno, colno, known)]\<rparr>)
      in if halt_on_error c then (code, c)
         else (CIF_OK, if code = CIF_EMPTY_LOOP then c\<lparr>synthesize_packet := True\<rparr> else c))"

text \<open>What main does after \<open>cif_parse\<close>; the result has the exit code.\<close>

definition lg_finish :: "int \<Rightarrow> lg_context \<times> db \<Rightarrow> nat \<times> lg_context" where
  "lg_finish result w =
     (let c = fst (if result \<noteq> CIF_OK then snd (handle_cif_end_event w) else w)
      in (if result \<noteq> CIF_OK then 3 else if error_count c \<noteq> 0 then 1 else 0, c))"

end
