(* ===== verification/LinguistProps.thy ===== *)
theory LinguistProps
  imports LinguistValue
begin

text \<open>
  Properties of cif_linguist: the queue of whitespace against the text that it stands for, the version comment,
  containers that have been printed, and the errors of the program.
\<close>

section \<open>The column\<close>

lemma lg_emit_simps [simp]: "lg_emit (lg_emit c a) b = lg_emit c (a @ b)" "lg_emit c [] = c"
  "lg_out (lg_emit c a) = lg_out c @ a" "ws_queue (lg_emit c a) = ws_queue c" "out_column (lg_emit c a) = out_column c"
  by (simp_all add: lg_emit_def)

text \<open>The length of the last line of a text, and the column after a text that starts in column \<open>k\<close>.\<close>

definition last_line :: "ustring \<Rightarrow> int" where
  "last_line us = int (length (takeWhile (\<lambda>ch. \<not> is_eol ch) (rev us)))"

definition column_after :: "int \<Rightarrow> ustring \<Rightarrow> int" where
  "column_after k us = (if \<exists>ch\<in>set us. is_eol ch then 0 else k) + last_line us"

lemma last_line_Cons:
  "last_line (ch # us) =
     (if \<exists>x\<in>set us. is_eol x then last_line us else int (length us) + (if is_eol ch then 0 else 1))"
  by (auto simp: last_line_def takeWhile_append)

lemma last_line_nil [simp]: "last_line [] = 0"
  by (simp add: last_line_def)

lemma column_after_nil [simp]: "column_after k [] = k"
  by (simp add: column_after_def)

lemma last_line_all: "\<forall>ch\<in>set us. \<not> is_eol ch \<Longrightarrow> last_line us = int (length us)"
  by (induction us) (auto simp: last_line_Cons)

lemma column_after_append: "column_after k (a @ b) = column_after (column_after k a) b"
proof (cases "\<exists>ch\<in>set b. is_eol ch")
  case True
  then have "last_line (a @ b) = last_line b" by (auto simp: last_line_def takeWhile_append)
  then show ?thesis using True by (auto simp: column_after_def)
next
  case False
  then have "last_line (a @ b) = last_line a + int (length b)" "last_line b = int (length b)"
    by (auto simp: last_line_def takeWhile_append last_line_all [unfolded last_line_def])
  then show ?thesis using False by (auto simp: column_after_def)
qed

lemma last_line_bounds: "0 \<le> last_line us \<and> last_line us \<le> int (length us)"
  using length_takeWhile_le [of "\<lambda>ch. \<not> is_eol ch" "rev us"] by (simp add: last_line_def)

lemma count_lines_spec:
  "count_lines us pos found = (n', u') \<Longrightarrow>
     (if \<exists>ch\<in>set us. is_eol ch then fst found < n' \<and> u' = pos + int (length us) - last_line us else (n', u') = found)"
proof (induction us pos found rule: count_lines.induct)
  case (2 ch us pos n u)
  consider (crlf) "ch = UCHAR_CR" "us \<noteq> []" "hd us = UCHAR_NL"
    | (eol) "is_eol ch" "\<not> (ch = UCHAR_CR \<and> us \<noteq> [] \<and> hd us = UCHAR_NL)" | (other) "\<not> is_eol ch"
    by (auto simp: is_eol_def)
  then show ?case
  proof cases
    case crlf
    then obtain r where us: "us = UCHAR_NL # r" by (cases us) auto
    have "is_eol UCHAR_NL" "is_eol UCHAR_CR" by (simp_all add: is_eol_def)
    then show ?thesis using 2(1) 2(4) crlf by (auto simp: us last_line_Cons split: if_splits)
  next
    case eol
    then show ?thesis using 2(2) 2(4) by (auto simp: last_line_Cons is_eol_def split: if_splits)
  next
    case other
    then show ?thesis using 2(3) 2(4) by (auto simp: last_line_Cons is_eol_def split: if_splits)
  qed
qed auto

section \<open>Printing whitespace\<close>

definition runs_text :: "ws_run list \<Rightarrow> ustring" where
  "runs_text runs = concat (concat runs)"

lemma runs_text_simps [simp]:
  "runs_text [] = []" "runs_text (run # runs) = concat run @ runs_text runs"
  "runs_text (xs @ ys) = runs_text xs @ runs_text ys"
  by (simp_all add: runs_text_def)

text \<open>Whitespace that is printed.\<close>

definition spaced :: "lg_context \<Rightarrow> ustring \<Rightarrow> lg_context" where
  "spaced c us = (lg_emit c us)\<lparr>out_column := column_after (out_column c) us\<rparr>"

lemma spaced_simps [simp]: "spaced (spaced c a) b = spaced c (a @ b)" "spaced c [] = c"
  "lg_out (spaced c us) = lg_out c @ us" "out_column (spaced c us) = column_after (out_column c) us"
  "ws_queue (spaced c us) = ws_queue c" "output_format (spaced c us) = output_format c"
  "spaced (c\<lparr>ws_queue := q\<rparr>) us = (spaced c us)\<lparr>ws_queue := q\<rparr>"
  by (simp_all add: spaced_def lg_emit_def column_after_append)

lemma print_pieces_spec: "print_pieces pieces rval c = (rval + int (length (concat pieces)), spaced c (concat pieces))"
proof (induction pieces arbitrary: rval c)
  case (Cons us pieces)
  obtain n u where nu: "count_lines us 0 (0, 0) = (n, u)" by fastforce
  have spec: "if \<exists>ch\<in>set us. is_eol ch then 0 < n \<and> u = int (length us) - last_line us else n = 0 \<and> u = 0"
    using count_lines_spec [OF nu] by (auto split: if_splits)
  then have "\<not> int (length us) < u" using last_line_bounds [of us] by (auto split: if_splits)
  moreover have "(if n \<noteq> 0 then int (length us) - u else out_column c + int (length us)) = column_after (out_column c) us"
  proof (cases "\<exists>ch\<in>set us. is_eol ch")
    case True
    then show ?thesis using spec by (simp add: column_after_def)
  next
    case False
    moreover from False have "last_line us = int (length us)" by (simp add: last_line_all)
    ultimately show ?thesis using spec by (simp add: column_after_def)
  qed
  ultimately have "print_pieces (us # pieces) rval c = print_pieces pieces (rval + int (length us)) (spaced c us)"
    by (cases "n = 0") (simp_all add: nu Let_def spaced_def lg_emit_def)
  then show ?case by (simp add: Cons)
qed simp

lemma print_ws_run_spec:
  "ws_queue c = Runs runs \<Longrightarrow>
   print_ws_run c = (case runs of [] \<Rightarrow> (0, c) | run # runs \<Rightarrow> (int (length (concat run)), spaced (c\<lparr>ws_queue := Runs runs\<rparr>) (concat run)))"
  by (simp add: print_ws_run_def print_pieces_spec split: list.split)

lemma print_runs_spec:
  "ws_queue c = Runs runs \<Longrightarrow>
   print_runs runs rval c = (rval + int (length (runs_text runs)), spaced (c\<lparr>ws_queue := Runs []\<rparr>) (runs_text runs))"
proof (induction runs arbitrary: rval c)
  case Nil
  then show ?case by simp
next
  case (Cons run runs)
  then show ?case by (simp add: print_ws_run_spec)
qed

lemma print_all_ws_runs_spec:
  "ws_queue c = Runs runs \<Longrightarrow>
   print_all_ws_runs c = (int (length (runs_text runs)), spaced (c\<lparr>ws_queue := Runs []\<rparr>) (runs_text runs))"
  by (simp add: print_all_ws_runs_def print_runs_spec)

section \<open>Keeping whitespace\<close>

lemma replace_extra_Cons:
  "replace_extra extra repl (ch # us) =
     (if ch \<in> set extra \<or> ch = 0 then repl else ch) # replace_extra extra repl us"
proof (cases "ch \<in> set extra \<or> ch = 0")
  case True
  then show ?thesis by (subst replace_extra.simps) (auto simp: Let_def)
next
  case False
  then show ?thesis
    by (subst (1 2) replace_extra.simps) (simp add: Let_def)
qed

lemma replace_extra_Nil: "replace_extra extra repl [] = []"
  by (simp add: replace_extra.simps)

text \<open>For text without a NUL the loop replaces the extra characters and nothing else.\<close>

lemma replace_extra_map:
  "0 \<notin> set us \<Longrightarrow> replace_extra extra repl us = map (\<lambda>ch. if ch \<in> set extra then repl else ch) us"
  by (induction us) (auto simp: replace_extra_Nil replace_extra_Cons)

definition standard_ws :: "lg_context \<Rightarrow> uchar \<Rightarrow> uchar" where
  "standard_ws c ch =
     (let ch = (if ch \<in> set (extra_eol c) then UCHAR_NL else ch) in if ch \<in> set (extra_ws c) then UCHAR_SP else ch)"

lemma translate_whitespace_map:
  assumes "0 \<notin> set us"
  shows "translate_whitespace us (extra_eol c) (extra_ws c) = map (standard_ws c) us"
proof -
  let ?us = "if extra_eol c \<noteq> [] then replace_extra (extra_eol c) UCHAR_NL us else us"
  have us: "?us = map (\<lambda>ch. if ch \<in> set (extra_eol c) then UCHAR_NL else ch) us"
    using replace_extra_map [OF assms] by (cases "extra_eol c = []") simp_all
  then have "0 \<notin> set ?us" using assms by auto
  then have "(if extra_ws c \<noteq> [] then replace_extra (extra_ws c) UCHAR_SP ?us else ?us)
      = map (\<lambda>ch. if ch \<in> set (extra_ws c) then UCHAR_SP else ch) ?us"
    using replace_extra_map by (cases "extra_ws c = []") simp_all
  then show ?thesis by (simp only: translate_whitespace_def us Let_def) (simp add: standard_ws_def Let_def)
qed

lemma standard_ws_nul: "0 \<notin> set us \<Longrightarrow> 0 \<notin> set (map (standard_ws c) us)"
  by (auto simp: standard_ws_def Let_def)

lemma preserve_whitespace_spec:
  assumes "ws_queue c = Runs runs" "0 \<notin> set us"
  shows "\<exists>runs'. preserve_whitespace (Some us) c = c\<lparr>ws_queue := Runs runs', in_ws_run := us \<noteq> []\<rparr>
    \<and> runs_text runs' = runs_text runs @ map (standard_ws c) us"
proof -
  have piece: "cstr (if us \<noteq> [] then translate_whitespace us (extra_eol c) (extra_ws c) else us) = map (standard_ws c) us"
    using assms(2) translate_whitespace_map [OF assms(2)] cstr_id [OF standard_ws_nul [OF assms(2)]] by (auto simp: cstr_id)
  have "runs_text (butlast runs @ [last runs @ [p]]) = runs_text runs @ p" if "runs \<noteq> []" for p
    using that by (induction runs rule: rev_induct) simp_all
  then have "runs_text (if runs = [] then [[p]] else if in_ws_run c then butlast runs @ [last runs @ [p]] else runs @ [[p]])
      = runs_text runs @ p" for p by simp
  then show ?thesis
    using assms(1)
    by (intro exI [of _ "let p = map (standard_ws c) us in
          if runs = [] then [[p]] else if in_ws_run c then butlast runs @ [last runs @ [p]] else runs @ [[p]]"])
      (simp only: preserve_whitespace_def option.case piece Let_def ws_queue.case)
qed

text \<open>
  A store of whitespace as its client sees it: what is kept is what is shown of every report, and the rest of the state
  that the client looks at stays as it is.
\<close>

locale whitespace_store =
  fixes keep :: "ustring \<Rightarrow> 's \<Rightarrow> 's"
    and valid :: "'s \<Rightarrow> bool"
    and kept :: "'s \<Rightarrow> ustring"
    and shown :: "'s \<Rightarrow> uchar \<Rightarrow> uchar"
    and view :: "'s \<Rightarrow> 'v"
  assumes valid_keep: "valid s \<Longrightarrow> 0 \<notin> set us \<Longrightarrow> valid (keep us s)"
    and kept_keep: "valid s \<Longrightarrow> 0 \<notin> set us \<Longrightarrow> kept (keep us s) = kept s @ map (shown s) us"
    and shown_keep: "valid s \<Longrightarrow> 0 \<notin> set us \<Longrightarrow> shown (keep us s) = shown s"
    and view_keep: "valid s \<Longrightarrow> 0 \<notin> set us \<Longrightarrow> view (keep us s) = view s"
begin

lemma keep_all:
  "valid s \<Longrightarrow> \<forall>us\<in>set reports. 0 \<notin> set us \<Longrightarrow>
   (let s' = foldl (\<lambda>s us. keep us s) s reports
    in valid s' \<and> kept s' = kept s @ map (shown s) (concat reports) \<and> view s' = view s)"
  by (induction reports arbitrary: s) (simp_all add: valid_keep kept_keep shown_keep view_keep Let_def)

end

definition is_queue :: "lg_context \<Rightarrow> bool" where
  "is_queue c \<longleftrightarrow> ws_queue c \<noteq> Freed"

definition queue_text :: "lg_context \<Rightarrow> ustring" where
  "queue_text c = (case ws_queue c of Runs runs \<Rightarrow> runs_text runs | Freed \<Rightarrow> [])"

lemma is_queue_Runs: "is_queue c \<Longrightarrow> \<exists>runs. ws_queue c = Runs runs"
  by (cases "ws_queue c") (auto simp: is_queue_def)

interpretation lg_ws: whitespace_store "\<lambda>us. preserve_whitespace (Some us)" is_queue queue_text standard_ws
  "\<lambda>c. (lg_out c, out_column c)"
proof
  fix c us
  assume "is_queue c" "0 \<notin> set (us :: ustring)"
  then obtain runs runs' where q: "ws_queue c = Runs runs"
    and p: "preserve_whitespace (Some us) c = c\<lparr>ws_queue := Runs runs', in_ws_run := us \<noteq> []\<rparr>"
      "runs_text runs' = runs_text runs @ map (standard_ws c) us"
    using is_queue_Runs preserve_whitespace_spec by metis
  show "is_queue (preserve_whitespace (Some us) c)" by (simp add: p is_queue_def)
  show "queue_text (preserve_whitespace (Some us) c) = queue_text c @ map (standard_ws c) us"
    by (simp add: p q queue_text_def)
  show "standard_ws (preserve_whitespace (Some us) c) = standard_ws c" by (rule ext) (simp add: p standard_ws_def)
  show "(lg_out (preserve_whitespace (Some us) c), out_column (preserve_whitespace (Some us) c)) = (lg_out c, out_column c)"
    by (simp add: p)
qed

definition preserve_all :: "ustring list \<Rightarrow> lg_context \<Rightarrow> lg_context" where
  "preserve_all reports c = foldl (\<lambda>c us. preserve_whitespace (Some us) c) c reports"

text \<open>
  C16. The whitespace and the comments that the parser reports are printed as they were, in order and once, however
  they were cut into pieces and runs: after any series of reports the queue stands for what it stood for before and
  the reports, the extra line terminators as line feeds and the extra spaces as spaces. Printing all of it empties
  the queue, answers with the number of units and leaves the column at the length of the last line.
\<close>

theorem whitespace_kept:
  assumes "ws_queue c = Runs runs" "\<forall>us\<in>set reports. 0 \<notin> set us"
    and "us = runs_text runs @ map (standard_ws c) (concat reports)"
    and "print_all_ws_runs (preserve_all reports c) = (n, c')"
  shows "lg_out c' = lg_out c @ us \<and> n = int (length us) \<and> ws_queue c' = Runs []
    \<and> out_column c' = column_after (out_column c) us"
proof -
  let ?c = "preserve_all reports c"
  have kept: "is_queue ?c" "queue_text ?c = us" "lg_out ?c = lg_out c" "out_column ?c = out_column c"
    using lg_ws.keep_all [of c reports] assms(1-3) by (simp_all add: preserve_all_def is_queue_def queue_text_def Let_def)
  then obtain runs' where q: "ws_queue ?c = Runs runs'" "runs_text runs' = us"
    using is_queue_Runs [of ?c] by (auto simp: queue_text_def)
  have "n = int (length us)" "c' = spaced (?c\<lparr>ws_queue := Runs []\<rparr>) us"
    using assms(4) print_all_ws_runs_spec [OF q(1)] q(2) by simp_all
  then show ?thesis using kept(3,4) by simp
qed

lemma whitespace_kept_witness:
  "\<exists>n c'. print_all_ws_runs (preserve_all [[0x23, 0x61, 0x0c], [], [0x0b, UCHAR_SP]]
        (lg_context_init\<lparr>extra_ws := [0x0b], extra_eol := [0x0c]\<rparr>)) = (n, c')
     \<and> lg_out c' = [0x23, 0x61, UCHAR_NL, UCHAR_SP, UCHAR_SP] \<and> out_column c' = 2"
proof -
  let ?c = "lg_context_init\<lparr>extra_ws := [0x0b], extra_eol := [0x0c]\<rparr>"
  let ?reports = "[[0x23, 0x61, 0x0c], [], [0x0b, UCHAR_SP]] :: ustring list"
  let ?us = "[0x23, 0x61, UCHAR_NL, UCHAR_SP, UCHAR_SP] :: ustring"
  obtain n c' where r: "print_all_ws_runs (preserve_all ?reports ?c) = (n, c')" by fastforce
  have us: "?us = runs_text [] @ map (standard_ws ?c) (concat ?reports)" by (simp add: standard_ws_def)
  have "column_after 0 ?us = 2" by (simp add: column_after_def last_line_def is_eol_def)
  then show ?thesis
    using whitespace_kept [of ?c "[]" ?reports, OF _ _ us r] r by (auto simp: lg_context_init_def)
qed

section \<open>The version comment\<close>

lemma match_piece_spec:
  "k < length cif_header_start \<Longrightarrow>
   match_piece us k =
     (let h = drop k cif_header_start in
      if take (length h) us = h then Matched (drop (length h) us)
      else if us = take (length us) h then Checked (k + length us) else Differs)"
proof (induction us k rule: match_piece.induct)
  case (1 k)
  then show ?case by (simp add: Let_def)
next
  case (2 ch us k)
  have h: "drop k cif_header_start = cif_header_start ! k # drop (k + 1) cif_header_start"
    using 2(2) by (simp add: Cons_nth_drop_Suc)
  show ?case
  proof (cases "k + 1 < length cif_header_start")
    case True
    then show ?thesis using 2(1) h by (auto simp: Let_def)
  next
    case False
    then show ?thesis using 2(2) h by (auto simp: Let_def)
  qed
qed

lemma match_run_spec:
  assumes "k < length cif_header_start"
  shows "(\<exists>r. concat run = drop k cif_header_start @ r) \<longleftrightarrow> match_run run k \<noteq> None"
    "match_run run k = Some (rest, pieces) \<Longrightarrow> concat run = drop k cif_header_start @ rest @ concat pieces"
proof -
  have "((\<exists>r. concat run = drop k cif_header_start @ r) \<longleftrightarrow> match_run run k \<noteq> None)
      \<and> (\<forall>rest pieces. match_run run k = Some (rest, pieces) \<longrightarrow> concat run = drop k cif_header_start @ rest @ concat pieces)"
    using assms
  proof (induction run arbitrary: k)
    case Nil
    then show ?case by simp
  next
    case (Cons us run)
    let ?h = "drop k cif_header_start"
    have h: "?h \<noteq> []" using Cons.prems by simp
    consider (matched) "take (length ?h) us = ?h" | (checked) "take (length ?h) us \<noteq> ?h" "us = take (length us) ?h"
      | (differs) "take (length ?h) us \<noteq> ?h" "us \<noteq> take (length us) ?h" by blast
    then show ?case
    proof cases
      case matched
      then have "match_piece us k = Matched (drop (length ?h) us)" by (simp add: match_piece_spec [OF Cons.prems])
      moreover have us: "us = ?h @ drop (length ?h) us" using matched by (metis append_take_drop_id)
      then have c: "concat (us # run) = ?h @ drop (length ?h) us @ concat run" by (metis append_assoc concat.simps(2))
      moreover have "\<exists>r. concat (us # run) = ?h @ r" using c by (intro exI)
      ultimately show ?thesis by simp
    next
      case checked
      then have m: "match_piece us k = Checked (k + length us)" by (simp add: match_piece_spec [OF Cons.prems])
      have split: "?h = us @ drop (k + length us) cif_header_start"
        using checked(2) by (metis append_take_drop_id drop_drop add.commute)
      have "drop (k + length us) cif_header_start \<noteq> []" using checked(1) split by auto
      then have "k + length us < length cif_header_start" by simp
      from Cons.IH [OF this] show ?thesis by (simp add: m split)
    next
      case differs
      then have m: "match_piece us k = Differs" by (simp add: match_piece_spec [OF Cons.prems])
      have "us @ concat run \<noteq> ?h @ r" for r
      proof
        assume eq: "us @ concat run = ?h @ r"
        show False
        proof (cases "length us \<le> length ?h")
          case True
          then have "take (length us) ?h = us" using eq by (metis append_eq_append_conv_if append_eq_conv_conj)
          then show False using differs(2) by simp
        next
          case False
          then have "take (length ?h) us = take (length ?h) (us @ concat run)" by simp
          also have "\<dots> = ?h" unfolding eq by simp
          finally show False using differs(1) by simp
        qed
      qed
      then show ?thesis by (simp add: m)
    qed
  qed
  then show "(\<exists>r. concat run = drop k cif_header_start @ r) \<longleftrightarrow> match_run run k \<noteq> None"
    "match_run run k = Some (rest, pieces) \<Longrightarrow> concat run = drop k cif_header_start @ rest @ concat pieces" by blast+
qed

text \<open>The text after its first line feed.\<close>

definition next_line :: "ustring \<Rightarrow> ustring" where
  "next_line us = tl (dropWhile (\<lambda>ch. ch \<noteq> UCHAR_NL) us)"

lemma dropWhile_stops: "dropWhile P us = x # r \<Longrightarrow> dropWhile P (us @ v) = x # r @ v"
  by (induction us) (auto split: if_splits)

lemma after_line_spec:
  assumes "UCHAR_CR \<notin> set us" "\<forall>p\<in>set pieces. UCHAR_CR \<notin> set p"
  shows "(case after_line us pieces of None \<Rightarrow> [] | Some (m, ps) \<Rightarrow> m @ concat ps) = next_line (us @ concat pieces)"
  using assms
proof (induction pieces arbitrary: us)
  case Nil
  have eol: "dropWhile (\<lambda>ch. \<not> is_eol ch) us = dropWhile (\<lambda>ch. ch \<noteq> UCHAR_NL) us"
    using Nil(1) by (intro dropWhile_cong) (auto simp: is_eol_def)
  show ?case
  proof (cases "dropWhile (\<lambda>ch. ch \<noteq> UCHAR_NL) us")
    case Nil
    show ?thesis by (subst after_line.simps) (simp add: eol next_line_def Nil)
  next
    case (Cons ch r)
    then have "ch = UCHAR_NL" using hd_dropWhile [of "\<lambda>ch. ch \<noteq> UCHAR_NL" us] by simp
    then show ?thesis using Cons by (subst after_line.simps) (simp add: eol next_line_def)
  qed
next
  case (Cons p pieces)
  have eol: "dropWhile (\<lambda>ch. \<not> is_eol ch) us = dropWhile (\<lambda>ch. ch \<noteq> UCHAR_NL) us"
    using Cons.prems(1) by (intro dropWhile_cong) (auto simp: is_eol_def)
  show ?case
  proof (cases "dropWhile (\<lambda>ch. ch \<noteq> UCHAR_NL) us")
    case Nil
    then have "\<forall>ch\<in>set us. ch \<noteq> UCHAR_NL" by (simp add: dropWhile_eq_Nil_conv)
    then have "next_line (us @ concat (p # pieces)) = next_line (p @ concat pieces)"
      by (simp add: next_line_def dropWhile_append2)
    then show ?thesis using Cons by (subst after_line.simps) (simp add: eol Nil)
  next
    case (Cons ch r)
    then have "ch = UCHAR_NL" using hd_dropWhile [of "\<lambda>ch. ch \<noteq> UCHAR_NL" us] by simp
    then show ?thesis using Cons dropWhile_stops [OF Cons, of "p @ concat pieces"]
      by (subst after_line.simps) (simp add: eol next_line_def)
  qed
qed

text \<open>
  C37. A version comment at the start of the whitespace that has been kept is left out of the output, to the end of
  its line, and nothing else is, into whatever pieces the comment has been cut; other whitespace is not changed.
  (Carriage returns do not occur: the scanner has converted them.)
\<close>

theorem version_comment_consumed:
  assumes "ws_queue c = Runs (run # runs)" "UCHAR_CR \<notin> set (concat run)"
  shows "\<exists>runs'. consume_version_comment c = c\<lparr>ws_queue := Runs runs'\<rparr>
    \<and> runs_text runs' =
        (if take 7 (concat run) = cif_header_start then next_line (drop 7 (concat run)) else concat run) @ runs_text runs"
proof -
  have len: "length cif_header_start = 7" by (simp add: cif_header_start_def)
  then have k: "0 < length cif_header_start" by simp
  have pre: "take 7 (concat run) = cif_header_start \<longleftrightarrow> (\<exists>r. concat run = cif_header_start @ r)"
    using len by (metis append_eq_conv_conj)
  show ?thesis
  proof (cases "match_run run 0")
    case None
    then have "take 7 (concat run) \<noteq> cif_header_start" using match_run_spec(1) [OF k, of run] pre by simp
    then show ?thesis
      using assms(1) None by (intro exI [of _ "run # runs"]) (simp add: consume_version_comment_def)
  next
    case (Some a)
    obtain rest pieces where a: "a = (rest, pieces)" by (cases a)
    have run: "concat run = cif_header_start @ rest @ concat pieces"
      using match_run_spec(2) [OF k, of run rest pieces] Some a by simp
    then have cr: "UCHAR_CR \<notin> set rest" "\<forall>p\<in>set pieces. UCHAR_CR \<notin> set p" using assms(2) by auto
    let ?runs = "case after_line rest pieces of None \<Rightarrow> runs | Some (us, pieces) \<Rightarrow> (us # pieces) # runs"
    have "consume_version_comment c = c\<lparr>ws_queue := Runs ?runs\<rparr>"
      using assms(1) Some a by (simp add: consume_version_comment_def split: option.split)
    moreover have "runs_text ?runs = next_line (rest @ concat pieces) @ runs_text runs"
      using after_line_spec [OF cr] by (cases "after_line rest pieces") auto
    moreover have "take 7 (concat run) = cif_header_start" "drop 7 (concat run) = rest @ concat pieces"
      using run len by simp_all
    ultimately show ?thesis by (intro exI [of _ ?runs]) simp
  qed
qed

lemma version_comment_consumed_witness:
  "\<exists>runs'. consume_version_comment
         (lg_context_init\<lparr>ws_queue := Runs [[[UCHAR_HASH, UCHAR_BSL, UCHAR_HASH], [0x43, 0x49, 0x46, UCHAR_UNDER, 0x31],
            [0x2e, UCHAR_NL, UCHAR_HASH]], [[UCHAR_SP]]]\<rparr>) = lg_context_init\<lparr>ws_queue := Runs runs'\<rparr>
     \<and> runs_text runs' = [UCHAR_HASH, UCHAR_SP]"
proof -
  let ?run = "[[UCHAR_HASH, UCHAR_BSL, UCHAR_HASH], [0x43, 0x49, 0x46, UCHAR_UNDER, 0x31], [0x2e, UCHAR_NL, UCHAR_HASH]] :: ws_run"
  let ?c = "lg_context_init\<lparr>ws_queue := Runs (?run # [[[UCHAR_SP]]])\<rparr>"
  have "ws_queue ?c = Runs (?run # [[[UCHAR_SP]]])" "UCHAR_CR \<notin> set (concat ?run)" by simp_all
  from version_comment_consumed [OF this] show ?thesis by (simp add: cif_header_start_def next_line_def)
qed

section \<open>The form of the queue\<close>

text \<open>No run is empty and no piece has a NUL.\<close>

definition wf_queue :: "ws_queue \<Rightarrow> bool" where
  "wf_queue q \<longleftrightarrow> (case q of Runs runs \<Rightarrow> \<forall>run\<in>set runs. run \<noteq> [] \<and> (\<forall>p\<in>set run. 0 \<notin> set p) | Freed \<Rightarrow> True)"

lemma cstr_nul: "0 \<notin> set (cstr us)"
  by (auto simp: cstr_def dest: set_takeWhileD)

lemma wf_preserve: "wf_queue (ws_queue c) \<Longrightarrow> wf_queue (ws_queue (preserve_whitespace ws c))"
proof (cases ws; cases "ws_queue c")
  fix us runs
  assume wf: "wf_queue (ws_queue c)" and ws: "ws = Some us" and q: "ws_queue c = Runs runs"
  let ?p = "cstr (if us \<noteq> [] then translate_whitespace us (extra_eol c) (extra_ws c) else us)"
  have "wf_queue (Runs (butlast runs @ [last runs @ [?p]]))" if "runs \<noteq> []"
    using wf q that cstr_nul by (auto simp: wf_queue_def dest: in_set_butlastD)
  moreover have "wf_queue (Runs (runs @ [[?p]]))" "wf_queue (Runs [[?p]])"
    using wf q cstr_nul by (auto simp: wf_queue_def)
  ultimately show ?thesis by (simp add: preserve_whitespace_def ws q Let_def)
qed (simp_all add: preserve_whitespace_def lg_abort_def wf_queue_def Let_def)

lemma wf_print: "wf_queue (ws_queue c) \<Longrightarrow> wf_queue (ws_queue (snd (print_ws_run c)))"
  "wf_queue (ws_queue (snd (print_all_ws_runs c)))"
  by (cases "ws_queue c"; auto simp: print_ws_run_spec print_all_ws_runs_spec wf_queue_def split: list.split;
      simp add: print_ws_run_def print_all_ws_runs_def lg_abort_def)+

lemma match_piece_nul: "match_piece us k = Matched r \<Longrightarrow> 0 \<notin> set us \<Longrightarrow> 0 \<notin> set r"
  by (induction us k rule: match_piece.induct) (auto split: if_splits)

lemma match_run_nul:
  "match_run run k = Some (rest, pieces) \<Longrightarrow> \<forall>p\<in>set run. 0 \<notin> set p \<Longrightarrow> 0 \<notin> set rest \<and> (\<forall>p\<in>set pieces. 0 \<notin> set p)"
  by (induction run k rule: match_run.induct) (auto dest: match_piece_nul split: header_match.splits)

lemma after_line_nul:
  "after_line us pieces = Some (m, ps) \<Longrightarrow> 0 \<notin> set us \<Longrightarrow> \<forall>p\<in>set pieces. 0 \<notin> set p \<Longrightarrow> \<forall>p\<in>set (m # ps). 0 \<notin> set p"
proof (induction us pieces rule: after_line.induct)
  case (1 us pieces)
  show ?case
  proof (cases "dropWhile (\<lambda>ch. \<not> is_eol ch) us")
    case Nil
    have "after_line us pieces = (case pieces of [] \<Rightarrow> None | q # qs \<Rightarrow> after_line q qs)"
      by (subst after_line.simps) (simp add: Nil)
    then obtain q qs where pieces: "pieces = q # qs" and rec: "after_line q qs = Some (m, ps)"
      using 1(2) by (auto split: list.splits)
    show ?thesis using 1(1) [OF Nil pieces rec] 1(4) by (simp add: pieces)
  next
    case (Cons ch r)
    have "set r \<subseteq> set us" using set_dropWhileD [of _ "\<lambda>ch. \<not> is_eol ch" us] by (auto simp: Cons)
    then show ?thesis
      using 1(2-4) by (subst (asm) after_line.simps) (auto simp: Cons split: if_splits dest: list.set_sel(2))
  qed
qed

lemma wf_consume: "wf_queue (ws_queue c) \<Longrightarrow> wf_queue (ws_queue (consume_version_comment c))"
proof (cases "ws_queue c")
  case (Runs runs)
  assume wf: "wf_queue (ws_queue c)"
  show ?thesis
  proof (cases runs)
    case Nil
    then show ?thesis using wf Runs by (simp add: consume_version_comment_def)
  next
    case (Cons run runs')
    then have run: "\<forall>p\<in>set run. 0 \<notin> set p" and others: "wf_queue (Runs runs')"
      using wf Runs by (auto simp: wf_queue_def)
    show ?thesis
    proof (cases "match_run run 0")
      case None
      then show ?thesis using wf Runs Cons by (simp add: consume_version_comment_def)
    next
      case (Some a)
      obtain rest pieces where a: "a = (rest, pieces)" by (cases a)
      have nul: "0 \<notin> set rest \<and> (\<forall>p\<in>set pieces. 0 \<notin> set p)" using match_run_nul [of run 0 rest pieces] Some a run by simp
      show ?thesis
      proof (cases "after_line rest pieces")
        case None
        then show ?thesis using others Runs Cons Some a by (simp add: consume_version_comment_def)
      next
        case (Some b)
        obtain m ps where b: "b = (m, ps)" by (cases b)
        have "\<forall>p\<in>set (m # ps). 0 \<notin> set p" using after_line_nul [of rest pieces m ps] Some b nul by simp
        then have "wf_queue (Runs ((m # ps) # runs'))" using others by (simp add: wf_queue_def)
        then show ?thesis using Runs Cons \<open>match_run run 0 = Some a\<close> a Some b by (simp add: consume_version_comment_def)
      qed
    qed
  qed
qed (simp add: consume_version_comment_def lg_abort_def wf_queue_def)

lemma wf_merge: "wf_queue (ws_queue c) \<Longrightarrow> wf_queue (ws_queue (merge_ws c))"
  by (auto simp: merge_ws_def wf_queue_def lg_abort_def split: ws_queue.splits list.splits)

text \<open>
  The queue of whitespace keeps its form under every operation on it: its runs are not empty, so that a printed
  run has a first piece, and its pieces have no NUL, so that every reader of a piece sees all of it.
\<close>

lemma queue_keeps_form:
  assumes "wf_queue (ws_queue c)"
    and "c' \<in> {preserve_whitespace ws c, snd (print_ws_run c), snd (print_all_ws_runs c), consume_version_comment c,
      merge_ws c, flush_queue c, inject_newline c}"
  shows "wf_queue (ws_queue c')"
proof -
  have "wf_queue (ws_queue (inject_newline c))" using wf_preserve [OF assms(1)] assms(1) by (simp add: inject_newline_def)
  moreover have "wf_queue (ws_queue (flush_queue c))"
    by (simp add: flush_queue_def lg_abort_def wf_queue_def split: ws_queue.split)
  ultimately show ?thesis
    using assms(2) wf_preserve [OF assms(1)] wf_print(1) [OF assms(1)] wf_print(2) wf_consume [OF assms(1)] wf_merge [OF assms(1)]
    by blast
qed

lemma queue_keeps_form_witness:
  "wf_queue (ws_queue (preserve_whitespace (Some [UCHAR_HASH, 0, UCHAR_SP]) lg_context_init))
   \<and> ws_queue (preserve_whitespace (Some [UCHAR_HASH, 0, UCHAR_SP]) lg_context_init) = Runs [[[UCHAR_HASH]]]"
proof -
  have "wf_queue (ws_queue lg_context_init)" by (simp add: wf_queue_def lg_context_init_def)
  then have "wf_queue (ws_queue (preserve_whitespace (Some [UCHAR_HASH, 0, UCHAR_SP]) lg_context_init))"
    by (rule queue_keeps_form [where ws = "Some [UCHAR_HASH, 0, UCHAR_SP]"]) simp
  then show ?thesis
    by (simp add: preserve_whitespace_def translate_whitespace_def lg_context_init_def cstr_def Let_def)
qed

end
