(* ===== verification/LinguistText.thy ===== *)
theory LinguistText
  imports LinguistProps WriterProps
begin

text \<open>
  The text fields of cif_linguist: what \<open>print_text_field\<close> prints is what the parser's \<open>decode_text\<close> takes apart
  again, and its lines keep to the limit.
\<close>

section \<open>Where lines are folded\<close>

definition fold_ok :: "bool \<Rightarrow> ustring \<Rightarrow> int \<Rightarrow> bool" where
  "fold_ok before_semi us n \<longleftrightarrow> before_semi \<or> unit_at us (nat n) \<noteq> UCHAR_SEMI"

lemma fold_category_ok: "fold_category b w ch \<noteq> 0 \<Longrightarrow> b \<or> ch \<noteq> UCHAR_SEMI"
  by (auto simp: fold_category_def split: if_splits)

lemma fold_lower_ok:
  assumes "fold_lower b us target diffs w best = (cat', diff')"
    and "fst best \<noteq> 0 \<longrightarrow> fold_ok b us (target + snd best)"
  shows "(cat' \<noteq> 0 \<longrightarrow> fold_ok b us (target + diff')) \<and> diff' \<in> insert (snd best) (set diffs)"
  using assms
proof (induction diffs arbitrary: w best)
  case (Cons diff diffs)
  obtain cat d0 where best: "best = (cat, d0)" by (cases best)
  let ?c = "fold_category b w (unit_at us (nat (target + diff)))"
  let ?best = "if ?c \<ge> cat then (?c, diff) else (cat, d0)"
  have "fst ?best \<noteq> 0 \<longrightarrow> fold_ok b us (target + snd ?best)"
    using Cons.prems(2) fold_category_ok [of b w] by (auto simp: best fold_ok_def)
  then have "(cat' \<noteq> 0 \<longrightarrow> fold_ok b us (target + diff')) \<and> diff' \<in> insert (snd ?best) (set diffs)"
    using Cons.IH [of "is_space (unit_at us (nat (target + diff)))" ?best] Cons.prems(1) by (simp add: best Let_def)
  then show ?case by (auto simp: best split: if_splits)
qed auto

lemma fold_upper_ok:
  assumes "fold_upper b us target diffs w best = (cat', diff')"
    and "fst best \<noteq> 0 \<longrightarrow> fold_ok b us (target + snd best)"
  shows "(cat' \<noteq> 0 \<longrightarrow> fold_ok b us (target + diff')) \<and> diff' \<in> insert (snd best) (set diffs)"
  using assms
proof (induction diffs arbitrary: w best)
  case (Cons diff diffs)
  obtain cat d0 where best: "best = (cat, d0)" by (cases best)
  let ?c = "fold_category b w (unit_at us (nat (target + diff)))"
  let ?best = "if ?c > cat \<or> (?c = cat \<and> diff \<le> - d0) then (?c, diff) else (cat, d0)"
  show ?case
  proof (cases "?c = 3")
    case True
    then have "cat' = cat \<and> diff' = diff" "fold_ok b us (target + diff)"
      using Cons.prems(1) fold_category_ok [of b w "unit_at us (nat (target + diff))"] by (auto simp: best Let_def fold_ok_def)
    then show ?thesis by simp
  next
    case False
    have "fst ?best \<noteq> 0 \<longrightarrow> fold_ok b us (target + snd ?best)"
      using Cons.prems(2) fold_category_ok [of b w] by (auto simp: best fold_ok_def)
    then have "(cat' \<noteq> 0 \<longrightarrow> fold_ok b us (target + diff')) \<and> diff' \<in> insert (snd ?best) (set diffs)"
      using Cons.IH [of "is_space (unit_at us (nat (target + diff)))" ?best] Cons.prems(1) False
      by (simp add: best Let_def)
    then show ?thesis by (auto simp: best split: if_splits)
  qed
qed auto

lemma fold_before_ok: "fold_before us n \<le> n \<and> (fold_before us n \<noteq> 0 \<longrightarrow> unit_at us (fold_before us n) \<noteq> UCHAR_SEMI)"
  by (induction n) auto

text \<open>A line is folded where the next line may start, and not beyond the window.\<close>

lemma compute_fold_length_ok:
  assumes "compute_fold_length us len target window b = Some n" "0 \<le> window"
  shows "n = len \<and> len \<le> target + window
    \<or> target + window < len \<and> 0 \<le> n \<and> n \<le> target + window \<and> (n > 0 \<longrightarrow> fold_ok b us n)"
proof -
  have tw: "target > window" using assms(1) by (auto simp: compute_fold_length_def split: if_splits)
  show ?thesis
  proof (cases "len \<le> target + window")
    case True
    then show ?thesis using assms(1) tw by (simp add: compute_fold_length_def)
  next
    case False
    let ?s = "is_space (unit_at us (nat (target - (window + 1))))"
    let ?m = "if window > 0 then is_space (unit_at us (nat (target - 1))) else ?s"
    obtain lc ld where low: "fold_lower b us target [- window..-1] ?s (0, - (window + 1)) = (lc, ld)" by fastforce
    obtain bc bd where up: "fold_upper b us target [0..window] ?m (lc, ld) = (bc, bd)" by fastforce
    have l: "(lc \<noteq> 0 \<longrightarrow> fold_ok b us (target + ld)) \<and> ld \<in> insert (- (window + 1)) (set [- window..-1])"
      using fold_lower_ok [OF low] by simp
    have u: "(bc \<noteq> 0 \<longrightarrow> fold_ok b us (target + bd)) \<and> bd \<in> insert ld (set [0..window])"
      using fold_upper_ok [OF up] l by simp
    have n: "n = (if bc \<noteq> 0 then target + bd else int (fold_before us (nat (target - (window + 1)))))"
      using assms(1) tw False low up by (simp add: compute_fold_length_def Let_def split: if_splits)
    have "- (window + 1) \<le> bd \<and> bd \<le> window" using l u assms(2) by auto
    moreover have "int (fold_before us (nat (target - (window + 1)))) \<le> target + window"
      using fold_before_ok [of us "nat (target - (window + 1))"] tw assms(2) by linarith
    ultimately show ?thesis
      using False n u tw assms(2) fold_before_ok [of us "nat (target - (window + 1))"]
      by (cases "bc = 0") (auto simp: fold_ok_def)
  qed
qed

section \<open>The segments of a line\<close>

definition ended_lines :: "ustring list \<Rightarrow> ustring" where
  "ended_lines ls = concat (map (\<lambda>l. l @ [UCHAR_NL]) ls)"

lemma ended_lines_simps [simp]: "ended_lines [] = []" "ended_lines (l # ls) = l @ UCHAR_NL # ended_lines ls"
  "ended_lines (xs @ ys) = ended_lines xs @ ended_lines ys"
  by (simp_all add: ended_lines_def)

lemma ended_lines_text: "UCHAR_NL # ended_lines ls = lines_text ls @ [UCHAR_NL]"
  by (induction ls) auto

lemma unprotected: "\<not> protect_end us \<Longrightarrow> mark True us 0 None = None"
  by (cases us rule: rev_cases) (auto simp: protect_end_def is_space_def mark_append is_blank_def)

definition short_line :: "ustring \<Rightarrow> bool" where
  "short_line l \<longleftrightarrow> int (length l) \<le> MAX_LINE_LENGTH"

lemma line_prefix_no_eol: "no_eol (line_prefix p)"
  by (simp add: line_prefix_def text_prefix_def)

lemma strip_line_prefix [simp]: "strip p (line_prefix p @ l) = l"
  by (simp add: line_prefix_def)

lemma prefixed_no_semi: "p \<or> no_semi l \<Longrightarrow> l \<noteq> [] \<Longrightarrow> no_semi (line_prefix p @ l @ b)"
  using no_semi_prefixed [of p l b] by (simp add: line_prefix_def)

lemma print_segments_lines:
  assumes "print_segments p us c = (CIF_OK, c')" "no_eol us"
  shows "us \<noteq> [] \<and> (\<exists>ls. ls \<noteq> [] \<and> c' = lg_emit c (ended_lines ls) \<and> (\<forall>l\<in>set ls. no_eol l \<and> short_line l)
    \<and> (\<forall>tail. undo True p (ls @ tail) = us @ (if tail = [] then [] else UCHAR_NL # undo True p tail))
    \<and> (p \<or> no_semi us \<longrightarrow> (\<forall>l\<in>set ls. no_semi l)))"
  using assms
proof (induction p us c rule: print_segments.induct)
  case (1 p us c)
  let ?limit = "int (length us)"
  let ?target = "MAX_FOLD_LENGTH - FOLD_WINDOW - int (length (line_prefix p))"
  note unfolded = 1(2) [unfolded print_segments.simps [of p us c] Let_def lg_abort_def]
  obtain n where n: "compute_fold_length us ?limit ?target FOLD_WINDOW p = Some n" and n_pos: "0 < n" "n \<le> ?limit"
    using unfolded by (auto split: option.splits if_splits)
  have bound: "n + int (length (line_prefix p)) \<le> MAX_FOLD_LENGTH"
    using compute_fold_length_ok [OF n] by auto
  have us: "us \<noteq> []" using n_pos by auto
  show ?case
  proof (cases "n = ?limit")
    case True
    let ?l = "line_prefix p @ us @ (if protect_end us then [UCHAR_BSL] else [])"
    let ?ls = "?l # (if protect_end us then [[]] else [])"
    have "c' = lg_emit c (ended_lines ?ls)" using unfolded n n_pos True by auto
    moreover have "no_eol ?l" using 1(3) by (auto simp: line_prefix_no_eol)
    moreover have "short_line ?l" using bound True by (auto simp: short_line_def)
    moreover have "undo True p (?ls @ tail) = us @ (if tail = [] then [] else UCHAR_NL # undo True p tail)" for tail
      using unprotected [of us] by (cases "protect_end us"; cases "tail = []") (auto simp: undo_Cons ended_plain)
    moreover have "p \<or> no_semi us \<longrightarrow> no_semi ?l" using prefixed_no_semi [of p us] us by auto
    ultimately show ?thesis
      using us by (intro conjI exI [of _ ?ls]) (auto simp: no_semi_def short_line_def)
  next
    case False
    let ?k = "nat n"
    let ?l = "line_prefix p @ take ?k us @ [UCHAR_BSL]"
    have k: "0 < ?k" "?k < length us" using False n_pos by auto
    have step: "print_segments p (drop ?k us) (lg_emit c (line_prefix p @ take ?k us @ [UCHAR_BSL, UCHAR_NL])) = (CIF_OK, c')"
      using unfolded n n_pos False by auto
    have fo: "fold_ok p us n" using compute_fold_length_ok [OF n] n_pos False by auto
    have ok: "\<not> \<not> (0 < n \<and> n \<le> ?limit)" using n_pos by simp
    obtain ls where ls: "ls \<noteq> []"
      "c' = lg_emit (lg_emit c (line_prefix p @ take ?k us @ [UCHAR_BSL, UCHAR_NL])) (ended_lines ls)"
      "\<forall>l\<in>set ls. no_eol l \<and> short_line l"
      "\<And>tail. undo True p (ls @ tail) = drop ?k us @ (if tail = [] then [] else UCHAR_NL # undo True p tail)"
      "p \<or> no_semi (drop ?k us) \<longrightarrow> (\<forall>l\<in>set ls. no_semi l)"
      using 1(1) [OF refl n ok False step no_eol_take_drop(2) [OF 1(3)]] by blast
    have "p \<or> no_semi (drop ?k us)"
      using fo k by (auto simp: fold_ok_def no_semi_def unit_at_def hd_drop_conv_nth)
    moreover have "undo True p ((?l # ls) @ tail) = us @ (if tail = [] then [] else UCHAR_NL # undo True p tail)" for tail
      using ls(1,4) by (simp add: undo_Cons)
    moreover have "no_eol ?l" using 1(3) by (auto simp: line_prefix_no_eol no_eol_take_drop)
    moreover have "short_line ?l" using bound k n_pos by (auto simp: short_line_def)
    moreover have "p \<or> no_semi us \<longrightarrow> no_semi ?l"
      using prefixed_no_semi [of p "take ?k us" "[UCHAR_BSL]"] k us by (cases us; cases ?k) (auto simp: no_semi_def)
    ultimately show ?thesis
      using ls us by (intro conjI exI [of _ "?l # ls"]) auto
  qed
qed

section \<open>All lines of a text\<close>

lemma first_line_split:
  assumes "UCHAR_CR \<notin> set t"
  obtains (last) "dropWhile (\<lambda>ch. \<not> is_eol ch) t = []" "t = takeWhile (\<lambda>ch. \<not> is_eol ch) t"
    | (line) r where "dropWhile (\<lambda>ch. \<not> is_eol ch) t = UCHAR_NL # r" "t = takeWhile (\<lambda>ch. \<not> is_eol ch) t @ UCHAR_NL # r"
proof (cases "dropWhile (\<lambda>ch. \<not> is_eol ch) t")
  case Nil
  have "t = takeWhile (\<lambda>ch. \<not> is_eol ch) t"
    using takeWhile_dropWhile_id [of "\<lambda>ch. \<not> is_eol ch" t] unfolding Nil append_Nil2 by (rule sym)
  then show ?thesis by (rule last [OF Nil])
next
  case (Cons ch r)
  have "is_eol ch" using hd_dropWhile [of "\<lambda>ch. \<not> is_eol ch" t] by (simp add: Cons)
  moreover have "ch \<in> set t" using set_dropWhileD [of ch "\<lambda>ch. \<not> is_eol ch" t] by (simp add: Cons)
  ultimately have ch: "ch = UCHAR_NL" using assms by (auto simp: is_eol_def)
  have "t = takeWhile (\<lambda>ch. \<not> is_eol ch) t @ UCHAR_NL # r"
    using takeWhile_dropWhile_id [of "\<lambda>ch. \<not> is_eol ch" t] unfolding Cons ch by (rule sym)
  then show ?thesis by (rule line [OF Cons [unfolded ch]])
qed

lemma takeWhile_no_eol: "no_eol (takeWhile (\<lambda>ch. \<not> is_eol ch) t)"
  by (auto simp: no_eol_def is_eol_def dest: set_takeWhileD)

text \<open>What is printed of one logical line.\<close>

lemma print_line_lines:
  assumes "(if f then print_segments p l c else (CIF_OK, lg_emit c (text_prefix @ l @ [UCHAR_NL]))) = (CIF_OK, c')"
    "no_eol l" "f \<or> p"
  shows "\<exists>ls. ls \<noteq> [] \<and> c' = lg_emit c (ended_lines ls) \<and> (\<forall>l\<in>set ls. no_eol l \<and> (f \<longrightarrow> short_line l))
    \<and> (\<forall>tail. undo f p (ls @ tail) = l @ (if tail = [] then [] else UCHAR_NL # undo f p tail))
    \<and> (p \<or> no_semi l \<longrightarrow> (\<forall>l\<in>set ls. no_semi l))"
proof (cases f)
  case True
  then have "print_segments p l c = (CIF_OK, c')" using assms(1) by simp
  from print_segments_lines [OF this assms(2)] show ?thesis unfolding eqTrueI [OF True] simp_thms by (rule conjunct2)
next
  case False
  then have p using assms(3) by simp
  have "undo False True ([text_prefix @ l] @ tail) = l @ (if tail = [] then [] else UCHAR_NL # undo False True tail)" for tail
    by (cases "tail = []") (auto simp: undo_Cons ended_plain mark_unfolded)
  moreover have "no_eol (text_prefix @ l)" "no_semi (text_prefix @ l)"
    using assms(2) by (simp_all add: text_prefix_def no_semi_def)
  ultimately show ?thesis using False \<open>p\<close> assms(1) by (intro exI [of _ "[text_prefix @ l]"]) auto
qed

lemma print_lines_text:
  assumes "print_lines f p t c = (CIF_OK, c')" "UCHAR_CR \<notin> set t" "f \<or> p"
  shows "\<exists>ls. c' = lg_emit c (ended_lines ls) \<and> (\<forall>l\<in>set ls. no_eol l \<and> (f \<longrightarrow> short_line l)) \<and> (ls = [] \<longleftrightarrow> t = [])
    \<and> undo f p ls = strip_nl t \<and> (p \<or> text_free t \<longrightarrow> (\<forall>l\<in>set ls. no_semi l))"
  using assms(1,2)
proof (induction t arbitrary: c rule: length_induct)
  case (1 t)
  show ?case
  proof (cases "t = []")
    case True
    then show ?thesis using 1(2) by (intro exI [of _ "[]"]) (simp add: print_lines.simps [of f p "[]"] strip_nl_def)
  next
    case False
    let ?l = "takeWhile (\<lambda>ch. \<not> is_eol ch) t"
    let ?line = "if f then print_segments p ?l c else (CIF_OK, lg_emit c (text_prefix @ ?l @ [UCHAR_NL]))"
    note unfolded = 1(2) [unfolded print_lines.simps [of f p t c] Let_def]
    obtain c1 where c1: "?line = (CIF_OK, c1)"
      using unfolded False by (cases ?line) (auto split: if_splits)
    obtain ls where ls: "ls \<noteq> []" "c1 = lg_emit c (ended_lines ls)" "\<forall>l\<in>set ls. no_eol l \<and> (f \<longrightarrow> short_line l)"
      "\<And>tail. undo f p (ls @ tail) = ?l @ (if tail = [] then [] else UCHAR_NL # undo f p tail)"
      "p \<or> no_semi ?l \<longrightarrow> (\<forall>l\<in>set ls. no_semi l)"
      using print_line_lines [OF c1 takeWhile_no_eol assms(3)] by blast
    from 1(3) show ?thesis
    proof (cases rule: first_line_split)
      case last
      have "c' = c1" using unfolded False c1 by (auto simp: last(1))
      moreover have "strip_nl t = ?l" using last(2) strip_nl_line [OF takeWhile_no_eol [of t]] by simp
      moreover have "text_free t \<longrightarrow> no_semi ?l" using last(2) by (auto simp: text_free_def)
      ultimately show ?thesis using ls False ls(4) [of "[]"] by (intro exI [of _ ls]) auto
    next
      case (line r)
      have len: "length r < length t" by (subst line(2)) simp
      have "print_lines f p r c1 = (CIF_OK, c')" using unfolded False c1 line(1) by auto
      moreover have "UCHAR_CR \<notin> set r" using 1(3) by (subst (asm) line(2)) auto
      ultimately obtain rs where rs: "c' = lg_emit c1 (ended_lines rs)" "\<forall>l\<in>set rs. no_eol l \<and> (f \<longrightarrow> short_line l)"
        "rs = [] \<longleftrightarrow> r = []" "undo f p rs = strip_nl r" "p \<or> text_free r \<longrightarrow> (\<forall>l\<in>set rs. no_semi l)"
        using 1(1) len by blast
      have "strip_nl t = (if r = [] then ?l else ?l @ UCHAR_NL # strip_nl r)"
        using strip_nl_lines [OF takeWhile_no_eol, of t r] line(2) by simp
      moreover have "text_free t \<longrightarrow> no_semi ?l \<and> text_free r" using text_free_lines [of ?l r] line(2) by simp
      ultimately show ?thesis
        using ls rs False ls(4) [of rs] by (intro exI [of _ "ls @ rs"]) auto
    qed
  qed
qed

section \<open>A text field comes back\<close>

lemma text_field_content:
  assumes "print_text_field t f p c = (CIF_OK, c')" "UCHAR_CR \<notin> set t" "standard_scanner s" "f \<or> p"
  shows "\<exists>body. lg_out c' = lg_out c @ [UCHAR_NL, UCHAR_SEMI] @ body @ [UCHAR_NL, UCHAR_SEMI]
    \<and> decoded s body = strip_nl t \<and> body \<noteq> []
    \<and> (p \<or> text_free t \<longrightarrow> \<not> sublist text_delim body)
    \<and> (\<exists>flags ls. body = flags @ lines_text ls \<and> length flags \<le> 4 \<and> (\<forall>l\<in>set ls. no_eol l \<and> (f \<longrightarrow> short_line l)))"
proof -
  let ?flags = "(if p then text_prefix @ [UCHAR_BSL] else []) @ (if f then [UCHAR_BSL] else [])"
  obtain c1 where c1: "print_lines f p t (lg_emit c ([UCHAR_NL, UCHAR_SEMI] @ ?flags @ [UCHAR_NL])) = (CIF_OK, c1)"
    and c': "lg_out c' = lg_out c1 @ [UCHAR_SEMI]"
    using assms(1,4) by (auto simp: print_text_field_def split: prod.splits if_splits)
  then obtain ls where ls: "c1 = lg_emit (lg_emit c ([UCHAR_NL, UCHAR_SEMI] @ ?flags @ [UCHAR_NL])) (ended_lines ls)"
    "\<forall>l\<in>set ls. no_eol l \<and> (f \<longrightarrow> short_line l)"
    "ls = [] \<longleftrightarrow> t = []" "undo f p ls = strip_nl t" "p \<or> text_free t \<longrightarrow> (\<forall>l\<in>set ls. no_semi l)"
    using print_lines_text [OF c1 assms(2,4)] by blast
  let ?body = "?flags @ lines_text ls"
  have out: "lg_out c' = lg_out c @ [UCHAR_NL, UCHAR_SEMI] @ ?body @ [UCHAR_NL, UCHAR_SEMI]"
    using ended_lines_text [of ls] by (simp add: c' ls(1))
  have "decoded s ?body = strip_nl t"
  proof (cases "ls = []")
    case True
    then have "decoded s ?body = []"
      using assms(3,4)
      by (cases p; cases f)
        (simp_all add: decoded_def text_protocol_def text_prefix_def scan_ordinary Let_def is_blank_def standard_scanner_def
          decode_lines.simps [of _ _ _ _ "[]"]
          del: scan_first_line.simps(2) add: scan_first_line.simps(2) [of s UCHAR_BSL])
    then show ?thesis using True ls(3) by (simp add: strip_nl_def)
  next
    case False
    have "text_protocol s ?body = (if p then 2 else 0, f, [], join_lines ls)"
      using text_protocol_flags [OF assms(3,4), of "join_lines ls"] lines_text_join [OF False] by simp
    moreover have "p \<Longrightarrow> take 2 ?body = text_prefix" by (simp add: text_prefix_def)
    moreover have "\<forall>l\<in>set ls. no_eol l" using ls(2) by blast
    ultimately show ?thesis
      using decode_lines_undo [OF assms(3), of p ?body ls f "[]"] ls(4) assms(4)
      by (auto simp: decoded_def)
  qed
  moreover have "?body \<noteq> []" using assms(4) by (auto simp: text_prefix_def)
  moreover have "p \<or> text_free t \<longrightarrow> \<not> sublist text_delim ?body"
    using ls(2,5) no_delim_lines [of "?flags" ls] by (auto simp: text_prefix_def)
  moreover have "length ?flags \<le> 4" by (simp add: text_prefix_def)
  ultimately show ?thesis using out ls(2) by blast
qed

section \<open>The lines of a folded field\<close>

lemma split_lines_no_eol: "no_eol a \<Longrightarrow> split_lines a = [a]"
  by (induction a) auto

lemma split_lines_line: "no_eol a \<Longrightarrow> split_lines (a @ UCHAR_NL # b) = a # split_lines b"
  by (induction a) auto

lemma split_lines_text: "no_eol f \<Longrightarrow> \<forall>l\<in>set ls. no_eol l \<Longrightarrow> split_lines (f @ lines_text ls) = f # ls"
  by (induction ls arbitrary: f) (auto simp: split_lines_no_eol split_lines_line)

text \<open>No line of a folded text field is longer than lines may be, whatever the text.\<close>

theorem folded_field_fits:
  assumes "print_text_field t True p c = (CIF_OK, c')" "UCHAR_CR \<notin> set t"
  shows "\<exists>us. lg_out c' = lg_out c @ us \<and> (\<forall>l\<in>set (split_lines us). int (length l) \<le> MAX_LINE_LENGTH)"
proof -
  let ?flags = "(if p then text_prefix @ [UCHAR_BSL] else []) @ [UCHAR_BSL]"
  obtain c1 where c1: "print_lines True p t (lg_emit c ([UCHAR_NL, UCHAR_SEMI] @ ?flags @ [UCHAR_NL])) = (CIF_OK, c1)"
    and c': "lg_out c' = lg_out c1 @ [UCHAR_SEMI]"
    using assms(1) by (auto simp: print_text_field_def split: prod.splits if_splits)
  then obtain ls where ls: "c1 = lg_emit (lg_emit c ([UCHAR_NL, UCHAR_SEMI] @ ?flags @ [UCHAR_NL])) (ended_lines ls)"
    "\<forall>l\<in>set ls. no_eol l \<and> (True \<longrightarrow> short_line l)"
    using print_lines_text [OF c1 assms(2)] by blast
  let ?all = "(UCHAR_SEMI # ?flags) # ls @ [[UCHAR_SEMI]]"
  have "lg_out c' = lg_out c @ lines_text ?all" using ended_lines_text [of ls] by (simp add: c' ls(1))
  moreover have all: "\<forall>l\<in>set ?all. no_eol l" using ls(2) by (simp add: text_prefix_def)
  have "split_lines (lines_text ?all) = [] # ?all" using split_lines_text [of "[]" ?all, OF _ all] by simp
  moreover have "\<forall>l\<in>set ([] # ?all). int (length l) \<le> MAX_LINE_LENGTH"
    using ls(2) by (simp add: text_prefix_def short_line_def)
  ultimately show ?thesis by (intro exI [of _ "lines_text ?all"]) simp
qed

section \<open>Values printed as text fields\<close>

definition lg_folds :: "string_analysis \<Rightarrow> bool" where
  "lg_folds a \<longleftrightarrow> length_max a > MAX_LINE_LENGTH \<or> length_first a \<ge> MAX_LINE_LENGTH \<or> has_reserved_start a
     \<or> has_trailing_ws a \<or> max_semi_run a \<ge> MAX_FOLD_LENGTH - 1"

definition lg_prefixes :: "string_analysis \<Rightarrow> bool" where
  "lg_prefixes a \<longleftrightarrow> contains_text_delim a \<or> max_semi_run a \<ge> MAX_FOLD_LENGTH - 1"

text \<open>The whitespace that is printed before a value.\<close>

definition ws_before :: "nat \<Rightarrow> lg_context \<Rightarrow> ustring" where
  "ws_before n c =
     (case ws_queue c of
        Runs runs \<Rightarrow> if n > 1 then runs_text runs else (case runs of [] \<Rightarrow> [] | run # _ \<Rightarrow> concat run)
      | Freed \<Rightarrow> [])"

lemma kept_ws_printed:
  assumes "(if n > 1 then print_all_ws_runs c else print_ws_run c) = (k, c')" "0 \<le> k"
  shows "output_format c' = output_format c \<and> lg_out c' = lg_out c @ ws_before n c"
proof (cases "ws_queue c")
  case (Runs runs)
  then show ?thesis
    using assms(1) print_all_ws_runs_spec [OF Runs] print_ws_run_spec [OF Runs]
    by (cases "n > 1"; cases runs) (auto simp: ws_before_def)
next
  case Freed
  then show ?thesis using assms by (auto simp: print_all_ws_runs_def print_ws_run_def split: if_splits)
qed

text \<open>
  C17. When cif_linguist prints a value as a text field, after the whitespace that is due, what stands between the
  delimiters is decoded by the parser to the same text (which has no carriage return, as the scanner has converted them), whether lines are folded, prefixed, both or neither; where they are, a line feed at the very end is
  lost. The field has no early end, except where a text that starts with a semicolon is folded and not prefixed.
\<close>

theorem linguist_text_roundtrip:
  fixes I v c t
  defines "a \<equiv> cif_analyze_string t (cif_value_is_quoted v = CIF_NOT_QUOTED) (output_format c \<noteq> CIF11) MAX_LINE_LENGTH"
  assumes "standard_scanner s" "cif_value_get_text v = Some t" "0 \<notin> set t" "UCHAR_CR \<notin> set t" "t \<noteq> []"
    "delim_length a = 2" "print_value_text v n c = (CIF_OK, c')"
  shows "\<exists>body. lg_out c' = lg_out c @ ws_before n c @ [UCHAR_NL, UCHAR_SEMI] @ body @ [UCHAR_NL, UCHAR_SEMI]
    \<and> decode_text s body UnkValue =
        (CIF_OK, CharValue CIF_QUOTED (if lg_folds a \<or> lg_prefixes a then strip_nl t else t))
    \<and> (lg_prefixes a \<or> \<not> lg_folds a \<or> hd t \<noteq> UCHAR_SEMI \<longrightarrow> \<not> sublist text_delim body)"
proof -
  obtain k c1 where k: "(if n > 1 then print_all_ws_runs c else print_ws_run c) = (k, c1)" by fastforce
  have "0 \<le> k" using assms(8) k by (auto simp: print_value_text_def split: if_splits)
  then have c1: "output_format c1 = output_format c" "lg_out c1 = lg_out c @ ws_before n c"
    using kept_ws_printed [OF k] by blast+
  have w: "print_text_field t (lg_folds a) (lg_prefixes a) c1 = (CIF_OK, c')"
    using assms(3,7,8) k \<open>0 \<le> k\<close> c1(1) unfolding a_def lg_folds_def lg_prefixes_def
    by (auto simp: print_value_text_def Let_def)
  have delim: "contains_text_delim a \<longleftrightarrow> sublist text_delim t"
    unfolding a_def by (rule contains_text_delim_iff [OF assms(5)])
  show ?thesis
  proof (cases "lg_folds a \<or> lg_prefixes a")
    case True
    obtain body where body: "lg_out c' = lg_out c1 @ [UCHAR_NL, UCHAR_SEMI] @ body @ [UCHAR_NL, UCHAR_SEMI]"
      "decoded s body = strip_nl t" "body \<noteq> []" "lg_prefixes a \<or> text_free t \<longrightarrow> \<not> sublist text_delim body"
      using text_field_content [OF w assms(5,2) True] by blast
    have "decode_text s body UnkValue = (CIF_OK, CharValue CIF_QUOTED (strip_nl t))"
      using body(2,3) cstr_id [OF strip_nl_nul [OF assms(4)]] by (simp add: decode_text_def cif_value_init_char_def)
    moreover have "lg_prefixes a \<or> \<not> lg_folds a \<or> hd t \<noteq> UCHAR_SEMI \<longrightarrow> \<not> sublist text_delim body"
      using body(4) True delim by (auto simp: text_free_def no_semi_def lg_prefixes_def)
    ultimately show ?thesis using body(1) c1(2) True by (intro exI [of _ body]) simp
  next
    case False
    obtain rest where t: "t = hd (split_lines t) @ (case rest of None \<Rightarrow> [] | Some r \<Rightarrow> UCHAR_NL # r)"
      "UCHAR_NL \<notin> set (hd (split_lines t))"
      using split_lines_first [OF assms(5)] by blast
    have "unit_at t 0 = UCHAR_SEMI \<or> mark True (hd (split_lines t)) 0 None = None"
      using False reserved_start_iff [OF assms(5) assms(7) [unfolded a_def]] by (auto simp: lg_folds_def a_def)
    then have "decoded s t = t" by (rule decoded_plain [OF assms(2,5) t])
    moreover have "lg_out c' = lg_out c1 @ [UCHAR_NL, UCHAR_SEMI] @ t @ [UCHAR_NL, UCHAR_SEMI]"
      using w False by (auto simp: print_text_field_def)
    ultimately show ?thesis
      using False delim assms(6) c1(2)
      by (intro exI [of _ t])
        (simp add: decode_text_def cif_value_init_char_def cstr_id [OF assms(4)] lg_prefixes_def)
  qed
qed

lemma linguist_text_roundtrip_witness:
  "\<exists>body c'. print_value_text (CharValue CIF_QUOTED [0x61, UCHAR_BSL, UCHAR_NL, UCHAR_SEMI]) 2 lg_context_init = (CIF_OK, c')
     \<and> lg_out c' = [UCHAR_NL, UCHAR_SEMI] @ body @ [UCHAR_NL, UCHAR_SEMI]
     \<and> decode_text sample_scanner body UnkValue = (CIF_OK, CharValue CIF_QUOTED [0x61, UCHAR_BSL, UCHAR_NL, UCHAR_SEMI])
     \<and> \<not> sublist text_delim body"
proof -
  let ?t = "[0x61, UCHAR_BSL, UCHAR_NL, UCHAR_SEMI] :: ustring"
  let ?v = "CharValue CIF_QUOTED ?t"
  let ?c = lg_context_init
  let ?a = "cif_analyze_string ?t (cif_value_is_quoted ?v = CIF_NOT_QUOTED) (output_format ?c \<noteq> CIF11) MAX_LINE_LENGTH"
  have 1: "fst (print_value_text ?v 2 ?c) = CIF_OK" by code_simp
  have 2: "delim_length ?a = 2" "contains_text_delim ?a" by code_simp+
  obtain c' where c': "print_value_text ?v 2 ?c = (CIF_OK, c')" using 1 by (metis prod.collapse)
  show ?thesis
    using linguist_text_roundtrip [OF standard_sample _ _ _ _ 2(1) c'] c' 2(2)
    by (auto simp: strip_nl_def lg_prefixes_def ws_before_def lg_context_init_def)
qed


end
