(* ===== verification/LinguistErrors.thy ===== *)
theory LinguistErrors
  imports LinguistText Items
begin

text \<open>
  Containers that cif_linguist has printed, the limit on its lines, and the errors of its options and of lists
  and tables in CIF 1.1.
\<close>

section \<open>What has been printed is deleted\<close>

lemma destroyed_container:
  assumes "cif_container_destroy (Some f) d = (CIF_OK, d')"
  shows "frames (cur d') = filter (\<lambda>r. frm_id r \<noteq> cont_id f \<and> frm_parent r \<noteq> cont_id f) (frames (cur d))"
    "set (loops (cur d')) \<subseteq> set (loops (cur d))"
proof -
  have "has_container (cur d) (cont_id f)"
    using assms
    by (rule_tac ccontr) (auto simp: cif_container_destroy_def destroy_container_stmt_def has_container_def filter_empty_conv image_iff split: if_splits)
  then have d': "d' = d\<lparr>cur := snd (destroy_container_stmt (cur d) (cont_id f))\<rparr>"
    using assms by (auto simp: cif_container_destroy_def split: prod.splits)
  then show "frames (cur d') = filter (\<lambda>r. frm_id r \<noteq> cont_id f \<and> frm_parent r \<noteq> cont_id f) (frames (cur d))"
    "set (loops (cur d')) \<subseteq> set (loops (cur d))"
    using \<open>has_container (cur d) (cont_id f)\<close>
    by (auto simp: destroy_container_stmt_def delete_loops_def delete_items_def)
qed

lemma destroy_frames_spec:
  "destroy_frames fs d = (CIF_OK, d') \<Longrightarrow>
     set (frames (cur d')) \<subseteq> {r \<in> set (frames (cur d)). frm_id r \<notin> cont_id ` set fs}
     \<and> set (loops (cur d')) \<subseteq> set (loops (cur d))"
proof (induction fs arbitrary: d)
  case (Cons f fs)
  obtain d1 where one: "cif_container_destroy (Some f) d = (CIF_OK, d1)" and others: "destroy_frames fs d1 = (CIF_OK, d')"
    using Cons.prems by (auto split: prod.splits if_splits)
  show ?case using Cons.IH [OF others] destroyed_container [OF one] by auto
qed simp

lemma destroyed_loop:
  assumes "cif_loop_destroy l d = (CIF_OK, d')" "loop_container l = Some c"
  shows "loops (cur d') = filter (\<lambda>r. \<not> (lp_container r = cont_id c \<and> lp_num r = loop_num l)) (loops (cur d))"
    "frames (cur d') = frames (cur d)"
  using assms by (auto simp: cif_loop_destroy_def delete_loops_def delete_items_def Let_def split: if_splits)

lemma destroy_loops_spec:
  "destroy_loops ls d = (CIF_OK, d') \<Longrightarrow> \<forall>l\<in>set ls. loop_container l = Some c \<Longrightarrow>
     set (loops (cur d')) \<subseteq> {r \<in> set (loops (cur d)). lp_container r \<noteq> cont_id c \<or> lp_num r \<notin> loop_num ` set ls}
     \<and> frames (cur d') = frames (cur d)"
proof (induction ls arbitrary: d)
  case (Cons l ls)
  obtain d1 where one: "cif_loop_destroy l d = (CIF_OK, d1)" and others: "destroy_loops ls d1 = (CIF_OK, d')"
    using Cons.prems(1) by (auto split: prod.splits if_splits)
  have "loop_container l = Some c" using Cons.prems(2) by simp
  then show ?case using Cons.IH [OF others] Cons.prems(2) destroyed_loop [OF one] by auto
qed simp

lemma all_loops_cur:
  assumes "cif_container_get_all_loops (Some c) d = (Inr ls, d')"
  shows "cur d' = cur d"
    "ls = [\<lparr>loop_container = Some c, loop_num = lp_num l, loop_category = lp_category l, loop_names = None\<rparr>.
           l \<leftarrow> loops (cur d), lp_container l = cont_id c]"
proof -
  obtain top d1 where begin_tx: "BEGIN_NESTTX d = (top, d1)" by fastforce
  have cur1: "cur d1 = cur d" by (rule cur_BEGIN_NESTTX [OF begin_tx])
  have "cur (ROLLBACK_NESTTX top d1) = cur d"
    using begin_tx
    by (auto simp: BEGIN_NESTTX_def ROLLBACK_NESTTX_def BEGIN_def ROLLBACK_def SAVE_def ROLLBACK_TO_def autocommit_def
        split: if_splits)
  then show "cur d' = cur d" 
    "ls = [\<lparr>loop_container = Some c, loop_num = lp_num l, loop_category = lp_category l, loop_names = None\<rparr>.
           l \<leftarrow> loops (cur d), lp_container l = cont_id c]"
    using assms begin_tx cur1 by (auto simp: cif_container_get_all_loops_def Let_def split: if_splits)
qed

lemma all_loops_error: "cif_container_get_all_loops (Some c) d = (Inl e, d') \<Longrightarrow> e \<noteq> CIF_OK"
  by (auto simp: cif_container_get_all_loops_def cif_container_validate_def Let_def split: if_splits prod.splits)

text \<open>
  C38. When a data block or a save frame ends, the handler leaves nothing of it in the database: no save frame has it
  as its parent and no loop belongs to it, and no frame or loop is there that was not there before. (The row of the
  container itself and those of frames nested deeper stay.)
\<close>

theorem flush_container_empties:
  assumes "flush_container K (c, d) = (CIF_OK, c', d')"
  shows "(\<forall>f\<in>set (frames (cur d')). frm_parent f \<noteq> cont_id K) \<and> (\<forall>l\<in>set (loops (cur d')). lp_container l \<noteq> cont_id K)
    \<and> set (frames (cur d')) \<subseteq> set (frames (cur d)) \<and> set (loops (cur d')) \<subseteq> set (loops (cur d))
    \<and> in_container c' = in_container c - 1"
proof -
  let ?fs = "[\<lparr>cont_id = frm_id f, cont_code = frm_name f, cont_code_orig = frm_name_orig f, cont_parent_id = cont_id K\<rparr>.
              f \<leftarrow> frames (cur d), frm_parent f = cont_id K]"
  obtain d1 where d1: "destroy_frames ?fs d = (CIF_OK, d1)" and flush: "flush_loops K d1 = (CIF_OK, d')"
    and c': "c' = c\<lparr>in_container := in_container c - 1\<rparr>"
    using assms by (auto simp: flush_container_def cif_container_get_all_frames_def split: prod.splits if_splits)
  obtain ls d2 where loops: "cif_container_get_all_loops (Some K) d1 = (Inr ls, d2)" and d': "destroy_loops ls d2 = (CIF_OK, d')"
    using flush all_loops_error [of K d1] by (auto simp: flush_loops_def split: prod.splits sum.splits)
  have cur2: "cur d2 = cur d1" and ls: "ls = [\<lparr>loop_container = Some K, loop_num = lp_num l, loop_category = lp_category l,
      loop_names = None\<rparr>. l \<leftarrow> loops (cur d1), lp_container l = cont_id K]"
    using all_loops_cur [OF loops] by simp_all
  have f1: "set (frames (cur d1)) \<subseteq> {r \<in> set (frames (cur d)). frm_id r \<notin> cont_id ` set ?fs}"
    "set (loops (cur d1)) \<subseteq> set (loops (cur d))"
    using destroy_frames_spec [OF d1] by blast+
  have "\<forall>l\<in>set ls. loop_container l = Some K" by (auto simp: ls)
  from destroy_loops_spec [OF d' this]
  have l2: "set (loops (cur d')) \<subseteq> {r \<in> set (loops (cur d1)). lp_container r \<noteq> cont_id K \<or> lp_num r \<notin> loop_num ` set ls}"
    "frames (cur d') = frames (cur d1)" by (simp_all add: cur2)
  have "frm_parent f \<noteq> cont_id K" if "f \<in> set (frames (cur d'))" for f
    using that f1(1) by (force simp: l2(2))
  moreover have "lp_container l \<noteq> cont_id K" if "l \<in> set (loops (cur d'))" for l
    using that l2(1) by (force simp: ls)
  ultimately show ?thesis using f1 l2 c' by auto
qed

text \<open>A block with a save frame and a loop.\<close>

definition sample_block_db :: db where
  "sample_block_db = new_db\<lparr>cur := empty_tables
     \<lparr>containers := [\<lparr>con_id = 1, con_next_loop_num = 1\<rparr>, \<lparr>con_id = 2, con_next_loop_num = 0\<rparr>],
      blocks := [\<lparr>blk_id = 1, blk_name = [0x62], blk_name_orig = [0x62]\<rparr>],
      frames := [\<lparr>frm_id = 2, frm_parent = 1, frm_name = [0x66], frm_name_orig = [0x66]\<rparr>],
      loops := [\<lparr>lp_container = 1, lp_num = 0, lp_category = None, lp_last_row = 0\<rparr>]\<rparr>\<rparr>"

lemma flush_container_empties_witness:
  "\<exists>c' d'. flush_container \<lparr>cont_id = 1, cont_code = [0x62], cont_code_orig = [0x62], cont_parent_id = -1\<rparr>
        (lg_context_init\<lparr>in_container := 1\<rparr>, sample_block_db) = (CIF_OK, c', d')
     \<and> (\<forall>f\<in>set (frames (cur d')). frm_parent f \<noteq> 1) \<and> in_container c' = 0"
proof -
  let ?K = "\<lparr>cont_id = 1, cont_code = [0x62], cont_code_orig = [0x62], cont_parent_id = -1\<rparr> :: cif_container"
  let ?c = "lg_context_init\<lparr>in_container := 1\<rparr>"
  have "fst (flush_container ?K (?c, sample_block_db)) = CIF_OK" by code_simp
  then obtain c' d' where r: "flush_container ?K (?c, sample_block_db) = (CIF_OK, c', d')" by (metis prod.collapse)
  then show ?thesis using flush_container_empties [OF r] by simp
qed

section \<open>Options\<close>

lemma short_letters:
  "short_with_arg CHR ''e'' = Some process_args_input_encoding" "short_with_arg CHR ''L'' = Some process_args_output_folding"
  "short_with_arg CHR ''P'' = Some process_args_output_prefixing"
  by (simp_all add: short_with_arg_def)

lemma to_boolean_values: "to_boolean ''yes'' = 1" "to_boolean ''no'' = 0"
  by (simp_all add: to_boolean_def tolower_def)

text \<open>
  Two options do something else than they are for. With the name of an encoding, the option for the encoding of
  the input has no effect at all; it is with the word auto that the input is read in the encoding of that name. The
  option that is to allow prefixes in the output forbids folding, and the one that is to forbid them allows it.
\<close>

theorem options_misdirected:
  assumes "opts = cif_parse_options_create" "name \<noteq> ''auto''" "take 1 name \<noteq> ''-''"
  shows "process_args [''-e'', name] opts c = process_args [] opts c
    \<and> (\<exists>c'. process_args [''-e'', ''auto''] opts c =
             Inr ((opts\<lparr>default_encoding_name := Some ''auto'', force_default_encoding := True\<rparr>, c'), None, None))
    \<and> process_args [''-P'', ''yes''] opts c = process_args [''-L'', ''no''] opts c
    \<and> process_args [''-P'', ''no''] opts c = process_args [''-L'', ''yes''] opts c"
  using assms
  by (simp add: process_args_def short_letters argval_def to_boolean_values usage_def cif_parse_options_create_def Let_def)

lemma options_misdirected_witness:
  "process_args [''-e'', ''latin1''] cif_parse_options_create lg_context_init = process_args [] cif_parse_options_create lg_context_init"
  using options_misdirected [of cif_parse_options_create "''latin1''" lg_context_init] by simp

section \<open>Messages\<close>

text \<open>The messages from 3 on are those of the next code, as CIF_MEMORY_ERROR has none; from 11 on they are right again.\<close>

lemma messages_shifted:
  "cif_errlist ! nat CIF_MEMORY_ERROR = ''invalid object handle provided''"
  "cif_errlist ! nat CIF_INVALID_HANDLE = ''CIF API internal error''"
  "cif_errlist ! nat CIF_INTERNAL_ERROR = ''invalid function argument''"
  "cif_errlist ! nat CIF_ARGUMENT_ERROR = ''improper CIF API use''"
  "cif_errlist ! nat CIF_MISUSE = ''feature not supported''"
  "cif_errlist ! nat CIF_DUP_BLOCKCODE = ''duplicate data block code''"
  "cif_errlist ! nat CIF_NULL_KEY = ''a null table key was encountered''"
  by (simp_all add: cif_errlist_def nth_append)

text \<open>The code after the last in the table is taken for one that has a message.\<close>

lemma message_past_the_end: "\<not> quiet c \<Longrightarrow> lg_aborted (snd (lg_error_callback 141 l k c))"
  by (simp add: lg_error_callback_def cif_nerr_def cif_errlist_def lg_abort_def Let_def)

section \<open>Lists and tables in CIF 1.1\<close>

text \<open>
  C40. A list or a table cannot be printed in CIF 1.1: the program frees the whitespace that it keeps and reports the
  value, but does not forget the whitespace. When the parse has ended for that reason the program prints the
  whitespace that is left, out of memory that it has freed.
\<close>

theorem composite_in_cif11_uses_freed:
  assumes "cif_value_kind v \<in> {CIF_LIST_KIND, CIF_TABLE_KIND}" "output_format c = CIF11" "ws_queue c = Runs (r1 # r2 # runs)"
    and "print_value I v n c = (result, c')"
  shows "result = CIF_DISALLOWED_VALUE \<and> ws_queue c' = Freed \<and> lg_aborted (snd (lg_finish result (c', d)))"
proof -
  have run: "print_ws_run c = (int (length (concat r1)), spaced (c\<lparr>ws_queue := Runs (r2 # runs)\<rparr>) (concat r1))"
    by (simp add: print_ws_run_spec [OF assms(3)])
  have space: "output_format (snd (ensure_space a b e)) = output_format e \<and> ws_queue (snd (ensure_space a b e)) = ws_queue e" for a b e
    by (simp add: ensure_space_def lg_emit_def)
  let ?c = "spaced (c\<lparr>ws_queue := Runs (r2 # runs)\<rparr>) (concat r1)"
  let ?c1 = "if n \<noteq> 0 \<and> int (length (concat r1)) = 0 then snd (ensure_space 1 1 ?c) else ?c"
  have c1: "output_format ?c1 = CIF11" "ws_queue ?c1 = Runs (r2 # runs)" using space [of 1 1 ?c] assms(2) by simp_all
  have "print_list f v ?c1 = (CIF_DISALLOWED_VALUE, flush_queue ?c1)" "print_table I f v ?c1 = (CIF_DISALLOWED_VALUE, flush_queue ?c1)" for f
    using c1(1) unfolding print_list_def print_table_def by (simp_all only: simp_thms if_True)
  then have "print_value I v n c = (CIF_DISALLOWED_VALUE, flush_queue ?c1)"
    using assms(1) unfolding print_value.simps [of I v n c] run prod.case
    by (elim insertE emptyE) (simp_all only: cif_kind.case)
  moreover have "ws_queue (flush_queue ?c1) = Freed" using c1(2) by (simp add: flush_queue_def)
  ultimately have "result = CIF_DISALLOWED_VALUE" "ws_queue c' = Freed" using assms(4) by simp_all
  moreover from this have "lg_aborted (snd (lg_finish result (c', d)))"
    by (simp add: lg_finish_def handle_cif_end_event_def consume_version_comment_def print_all_ws_runs_def lg_abort_def
        lg_emit_def Let_def)
  ultimately show ?thesis by simp
qed

lemma composite_in_cif11_uses_freed_witness:
  "\<exists>result c'. print_value ascii_icu (ListValue [UnkValue]) 2
       (lg_context_init\<lparr>ws_queue := Runs [[[UCHAR_SP]], [[UCHAR_SP]]]\<rparr>) = (result, c')
     \<and> lg_aborted (snd (lg_finish result (c', new_db)))"
proof -
  let ?c = "lg_context_init\<lparr>ws_queue := Runs [[[UCHAR_SP]], [[UCHAR_SP]]]\<rparr>"
  obtain result c' where r: "print_value ascii_icu (ListValue [UnkValue]) 2 ?c = (result, c')" by fastforce
  have "output_format ?c = CIF11" "ws_queue ?c = Runs ([[UCHAR_SP]] # [[UCHAR_SP]] # [])"
    by (simp_all add: lg_context_init_def)
  then show ?thesis
    using composite_in_cif11_uses_freed [of "ListValue [UnkValue]" ?c "[[UCHAR_SP]]" "[[UCHAR_SP]]" "[]", OF _ _ _ r, of new_db] r by auto
qed

section \<open>The limit on lines\<close>

text \<open>After a value the column is the length of the value, wherever the value starts.\<close>

lemma analyze_a:
  "delim (cif_analyze_string [0x61] True True MAX_LINE_LENGTH) = []"
  "delim_length (cif_analyze_string [0x61] True True MAX_LINE_LENGTH) = 0"
  "length_first (cif_analyze_string [0x61] True True MAX_LINE_LENGTH) = 1"
  by code_simp+

lemma print_bare_a:
  assumes "ws_queue c = Runs []" "output_format c = CIF20" "n \<le> 1" "out_column c \<in> {1..MAX_LINE_LENGTH - 2}"
  shows "print_value I (CharValue CIF_NOT_QUOTED [0x61]) n c =
    (CIF_OK, (lg_emit c ((if n = 0 then [] else [UCHAR_SP]) @ [0x61]))\<lparr>out_column := 1\<rparr>)"
  using assms analyze_a
  by (auto simp: print_value.simps print_value_text_def print_ws_run_def ensure_space_def print_delimited_def lg_emit_def Let_def)

lemma print_as:
  assumes "ws_queue c = Runs []" "output_format c = CIF20" "out_column c = 1" "0 < i"
  shows "print_elements (\<lambda>e n c. print_value I e n c) (ListValue (replicate m (CharValue CIF_NOT_QUOTED [0x61]))) [i..<m] c =
    (CIF_OK, lg_emit c (concat (replicate (m - i) [UCHAR_SP, 0x61])))"
  using assms
proof (induction "m - i" arbitrary: i c)
  case 0
  then show ?case by simp
next
  case (Suc k)
  then have im: "i < m" by simp
  let ?c = "lg_emit c [UCHAR_SP, 0x61]"
  have c: "?c\<lparr>out_column := 1\<rparr> = ?c" using Suc.prems(3) by (simp add: lg_emit_def)
  have one: "print_value I (CharValue CIF_NOT_QUOTED [0x61]) 1 c = (CIF_OK, ?c)"
    using print_bare_a [OF Suc.prems(1,2), of 1 I] Suc.prems(3) c by simp
  have k: "k = m - (i + 1)" using Suc.hyps(2) by simp
  have "print_elements (\<lambda>e n c. print_value I e n c) (ListValue (replicate m (CharValue CIF_NOT_QUOTED [0x61]))) [i + 1..<m] ?c =
      (CIF_OK, lg_emit ?c (concat (replicate (m - (i + 1)) [UCHAR_SP, 0x61])))"
    by (rule Suc.hyps(1) [OF k]) (use Suc.prems in \<open>simp_all add: lg_emit_def\<close>)
  moreover have "concat (replicate (m - i) [UCHAR_SP, 0x61 :: uchar]) = [UCHAR_SP, 0x61] @ concat (replicate (m - (i + 1)) [UCHAR_SP, 0x61])"
    using Suc.hyps(2) k by (metis concat.simps(2) replicate_Suc)
  ultimately show ?case using im one Suc.prems(4) by (simp add: upt_conv_Cons)
qed

text \<open>
  C39. The limit on the length of lines is not kept between values: after a value the program takes the length of the
  value for its column, wherever the value starts. A list of any number of values of one character, between which
  there is no whitespace to print, becomes one line of twice as many characters.
\<close>

theorem list_exceeds_line_limit:
  assumes "ws_queue c = Runs []" "output_format c = CIF20" "out_column c = 0" "0 < m"
    and "print_value I (ListValue (replicate m (CharValue CIF_NOT_QUOTED [0x61]))) 0 c = (result, c')"
  shows "result = CIF_OK \<and> out_column c' = 2
    \<and> (\<exists>us. lg_out c' = lg_out c @ us \<and> UCHAR_NL \<notin> set us \<and> UCHAR_CR \<notin> set us \<and> length us = 2 * m + 1)"
proof -
  let ?v = "ListValue (replicate m (CharValue CIF_NOT_QUOTED [0x61]))"
  let ?c1 = "(lg_emit c [UCHAR_OBRK])\<lparr>out_column := 1\<rparr>"
  let ?c2 = "lg_emit ?c1 [0x61]"
  let ?as = "concat (replicate (m - 1) [UCHAR_SP, 0x61]) :: ustring"
  have c1: "ws_queue ?c1 = Runs []" "output_format ?c1 = CIF20" "out_column ?c1 = 1"
    using assms(1,2) by (simp_all add: lg_emit_def)
  have c2: "ws_queue ?c2 = Runs []" "output_format ?c2 = CIF20" "out_column ?c2 = 1" "?c2\<lparr>out_column := 1\<rparr> = ?c2"
    using assms(1,2) by (simp_all add: lg_emit_def)
  have first: "print_value I (CharValue CIF_NOT_QUOTED [0x61]) 0 ?c1 = (CIF_OK, ?c2)"
    using print_bare_a [OF c1(1,2), of 0 I] c1(3) c2(4) by simp
  have "[0..<m] = 0 # [1..<m]" using assms(4) by (simp add: upt_conv_Cons)
  then have "print_elements (\<lambda>e n c. print_value I e n c) ?v [0..<m] ?c1 = (CIF_OK, lg_emit ?c2 ?as)"
    using first print_as [OF c2(1-3), of 1 I m] assms(4) by simp
  moreover have "print_value I ?v 0 c = print_list (\<lambda>e n c. print_value I e n c) ?v c"
    using assms(1) by (simp add: print_value.simps [of I ?v] print_ws_run_def)
  ultimately have "print_value I ?v 0 c = close_composite UCHAR_CBRK (lg_emit ?c2 ?as)"
    using assms(2,3) by (simp add: print_list_def print_u_literal_def)
  also have "\<dots> = (CIF_OK, (lg_emit c ([UCHAR_OBRK, 0x61] @ ?as @ [UCHAR_CBRK]))\<lparr>out_column := 2\<rparr>)"
    using assms(1) by (simp add: close_composite_def print_ws_run_def print_u_literal_def lg_emit_def)
  finally have "result = CIF_OK" "c' = (lg_emit c ([UCHAR_OBRK, 0x61] @ ?as @ [UCHAR_CBRK]))\<lparr>out_column := 2\<rparr>"
    using assms(5) by simp_all
  moreover have "length (concat (replicate k [UCHAR_SP, 0x61 :: uchar])) = 2 * k" for k by (induction k) auto
  moreover have "UCHAR_NL \<notin> set ?as" "UCHAR_CR \<notin> set ?as" by auto
  ultimately show ?thesis
    using assms(4) by (intro conjI exI [of _ "[UCHAR_OBRK, 0x61] @ ?as @ [UCHAR_CBRK]"]) (auto simp: lg_emit_def)
qed

lemma list_exceeds_line_limit_witness:
  "\<exists>result c' us. print_value ascii_icu (ListValue (replicate 1024 (CharValue CIF_NOT_QUOTED [0x61]))) 0
       (lg_context_init\<lparr>output_format := CIF20\<rparr>) = (result, c')
     \<and> lg_out c' = us \<and> UCHAR_NL \<notin> set us \<and> int (length us) > MAX_LINE_LENGTH"
proof -
  let ?c = "lg_context_init\<lparr>output_format := CIF20\<rparr>"
  obtain result c' where r: "print_value ascii_icu (ListValue (replicate 1024 (CharValue CIF_NOT_QUOTED [0x61]))) 0 ?c = (result, c')"
    by fastforce
  have "ws_queue ?c = Runs []" "output_format ?c = CIF20" "out_column ?c = 0" "lg_out ?c = []"
    by (simp_all add: lg_context_init_def)
  then show ?thesis using list_exceeds_line_limit [OF _ _ _ _ r] r by fastforce
qed

end
