(* ===== verification/Spec2Isabelle.thy ===== *)
theory Spec2Isabelle
  imports Iteration WriterProps ParseReturns Serial NumbersProps LinguistErrors
begin

text \<open>
  The CIF API (src/src): a C library that holds Crystallographic Information Files in an SQLite
  database, parses them from text and writes them as text. This development models the library's
  own logic in HOL and proves what makes it correct; where the code does something else than it
  means to, the model does what the code does, and a theorem says so.

  The parts of the program, how they interact, and the theories that model them:

  \<^item> Shared definitions: theory Prelude. Code units are 16-bit words, strings lists of them without the
    final NUL; a result code is an integer, a fallible function returns a sum (\<open>Inl\<close> the code).
  \<^item> Names and strings (utils.c): theory Names has the validity and normalisation of block codes, frame
    codes and item names, reserved strings, and disallowed characters; theory Analyze has
    cif_analyze_string, the choice of delimiters for a string.
  \<^item> Values (value.c): theory Values has creation, cloning, quoting, lists, and numbers as text; theory
    Serial the byte strings that stand for lists and tables in the database. Theory Digits has to_digits,
    the digits of a double by multiple-precision arithmetic on arrays of bignum digits; theory Numbers
    cif_value_init_numb and cif_value_autoinit_numb, which make numbers of doubles, and to_double,
    cif_value_get_number and cif_value_get_su, which go back.
  \<^item> Maps (map.c, packet.c): theory CifMap, the hash map behind packets and table values. Its lemmas are
    those of the locale \<open>keyed_store\<close>, interpreted for packets and for tables.
  \<^item> The database (misc/cif_schema.sql, internal/sql.h, internal/utils.h): theory Schema has the tables
    with their keys, triggers and cascades, the statements, the transaction macros, and the binding of
    values to columns. A database is a record of the tables, the transaction that is open, and the
    savepoints.
  \<^item> The API on it: theory Loops (loop.c), theory Containers (container.c and the block functions of cif.c),
    theory Pktitr (pktitr.c), theory Cif (the rest of cif.c: messages, creation, and the walker
    with its handlers).
  \<^item> The parser (parser.c): theory Scanner has the buffer, the character classes and the functions that
    recognise a token; theory TextField has decode_text; theory ParseValue the productions for values; theory
    Parser those for items, loops, containers and the whole input, with the handlers of the user and the
    calls of the API they make.
  \<^item> The entry of a parse (the first half of ciffile.c): theory ParseFile has the options, the choice of the
    encoding and of the version of CIF from the options and the first bytes, the source of characters, and
    cif_parse, which hands the scanner to the parser.
  \<^item> The writer (the second half of ciffile.c): theory Writer, a set of handlers for the walker.
  \<^item> The program cif_linguist (tools/linguist.c), which turns a file of one dialect of CIF into one of another
    while it is parsed: theory Linguist has its context and its options, LinguistPrint the whitespace that it
    keeps and the text fields that it folds, LinguistValue the values, its handlers for the parser, and the
    end of the program.

  What the theorems show:

  \<^item> Names, Analyze, Values, CifMap: functional behaviour of the operations, equivalence of hand-optimised
    tests with their specifications, safety of the delimiters that are chosen, and round trips of
    numbers and quoting.
  \<^item> Serial: the round trip of serialisation, and when serialisation returns at all.
  \<^item> DigitsProps, Rounding, NumbersProps: the array of bignum digits holds the double exactly and is never
    left; the digits are those of the exact value rounded to the nearest, for every finite double and
    scale; the text of a number reads back as the number; the rule that chooses the scale from the
    uncertainty; what goes wrong in the other direction, where a long number overruns the array and
    ties go the wrong way.
  \<^item> Integrity: every state that sequences of API calls reach satisfies the constraints of the schema,
    by rule induction over the relation \<open>api_step\<close>; the locale \<open>statement_invariant\<close> says once how an
    invariant of the statements becomes one of the operations and their rollbacks.
  \<^item> Atomicity: an operation that reports an error has changed nothing.
  \<^item> Items, Iteration: what is written to the database is what is read from it, lists and tables through their
    serialisation; that a list or table of more than 768 bytes is never stored, as the call does not return; the
    numbering of packets; iterating over a loop delivers its packets.
  \<^item> FoldProps, WriterProps: where lines are folded, and that a text block that the writer makes is
    decoded to the value it came from, but for what the theorems name.
  \<^item> ScannerProps, TokenProgress, ParseTotal, ParseReturns: the conversion of line terminators, every token
    leaves less of the input, and so every production, and a whole parse, ends.
  \<^item> ParserProps: whatever is parsed, what a parse does to the database is a sequence of calls of the API
    (locale \<open>parse_relation\<close>), and nothing at all if it has no target.
  \<^item> ParseFile: a default encoding that is not forced is ignored; the magic code in UTF-8 is obeyed.
  \<^item> LinguistProps, LinguistText, LinguistErrors: the whitespace of the input is printed as it was (the locale
    \<open>whitespace_store\<close>), but for the version comment; a text field that is printed is decoded to its text and
    keeps to the length of lines; what has been printed is deleted from the database; and where the program
    does something else than it means to.

  Termination and fuel. The scanner's functions are total HOL functions, with measures on what is left of
  the input. The productions of the grammar, the walker and the deserialisation call each other in ways
  that only their data bound, so they have an argument that counts the calls left, and the result \<open>None\<close>
  when it is used up. Theory ParseReturns shows that from some amount on the result of a parse is always the
  same; theory Serial that one more than the number of bytes is enough to deserialise. The loop that does
  not end for some inputs, in the expansion of a dynamic buffer, is a partial function whose
  value is then \<open>None\<close>; so is the loop of to_double that moves bits into the mantissa. Where a value is bound
  to the columns of the database, a serialisation that does not end becomes the result \<open>NO_RETURN\<close> of the call,
  which is no result code and which every caller in the model hands on.

  Effects. The database is passed through every function that changes it. The callbacks of a parse that
  report errors, white space, keywords and data names do not change the scanner, and what they return is
  a function of all reports so far; the other handlers have a state of the user's and may call the API.
  Reading freed or uninitialised memory has no model: where the code does so, the result is
  \<open>None\<close>, or an argument (such as \<open>uninit_names\<close>) says what the memory holds.

  Doubles are finite and IEEE 754 binary64: a sign, an integer of 53 bits or 0, and an exponent of two, as
  frexp and ldexp give them; a result of to_double is the mantissa and the exponent that ldexp is called
  with. Arrays are lists, pointers into them indices, and unsigned arithmetic is written out modulo its
  width; \<open>None\<close> is an access outside an array or an assertion that fails.

  Parameters. The rounding mode, and what log10 gives where its value is rounded down to an integer, are
  arguments of the functions on numbers. The functions of ICU (normalisation, case folding, counting of code points)
  are the record \<open>icu\<close>, which also has what stands in memory that nothing has been written to, so that the
  retries with larger buffers are those of the code; a theorem that relies on what they do has their laws as hypotheses, and its witness the
  concrete \<open>ascii_icu\<close>. What the character source delivers to the scanner is any list of failures and
  strings.

  Simplified: the exponent of a number is computed without a bound, where the code has an int; the assertions
  of get_more_chars are left out; a piece of whitespace that cif_linguist keeps is cut at its first NUL when it is
  stored, where the code cuts it whenever it is read; and where the asterisk is declared white space, a
  token may have no length, after which next_token looks for another one and the model does not
  (the theorems on the progress of the scanner exclude it).

  Not modelled: allocation and its failures, and the freeing of memory, except where a use after free
  shows; failures of SQLite and of output streams; the column of a number's double in the database, which
  only queries of the database itself read; ICU's converters and its detection of a signature, which are arguments
  of cif_parse; uthash, of which a list of entries is the model; the usage message of cif_linguist and its files, and
  the parse that its main starts: its callbacks for whitespace and errors share a state with its handlers, which the
  callbacks of the scanner in this model do not have, so that the operations are modelled and not their interplay
  with the scanner; the programs in examples.
\<close>

end
